(* ===== verification/Prelude.thy ===== *)
theory Prelude
  imports Complex_Main "HOL-Library.Word" "HOL-Library.Sublist" "HOL-Library.List_Lexorder"
    "HOL-Library.Char_ord"
begin

text \<open>
  What every component shares. Rust's integer types are words (the release profile of
  the workspace leaves \<open>overflow-checks\<close> off, so \<open>+\<close> wraps), \<open>usize\<close> is 64 bits wide.
  A Rust \<open>String\<close> is its sequence of UTF-8 bytes, that is a \<open>string\<close> whose characters
  are bytes: \<open>len()\<close> is \<open>length\<close>, and \<open>chars()\<close> is \<open>utf8_chars\<close>, which cuts the bytes in
  front of every byte that is no continuation byte. The functions below are the ones of
  \<open>str\<close>, \<open>slice\<close>, \<open>Option\<close> and of the integer types that the modelled code calls.
  A call that can panic returns an option.
\<close>

section \<open>Collections of facts\<close>

named_theorems thread_simps \<open>projections of the updated thread and system records\<close>
named_theorems inv_intros \<open>preservation of an invariant by one operation\<close>

section \<open>Integers\<close>

type_synonym u16 = "16 word"
type_synonym u32 = "32 word"
type_synonym u64 = "64 word"
type_synonym usize = "64 word"

definition saturating_mul :: "usize \<Rightarrow> usize \<Rightarrow> usize" where
  "saturating_mul a b = (if unat a * unat b < 2 ^ 64 then a * b else - 1)"

definition saturating_sub :: "u64 \<Rightarrow> u64 \<Rightarrow> u64" where
  "saturating_sub a b = (if b \<le> a then a - b else 0)"

lemma unat_saturating_mul: "unat (saturating_mul a b) = min (unat a * unat b) (2 ^ 64 - 1)"
proof (cases "unat a * unat b < 2 ^ 64")
  case True
  then show ?thesis by (simp add: saturating_mul_def unat_word_ariths min_def)
next
  case False
  moreover have "unat (- 1 :: usize) = 2 ^ 64 - 1" by (simp add: unsigned_minus_1_eq_mask mask_eq_exp_minus_1)
  ultimately show ?thesis by (simp add: saturating_mul_def min_def)
qed

lemma unat_saturating_sub: "unat (saturating_sub a b) = unat a - unat b"
  by (auto simp: saturating_sub_def unat_sub_if' word_le_nat_alt)

lemma unat_inc_less: "(a :: 'a::len word) < b \<Longrightarrow> unat (a + 1) = Suc (unat a)"
proof -
  assume "a < b"
  then have "Suc (unat a) \<le> unat b" by (simp add: word_less_nat_alt)
  also have "unat b < 2 ^ LENGTH('a)" by (rule unsigned_less)
  finally show ?thesis by (simp add: unat_word_ariths)
qed

text \<open>A counter that starts below a limit and is compared after each increment.\<close>

lemma unat_suc_bound: "(a + 1 :: 'a::len word) < b \<Longrightarrow> unat (a + 1 + 1) = Suc (unat (a + 1))"
  by (rule unat_inc_less)

section \<open>Decimal printing\<close>

definition digit_char :: "nat \<Rightarrow> char" where
  "digit_char d = char_of (48 + d)"

fun show_nat :: "nat \<Rightarrow> string" where
  "show_nat n = (if n < 10 then [digit_char n] else show_nat (n div 10) @ [digit_char (n mod 10)])"

declare show_nat.simps [simp del]

lemma show_nat_nonempty [simp]: "show_nat n \<noteq> []"
  by (subst show_nat.simps) simp

section \<open>Decimal parsing\<close>

text \<open>\<open>str::parse\<close> for unsigned integers of \<open>n\<close> bits.\<close>

definition digit_val :: "char \<Rightarrow> nat option" where
  "digit_val c = (let k = of_char c in if 48 \<le> k \<and> k \<le> 57 then Some (k - 48) else None)"

fun digits_val :: "nat \<Rightarrow> string \<Rightarrow> nat option" where
  "digits_val acc [] = Some acc"
| "digits_val acc (c # cs) = (case digit_val c of Some d \<Rightarrow> digits_val (10 * acc + d) cs | None \<Rightarrow> None)"

definition parse_unsigned :: "nat \<Rightarrow> string \<Rightarrow> nat option" where
  "parse_unsigned n s =
     (let ds = (case s of c # cs \<Rightarrow> if c = CHR ''+'' then cs else s | [] \<Rightarrow> []) in
      if ds = [] then None
      else case digits_val 0 ds of Some v \<Rightarrow> if v < 2 ^ n then Some v else None | None \<Rightarrow> None)"

lemma digit_val_char [simp]: "d < 10 \<Longrightarrow> digit_val (digit_char d) = Some d"
  by (simp add: digit_val_def digit_char_def)

lemma digits_val_append:
  "digits_val acc (s @ t) = (case digits_val acc s of Some v \<Rightarrow> digits_val v t | None \<Rightarrow> None)"
  by (induction s arbitrary: acc) (auto split: option.splits)

lemma digits_val_show: "digits_val 0 (show_nat n) = Some n"
proof (induction n rule: less_induct)
  case (less n)
  show ?case
  proof (cases "n < 10")
    case True
    then show ?thesis by (subst show_nat.simps) simp
  next
    case False
    then have "digits_val 0 (show_nat (n div 10)) = Some (n div 10)" by (intro less) simp
    with False show ?thesis by (subst show_nat.simps) (simp add: digits_val_append)
  qed
qed

lemma show_nat_digits: "c \<in> set (show_nat n) \<Longrightarrow> 48 \<le> (of_char c :: nat) \<and> of_char c \<le> (57 :: nat)"
proof (induction n rule: less_induct)
  case (less n)
  show ?case
  proof (cases "n < 10")
    case True
    with less.prems show ?thesis by (subst (asm) show_nat.simps) (simp add: digit_char_def)
  next
    case False
    with less.prems have "c \<in> set (show_nat (n div 10)) \<or> c = digit_char (n mod 10)"
      by (subst (asm) show_nat.simps) auto
    with False less.IH [of "n div 10"] show ?thesis by (auto simp: digit_char_def)
  qed
qed

lemma parse_show_nat [simp]: "n < 2 ^ w \<Longrightarrow> parse_unsigned w (show_nat n) = Some n"
proof -
  assume n: "n < 2 ^ w"
  obtain c cs where s: "show_nat n = c # cs" by (cases "show_nat n") auto
  then have "c \<noteq> CHR ''+''" using show_nat_digits [of c n] by auto
  with n s digits_val_show [of n] show ?thesis by (simp add: parse_unsigned_def)
qed

section \<open>Byte strings\<close>

definition starts_with :: "string \<Rightarrow> string \<Rightarrow> bool" where
  "starts_with s p \<longleftrightarrow> take (length p) s = p"

definition ends_with :: "string \<Rightarrow> string \<Rightarrow> bool" where
  "ends_with s p \<longleftrightarrow> length p \<le> length s \<and> drop (length s - length p) s = p"

definition strip_prefix :: "string \<Rightarrow> string \<Rightarrow> string option" where
  "strip_prefix s p = (if starts_with s p then Some (drop (length p) s) else None)"

definition strip_suffix :: "string \<Rightarrow> string \<Rightarrow> string option" where
  "strip_suffix s p = (if ends_with s p then Some (take (length s - length p) s) else None)"

text \<open>The byte offset of the first occurrence.\<close>

fun str_find :: "string \<Rightarrow> string \<Rightarrow> nat option" where
  "str_find s p =
     (if starts_with s p then Some 0
      else case s of [] \<Rightarrow> None | _ # s' \<Rightarrow> map_option Suc (str_find s' p))"

declare str_find.simps [simp del]

definition str_contains :: "string \<Rightarrow> string \<Rightarrow> bool" where
  "str_contains s p \<longleftrightarrow> str_find s p \<noteq> None"

lemma starts_with_prefix: "starts_with s p \<longleftrightarrow> prefix p s"
  unfolding starts_with_def
  by (metis append_eq_conv_conj append_take_drop_id prefix_def)

lemma ends_with_suffix: "ends_with s p \<longleftrightarrow> suffix p s"
  unfolding ends_with_def suffix_def
  by (metis append_eq_conv_conj append_take_drop_id diff_diff_cancel diff_le_self length_append
      length_drop le_add2 add_diff_cancel_right')

lemma starts_with_append [simp]: "starts_with (p @ s) p"
  by (simp add: starts_with_def)

lemma starts_with_nil [simp]: "starts_with s []"
  by (simp add: starts_with_def)

lemma str_contains_sublist: "str_contains s p \<longleftrightarrow> sublist p s"
proof (induction s)
  case Nil
  show ?case by (subst str_contains_def, subst str_find.simps) (auto simp: starts_with_def)
next
  case (Cons c s)
  have "str_contains (c # s) p \<longleftrightarrow> starts_with (c # s) p \<or> str_contains s p"
    unfolding str_contains_def by (subst str_find.simps) auto
  then show ?case using Cons by (simp add: starts_with_prefix sublist_Cons_right)
qed

lemma str_contains_append [simp]: "str_contains (a @ p @ b) p"
  by (simp add: str_contains_sublist)

section \<open>UTF-8\<close>

definition is_cont_byte :: "char \<Rightarrow> bool" where
  "is_cont_byte c \<longleftrightarrow> (let n = (of_char c :: nat) in 128 \<le> n \<and> n < 192)"

text \<open>\<open>str::chars\<close>, each character as its bytes.\<close>

function utf8_chars :: "string \<Rightarrow> string list" where
  "utf8_chars [] = []"
| "utf8_chars (c # cs) = (c # takeWhile is_cont_byte cs) # utf8_chars (dropWhile is_cont_byte cs)"
  by pat_completeness auto
termination
  by (relation "measure length") (auto simp: le_imp_less_Suc length_dropWhile_le)

lemma concat_utf8_chars [simp]: "concat (utf8_chars s) = s"
  by (induction s rule: utf8_chars.induct) auto

lemma length_utf8_chars_le: "length (utf8_chars s) \<le> length s"
proof (induction s rule: utf8_chars.induct)
  case (2 c cs)
  have "length (dropWhile is_cont_byte cs) \<le> length cs" by (rule length_dropWhile_le)
  with "2.IH" show ?case by simp
qed simp

lemma utf8_chars_append_char:
  assumes "\<not> is_cont_byte c" and "list_all is_cont_byte t"
    and "s = [] \<or> \<not> is_cont_byte (hd s)"
  shows "utf8_chars ((c # t) @ s) = (c # t) # utf8_chars s"
proof -
  have "takeWhile is_cont_byte (t @ s) = t" and "dropWhile is_cont_byte (t @ s) = s"
    using assms(2,3)
    by (auto simp: takeWhile_append dropWhile_append list_all_iff takeWhile_eq_Nil_iff
        dropWhile_eq_self_iff)
  then show ?thesis by simp
qed

text \<open>Well-formed UTF-8, which \<open>String::from_utf8\<close> and \<open>fs::read_to_string\<close> require.\<close>

fun valid_bytes :: "nat list \<Rightarrow> bool" where
  "valid_bytes [] = True"
| "valid_bytes (a # bs) =
     (let cont = (\<lambda>b. 128 \<le> b \<and> b < 192) in
      if a < 128 then valid_bytes bs
      else if 194 \<le> a \<and> a < 224 then
        (case bs of b # r \<Rightarrow> cont b \<and> valid_bytes r | _ \<Rightarrow> False)
      else if 224 \<le> a \<and> a < 240 then
        (case bs of
           b # c # r \<Rightarrow> cont b \<and> cont c \<and> (a = 224 \<longrightarrow> 160 \<le> b) \<and> (a = 237 \<longrightarrow> b < 160)
                       \<and> valid_bytes r
         | _ \<Rightarrow> False)
      else if 240 \<le> a \<and> a < 245 then
        (case bs of
           b # c # d # r \<Rightarrow> cont b \<and> cont c \<and> cont d \<and> (a = 240 \<longrightarrow> 144 \<le> b)
                           \<and> (a = 244 \<longrightarrow> b < 144) \<and> valid_bytes r
         | _ \<Rightarrow> False)
      else False)"

definition valid_utf8 :: "string \<Rightarrow> bool" where
  "valid_utf8 s \<longleftrightarrow> valid_bytes (map of_char s)"

text \<open>\<open>char::is_whitespace\<close>: the White_Space code points, as UTF-8.\<close>

definition is_ws_char :: "string \<Rightarrow> bool" where
  "is_ws_char u \<longleftrightarrow>
     (let b = map (of_char :: char \<Rightarrow> nat) u in
      (length b = 1 \<and> (9 \<le> hd b \<and> hd b \<le> 13 \<or> hd b = 32))
      \<or> b = [194, 133] \<or> b = [194, 160] \<or> b = [225, 154, 128]
      \<or> (length b = 3 \<and> take 2 b = [226, 128] \<and>
          (128 \<le> b ! 2 \<and> b ! 2 \<le> 138 \<or> b ! 2 = 168 \<or> b ! 2 = 169 \<or> b ! 2 = 175))
      \<or> b = [226, 129, 159] \<or> b = [227, 128, 128])"

definition str_trim :: "string \<Rightarrow> string" where
  "str_trim s =
     concat (rev (dropWhile is_ws_char (rev (dropWhile is_ws_char (utf8_chars s)))))"

text \<open>\<open>str::lines\<close>: cut at line feeds, a carriage return before one is dropped, and there is
  no empty line after a final line feed.\<close>

lemma tl_dropWhile_less: "dropWhile P s \<noteq> [] \<Longrightarrow> length (tl (dropWhile P s)) < length s"
  using length_dropWhile_le [of P s] by (cases "dropWhile P s") auto

function split_lf :: "string \<Rightarrow> string list" where
  "split_lf s =
     (let l = takeWhile (\<lambda>c. c \<noteq> CHR 0x0A) s; r = dropWhile (\<lambda>c. c \<noteq> CHR 0x0A) s in
      if r = [] then [l] else l # split_lf (tl r))"
  by pat_completeness auto
termination by (relation "measure length") (simp_all add: tl_dropWhile_less del: length_tl)

declare split_lf.simps [simp del]

definition strip_cr :: "string \<Rightarrow> string" where
  "strip_cr l = (if l \<noteq> [] \<and> last l = CHR 0x0D then butlast l else l)"

definition str_lines :: "string \<Rightarrow> string list" where
  "str_lines s =
     (let ls = split_lf s in
      map strip_cr (butlast ls) @ (if last ls = [] then [] else [last ls]))"

text \<open>\<open>str::split\<close> at one character.\<close>

fun split_char :: "char \<Rightarrow> string \<Rightarrow> string list" where
  "split_char c [] = [[]]"
| "split_char c (x # xs) =
     (if x = c then [] # split_char c xs
      else case split_char c xs of [] \<Rightarrow> [[x]] | y # ys \<Rightarrow> (x # y) # ys)"

lemma split_char_nonempty [simp]: "split_char c s \<noteq> []"
  by (cases s) (auto split: list.splits)

lemma split_char_no_sep: "c \<notin> set s \<Longrightarrow> split_char c s = [s]"
  by (induction s) auto

lemma split_char_append_sep: "split_char c (s @ c # t) = split_char c s @ split_char c t"
  by (induction s) (auto split: list.splits)

text \<open>\<open>[&str]::join\<close>.\<close>

fun join :: "string \<Rightarrow> string list \<Rightarrow> string" where
  "join sep [] = []"
| "join sep [x] = x"
| "join sep (x # y # ys) = x @ sep @ join sep (y # ys)"

abbreviation LF :: string where "LF \<equiv> [CHR 0x0A]"

text \<open>The bytes of the em dash that some of the code's messages contain.\<close>

definition em_dash :: string where
  "em_dash = [CHR 0xE2, CHR 0x80, CHR 0x94]"

section \<open>Paths\<close>

text \<open>\<open>Path::is_absolute\<close> and \<open>Path::join\<close> on Unix: an absolute second path replaces the first.\<close>

definition is_absolute :: "string \<Rightarrow> bool" where
  "is_absolute p \<longleftrightarrow> starts_with p ''/''"

definition path_join :: "string \<Rightarrow> string \<Rightarrow> string" where
  "path_join d p =
     (if is_absolute p then p
      else if d = [] \<or> ends_with d ''/'' then d @ p
      else d @ ''/'' @ p)"

section \<open>Lists\<close>

text \<open>\<open>Iterator::find_map\<close>.\<close>

fun find_map :: "('a \<Rightarrow> 'b option) \<Rightarrow> 'a list \<Rightarrow> 'b option" where
  "find_map f [] = None"
| "find_map f (x # xs) = (case f x of None \<Rightarrow> find_map f xs | Some y \<Rightarrow> Some y)"

text \<open>\<open>Iterator::position\<close>.\<close>

fun position :: "('a \<Rightarrow> bool) \<Rightarrow> 'a list \<Rightarrow> nat option" where
  "position P [] = None"
| "position P (x # xs) = (if P x then Some 0 else map_option Suc (position P xs))"

lemma position_Some: "position P xs = Some i \<Longrightarrow> i < length xs \<and> P (xs ! i)"
  by (induction xs arbitrary: i) (auto split: if_splits)

lemma find_map_None: "find_map f xs = None \<longleftrightarrow> (\<forall>x \<in> set xs. f x = None)"
  by (induction xs) (auto split: option.splits)

lemma map_filter_append [simp]: "List.map_filter f (xs @ ys) = List.map_filter f xs @ List.map_filter f ys"
  by (induction xs) (auto split: option.splits)

section \<open>Step systems\<close>

text \<open>An invariant that every step keeps as long as a guard on the state after it holds, such as a counter that has not
  wrapped around; a state before the guard's end also satisfies it.\<close>

locale guarded_system =
  fixes step :: "'s \<Rightarrow> 's \<Rightarrow> bool"
    and okay :: "'s \<Rightarrow> bool"
    and guard :: "'s \<Rightarrow> bool"
  assumes preserve: "step s t \<Longrightarrow> okay s \<Longrightarrow> guard t \<Longrightarrow> okay t"
    and guard_back: "step s t \<Longrightarrow> guard t \<Longrightarrow> guard s"
begin

lemma guard_steps: "step\<^sup>*\<^sup>* s t \<Longrightarrow> guard t \<Longrightarrow> guard s"
  by (induction rule: rtranclp_induct) (auto dest: guard_back)

lemma steps_ok: "step\<^sup>*\<^sup>* s t \<Longrightarrow> okay s \<Longrightarrow> guard t \<Longrightarrow> okay t"
  by (induction rule: rtranclp_induct) (auto dest: preserve guard_back)

lemma steps_stable:
  assumes "step\<^sup>*\<^sup>* s t" "okay s" "guard t" "P s"
    and "\<And>a b. step a b \<Longrightarrow> okay a \<Longrightarrow> guard b \<Longrightarrow> P a \<Longrightarrow> P b"
  shows "P t"
  using assms(1,3)
proof (induction rule: rtranclp_induct)
  case (step a b)
  then have "guard a" using guard_back by blast
  with step assms(2,5) steps_ok [OF step.hyps(1)] show ?case by blast
qed (rule assms(4))

end

end
