(* ===== verification/Protocol.thy ===== *)
theory Protocol
  imports Prelude
begin

text \<open>
  The wire types every other crate shares (\<open>sentinel-protocol\<close>): messages with their
  content blocks, completion requests and responses, stream chunks, tool definitions and
  tool results; and \<open>serde_json::Value\<close> as far as the code inspects one. A JSON object is
  the list of its entries, with the lookup and insertion of the library's map.
\<close>

section \<open>JSON values\<close>

datatype json_number = PosInt u64 | NegInt "64 word" | Float rat

datatype json =
    JNull
  | JBool bool
  | JNumber json_number
  | JString string
  | JArray "json list"
  | JObject "(string \<times> json) list"

type_synonym json_object = "(string \<times> json) list"

fun is_object :: "json \<Rightarrow> bool" where
  "is_object (JObject _) = True"
| "is_object _ = False"

fun is_null :: "json \<Rightarrow> bool" where
  "is_null JNull = True"
| "is_null _ = False"

fun as_str :: "json \<Rightarrow> string option" where
  "as_str (JString s) = Some s"
| "as_str _ = None"

fun as_bool :: "json \<Rightarrow> bool option" where
  "as_bool (JBool b) = Some b"
| "as_bool _ = None"

fun as_u64 :: "json \<Rightarrow> u64 option" where
  "as_u64 (JNumber (PosInt n)) = Some n"
| "as_u64 _ = None"

fun as_object :: "json \<Rightarrow> json_object option" where
  "as_object (JObject kvs) = Some kvs"
| "as_object _ = None"

text \<open>\<open>value["key"]\<close>: \<open>Null\<close> when the value is no object or has no such key.\<close>

definition json_get :: "json \<Rightarrow> string \<Rightarrow> json" where
  "json_get v k =
     (case as_object v of
        None \<Rightarrow> JNull
      | Some kvs \<Rightarrow> (case map_of kvs k of None \<Rightarrow> JNull | Some x \<Rightarrow> x))"

text \<open>\<open>Map::insert\<close>: the entry of the key is replaced in place, or a new one is added.\<close>

fun obj_insert :: "string \<Rightarrow> json \<Rightarrow> json_object \<Rightarrow> json_object" where
  "obj_insert k v [] = [(k, v)]"
| "obj_insert k v ((k', v') # kvs) =
     (if k' = k then (k, v) # kvs else (k', v') # obj_insert k v kvs)"

lemma map_of_obj_insert: "map_of (obj_insert k v kvs) = (map_of kvs)(k \<mapsto> v)"
  by (induction kvs) auto

section \<open>Messages\<close>

datatype role = RSystem | RUser | RAssistant | RTool

datatype content_block =
    Text string
  | ToolCall string string json            \<comment> \<open>id, name, arguments\<close>
  | ToolResultBlock string string "bool option"  \<comment> \<open>tool_call_id, content, is_error\<close>

record message =
  role :: role
  content :: "content_block list"

definition message_new :: "role \<Rightarrow> content_block list \<Rightarrow> message" where
  "message_new r c = \<lparr>role = r, content = c\<rparr>"

definition message_text :: "role \<Rightarrow> string \<Rightarrow> message" where
  "message_text r t = \<lparr>role = r, content = [Text t]\<rparr>"

definition message_system :: "string \<Rightarrow> message" where
  "message_system t = message_text RSystem t"

definition message_user :: "string \<Rightarrow> message" where
  "message_user t = message_text RUser t"

definition message_assistant :: "string \<Rightarrow> message" where
  "message_assistant t = message_text RAssistant t"

fun block_text :: "content_block \<Rightarrow> string option" where
  "block_text (Text t) = Some t"
| "block_text _ = None"

definition extract_text :: "message \<Rightarrow> string" where
  "extract_text m = join LF (List.map_filter block_text (content m))"

fun is_tool_call_block :: "content_block \<Rightarrow> bool" where
  "is_tool_call_block (ToolCall _ _ _) = True"
| "is_tool_call_block _ = False"

definition is_tool_call :: "message \<Rightarrow> bool" where
  "is_tool_call m \<longleftrightarrow> list_ex is_tool_call_block (content m)"

text \<open>The tool calls of a message, in order, as the agent loops collect them.\<close>

type_synonym tool_call = "string \<times> string \<times> json"

fun block_tool_call :: "content_block \<Rightarrow> tool_call option" where
  "block_tool_call (ToolCall i n a) = Some (i, n, a)"
| "block_tool_call _ = None"

definition message_tool_calls :: "message \<Rightarrow> tool_call list" where
  "message_tool_calls m = List.map_filter block_tool_call (content m)"

lemma message_tool_calls_empty: "message_tool_calls m = [] \<longleftrightarrow> \<not> is_tool_call m"
proof -
  have "List.map_filter block_tool_call c = [] \<longleftrightarrow> \<not> list_ex is_tool_call_block c" for c
  proof (induction c)
    case (Cons b c)
    then show ?case by (cases b) auto
  qed simp
  then show ?thesis by (simp add: message_tool_calls_def is_tool_call_def)
qed

lemma extract_text_message_text [simp]: "extract_text (message_text r t) = t"
  by (simp add: extract_text_def message_text_def)

lemma role_message_text [simp]: "role (message_text r t) = r"
  by (simp add: message_text_def)

section \<open>Tool definitions and results\<close>

record tool_def =
  td_name :: string
  td_description :: string
  td_input_schema :: json
  td_read_only_hint :: bool

record tool_result =
  tool_call_id :: string
  tr_name :: string
  tr_output :: string
  tr_is_error :: bool

section \<open>Completion requests and responses\<close>

record completion_request =
  req_model :: string
  req_messages :: "message list"
  req_tools :: "tool_def list option"
  req_max_tokens :: "u32 option"
  req_temperature :: "rat option"
  req_top_p :: "rat option"
  req_stop :: "string list option"

definition completion_request_new :: "string \<Rightarrow> completion_request" where
  "completion_request_new m =
     \<lparr>req_model = m, req_messages = [], req_tools = None, req_max_tokens = None,
      req_temperature = None, req_top_p = None, req_stop = None\<rparr>"

definition with_message :: "completion_request \<Rightarrow> message \<Rightarrow> completion_request" where
  "with_message r m = r\<lparr>req_messages := req_messages r @ [m]\<rparr>"

definition with_system :: "completion_request \<Rightarrow> string \<Rightarrow> completion_request" where
  "with_system r t = r\<lparr>req_messages := message_system t # req_messages r\<rparr>"

definition with_tools :: "completion_request \<Rightarrow> tool_def list \<Rightarrow> completion_request" where
  "with_tools r ts = r\<lparr>req_tools := Some ts\<rparr>"

definition token_estimate :: "completion_request \<Rightarrow> nat" where
  "token_estimate r = sum_list (map (\<lambda>m. length (extract_text m)) (req_messages r)) div 4"

record usage =
  prompt_tokens :: u32
  completion_tokens :: u32
  total_tokens :: u32

record choice =
  ch_index :: u32
  ch_message :: message
  ch_finish_reason :: "string option"

record completion_response =
  resp_id :: string
  resp_model :: string
  resp_choices :: "choice list"
  resp_usage :: "usage option"

section \<open>Stream chunks\<close>

record delta_function =
  df_name :: "string option"
  df_arguments :: "string option"

record delta_tool_call =
  dtc_index :: u32
  dtc_id :: "string option"
  dtc_type :: "string option"
  dtc_function :: "delta_function option"

record delta =
  d_role :: "string option"
  d_content :: "string option"
  d_tool_calls :: "delta_tool_call list option"

record stream_choice =
  sc_index :: u32
  sc_delta :: delta
  sc_finish_reason :: "string option"

record stream_chunk =
  chunk_id :: string
  chunk_model :: string
  chunk_choices :: "stream_choice list"

datatype protocol_error = EmptyStreamChunk | Serialization string | UnexpectedContentBlock

text \<open>\<open>TryFrom<StreamChunk> for ContentBlock\<close>: only the first choice is looked at.\<close>

definition try_from_chunk :: "stream_chunk \<Rightarrow> protocol_error + content_block" where
  "try_from_chunk c =
     (case chunk_choices c of
        [] \<Rightarrow> Inl EmptyStreamChunk
      | choice # _ \<Rightarrow>
          (case d_content (sc_delta choice) of
             Some t \<Rightarrow> Inr (Text t)
           | None \<Rightarrow>
               (case d_tool_calls (sc_delta choice) of
                  Some (tc # _) \<Rightarrow>
                    (case Option.bind (dtc_function tc) df_name of
                       Some n \<Rightarrow> Inr (ToolCall (case dtc_id tc of None \<Rightarrow> [] | Some i \<Rightarrow> i) n JNull)
                     | None \<Rightarrow> Inl EmptyStreamChunk)
                | _ \<Rightarrow> Inl EmptyStreamChunk)))"

section \<open>Building a request\<close>

lemma fold_with_message:
  "fold (\<lambda>m r. with_message r m) ms r = r\<lparr>req_messages := req_messages r @ ms\<rparr>"
  by (induction ms arbitrary: r) (simp_all add: with_message_def)

section \<open>Provider errors\<close>

text \<open>\<open>sentinel-provider/src/error.rs\<close>. The two variants that wrap a third party's error carry
  its rendering.\<close>

datatype provider_error =
    RequestError string
  | Reqwest string
  | ApiError u16 string
  | MissingApiKey string
  | NotFound string
  | StreamError string
  | PCancelled
  | JsonError string
  | AllProvidersFailed
  | RateLimited u64
  | RateLimitExceeded u64
  | Unauthorized string
  | Forbidden string
  | InvalidRequest string
  | Timeout u64
  | NetworkError string
  | ServerError u16
  | ServiceUnavailable "u64 option"

abbreviation show_word :: "'a::len word \<Rightarrow> string" where
  "show_word w \<equiv> show_nat (unat w)"

fun show_provider_error :: "provider_error \<Rightarrow> string" where
  "show_provider_error (RequestError e) = ''API request failed: '' @ e"
| "show_provider_error (Reqwest e) = ''HTTP client error: '' @ e"
| "show_provider_error (ApiError st b) = ''API returned error: '' @ show_word st @ '' - '' @ b"
| "show_provider_error (MissingApiKey p) = ''No API key configured for provider '' @ p"
| "show_provider_error (NotFound e) = ''Provider not found: '' @ e"
| "show_provider_error (StreamError e) = ''Stream error: '' @ e"
| "show_provider_error PCancelled = ''Operation cancelled''"
| "show_provider_error (JsonError e) = ''JSON parse error: '' @ e"
| "show_provider_error AllProvidersFailed = ''All providers in the router failed''"
| "show_provider_error (RateLimited r) = ''Rate limited: retry after '' @ show_word r @ ''s''"
| "show_provider_error (RateLimitExceeded _) = ''Rate limit exceeded''"
| "show_provider_error (Unauthorized d) = ''Unauthorized: '' @ d"
| "show_provider_error (Forbidden d) = ''Forbidden: '' @ d"
| "show_provider_error (InvalidRequest e) = ''Invalid request: '' @ e"
| "show_provider_error (Timeout d) = ''Request timed out after '' @ show_word d @ ''s''"
| "show_provider_error (NetworkError e) = ''Network error: '' @ e"
| "show_provider_error (ServerError st) = ''Server error: '' @ show_word st"
| "show_provider_error (ServiceUnavailable _) = ''Service unavailable''"

end
