(* ===== verification/F64.thy ===== *)
theory F64
  imports Prelude "HOL-Library.Log_Nat"
begin

text \<open>
  Rust's \<open>f64\<close>: IEEE 754 binary64 with round-to-nearest, ties to even. A finite value is the
  rational number it stands for; every arithmetic operation is the exact one followed by
  \<open>f64_rnd\<close>, which keeps 53 significant bits and has the subnormal spacing below
  \<open>2 powi (- 1022)\<close>. Infinities, NaN and overflow are outside the model: the amounts the
  code computes with are sums of token prices, token counts and window sizes, all far below
  \<open>2 powi 1024\<close>.

  The locale \<open>rounding\<close> is what the clients rely on: rounding is monotone and idempotent
  and leaves 0 alone.
\<close>

section \<open>Rounding to an integer\<close>

definition round_even :: "rat \<Rightarrow> int" where
  "round_even x =
     (let f = \<lfloor>x\<rfloor>; d = x - of_int f in
      if d < 1 / 2 then f else if 1 / 2 < d then f + 1 else if even f then f else f + 1)"

lemma round_even_of_int [simp]: "round_even (of_int k) = k"
  by (simp add: round_even_def Let_def)

lemma round_even_floor: "round_even x = \<lfloor>x\<rfloor> \<or> round_even x = \<lfloor>x\<rfloor> + 1"
  by (auto simp: round_even_def Let_def)

lemma round_even_mono: "x \<le> y \<Longrightarrow> round_even x \<le> round_even y"
proof -
  assume le: "x \<le> y"
  show ?thesis
  proof (cases "\<lfloor>x\<rfloor> = \<lfloor>y\<rfloor>")
    case True
    with le show ?thesis by (auto simp: round_even_def Let_def)
  next
    case False
    with le have "\<lfloor>x\<rfloor> + 1 \<le> \<lfloor>y\<rfloor>" using floor_mono [OF le] by linarith
    with round_even_floor [of x] round_even_floor [of y] show ?thesis by linarith
  qed
qed

lemma round_even_ge: "of_int k \<le> x \<Longrightarrow> k \<le> round_even x"
  using round_even_mono [of "of_int k" x] by simp

lemma round_even_le: "x \<le> of_int k \<Longrightarrow> round_even x \<le> k"
  using round_even_mono [of x "of_int k"] by simp

lemma round_even_minus: "round_even (- x) = - round_even x"
proof (cases "x = of_int \<lfloor>x\<rfloor>")
  case True
  then show ?thesis by (metis of_int_minus round_even_of_int)
next
  case False
  then have "\<lfloor>- x\<rfloor> = - \<lfloor>x\<rfloor> - 1"
    by (intro floor_unique) (use floor_correct [of x] in \<open>auto simp: le_less\<close>)
  then show ?thesis by (auto simp: round_even_def Let_def)
qed

section \<open>The exponent\<close>

definition ilog2 :: "rat \<Rightarrow> int" where
  "ilog2 x =
     (case quotient_of x of (p, q) \<Rightarrow>
        let k = bitlen p - bitlen q in if 2 powi k \<le> x then k else k - 1)"

lemma bitlen_powi:
  assumes "0 < p"
  shows "2 powi (bitlen p - 1) \<le> (of_int p :: rat)" and "(of_int p :: rat) < 2 powi bitlen p"
proof -
  have pos: "0 < bitlen p" using assms by (simp add: bitlen_alt_def floorlog_def nat_less_iff)
  have b: "2 ^ nat (bitlen p - 1) \<le> p" "p < 2 ^ nat (bitlen p)"
    using bitlen_bounds [OF assms] by auto
  have "(2 :: rat) powi (bitlen p - 1) = of_int (2 ^ nat (bitlen p - 1))"
    using pos by (simp add: power_int_def)
  then show "2 powi (bitlen p - 1) \<le> (of_int p :: rat)" using b(1) by (simp only: of_int_le_iff)
  have "(2 :: rat) powi (bitlen p) = of_int (2 ^ nat (bitlen p))"
    using pos by (simp add: power_int_def)
  then show "(of_int p :: rat) < 2 powi bitlen p" using b(2) by (simp only: of_int_less_iff)
qed

lemma ilog2_bounds:
  assumes "0 < x"
  shows "2 powi ilog2 x \<le> x" and "x < 2 powi (ilog2 x + 1)"
proof -
  obtain p q where pq: "quotient_of x = (p, q)" by fastforce
  then have q: "0 < q" and x: "x = of_int p / of_int q"
    using quotient_of_denom_pos quotient_of_div by blast+
  from assms x q have p: "0 < p" by (simp add: zero_less_divide_iff)
  define k where "k = bitlen p - bitlen q"
  note bp = bitlen_powi [OF p] and bq = bitlen_powi [OF q]
  have q0: "(0 :: rat) < of_int q" using q by simp
  have "x < 2 powi bitlen p / 2 powi (bitlen q - 1)"
    unfolding x using bp(2) bq(1) q0 p by (intro frac_less) auto
  also have "\<dots> = 2 powi (k + 1)" by (simp add: k_def power_int_diff power_int_add field_simps)
  finally have up: "x < 2 powi (k + 1)" .
  have "2 powi (bitlen p - 1) / 2 powi bitlen q \<le> x"
    unfolding x using bp(1) bq(2) q0 p by (intro frac_le) auto
  moreover have "2 powi (bitlen p - 1) / 2 powi bitlen q = (2 powi (k - 1) :: rat)"
    by (simp add: k_def power_int_diff power_int_add field_simps)
  ultimately have lo: "2 powi (k - 1) \<le> x" by simp
  have il: "ilog2 x = (if 2 powi k \<le> x then k else k - 1)"
    by (simp add: ilog2_def pq k_def Let_def)
  show "2 powi ilog2 x \<le> x" using lo by (simp add: il)
  show "x < 2 powi (ilog2 x + 1)" using up by (simp add: il)
qed

lemma powi2_mono: "a \<le> b \<Longrightarrow> (2 :: rat) powi a \<le> 2 powi b"
  by (simp add: power_int_increasing)

lemma ilog2_mono:
  assumes "0 < x" "x \<le> y"
  shows "ilog2 x \<le> ilog2 y"
proof (rule ccontr)
  assume "\<not> ilog2 x \<le> ilog2 y"
  then have "(2 :: rat) powi (ilog2 y + 1) \<le> 2 powi ilog2 x" by (intro powi2_mono) simp
  with ilog2_bounds(1) [OF assms(1)] ilog2_bounds(2) [of y] assms show False by linarith
qed

section \<open>Rounding to 53 bits\<close>

definition f64_exp :: "rat \<Rightarrow> int" where
  "f64_exp x = max (ilog2 \<bar>x\<bar>) (- 1022)"

definition f64_ulp :: "rat \<Rightarrow> rat" where
  "f64_ulp x = 2 powi (f64_exp x - 52)"

definition f64_rnd :: "rat \<Rightarrow> rat" where
  "f64_rnd x = (if x = 0 then 0 else of_int (round_even (x / f64_ulp x)) * f64_ulp x)"

lemma f64_ulp_pos [simp]: "0 < f64_ulp x"
  by (simp add: f64_ulp_def)

lemma f64_ulp_nz [simp]: "f64_ulp x \<noteq> 0"
  using f64_ulp_pos [of x] by linarith

lemma f64_rnd_0 [simp]: "f64_rnd 0 = 0"
  by (simp add: f64_rnd_def)

lemma f64_rnd_minus: "f64_rnd (- x) = - f64_rnd x"
  by (simp add: f64_rnd_def f64_ulp_def f64_exp_def round_even_minus)

lemma f64_rnd_nonneg: "0 \<le> x \<Longrightarrow> 0 \<le> f64_rnd x"
  using round_even_mono [of 0 "x / f64_ulp x"] round_even_of_int [of 0]
  by (simp add: f64_rnd_def less_imp_le)

text \<open>The value stays within its binade, the upper end included.\<close>

lemma powi_over_ulp: "2 powi (f64_exp x + int n) / f64_ulp x = (of_int (2 ^ (52 + n)) :: rat)"
proof -
  have "(2 :: rat) powi (f64_exp x + int n) / f64_ulp x = 2 powi int (52 + n)"
    by (simp add: f64_ulp_def power_int_add power_int_diff field_simps)
  then show ?thesis by (simp only: power_int_of_nat of_int_power of_int_numeral)
qed

lemma f64_rnd_le_binade:
  assumes "0 < x"
  shows "f64_rnd x \<le> 2 powi (f64_exp x + 1)"
proof -
  have "x \<le> 2 powi (f64_exp x + int 1)"
    using ilog2_bounds(2) [OF assms] powi2_mono [of "ilog2 x + 1" "f64_exp x + 1"] assms
    by (simp add: f64_exp_def)
  then have "x / f64_ulp x \<le> 2 powi (f64_exp x + int 1) / f64_ulp x"
    by (rule divide_right_mono) (simp add: less_imp_le)
  then have "round_even (x / f64_ulp x) \<le> 2 ^ (52 + 1)"
    unfolding powi_over_ulp by (rule round_even_le)
  then have "of_int (round_even (x / f64_ulp x)) * f64_ulp x \<le> of_int (2 ^ (52 + 1)) * f64_ulp x"
    by (intro mult_right_mono) (simp_all only: of_int_le_iff f64_ulp_pos less_imp_le)
  also have "\<dots> = 2 powi (f64_exp x + 1)"
    unfolding powi_over_ulp [of x 1, symmetric] using f64_ulp_pos [of x] by simp
  finally show ?thesis using assms by (simp add: f64_rnd_def)
qed

lemma f64_rnd_ge_binade:
  assumes "0 < x" and "f64_exp x = ilog2 x"
  shows "2 powi (f64_exp x) \<le> f64_rnd x"
proof -
  have "2 powi (f64_exp x + int 0) \<le> x" using ilog2_bounds(1) [OF assms(1)] assms(2) by simp
  then have "2 powi (f64_exp x + int 0) / f64_ulp x \<le> x / f64_ulp x"
    by (rule divide_right_mono) (simp add: less_imp_le)
  then have "2 ^ (52 + 0) \<le> round_even (x / f64_ulp x)"
    unfolding powi_over_ulp by (rule round_even_ge)
  then have "of_int (2 ^ (52 + 0)) * f64_ulp x \<le> of_int (round_even (x / f64_ulp x)) * f64_ulp x"
    by (intro mult_right_mono) (simp_all only: of_int_le_iff f64_ulp_pos less_imp_le)
  moreover have "of_int (2 ^ (52 + 0)) * f64_ulp x = 2 powi (f64_exp x)"
    unfolding powi_over_ulp [of x 0, symmetric] using f64_ulp_pos [of x] by simp
  moreover have "f64_rnd x = of_int (round_even (x / f64_ulp x)) * f64_ulp x"
    using assms by (simp add: f64_rnd_def)
  ultimately show ?thesis by (simp only:)
qed

lemma f64_rnd_mono_pos:
  assumes "0 < x" and "x \<le> y"
  shows "f64_rnd x \<le> f64_rnd y"
proof (cases "f64_exp x = f64_exp y")
  case True
  then have u: "f64_ulp x = f64_ulp y" by (simp add: f64_ulp_def)
  have "x / f64_ulp y \<le> y / f64_ulp y" using assms by (intro divide_right_mono) (auto intro: less_imp_le)
  then have "round_even (x / f64_ulp y) \<le> round_even (y / f64_ulp y)" by (rule round_even_mono)
  then show ?thesis using assms u by (simp add: f64_rnd_def)
next
  case False
  have "ilog2 x \<le> ilog2 y" using assms by (rule ilog2_mono)
  with False assms have lt: "f64_exp x + 1 \<le> f64_exp y" and ey: "f64_exp y = ilog2 y"
    by (auto simp: f64_exp_def max_def split: if_splits)
  have "f64_rnd x \<le> 2 powi (f64_exp x + 1)" by (rule f64_rnd_le_binade) (rule assms)
  also have "\<dots> \<le> 2 powi f64_exp y" by (rule powi2_mono) (rule lt)
  also have "\<dots> \<le> f64_rnd y" using assms ey by (intro f64_rnd_ge_binade) auto
  finally show ?thesis .
qed

lemma f64_rnd_mono: "x \<le> y \<Longrightarrow> f64_rnd x \<le> f64_rnd y"
proof -
  assume le: "x \<le> y"
  consider "0 < x" | "x \<le> 0" "0 \<le> y" | "y < 0" by linarith
  then show ?thesis
  proof cases
    case 1
    then show ?thesis using le by (rule f64_rnd_mono_pos)
  next
    case 2
    then show ?thesis using f64_rnd_nonneg [of y] f64_rnd_nonneg [of "- x"] by (simp add: f64_rnd_minus)
  next
    case 3
    then show ?thesis using le f64_rnd_mono_pos [of "- y" "- x"] by (simp add: f64_rnd_minus)
  qed
qed

text \<open>A multiple of a quantum that stays within 53 bits of it is representable.\<close>

lemma f64_rnd_int_multiple:
  assumes "x / f64_ulp x = of_int k"
  shows "f64_rnd x = x"
  using assms by (cases "x = 0") (simp_all add: f64_rnd_def, simp add: divide_eq_eq)

lemma f64_rnd_idem_pos:
  assumes x: "0 < x"
  shows "f64_rnd (f64_rnd x) = f64_rnd x"
proof -
  let ?r = "f64_rnd x" and ?k = "round_even (x / f64_ulp x)"
  have r: "?r = of_int ?k * 2 powi (f64_exp x - 52)" using x by (simp add: f64_rnd_def f64_ulp_def)
  show ?thesis
  proof (cases "?r = 0")
    case False
    then have pos: "0 < ?r" using f64_rnd_nonneg [of x] x by linarith
    have up: "?r \<le> 2 powi (f64_exp x + 1)" by (rule f64_rnd_le_binade) (rule x)
    show ?thesis
    proof (cases "?r = 2 powi (f64_exp x + 1)")
      case True
      have e': "f64_exp ?r = f64_exp x + 1"
      proof -
        have "ilog2 ?r = f64_exp x + 1"
        proof (rule antisym)
          show "ilog2 ?r \<le> f64_exp x + 1"
          proof (rule ccontr)
            assume "\<not> ?thesis"
            then have "(2 :: rat) powi (f64_exp x + 2) \<le> 2 powi ilog2 ?r" by (intro powi2_mono) simp
            moreover have "(2 :: rat) powi (f64_exp x + 1) < 2 powi (f64_exp x + 2)"
              by (simp add: power_int_add)
            ultimately show False using ilog2_bounds(1) [OF pos] True by linarith
          qed
          show "f64_exp x + 1 \<le> ilog2 ?r"
          proof (rule ccontr)
            assume "\<not> ?thesis"
            then have "(2 :: rat) powi (ilog2 ?r + 1) \<le> 2 powi (f64_exp x + 1)"
              by (intro powi2_mono) simp
            with ilog2_bounds(2) [OF pos] True show False by simp
          qed
        qed
        moreover have "- 1022 \<le> f64_exp x" by (simp add: f64_exp_def)
        ultimately show ?thesis using pos by (simp add: f64_exp_def)
      qed
      have "?r / f64_ulp ?r = of_int (2 ^ 52)"
        using powi_over_ulp [of ?r 0] e' True by simp
      then show ?thesis by (rule f64_rnd_int_multiple)
    next
      case False
      with up have lt: "?r < 2 powi (f64_exp x + 1)" by simp
      have "f64_exp ?r \<le> f64_exp x"
      proof -
        have "ilog2 ?r \<le> f64_exp x"
        proof (rule ccontr)
          assume "\<not> ?thesis"
          then have "(2 :: rat) powi (f64_exp x + 1) \<le> 2 powi ilog2 ?r" by (intro powi2_mono) simp
          with ilog2_bounds(1) [OF pos] lt show False by linarith
        qed
        then show ?thesis using pos by (simp add: f64_exp_def)
      qed
      then obtain n where n: "f64_exp x = f64_exp ?r + int n" by (metis zle_iff_zadd)
      have "f64_ulp x = of_int (2 ^ n) * f64_ulp ?r"
        unfolding f64_ulp_def n by (simp add: power_int_add power_int_diff)
      then have "?r = of_int (?k * 2 ^ n) * f64_ulp ?r"
        using x by (simp add: f64_rnd_def)
      then have "?r / f64_ulp ?r = of_int (?k * 2 ^ n)"
        by (rule nonzero_divide_eq_eq [OF f64_ulp_nz, THEN iffD2])
      then show ?thesis by (rule f64_rnd_int_multiple)
    qed
  qed simp
qed

lemma f64_rnd_idem: "f64_rnd (f64_rnd x) = f64_rnd x"
proof -
  consider "0 < x" | "x = 0" | "0 < - x" by linarith
  then show ?thesis
  proof cases
    case 3
    then show ?thesis using f64_rnd_idem_pos [of "- x"] by (simp add: f64_rnd_minus)
  qed (simp_all add: f64_rnd_idem_pos)
qed

section \<open>The interface of rounded arithmetic\<close>

locale rounding =
  fixes rnd :: "rat \<Rightarrow> rat"
  assumes rnd_mono: "x \<le> y \<Longrightarrow> rnd x \<le> rnd y"
    and rnd_idem: "rnd (rnd x) = rnd x"
    and rnd_zero: "rnd 0 = 0"
begin

lemma rnd_ge: "rnd a = a \<Longrightarrow> a \<le> x \<Longrightarrow> a \<le> rnd x"
  using rnd_mono [of a x] by simp

lemma rnd_le: "rnd a = a \<Longrightarrow> x \<le> a \<Longrightarrow> rnd x \<le> a"
  using rnd_mono [of x a] by simp

lemma rnd_nonneg: "0 \<le> x \<Longrightarrow> 0 \<le> rnd x"
  by (rule rnd_ge) (simp_all add: rnd_zero)

lemma add_nonneg_ge: "rnd a = a \<Longrightarrow> 0 \<le> b \<Longrightarrow> a \<le> rnd (a + b)"
  by (rule rnd_ge) simp_all

lemma add_mono: "a \<le> a' \<Longrightarrow> b \<le> b' \<Longrightarrow> rnd (a + b) \<le> rnd (a' + b')"
  by (rule rnd_mono) simp

lemma rnd_max_zero: "rnd (max (rnd x) 0) = max (rnd x) 0"
  by (simp add: max_def rnd_idem rnd_zero)

end

interpretation f64: rounding f64_rnd
  by unfold_locales (rule f64_rnd_mono, assumption, rule f64_rnd_idem, rule f64_rnd_0)

section \<open>The operations\<close>

definition f64_add :: "rat \<Rightarrow> rat \<Rightarrow> rat" where "f64_add a b = f64_rnd (a + b)"
definition f64_sub :: "rat \<Rightarrow> rat \<Rightarrow> rat" where "f64_sub a b = f64_rnd (a - b)"
definition f64_mul :: "rat \<Rightarrow> rat \<Rightarrow> rat" where "f64_mul a b = f64_rnd (a * b)"
definition f64_div :: "rat \<Rightarrow> rat \<Rightarrow> rat" where "f64_div a b = f64_rnd (a / b)"

text \<open>\<open>n as f64\<close>, and a decimal literal of the source.\<close>

definition f64_of_nat :: "nat \<Rightarrow> rat" where "f64_of_nat n = f64_rnd (of_nat n)"
definition f64_lit :: "rat \<Rightarrow> rat" where "f64_lit x = f64_rnd x"

lemmas f64_ops = f64_add_def f64_sub_def f64_mul_def f64_div_def f64_of_nat_def f64_lit_def

lemma f64_ops_rep [simp]:
  "f64_rnd (f64_add a b) = f64_add a b" "f64_rnd (f64_sub a b) = f64_sub a b"
  "f64_rnd (f64_mul a b) = f64_mul a b" "f64_rnd (f64_div a b) = f64_div a b"
  "f64_rnd (f64_of_nat n) = f64_of_nat n" "f64_rnd (f64_lit x) = f64_lit x"
  by (simp_all add: f64_ops f64.rnd_idem)

lemma f64_rep_max_sub [simp]: "f64_rnd (max (f64_sub a b) 0) = max (f64_sub a b) 0"
  by (simp add: f64_sub_def f64.rnd_max_zero)

end
