(* ===== verification/Budget.thy ===== *)
theory Budget
  imports Protocol F64
begin

text \<open>
  The per-session spending limit: \<open>sentinel-core/src/cost.rs\<close> (price table, cost of a call)
  and \<open>sentinel-core/src/budget.rs\<close> (\<open>BudgetGuard\<close>). Amounts are \<open>f64\<close> values of theory
  \<open>F64\<close>. The price table is a \<open>HashMap\<close>, so the order in which its keys are visited is
  a parameter of the lookup.
\<close>

section \<open>Prices (cost.rs)\<close>

record model_price =
  input_per_1k :: rat
  output_per_1k :: rat

definition mk_price :: "rat \<Rightarrow> rat \<Rightarrow> model_price" where
  "mk_price i out = \<lparr>input_per_1k = f64_lit i, output_per_1k = f64_lit out\<rparr>"

definition model_pricing :: "(string \<times> model_price) list" where
  "model_pricing =
     [(''gpt-4o'', mk_price (1 / 100) (3 / 100)),
      (''gpt-4o-mini'', mk_price (15 / 10000) (6 / 1000)),
      (''o3-mini'', mk_price (11 / 1000) (44 / 1000)),
      (''claude-sonnet-4'', mk_price (3 / 1000) (15 / 1000)),
      (''claude-haiku-3-5'', mk_price (8 / 10000) (4 / 1000)),
      (''gemini-2.5-pro'', mk_price (125 / 100000) (5 / 1000)),
      (''gemini-2.5-flash'', mk_price (3 / 10000) (25 / 10000)),
      (''deepseek-chat'', mk_price (3 / 10000) (15 / 10000)),
      (''deepseek-reasoner'', mk_price (55 / 100000) (219 / 100000))]"

text \<open>\<open>Iterator::max_by_key(|k| k.len())\<close>: the last of the longest keys visited.\<close>

fun max_by_len :: "string list \<Rightarrow> string option" where
  "max_by_len [] = None"
| "max_by_len (k # ks) =
     (case max_by_len ks of
        None \<Rightarrow> Some k
      | Some k' \<Rightarrow> (if length k \<le> length k' then Some k' else Some k))"

text \<open>The keys in the order in which the map yields them are the first argument; \<open>None\<close> is the
  panic of \<open>unwrap\<close>.\<close>

definition price_for :: "string list \<Rightarrow> string \<Rightarrow> model_price option" where
  "price_for ks model =
     (case List.find (\<lambda>k. k = model) ks of
        Some k \<Rightarrow> map_of model_pricing k
      | None \<Rightarrow>
          (case max_by_len (filter (\<lambda>k. str_contains model k) ks) of
             Some k \<Rightarrow> map_of model_pricing k
           | None \<Rightarrow> map_of model_pricing ''gpt-4o-mini''))"

definition estimate_llm_cost :: "string list \<Rightarrow> string \<Rightarrow> u32 \<Rightarrow> u32 \<Rightarrow> rat option" where
  "estimate_llm_cost ks model ptok ctok =
     (case price_for ks model of
        None \<Rightarrow> None
      | Some price \<Rightarrow>
          (let input_cost = f64_mul (f64_div (f64_of_nat (unat ptok)) 1000) (input_per_1k price);
               output_cost = f64_mul (f64_div (f64_of_nat (unat ctok)) 1000) (output_per_1k price)
           in Some (f64_add input_cost output_cost)))"

definition estimate_input_cost :: "string list \<Rightarrow> string \<Rightarrow> u32 \<Rightarrow> rat option" where
  "estimate_input_cost ks model ptok =
     map_option (\<lambda>price. f64_mul (f64_div (f64_of_nat (unat ptok)) 1000) (input_per_1k price))
       (price_for ks model)"

text \<open>What a visiting order of the table's keys is.\<close>

definition key_order :: "string list \<Rightarrow> bool" where
  "key_order ks \<longleftrightarrow> set ks = set (map fst model_pricing) \<and> distinct ks"

lemma max_by_len_None [simp]: "max_by_len ks = None \<longleftrightarrow> ks = []"
  by (cases ks) (auto split: option.splits)

lemma max_by_len_Some:
  "max_by_len ks = Some k \<Longrightarrow> k \<in> set ks \<and> (\<forall>k' \<in> set ks. length k' \<le> length k)"
  by (induction ks arbitrary: k) (auto split: option.splits if_splits)

lemma key_order_lookup: "key_order ks \<Longrightarrow> k \<in> set ks \<Longrightarrow> \<exists>p. map_of model_pricing k = Some p"
  unfolding key_order_def by (metis list.set_map map_of_eq_None_iff not_None_eq)

lemma price_nonneg:
  "map_of model_pricing k = Some p \<Longrightarrow> 0 \<le> input_per_1k p \<and> 0 \<le> output_per_1k p"
  by (auto simp: model_pricing_def mk_price_def f64_lit_def intro!: f64.rnd_nonneg split: if_splits)

lemma price_for_total:
  assumes "key_order ks"
  shows "\<exists>p. price_for ks model = Some p \<and> 0 \<le> input_per_1k p \<and> 0 \<le> output_per_1k p"
proof -
  have "\<exists>k p. price_for ks model = map_of model_pricing k \<and> map_of model_pricing k = Some p"
  proof (cases "List.find (\<lambda>k. k = model) ks")
    case (Some k)
    then have "k \<in> set ks" by (auto simp: find_Some_iff)
    with Some key_order_lookup [OF assms] show ?thesis by (auto simp: price_for_def)
  next
    case None
    have "map_of model_pricing ''gpt-4o-mini'' \<noteq> None" by (simp add: model_pricing_def)
    then show ?thesis using None key_order_lookup [OF assms]
      by (auto simp: price_for_def split: option.splits dest!: max_by_len_Some)
  qed
  with price_nonneg show ?thesis by metis
qed

lemma f64_of_nat_nonneg [simp]: "0 \<le> f64_of_nat n"
  unfolding f64_of_nat_def by (rule f64.rnd_nonneg) simp

lemma f64_per_1k_nonneg: "0 \<le> p \<Longrightarrow> 0 \<le> f64_mul (f64_div (f64_of_nat n) 1000) p"
  unfolding f64_mul_def f64_div_def
  by (intro f64.rnd_nonneg mult_nonneg_nonneg divide_nonneg_nonneg) simp_all

lemma f64_add_nonneg: "0 \<le> a \<Longrightarrow> 0 \<le> b \<Longrightarrow> 0 \<le> f64_add a b"
  by (simp add: f64_add_def f64.rnd_nonneg)

lemma estimate_llm_cost_total:
  assumes "key_order ks"
  shows "\<exists>c. estimate_llm_cost ks model p q = Some c \<and> 0 \<le> c \<and> f64_rnd c = c"
proof -
  obtain pr where "price_for ks model = Some pr" "0 \<le> input_per_1k pr" "0 \<le> output_per_1k pr"
    using price_for_total [OF assms] by blast
  then show ?thesis
    by (auto simp: estimate_llm_cost_def Let_def intro!: f64_add_nonneg f64_per_1k_nonneg)
qed

section \<open>The guard (budget.rs)\<close>

record budget_reservation =
  br_id :: string
  estimated_cost_usd :: rat
  actual_cost_usd :: "rat option"
  reconciled :: bool

record budget_guard =
  cost_cap_usd :: "rat option"
  total_spend_usd :: rat
  reserved_spend_usd :: rat
  bg_prompt_tokens :: u64
  bg_completion_tokens :: u64
  reservations :: "string \<rightharpoonup> budget_reservation"
  auto_approval_enabled :: bool
  exhausted :: bool

definition budget_new :: "rat option \<Rightarrow> bool \<Rightarrow> budget_guard" where
  "budget_new cap auto =
     \<lparr>cost_cap_usd = cap, total_spend_usd = 0, reserved_spend_usd = 0, bg_prompt_tokens = 0,
      bg_completion_tokens = 0, reservations = Map.empty, auto_approval_enabled = auto,
      exhausted = False\<rparr>"

definition estimated_total :: "budget_guard \<Rightarrow> rat" where
  "estimated_total b = f64_add (total_spend_usd b) (reserved_spend_usd b)"

definition remaining_usd :: "budget_guard \<Rightarrow> rat option" where
  "remaining_usd b =
     map_option (\<lambda>cap. max (f64_sub cap (estimated_total b)) 0) (cost_cap_usd b)"

definition reserve :: "string \<Rightarrow> rat \<Rightarrow> budget_guard \<Rightarrow> budget_guard \<times> bool" where
  "reserve rid est b =
     (if exhausted b then (b, False)
      else if (case cost_cap_usd b of
                 Some cap \<Rightarrow> cap < f64_add (estimated_total b) est
               | None \<Rightarrow> False) then (b, False)
      else
        (b\<lparr>reserved_spend_usd := f64_add (reserved_spend_usd b) est,
           reservations := (reservations b)(rid \<mapsto>
             \<lparr>br_id = rid, estimated_cost_usd = est, actual_cost_usd = None, reconciled = False\<rparr>)\<rparr>,
         True))"

definition reconcile :: "string \<Rightarrow> rat \<Rightarrow> budget_guard \<Rightarrow> budget_guard" where
  "reconcile rid actual b =
     (case reservations b rid of
        Some r \<Rightarrow>
          (if reconciled r then b
           else
             (let diff = f64_sub actual (estimated_cost_usd r) in
              b\<lparr>reserved_spend_usd := max (f64_add (reserved_spend_usd b) diff) 0,
                reservations := (reservations b)(rid \<mapsto>
                  r\<lparr>actual_cost_usd := Some actual, reconciled := True\<rparr>)\<rparr>))
      | None \<Rightarrow> b)"

definition confirm :: "string \<Rightarrow> rat \<Rightarrow> budget_guard \<Rightarrow> budget_guard" where
  "confirm rid final b =
     (let b' = reconcile rid final b in
      case reservations b' rid of
        Some r \<Rightarrow>
          (if reconciled r
           then b'\<lparr>reserved_spend_usd := max (f64_sub (reserved_spend_usd b') final) 0,
                   total_spend_usd := f64_add (total_spend_usd b') final,
                   reservations := (reservations b')(rid := None)\<rparr>
           else b')
      | None \<Rightarrow> b')"

definition record_spend :: "rat \<Rightarrow> budget_guard \<Rightarrow> budget_guard" where
  "record_spend cost b =
     (let total = f64_add (total_spend_usd b) cost;
          b' = b\<lparr>total_spend_usd := total\<rparr>
      in case cost_cap_usd b of
           Some cap \<Rightarrow> if cap \<le> total then b'\<lparr>exhausted := True\<rparr> else b'
         | None \<Rightarrow> b')"

definition record_usage :: "rat \<Rightarrow> u64 \<Rightarrow> u64 \<Rightarrow> budget_guard \<Rightarrow> budget_guard" where
  "record_usage cost p c b =
     (let b' = record_spend cost b in
      b'\<lparr>bg_prompt_tokens := bg_prompt_tokens b' + p,
         bg_completion_tokens := bg_completion_tokens b' + c\<rparr>)"

definition total_spent :: "budget_guard \<Rightarrow> rat" where
  "total_spent b = total_spend_usd b"

definition would_exceed_cap :: "rat \<Rightarrow> budget_guard \<Rightarrow> bool" where
  "would_exceed_cap cost b =
     (case cost_cap_usd b of
        Some cap \<Rightarrow> cap < f64_add (estimated_total b) cost
      | None \<Rightarrow> False)"

section \<open>Invariant\<close>

text \<open>The running totals are \<open>f64\<close> values and never negative.\<close>

definition budget_ok :: "budget_guard \<Rightarrow> bool" where
  "budget_ok b \<longleftrightarrow>
     f64_rnd (total_spend_usd b) = total_spend_usd b \<and> 0 \<le> total_spend_usd b \<and>
     f64_rnd (reserved_spend_usd b) = reserved_spend_usd b \<and> 0 \<le> reserved_spend_usd b"

lemma budget_ok_new [inv_intros]: "budget_ok (budget_new cap auto)"
  by (simp add: budget_ok_def budget_new_def)

lemma f64_max_add_rep [simp]: "f64_rnd (max (f64_add a b) 0) = max (f64_add a b) 0"
  by (simp add: f64_add_def f64.rnd_max_zero)

lemma budget_ok_reserve [inv_intros]: "budget_ok b \<Longrightarrow> 0 \<le> est \<Longrightarrow> budget_ok (fst (reserve rid est b))"
  by (auto simp: budget_ok_def reserve_def f64_add_nonneg split: option.splits)

lemma budget_ok_reconcile [inv_intros]: "budget_ok b \<Longrightarrow> budget_ok (reconcile rid actual b)"
  by (auto simp: budget_ok_def reconcile_def Let_def split: option.splits)

lemma budget_ok_confirm [inv_intros]:
  assumes "budget_ok b" "0 \<le> final"
  shows "budget_ok (confirm rid final b)"
proof -
  have "budget_ok (reconcile rid final b)" using assms(1) by (rule budget_ok_reconcile)
  then show ?thesis using assms(2)
    by (auto simp: budget_ok_def confirm_def Let_def f64_add_nonneg split: option.splits)
qed

lemma budget_ok_record_spend [inv_intros]: "budget_ok b \<Longrightarrow> 0 \<le> c \<Longrightarrow> budget_ok (record_spend c b)"
  by (auto simp: budget_ok_def record_spend_def Let_def f64_add_nonneg split: option.splits)

lemma budget_ok_record_usage [inv_intros]:
  "budget_ok b \<Longrightarrow> 0 \<le> c \<Longrightarrow> budget_ok (record_usage c p q b)"
  using budget_ok_record_spend [of b c] by (simp add: budget_ok_def record_usage_def Let_def)

lemma record_usage_sel [simp]:
  "cost_cap_usd (record_usage c p q b) = cost_cap_usd b"
  "reserved_spend_usd (record_usage c p q b) = reserved_spend_usd b"
  "reservations (record_usage c p q b) = reservations b"
  "total_spend_usd (record_usage c p q b) = f64_add (total_spend_usd b) c"
  "bg_prompt_tokens (record_usage c p q b) = bg_prompt_tokens b + p"
  "bg_completion_tokens (record_usage c p q b) = bg_completion_tokens b + q"
  "exhausted (record_usage c p q b) \<longleftrightarrow>
     exhausted b \<or> (\<exists>cap. cost_cap_usd b = Some cap \<and> cap \<le> f64_add (total_spend_usd b) c)"
  by (auto simp: record_usage_def record_spend_def Let_def split: option.splits)

section \<open>A spending meter\<close>

text \<open>
  The contract between the guard and the loops that charge it: recording a charge keeps the
  invariant, never lowers what is spent and never forgets a raised flag.
\<close>

locale spending_meter =
  fixes inv :: "'s \<Rightarrow> bool" and spent :: "'s \<Rightarrow> rat" and flag :: "'s \<Rightarrow> bool"
    and charge :: "'c \<Rightarrow> 's \<Rightarrow> 's" and valid :: "'c \<Rightarrow> bool"
  assumes inv_charge: "inv s \<Longrightarrow> valid c \<Longrightarrow> inv (charge c s)"
    and spent_charge: "inv s \<Longrightarrow> valid c \<Longrightarrow> spent s \<le> spent (charge c s)"
    and flag_charge: "flag s \<Longrightarrow> flag (charge c s)"
begin

lemma inv_charges: "inv s \<Longrightarrow> list_all valid cs \<Longrightarrow> inv (fold charge cs s)"
  by (induction cs arbitrary: s) (simp_all add: inv_charge)

lemma spent_charges: "inv s \<Longrightarrow> list_all valid cs \<Longrightarrow> spent s \<le> spent (fold charge cs s)"
proof (induction cs arbitrary: s)
  case (Cons c cs)
  then have "spent s \<le> spent (charge c s)" and "spent (charge c s) \<le> spent (fold charge cs (charge c s))"
    by (simp_all add: spent_charge inv_charge)
  then show ?case by simp
qed simp

lemma flag_charges: "flag s \<Longrightarrow> flag (fold charge cs s)"
  by (induction cs arbitrary: s) (simp_all add: flag_charge)

end

type_synonym charge = "rat \<times> u64 \<times> u64"

definition apply_charge :: "charge \<Rightarrow> budget_guard \<Rightarrow> budget_guard" where
  "apply_charge c b = (case c of (cost, p, q) \<Rightarrow> record_usage cost p q b)"

definition valid_charge :: "charge \<Rightarrow> bool" where
  "valid_charge c \<longleftrightarrow> 0 \<le> fst c"

interpretation guard: spending_meter budget_ok total_spend_usd exhausted apply_charge valid_charge
proof unfold_locales
  fix b c
  assume "budget_ok b" "valid_charge c"
  then show "budget_ok (apply_charge c b)"
    by (cases c) (simp add: apply_charge_def valid_charge_def budget_ok_record_usage)
next
  fix b c
  assume "budget_ok b" "valid_charge c"
  then show "total_spend_usd b \<le> total_spend_usd (apply_charge c b)"
    by (cases c) (simp add: apply_charge_def valid_charge_def budget_ok_def f64_add_def f64.add_nonneg_ge)
next
  fix b :: budget_guard and c
  assume "exhausted b"
  then show "exhausted (apply_charge c b)" by (cases c) (simp add: apply_charge_def)
qed

lemma apply_charge_cap [simp]: "cost_cap_usd (apply_charge c b) = cost_cap_usd b"
  by (cases c) (simp add: apply_charge_def)

lemma apply_charges_cap [simp]: "cost_cap_usd (fold apply_charge cs b) = cost_cap_usd b"
  by (induction cs arbitrary: b) simp_all

lemma apply_charge_exhausted:
  "exhausted (apply_charge c b) \<longleftrightarrow>
     exhausted b \<or> (\<exists>cap. cost_cap_usd b = Some cap \<and> cap \<le> total_spend_usd (apply_charge c b))"
  by (cases c) (auto simp: apply_charge_def)

section \<open>Properties\<close>

text \<open>
  C10. Starting from a fresh guard, after any sequence of recorded model calls with
  non-negative costs, in rounded \<open>f64\<close> arithmetic: the guard reports \<open>exhausted\<close> exactly when
  something was recorded, there is a cap, and the recorded total has reached it. The flag is set
  along the way and never cleared, so this needs that rounding never lets the total fall
  back below the cap.
\<close>

theorem exhausted_iff_cap_reached:
  assumes "list_all valid_charge cs"
  shows "exhausted (fold apply_charge cs (budget_new cap auto)) \<longleftrightarrow>
    cs \<noteq> [] \<and> (\<exists>c. cap = Some c \<and> c \<le> total_spend_usd (fold apply_charge cs (budget_new cap auto)))"
  using assms
proof (induction cs rule: rev_induct)
  case Nil
  show ?case by (simp add: budget_new_def)
next
  case (snoc x cs)
  let ?b = "fold apply_charge cs (budget_new cap auto)"
  have "budget_ok ?b" using snoc.prems by (intro guard.inv_charges budget_ok_new) simp
  then have mono: "total_spend_usd ?b \<le> total_spend_usd (apply_charge x ?b)"
    using snoc.prems by (intro guard.spent_charge) simp_all
  have cap: "cost_cap_usd ?b = cap" by (simp add: budget_new_def)
  show ?case using snoc mono cap by (auto simp: apply_charge_exhausted)
qed

theorem exhausted_iff_cap_reached_witness:
  "exhausted (fold apply_charge [(1, 10, 5), (1, 3, 4)] (budget_new (Some 2) True)) \<longleftrightarrow>
    [(1, 10, 5), (1 :: rat, 3 :: u64, 4 :: u64)] \<noteq> [] \<and>
    (\<exists>c. Some (2 :: rat) = Some c \<and>
       c \<le> total_spend_usd (fold apply_charge [(1, 10, 5), (1, 3, 4)] (budget_new (Some 2) True)))"
  by (rule exhausted_iff_cap_reached) (simp add: valid_charge_def)

text \<open>
  Any use of the guard: a sequence of its four mutating operations.
\<close>

datatype budget_op =
    Reserve string rat
  | Reconcile string rat
  | Confirm string rat
  | RecordUsage rat u64 u64

fun apply_op :: "budget_op \<Rightarrow> budget_guard \<Rightarrow> budget_guard" where
  "apply_op (Reserve rid est) b = fst (reserve rid est b)"
| "apply_op (Reconcile rid actual) b = reconcile rid actual b"
| "apply_op (Confirm rid final) b = confirm rid final b"
| "apply_op (RecordUsage cost p q) b = record_usage cost p q b"

fun op_amount :: "budget_op \<Rightarrow> rat" where
  "op_amount (Reserve _ x) = x"
| "op_amount (Reconcile _ x) = x"
| "op_amount (Confirm _ x) = x"
| "op_amount (RecordUsage x _ _) = x"

abbreviation nonneg_op :: "budget_op \<Rightarrow> bool" where
  "nonneg_op x \<equiv> 0 \<le> op_amount x"

lemma reconcile_sel [simp]:
  "total_spend_usd (reconcile rid a b) = total_spend_usd b"
  "cost_cap_usd (reconcile rid a b) = cost_cap_usd b"
  "exhausted (reconcile rid a b) = exhausted b"
  by (simp_all add: reconcile_def Let_def split: option.splits)

lemma confirm_sel [simp]:
  "cost_cap_usd (confirm rid a b) = cost_cap_usd b"
  "exhausted (confirm rid a b) = exhausted b"
  "total_spend_usd (confirm rid a b) =
     (case reservations b rid of
        None \<Rightarrow> total_spend_usd b
      | Some _ \<Rightarrow> f64_add (total_spend_usd b) a)"
  by (auto simp: confirm_def reconcile_def Let_def split: option.splits)

lemma reserve_sel [simp]:
  "total_spend_usd (fst (reserve rid est b)) = total_spend_usd b"
  "cost_cap_usd (fst (reserve rid est b)) = cost_cap_usd b"
  "exhausted (fst (reserve rid est b)) = exhausted b"
  by (auto simp: reserve_def split: option.splits)

lemma budget_ok_apply_op: "budget_ok b \<Longrightarrow> nonneg_op x \<Longrightarrow> budget_ok (apply_op x b)"
  by (cases x) (auto intro: inv_intros)

lemma total_spend_apply_op:
  "budget_ok b \<Longrightarrow> nonneg_op x \<Longrightarrow> total_spend_usd b \<le> total_spend_usd (apply_op x b)"
  by (cases x) (auto simp: budget_ok_def f64_add_def f64.add_nonneg_ge split: option.splits)

lemma flag_apply_op: "exhausted b \<Longrightarrow> exhausted (apply_op x b)"
  by (cases x) simp_all

interpretation guard_ops: spending_meter budget_ok total_spend_usd exhausted apply_op nonneg_op
  by unfold_locales (simp_all add: budget_ok_apply_op total_spend_apply_op flag_apply_op)

lemma cap_apply_op [simp]: "cost_cap_usd (apply_op x b) = cost_cap_usd b"
  by (cases x) simp_all

lemma exhausted_apply_op:
  assumes "budget_ok b" "nonneg_op x"
    and "exhausted b \<longrightarrow> (\<exists>c. cost_cap_usd b = Some c \<and> c \<le> total_spend_usd b)"
    and "exhausted (apply_op x b)"
  shows "\<exists>c. cost_cap_usd b = Some c \<and> c \<le> total_spend_usd (apply_op x b)"
  using assms total_spend_apply_op [OF assms(1,2)] by (cases x) auto

lemma cap_apply_ops [simp]: "cost_cap_usd (fold apply_op xs b) = cost_cap_usd b"
  by (induction xs arbitrary: b) simp_all

lemma exhausted_apply_ops:
  assumes "list_all nonneg_op xs" and "exhausted (fold apply_op xs (budget_new cap auto))"
  shows "\<exists>c. cap = Some c \<and> c \<le> total_spend_usd (fold apply_op xs (budget_new cap auto))"
  using assms
proof (induction xs rule: rev_induct)
  case Nil
  then show ?case by (simp add: budget_new_def)
next
  case (snoc x xs)
  let ?b = "fold apply_op xs (budget_new cap auto)"
  have "budget_ok ?b" using snoc.prems by (intro guard_ops.inv_charges budget_ok_new) simp
  moreover have "cost_cap_usd ?b = cap" by (simp add: budget_new_def)
  ultimately show ?case using exhausted_apply_op [of ?b x] snoc by simp
qed

text \<open>
  However reservations, reconciliations, confirmations and recorded calls are mixed, with
  non-negative amounts: the confirmed and the reserved total stay non-negative \<open>f64\<close> values,
  the confirmed total only grows, and a guard that refuses work as exhausted has really spent
  its cap.
\<close>

theorem budget_ops_invariant:
  assumes "list_all nonneg_op xs"
  shows "budget_ok (fold apply_op xs (budget_new cap auto))
    \<and> total_spend_usd (fold apply_op (take n xs) (budget_new cap auto))
        \<le> total_spend_usd (fold apply_op xs (budget_new cap auto))
    \<and> (exhausted (fold apply_op xs (budget_new cap auto)) \<longrightarrow>
         (\<exists>c. cap = Some c \<and> c \<le> total_spend_usd (fold apply_op xs (budget_new cap auto))))"
proof -
  have parts: "list_all nonneg_op (take n xs)" "list_all nonneg_op (drop n xs)"
    using assms by (auto simp: list_all_iff dest: in_set_takeD in_set_dropD)
  have split: "fold apply_op xs s = fold apply_op (drop n xs) (fold apply_op (take n xs) s)" for s
    by (metis append_take_drop_id comp_apply fold_append)
  have "budget_ok (fold apply_op (take n xs) (budget_new cap auto))"
    using parts(1) by (intro guard_ops.inv_charges budget_ok_new)
  then have "total_spend_usd (fold apply_op (take n xs) (budget_new cap auto))
      \<le> total_spend_usd (fold apply_op xs (budget_new cap auto))"
    unfolding split [of "budget_new cap auto"] using parts(2) by (rule guard_ops.spent_charges)
  then show ?thesis
    using assms exhausted_apply_ops guard_ops.inv_charges [OF budget_ok_new assms] by blast
qed

theorem budget_ops_invariant_witness:
  "list_all nonneg_op [Reserve ''a'' 1, Confirm ''a'' 3, RecordUsage 1 10 5] \<and>
   budget_ok (fold apply_op [Reserve ''a'' 1, Confirm ''a'' 3, RecordUsage 1 10 5]
     (budget_new (Some 2) True))"
  using budget_ops_invariant [of "[Reserve ''a'' 1, Confirm ''a'' 3, RecordUsage 1 10 5]" "Some 2" True]
  by simp

text \<open>
  \<open>confirm\<close> never raises the flag, whatever the confirmed total becomes: only directly
  recorded spend does. For instance, a confirmation of 3 under a cap
  of 2 leaves a guard that is not exhausted although its cap is spent.
\<close>

lemma confirm_overspends_unflagged:
  "let b = confirm ''a'' 3 (fst (reserve ''a'' 1 (budget_new (Some 2) True))) in
   \<not> exhausted b \<and> cost_cap_usd b = Some 2 \<and> 2 \<le> total_spend_usd b"
proof -
  have r: "f64_rnd 1 = 1" "f64_rnd 3 = 3" by code_simp+
  show ?thesis
    by (simp add: reserve_def budget_new_def estimated_total_def f64_add_def r Let_def)
qed

end
