(* ===== verification/Context.thy ===== *)
theory Context
  imports Protocol "HOL-Library.Multiset"
begin

text \<open>
  The message window of a thread: \<open>ContextManager\<close> of \<open>sentinel-core/src/context.rs\<close>. Token
  counts are natural numbers (they are sums of the lengths of strings in memory); the two
  products of \<open>needs_compaction\<close> saturate at the largest \<open>usize\<close>, as in the code.
\<close>

record context_manager =
  messages :: "message list"
  max_tokens :: nat
  compaction_count :: nat
  summary_count :: nat

definition COMPACTION_RATIO_PCT :: nat where
  "COMPACTION_RATIO_PCT = 85"

definition context_new :: "nat \<Rightarrow> context_manager" where
  "context_new n = \<lparr>messages = [], max_tokens = n, compaction_count = 0, summary_count = 0\<rparr>"

definition context_add :: "message \<Rightarrow> context_manager \<Rightarrow> context_manager" where
  "context_add m c = c\<lparr>messages := messages c @ [m]\<rparr>"

definition msg_tokens :: "message \<Rightarrow> nat" where
  "msg_tokens m = length (extract_text m) div 4"

definition tokens_of :: "message list \<Rightarrow> nat" where
  "tokens_of ms = sum_list (map msg_tokens ms)"

definition estimated_tokens :: "context_manager \<Rightarrow> nat" where
  "estimated_tokens c = tokens_of (messages c)"

definition sat_mul_usize :: "nat \<Rightarrow> nat \<Rightarrow> nat" where
  "sat_mul_usize a b = min (a * b) (2 ^ 64 - 1)"

definition needs_compaction :: "context_manager \<Rightarrow> bool" where
  "needs_compaction c \<longleftrightarrow>
     messages c \<noteq> [] \<and>
     sat_mul_usize (max_tokens c) COMPACTION_RATIO_PCT \<le> sat_mul_usize (estimated_tokens c) 100"

definition should_summarize :: "context_manager \<Rightarrow> bool" where
  "should_summarize c \<longleftrightarrow> 2 \<le> compaction_count c \<and> summary_count c < compaction_count c"

definition insert_summary :: "string \<Rightarrow> context_manager \<Rightarrow> context_manager" where
  "insert_summary t c =
     (let summary = message_new RUser [Text (''[Conversation summary: '' @ t @ '']'')];
          pos = position (\<lambda>m. role m = RUser \<and>
                  str_contains (extract_text m) ''Earlier context compacted'') (messages c)
      in c\<lparr>summary_count := Suc (summary_count c),
           messages := (case pos of
                          Some i \<Rightarrow> (messages c)[i := summary]
                        | None \<Rightarrow> summary # messages c)\<rparr>)"

text \<open>The draining loop of \<open>compact\<close>: the first system message goes to \<open>system_msg\<close>, every other
  message to \<open>non_system\<close>.\<close>

fun drain_system :: "message option \<Rightarrow> message list \<Rightarrow> message option \<times> message list" where
  "drain_system sys [] = (sys, [])"
| "drain_system sys (m # ms) =
     (if role m = RSystem \<and> sys = None then drain_system (Some m) ms
      else case drain_system sys ms of (s, ns) \<Rightarrow> (s, m # ns))"

text \<open>The loop that lowers \<open>keep_start\<close>.\<close>

fun find_keep_start :: "nat \<Rightarrow> message list \<Rightarrow> nat \<Rightarrow> nat" where
  "find_keep_start target ns 0 = 0"
| "find_keep_start target ns (Suc k) =
     (if tokens_of (drop (Suc k) ns) \<le> target \<and> 4 \<le> length ns - Suc k then Suc k
      else find_keep_start target ns k)"

definition compaction_placeholder :: "nat \<Rightarrow> message" where
  "compaction_placeholder n =
     message_new RUser [Text (''[Earlier context compacted: '' @ show_nat n @ '' messages removed]'')]"

definition compact :: "context_manager \<Rightarrow> context_manager" where
  "compact c =
     (if messages c = [] then c
      else
        (let n = Suc (compaction_count c);
             target = max_tokens c div 2;
             (sys, ns) = drain_system None (messages c);
             front = (case sys of None \<Rightarrow> [] | Some m \<Rightarrow> [m])
         in if ns = [] then c\<lparr>compaction_count := n, messages := front\<rparr>
            else
              (let k = find_keep_start target ns (length ns);
                   kept = (if k = 0 then ns
                           else if 2 \<le> n then compaction_placeholder k # drop k ns
                           else drop k ns)
               in c\<lparr>compaction_count := n, messages := front @ kept\<rparr>)))"

definition context_clear :: "context_manager \<Rightarrow> context_manager" where
  "context_clear c = c\<lparr>messages := [], compaction_count := 0, summary_count := 0\<rparr>"

definition set_max_tokens :: "nat \<Rightarrow> context_manager \<Rightarrow> context_manager" where
  "set_max_tokens n c = c\<lparr>max_tokens := n\<rparr>"

section \<open>Draining\<close>

lemma drain_system_some: "drain_system (Some s) ms = (Some s, ms)"
  by (induction ms) auto

text \<open>The abstract view: the window is an optional system message and the rest in order.\<close>

definition system_of :: "message list \<Rightarrow> message option" where
  "system_of ms = List.find (\<lambda>m. role m = RSystem) ms"

definition others_of :: "message list \<Rightarrow> message list" where
  "others_of ms = snd (drain_system None ms)"

lemma drain_system_fst: "fst (drain_system None ms) = system_of ms"
  by (induction ms) (auto simp: system_of_def drain_system_some split: prod.splits)

lemma drain_system_eq: "drain_system None ms = (system_of ms, others_of ms)"
  by (simp add: others_of_def prod_eq_iff drain_system_fst)

lemma others_of_simps [simp]:
  "others_of [] = []"
  "others_of (m # ms) = (if role m = RSystem then ms else m # others_of ms)"
  by (auto simp: others_of_def drain_system_some split: prod.splits)

abbreviation system_part :: "message list \<Rightarrow> message list" where
  "system_part ms \<equiv> (case system_of ms of None \<Rightarrow> [] | Some m \<Rightarrow> [m])"

lemma mset_drain: "mset (system_part ms @ others_of ms) = mset ms"
  by (induction ms) (auto simp: system_of_def split: option.splits)

lemma tokens_of_append [simp]: "tokens_of (xs @ ys) = tokens_of xs + tokens_of ys"
  by (simp add: tokens_of_def)

lemma tokens_of_mset: "mset xs = mset ys \<Longrightarrow> tokens_of xs = tokens_of ys"
  unfolding tokens_of_def by (metis mset_map sum_mset_sum_list)

lemma tokens_of_drop_mono: "i \<le> j \<Longrightarrow> tokens_of (drop j ms) \<le> tokens_of (drop i ms)"
proof -
  assume "i \<le> j"
  then have "drop i ms = take (j - i) (drop i ms) @ drop j ms"
    by (metis append_take_drop_id drop_drop le_add_diff_inverse2)
  then show ?thesis by (metis le_add2 tokens_of_append)
qed

section \<open>Where the cut falls\<close>

lemma find_keep_start_overfull:
  assumes "target < tokens_of (drop k ns)"
  shows "find_keep_start target ns k = 0"
  using assms
proof (induction k)
  case (Suc k)
  have "tokens_of (drop (Suc k) ns) \<le> tokens_of (drop k ns)" by (rule tokens_of_drop_mono) simp
  with Suc show ?case by simp
qed simp

lemma find_keep_start_skip:
  "length ns - k < 4 \<Longrightarrow> k \<le> length ns \<Longrightarrow>
   find_keep_start target ns k = find_keep_start target ns (length ns - 4)"
proof (induction k)
  case (Suc k)
  show ?case
  proof (cases "length ns - k < 4")
    case True
    with Suc show ?thesis by simp
  next
    case False
    with Suc.prems have "k = length ns - 4" by simp
    with Suc.prems show ?thesis by simp
  qed
qed simp

lemma find_keep_start_eq:
  "find_keep_start target ns (length ns) =
     (if tokens_of (drop (length ns - 4) ns) \<le> target then length ns - 4 else 0)"
proof -
  have "find_keep_start target ns (length ns) = find_keep_start target ns (length ns - 4)"
    by (rule find_keep_start_skip) simp_all
  also have "\<dots> = (if tokens_of (drop (length ns - 4) ns) \<le> target then length ns - 4 else 0)"
  proof (cases "tokens_of (drop (length ns - 4) ns) \<le> target")
    case True
    then show ?thesis by (cases "length ns - 4") auto
  next
    case False
    then show ?thesis by (simp add: find_keep_start_overfull)
  qed
  finally show ?thesis .
qed

lemma compact_messages:
  assumes "messages c \<noteq> []"
  shows "messages (compact c) =
    (let ns = others_of (messages c); r = length ns - 4 in
     system_part (messages c) @
     (if r = 0 \<or> max_tokens c div 2 < tokens_of (drop r ns) then ns
      else if 1 \<le> compaction_count c then compaction_placeholder r # drop r ns
      else drop r ns))"
  using assms
  by (auto simp: compact_def drain_system_eq find_keep_start_eq Let_def)

lemma compact_sel [simp]:
  "max_tokens (compact c) = max_tokens c"
  "summary_count (compact c) = summary_count c"
  "messages c \<noteq> [] \<Longrightarrow> compaction_count (compact c) = Suc (compaction_count c)"
  by (auto simp: compact_def Let_def split: prod.splits)

section \<open>Properties\<close>

text \<open>
  What \<open>compact\<close> leaves of a non-empty window: the first system message in front, then the
  last four other messages if their estimate fits half the window, and otherwise all of them;
  from the second compaction on, a placeholder with the number of removed messages stands for
  the removed ones. In particular the loop that grows the kept tail never stops at a tail of
  more than four messages: either four messages are kept, or all.
\<close>

theorem compact_result:
  assumes "messages c \<noteq> []"
  shows "messages (compact c) =
    (let ns = others_of (messages c); r = length ns - 4 in
     system_part (messages c) @
     (if r = 0 \<or> max_tokens c div 2 < tokens_of (drop r ns) then ns
      else if 1 \<le> compaction_count c then compaction_placeholder r # drop r ns
      else drop r ns))"
  using assms by (rule compact_messages)

theorem compact_result_witness:
  "messages (compact (context_new 8\<lparr>messages :=
      [message_system ''s'', message_user ''a'', message_user ''b'', message_user ''c'',
       message_user ''d'', message_user ''e'']\<rparr>))
   = [message_system ''s'', message_user ''b'', message_user ''c'', message_user ''d'',
      message_user ''e'']"
proof -
  let ?c = "context_new 8\<lparr>messages :=
      [message_system ''s'', message_user ''a'', message_user ''b'', message_user ''c'',
       message_user ''d'', message_user ''e'']\<rparr>"
  have "messages ?c \<noteq> []" by simp
  from compact_result [OF this] show ?thesis
    by (simp add: context_new_def message_system_def message_user_def system_of_def tokens_of_def
        msg_tokens_def)
qed

text \<open>
  A window whose last four messages alone take more than half of it is stuck: compaction
  keeps every message, so the estimate is unchanged and the window still needs compaction
  afterwards (while the compaction counter moves on, which later asks for a summary).
\<close>

theorem compact_stuck:
  assumes "needs_compaction c"
    and "max_tokens c div 2 < tokens_of (drop (length (others_of (messages c)) - 4) (others_of (messages c)))"
  shows "mset (messages (compact c)) = mset (messages c) \<and> needs_compaction (compact c)
    \<and> compaction_count (compact c) = Suc (compaction_count c)"
proof -
  have ne: "messages c \<noteq> []" using assms(1) by (simp add: needs_compaction_def)
  have eq: "messages (compact c) = system_part (messages c) @ others_of (messages c)"
    using assms(2) by (simp add: compact_messages [OF ne] Let_def)
  then have m: "mset (messages (compact c)) = mset (messages c)" by (simp only: mset_drain)
  then have "estimated_tokens (compact c) = estimated_tokens c"
    unfolding estimated_tokens_def by (rule tokens_of_mset)
  moreover have "messages (compact c) \<noteq> []" using m ne by (metis mset_zero_iff)
  ultimately show ?thesis using assms(1) m ne by (simp add: needs_compaction_def)
qed

theorem compact_stuck_witness:
  "needs_compaction (compact (context_new 4\<lparr>messages := [message_user ''sixteen bytes ok''] \<rparr>))"
proof -
  let ?c = "context_new 4\<lparr>messages := [message_user ''sixteen bytes ok'']\<rparr>"
  have "needs_compaction ?c"
    by (simp add: needs_compaction_def context_new_def sat_mul_usize_def estimated_tokens_def
        tokens_of_def msg_tokens_def message_user_def COMPACTION_RATIO_PCT_def)
  moreover have "max_tokens ?c div 2 <
      tokens_of (drop (length (others_of (messages ?c)) - 4) (others_of (messages ?c)))"
    by (simp add: context_new_def tokens_of_def msg_tokens_def message_user_def)
  ultimately show ?thesis using compact_stuck by blast
qed

text \<open>Facts the agent loop uses: the window never loses its system message.\<close>

lemma messages_add [simp]: "messages (context_add m c) = messages c @ [m]"
  by (simp add: context_add_def)

lemma system_role: "system_of ms = Some m \<Longrightarrow> role m = RSystem"
  by (auto simp: system_of_def find_Some_iff)

lemma compact_keeps_system: "system_of (messages (compact c)) = system_of (messages c)"
proof (cases "messages c = []")
  case False
  have tail: "system_of (system_part ms @ rest) = system_of ms"
    if "system_of ms = None \<Longrightarrow> system_of rest = None" for ms rest
  proof (cases "system_of ms")
    case (Some m)
    then have "role m = RSystem" by (rule system_role)
    with Some show ?thesis by (simp add: system_of_def [of "_ # _"])
  qed (use that in simp)
  have "system_of ms = None \<Longrightarrow> others_of ms = ms" for ms
    by (induction ms) (auto simp: system_of_def split: if_splits)
  moreover have "system_of ms = None \<Longrightarrow> system_of (drop k ms) = None" for ms k
    by (auto simp: system_of_def find_None_iff dest: in_set_dropD)
  moreover have "system_of (compaction_placeholder k # ms) = system_of ms" for k ms
    by (simp add: system_of_def compaction_placeholder_def message_new_def)
  ultimately show ?thesis
    unfolding compact_messages [OF False] Let_def by (intro tail) auto
qed (simp add: compact_def)

end
