(* ===== verification/Conversation.thy ===== *)
theory Conversation
  imports Protocol
begin

text \<open>
  The transcript of a thread: \<open>Item\<close>, \<open>Turn\<close> and \<open>Conversation\<close> of
  \<open>sentinel-core/src/conversation.rs\<close>. The random identifiers (\<open>Uuid::new_v4\<close>) and the clock
  readings that the constructors attach are not modelled; no operation reads them. An operation
  that returns a reference into the conversation returns the updated conversation, and its
  \<open>None\<close> is the \<open>?\<close> of the code on a conversation with no turn.
\<close>

datatype item =
    UserMessage string
  | AssistantText string
  | AssistantToolCall string string json     \<comment> \<open>tool_call_id, name, arguments\<close>
  | ToolResultItem string string bool         \<comment> \<open>tool_call_id, content, is_error\<close>

fun is_user :: "item \<Rightarrow> bool" where
  "is_user (UserMessage _) = True"
| "is_user _ = False"

fun is_assistant :: "item \<Rightarrow> bool" where
  "is_assistant (AssistantText _) = True"
| "is_assistant (AssistantToolCall _ _ _) = True"
| "is_assistant _ = False"

fun is_tool_result :: "item \<Rightarrow> bool" where
  "is_tool_result (ToolResultItem _ _ _) = True"
| "is_tool_result _ = False"

record turn =
  number :: u32
  items :: "item list"

definition turn_new :: "u32 \<Rightarrow> turn" where
  "turn_new n = \<lparr>number = n, items = []\<rparr>"

definition add_item :: "item \<Rightarrow> turn \<Rightarrow> turn" where
  "add_item i t = t\<lparr>items := items t @ [i]\<rparr>"

definition user_input :: "turn \<Rightarrow> item option" where
  "user_input t = List.find is_user (items t)"

fun is_assistant_text :: "item \<Rightarrow> bool" where
  "is_assistant_text (AssistantText _) = True"
| "is_assistant_text _ = False"

fun is_assistant_tool_call :: "item \<Rightarrow> bool" where
  "is_assistant_tool_call (AssistantToolCall _ _ _) = True"
| "is_assistant_tool_call _ = False"

definition assistant_texts :: "turn \<Rightarrow> item list" where
  "assistant_texts t = filter is_assistant_text (items t)"

definition turn_tool_calls :: "turn \<Rightarrow> item list" where
  "turn_tool_calls t = filter is_assistant_tool_call (items t)"

definition turn_tool_results :: "turn \<Rightarrow> item list" where
  "turn_tool_results t = filter is_tool_result (items t)"

fun item_text :: "item \<Rightarrow> string option" where
  "item_text (AssistantText t) = Some t"
| "item_text _ = None"

definition turn_extract_text :: "turn \<Rightarrow> string" where
  "turn_extract_text t = join [] (List.map_filter item_text (items t))"

record conversation =
  turns :: "turn list"
  undo_stack :: "turn list list"
  redo_stack :: "turn list list"

definition conversation_new :: conversation where
  "conversation_new = \<lparr>turns = [], undo_stack = [], redo_stack = []\<rparr>"

definition start_turn :: "conversation \<Rightarrow> conversation" where
  "start_turn c =
     c\<lparr>turns := turns c @ [turn_new (of_nat (length (turns c)) + 1)], redo_stack := []\<rparr>"

text \<open>\<open>current_turn_mut\<close> followed by \<open>add_item\<close>.\<close>

definition push_item :: "item \<Rightarrow> conversation \<Rightarrow> conversation option" where
  "push_item i c =
     (if turns c = [] then None
      else Some (c\<lparr>turns := butlast (turns c) @ [add_item i (last (turns c))]\<rparr>))"

definition add_user_message :: "string \<Rightarrow> conversation \<Rightarrow> conversation" where
  "add_user_message t c =
     (let c' = start_turn c in
      c'\<lparr>turns := butlast (turns c') @ [add_item (UserMessage t) (last (turns c'))]\<rparr>)"

definition add_assistant_text :: "string \<Rightarrow> conversation \<Rightarrow> conversation option" where
  "add_assistant_text t c = push_item (AssistantText t) c"

definition add_tool_call :: "string \<Rightarrow> string \<Rightarrow> json \<Rightarrow> conversation \<Rightarrow> conversation option" where
  "add_tool_call i n a c = push_item (AssistantToolCall i n a) c"

definition add_tool_result :: "string \<Rightarrow> string \<Rightarrow> bool \<Rightarrow> conversation \<Rightarrow> conversation option" where
  "add_tool_result i t e c = push_item (ToolResultItem i t e) c"

definition turn_count :: "conversation \<Rightarrow> u32" where
  "turn_count c = of_nat (length (turns c))"

definition total_items :: "conversation \<Rightarrow> nat" where
  "total_items c = sum_list (map (\<lambda>t. length (items t)) (turns c))"

definition undo_last_turn :: "conversation \<Rightarrow> conversation \<times> turn option" where
  "undo_last_turn c =
     (if turns c = [] then (c, None)
      else (c\<lparr>turns := butlast (turns c), undo_stack := undo_stack c @ [[last (turns c)]]\<rparr>,
            Some (last (turns c))))"

definition redo_last_turn :: "conversation \<Rightarrow> conversation \<times> turn option" where
  "redo_last_turn c =
     (if redo_stack c = [] then (c, None)
      else
        (let ts = last (redo_stack c) in
         (c\<lparr>turns := turns c @ ts, redo_stack := butlast (redo_stack c)\<rparr>,
          if ts = [] then None else Some (last ts))))"

definition can_undo :: "conversation \<Rightarrow> bool" where
  "can_undo c \<longleftrightarrow> turns c \<noteq> []"

definition can_redo :: "conversation \<Rightarrow> bool" where
  "can_redo c \<longleftrightarrow> redo_stack c \<noteq> []"

definition truncate_to_last :: "nat \<Rightarrow> conversation \<Rightarrow> conversation" where
  "truncate_to_last n c =
     (if n < length (turns c) then c\<lparr>turns := drop (length (turns c) - n) (turns c)\<rparr> else c)"

definition conv_fork_at_turn :: "u32 \<Rightarrow> conversation \<Rightarrow> conversation" where
  "conv_fork_at_turn n c = \<lparr>turns = take (unat n) (turns c), undo_stack = [], redo_stack = []\<rparr>"

section \<open>Reachable conversations\<close>

text \<open>One rule per operation that changes a conversation.\<close>

inductive conv_step :: "conversation \<Rightarrow> conversation \<Rightarrow> bool" where
  user: "conv_step c (add_user_message t c)"
| item: "push_item i c = Some c' \<Longrightarrow> conv_step c c'"
| undo: "conv_step c (fst (undo_last_turn c))"
| redo: "conv_step c (fst (redo_last_turn c))"
| truncate: "conv_step c (truncate_to_last n c)"
| fork: "conv_step c (conv_fork_at_turn n c)"

inductive conv_reachable :: "conversation \<Rightarrow> bool" where
  new: "conv_reachable conversation_new"
| step: "conv_reachable c \<Longrightarrow> conv_step c c' \<Longrightarrow> conv_reachable c'"

inductive_cases conv_step_elim: "conv_step c c'"

lemma push_item_sel:
  "push_item i c = Some c' \<Longrightarrow>
     redo_stack c' = redo_stack c \<and> map number (turns c') = map number (turns c) \<and>
     length (turns c') = length (turns c)"
proof -
  assume "push_item i c = Some c'"
  then obtain ts t where "turns c = ts @ [t]" and "c' = c\<lparr>turns := ts @ [add_item i t]\<rparr>"
    by (cases "turns c" rule: rev_cases) (auto simp: push_item_def)
  then show ?thesis by (simp add: add_item_def)
qed

lemma conv_step_redo_empty: "conv_step c c' \<Longrightarrow> redo_stack c = [] \<Longrightarrow> redo_stack c' = []"
  by (erule conv_step_elim)
    (auto simp: add_user_message_def start_turn_def undo_last_turn_def redo_last_turn_def
      truncate_to_last_def conv_fork_at_turn_def Let_def dest: push_item_sel)

section \<open>Properties\<close>

text \<open>
  \<open>redo_last_turn\<close> never brings a turn back: no operation ever fills the redo stack
  (\<open>undo_last_turn\<close> puts the turn it removes on the undo stack, which nothing reads), so in
  every reachable conversation \<open>can_redo\<close> is false and redoing changes nothing.
\<close>

theorem redo_never_available:
  assumes "conv_reachable c"
  shows "\<not> can_redo c \<and> redo_last_turn c = (c, None)"
proof -
  from assms have "redo_stack c = []"
    by (induction rule: conv_reachable.induct)
      (auto simp: conversation_new_def intro: conv_step_redo_empty)
  then show ?thesis by (simp add: can_redo_def redo_last_turn_def)
qed

theorem redo_never_available_witness:
  "redo_last_turn (fst (undo_last_turn (add_user_message ''hi'' conversation_new)))
     = (fst (undo_last_turn (add_user_message ''hi'' conversation_new)), None)"
proof -
  have "conv_reachable (fst (undo_last_turn (add_user_message ''hi'' conversation_new)))"
    by (rule conv_reachable.step [OF conv_reachable.step [OF conv_reachable.new conv_step.user]
          conv_step.undo])
  then show ?thesis using redo_never_available by blast
qed

text \<open>The runs in which the front of the transcript is never cut off.\<close>

inductive conv_run :: "conversation \<Rightarrow> bool" where
  run_new: "conv_run conversation_new"
| run_user: "conv_run c \<Longrightarrow> conv_run (add_user_message t c)"
| run_item: "conv_run c \<Longrightarrow> push_item i c = Some c' \<Longrightarrow> conv_run c'"
| run_undo: "conv_run c \<Longrightarrow> conv_run (fst (undo_last_turn c))"
| run_fork: "conv_run c \<Longrightarrow> conv_run (conv_fork_at_turn n c)"

definition numbered :: "turn list \<Rightarrow> bool" where
  "numbered ts \<longleftrightarrow> map number ts = map (\<lambda>i. of_nat i + 1) [0..<length ts]"

lemma numbered_snoc:
  "numbered (ts @ [t]) \<longleftrightarrow> numbered ts \<and> number t = of_nat (length ts) + 1"
  by (auto simp: numbered_def)

lemma numbered_take: "numbered ts \<Longrightarrow> numbered (take n ts)"
  unfolding numbered_def by (simp add: take_map [symmetric] min_def) (simp add: take_map)

lemma numbered_run: "conv_run c \<Longrightarrow> numbered (turns c)"
proof (induction rule: conv_run.induct)
  case run_new
  show ?case by (simp add: conversation_new_def numbered_def)
next
  case (run_user c t)
  then show ?case
    by (simp add: add_user_message_def start_turn_def turn_new_def add_item_def Let_def numbered_snoc)
next
  case (run_item c i c')
  then show ?case using push_item_sel [OF run_item(2)] by (simp add: numbered_def)
next
  case (run_undo c)
  then show ?case
    by (cases "turns c" rule: rev_cases) (auto simp: undo_last_turn_def numbered_snoc)
next
  case (run_fork c n)
  then show ?case by (simp add: conv_fork_at_turn_def numbered_take)
qed

lemma filter_numbered:
  assumes "numbered ts" and "length ts < 2 ^ 32"
  shows "filter (\<lambda>t. number t \<le> n) ts = take (unat n) ts"
  using assms
proof (induction ts rule: rev_induct)
  case (snoc t ts)
  have nt: "unat (number t) = Suc (length ts)"
    using snoc.prems by (simp add: numbered_snoc unat_word_ariths unat_of_nat)
  have "number t \<le> n \<longleftrightarrow> Suc (length ts) \<le> unat n" by (simp add: word_le_nat_alt nt)
  then show ?case using snoc by (auto simp: numbered_snoc)
qed simp

text \<open>
  As long as nothing cuts the front off a transcript, its turns are numbered 1, 2, 3, ...
  in order, through any mix of user messages, added items, undone turns and forks; and forking
  at turn \<open>n\<close> keeps exactly the turns whose number is at most \<open>n\<close>.
\<close>

theorem turns_numbered_and_forked:
  assumes "conv_run c" and "length (turns c) < 2 ^ 32"
  shows "map number (turns c) = map (\<lambda>i. of_nat i + 1) [0..<length (turns c)]
    \<and> turns (conv_fork_at_turn n c) = filter (\<lambda>t. number t \<le> n) (turns c)"
  using numbered_run [OF assms(1)] filter_numbered [OF numbered_run [OF assms(1)] assms(2)]
  by (simp add: conv_fork_at_turn_def numbered_def)

theorem turns_numbered_and_forked_witness:
  "turns (conv_fork_at_turn 1 (add_user_message ''b'' (add_user_message ''a'' conversation_new)))
     = [\<lparr>number = 1, items = [UserMessage ''a'']\<rparr>]"
proof -
  let ?c = "add_user_message ''b'' (add_user_message ''a'' conversation_new)"
  have ts: "turns ?c = [\<lparr>number = 1, items = [UserMessage ''a'']\<rparr>,
      \<lparr>number = 2, items = [UserMessage ''b'']\<rparr>]"
    by (simp add: add_user_message_def start_turn_def conversation_new_def turn_new_def add_item_def
        Let_def)
  have "conv_run ?c" by (intro conv_run.intros)
  from turns_numbered_and_forked [OF this, of 1] show ?thesis by (simp add: ts word_le_nat_alt)
qed

text \<open>After the front has been cut off, a new turn repeats a number that is still in use.\<close>

lemma truncation_repeats_number:
  "map number (turns (add_user_message ''c'' (truncate_to_last 1
     (add_user_message ''b'' (add_user_message ''a'' conversation_new))))) = [2, 2]"
  by (simp add: add_user_message_def start_turn_def conversation_new_def turn_new_def add_item_def
      truncate_to_last_def Let_def)

end
