(* ===== verification/Thread.thy ===== *)
theory Thread
  imports Budget Context Conversation
begin

text \<open>
  The state of one agent thread: \<open>sentinel-core/src/thread.rs\<close>, and the checkpoints of
  \<open>sentinel-core/src/pipeline.rs\<close> (\<open>AgentThread::snapshot\<close>, \<open>restore\<close>). Turn and
  iteration counters are 32-bit words. The random thread id is an argument of the
  constructors. \<open>dbg\<close> stands for \<open>serde_json\<close>'s \<open>Debug\<close> rendering of a value, which
  \<open>is_doom_loop\<close> puts into its signatures.
\<close>

datatype phase = Plan | Act

definition is_plan :: "phase \<Rightarrow> bool" where
  "is_plan p \<longleftrightarrow> p = Plan"

definition is_act :: "phase \<Rightarrow> bool" where
  "is_act p \<longleftrightarrow> p = Act"

datatype thread_status =
    Idle
  | Running
  | AwaitingApproval
  | Completed
  | Cancelled
  | StatusError string

record approval_request =
  ar_tool_name :: string
  ar_args :: json
  ar_prompt :: string
  ar_diff :: "string option"
  ar_estimated_cost :: "rat option"

definition approval_request_new :: "string \<Rightarrow> json \<Rightarrow> string \<Rightarrow> approval_request" where
  "approval_request_new n a p =
     \<lparr>ar_tool_name = n, ar_args = a, ar_prompt = p, ar_diff = None, ar_estimated_cost = None\<rparr>"

record agent_thread =
  tid :: string
  status :: thread_status
  phase :: phase
  conversation :: conversation
  ctx :: context_manager
  turn_no :: u32
  iterations :: u32
  max_turns :: u32
  max_iterations :: u32
  yolo_mode :: bool
  parent_thread_id :: "string option"
  budget :: budget_guard

definition thread_new :: "string \<Rightarrow> u32 \<Rightarrow> u32 \<Rightarrow> bool \<Rightarrow> agent_thread" where
  "thread_new i mt mi yolo =
     \<lparr>tid = i, status = Idle, phase = Plan, conversation = conversation_new,
      ctx = context_new 128000, turn_no = 0, iterations = 0, max_turns = mt, max_iterations = mi,
      yolo_mode = yolo, parent_thread_id = None, budget = budget_new None yolo\<rparr>"

definition enter_act_phase :: "agent_thread \<Rightarrow> agent_thread" where
  "enter_act_phase t = t\<lparr>phase := Act\<rparr>"

definition add_message :: "message \<Rightarrow> agent_thread \<Rightarrow> agent_thread" where
  "add_message m t = t\<lparr>ctx := context_add m (ctx t)\<rparr>"

section \<open>Doom loops\<close>

fun block_signature :: "(json \<Rightarrow> string) \<Rightarrow> content_block \<Rightarrow> string option" where
  "block_signature dbg (ToolCall _ n a) = Some (n @ ''|'' @ dbg a)"
| "block_signature dbg _ = None"

definition message_signature :: "(json \<Rightarrow> string) \<Rightarrow> message \<Rightarrow> string option" where
  "message_signature dbg m =
     (if is_tool_call m then find_map (block_signature dbg) (content m) else None)"

fun block_error :: "content_block \<Rightarrow> bool option" where
  "block_error (ToolResultBlock _ _ e) = Some (case e of None \<Rightarrow> False | Some b \<Rightarrow> b)"
| "block_error _ = None"

definition message_error :: "message \<Rightarrow> bool option" where
  "message_error m = (if role m = RTool then find_map block_error (content m) else None)"

text \<open>\<open>slice::windows(3)\<close>, all of them constant.\<close>

fun windows3_constant :: "'a list \<Rightarrow> bool" where
  "windows3_constant (x # y # z # zs) = (x = y \<and> y = z \<and> windows3_constant (y # z # zs))"
| "windows3_constant _ = True"

definition is_doom_loop :: "(json \<Rightarrow> string) \<Rightarrow> agent_thread \<Rightarrow> bool" where
  "is_doom_loop dbg t =
     (let msgs = messages (ctx t);
          tool_call_count = length (filter is_tool_call msgs);
          is_all_tool_calls = (20 < tool_call_count \<and> tool_call_count = unat (iterations t));
          is_repeated_tool =
            (if 6 \<le> length msgs then
               (let signatures = List.map_filter (message_signature dbg) (take 6 (rev msgs)) in
                3 \<le> length signatures \<and> windows3_constant signatures)
             else False);
          is_same_tool_result =
            (if 4 \<le> length msgs then
               (let errors = List.map_filter message_error (take 4 (rev msgs)) in
                3 \<le> length errors \<and> list_all (\<lambda>e. e) errors)
             else False)
      in is_all_tool_calls \<or> is_repeated_tool \<or> is_same_tool_result)"

section \<open>Counters and forks\<close>

definition increment_iteration :: "agent_thread \<Rightarrow> agent_thread \<times> bool" where
  "increment_iteration t =
     (let t' = t\<lparr>iterations := iterations t + 1\<rparr> in (t', iterations t' < max_iterations t'))"

definition increment_turn :: "agent_thread \<Rightarrow> agent_thread \<times> bool" where
  "increment_turn t =
     (let t' = t\<lparr>turn_no := turn_no t + 1\<rparr> in (t', turn_no t' < max_turns t'))"

definition with_budget :: "string \<Rightarrow> u32 \<Rightarrow> u32 \<Rightarrow> bool \<Rightarrow> rat option \<Rightarrow> phase \<Rightarrow> agent_thread" where
  "with_budget i mt mi yolo cap p =
     (thread_new i mt mi yolo)\<lparr>budget := budget_new cap yolo, phase := p\<rparr>"

definition with_phase :: "phase \<Rightarrow> agent_thread \<Rightarrow> agent_thread" where
  "with_phase p t = t\<lparr>phase := p\<rparr>"

definition fork :: "string \<Rightarrow> agent_thread \<Rightarrow> agent_thread" where
  "fork i t =
     \<lparr>tid = i, status = Idle, phase = phase t, conversation = conversation t,
      ctx = context_new 128000, turn_no = 0, iterations = 0, max_turns = max_turns t,
      max_iterations = max_iterations t, yolo_mode = yolo_mode t, parent_thread_id = Some (tid t),
      budget = budget_new (cost_cap_usd (budget t)) (auto_approval_enabled (budget t))\<rparr>"

definition fork_at_turn :: "string \<Rightarrow> u32 \<Rightarrow> agent_thread \<Rightarrow> agent_thread" where
  "fork_at_turn i n t =
     \<lparr>tid = i, status = Idle, phase = phase t, conversation = conv_fork_at_turn n (conversation t),
      ctx = context_new 128000, turn_no = 0, iterations = 0, max_turns = max_turns t,
      max_iterations = max_iterations t, yolo_mode = yolo_mode t, parent_thread_id = Some (tid t),
      budget = budget_new (cost_cap_usd (budget t)) (auto_approval_enabled (budget t))\<rparr>"

section \<open>Checkpoints of a thread (pipeline.rs)\<close>

record thread_checkpoint =
  tc_messages :: "message list"
  tc_phase :: phase
  tc_turn :: u32
  tc_iterations :: u32

definition thread_snapshot :: "agent_thread \<Rightarrow> thread_checkpoint" where
  "thread_snapshot t =
     \<lparr>tc_messages = messages (ctx t), tc_phase = phase t, tc_turn = turn_no t,
      tc_iterations = iterations t\<rparr>"

definition thread_restore :: "thread_checkpoint \<Rightarrow> agent_thread \<Rightarrow> agent_thread" where
  "thread_restore k t =
     t\<lparr>ctx := fold context_add (tc_messages k) (context_clear (ctx t)),
       phase := tc_phase k, turn_no := tc_turn k, iterations := tc_iterations k\<rparr>"

section \<open>The iteration budget of a loop\<close>

text \<open>
  Every agent loop ticks a counter first and goes on only if the tick succeeds. The contract:
  a successful tick lowers the number of ticks that are left.
\<close>

definition iter_left :: "agent_thread \<Rightarrow> nat" where
  "iter_left t = unat (max_iterations t) - unat (iterations t + 1)"

locale ticking =
  fixes tick :: "'s \<Rightarrow> 's \<times> bool" and left :: "'s \<Rightarrow> nat"
  assumes tick_left: "snd (tick s) \<Longrightarrow> left (fst (tick s)) < left s"
begin

text \<open>The number of successful ticks in a row.\<close>

fun ticks_from :: "nat \<Rightarrow> 's \<Rightarrow> nat" where
  "ticks_from 0 s = 0"
| "ticks_from (Suc n) s = (if snd (tick s) then Suc (ticks_from n (fst (tick s))) else 0)"

lemma ticks_bounded: "ticks_from n s \<le> left s"
proof (induction n arbitrary: s)
  case (Suc n)
  show ?case
  proof (cases "snd (tick s)")
    case True
    then have "left (fst (tick s)) < left s" by (rule tick_left)
    with Suc [of "fst (tick s)"] True show ?thesis by simp
  qed simp
qed simp

end

lemma iter_left_tick: "snd (increment_iteration t) \<Longrightarrow> iter_left (fst (increment_iteration t)) < iter_left t"
proof -
  assume "snd (increment_iteration t)"
  then have lt: "iterations t + 1 < max_iterations t" by (simp add: increment_iteration_def Let_def)
  then have "unat (iterations t + 1 + 1) = Suc (unat (iterations t + 1))" by (rule unat_suc_bound)
  moreover have "unat (iterations t + 1) < unat (max_iterations t)"
    using lt by (simp add: word_less_nat_alt)
  ultimately show ?thesis by (simp add: iter_left_def increment_iteration_def Let_def)
qed

interpretation iteration: ticking increment_iteration iter_left
  by unfold_locales (rule iter_left_tick)

definition turn_left :: "agent_thread \<Rightarrow> nat" where
  "turn_left t = unat (max_turns t) - unat (turn_no t + 1)"

lemma turn_left_tick: "snd (increment_turn t) \<Longrightarrow> turn_left (fst (increment_turn t)) < turn_left t"
proof -
  assume "snd (increment_turn t)"
  then have lt: "turn_no t + 1 < max_turns t" by (simp add: increment_turn_def Let_def)
  then have "unat (turn_no t + 1 + 1) = Suc (unat (turn_no t + 1))" by (rule unat_suc_bound)
  moreover have "unat (turn_no t + 1) < unat (max_turns t)"
    using lt by (simp add: word_less_nat_alt)
  ultimately show ?thesis by (simp add: turn_left_def increment_turn_def Let_def)
qed

interpretation turn_ticks: ticking increment_turn turn_left
  by unfold_locales (rule turn_left_tick)

section \<open>Lemmas on doom loops\<close>

lemma windows3_constant_iff:
  "windows3_constant xs \<longleftrightarrow> length xs < 3 \<or> (\<forall>x \<in> set xs. x = hd xs)"
proof (induction xs rule: windows3_constant.induct)
  case (1 x y z zs)
  show ?case
  proof (cases zs)
    case Nil
    then show ?thesis by auto
  next
    case (Cons w ws)
    with 1 show ?thesis by auto
  qed
qed auto

lemma map_filter_rev: "List.map_filter f (rev xs) = rev (List.map_filter f xs)"
  by (induction xs) (auto split: option.splits)

lemma last_n_messages: "take n (rev ms) = rev (drop (length ms - n) ms)"
  by (cases "n \<le> length ms") (simp_all add: rev_drop)

lemma doom_repeated:
  "is_doom_loop dbg t" if "6 \<le> length (messages (ctx t))"
    and "3 \<le> length (List.map_filter (message_signature dbg)
           (drop (length (messages (ctx t)) - 6) (messages (ctx t))))"
    and "\<forall>x \<in> set (List.map_filter (message_signature dbg)
           (drop (length (messages (ctx t)) - 6) (messages (ctx t)))). x = s"
proof -
  let ?sig = "List.map_filter (message_signature dbg)
           (drop (length (messages (ctx t)) - 6) (messages (ctx t)))"
  have "hd (rev ?sig) = s" using that(2,3) by (metis (no_types, lifting) hd_in_set list.size(3)
      not_numeral_le_zero rev_is_Nil_conv set_rev)
  then have "windows3_constant (rev ?sig)" using that(3) by (simp add: windows3_constant_iff)
  then show ?thesis using that(1,2)
    by (simp add: is_doom_loop_def Let_def last_n_messages map_filter_rev)
qed

section \<open>Properties\<close>

text \<open>
  True repetition is caught: when the last six messages are three rounds of one tool call
  (same tool, same arguments, whatever the call ids) and its answer, the thread is reported as a
  doom loop, however long the history before them is.
\<close>

theorem doom_loop_repetition:
  assumes "messages (ctx t) =
      pre @ [message_new RAssistant [ToolCall i1 n a], message_new RTool [ToolResultBlock i1 o1 e1],
             message_new RAssistant [ToolCall i2 n a], message_new RTool [ToolResultBlock i2 o2 e2],
             message_new RAssistant [ToolCall i3 n a], message_new RTool [ToolResultBlock i3 o3 e3]]"
  shows "is_doom_loop dbg t"
proof (rule doom_repeated [where s = "n @ ''|'' @ dbg a"])
  show "6 \<le> length (messages (ctx t))" using assms by simp
qed (use assms in \<open>simp_all add: message_signature_def is_tool_call_def message_new_def\<close>)

theorem doom_loop_repetition_witness:
  "is_doom_loop (\<lambda>_. ''{}'') ((thread_new ''t'' 10 10 True)\<lparr>ctx := (context_new 100)\<lparr>messages :=
     [message_new RAssistant [ToolCall ''1'' ''ls'' JNull], message_new RTool [ToolResultBlock ''1'' ''x'' None],
      message_new RAssistant [ToolCall ''2'' ''ls'' JNull], message_new RTool [ToolResultBlock ''2'' ''x'' None],
      message_new RAssistant [ToolCall ''3'' ''ls'' JNull], message_new RTool [ToolResultBlock ''3'' ''x'' None]]\<rparr>\<rparr>)"
  by (rule doom_loop_repetition [where pre = "[]"]) simp

text \<open>
  Three failed results at the end of the history are reported as a doom loop whatever calls
  they answer: one assistant message with three parallel, different calls that all fail is
  enough, without any repetition.
\<close>

lemma doom_loop_one_failing_batch:
  assumes "messages (ctx t) =
      pre @ [m, message_new RTool [ToolResultBlock i1 o1 (Some True)],
             message_new RTool [ToolResultBlock i2 o2 (Some True)],
             message_new RTool [ToolResultBlock i3 o3 (Some True)]]"
    and "role m = RAssistant"
  shows "is_doom_loop dbg t"
  using assms by (simp add: is_doom_loop_def message_error_def message_new_def)

lemma doom_loop_one_failing_batch_example:
  "is_doom_loop (\<lambda>_. ''{}'') ((thread_new ''t'' 10 10 True)\<lparr>ctx := (context_new 100)\<lparr>messages :=
     [message_new RAssistant [ToolCall ''1'' ''read'' JNull, ToolCall ''2'' ''ls'' JNull, ToolCall ''3'' ''grep'' JNull],
      message_new RTool [ToolResultBlock ''1'' ''x'' (Some True)],
      message_new RTool [ToolResultBlock ''2'' ''y'' (Some True)],
      message_new RTool [ToolResultBlock ''3'' ''z'' (Some True)]]\<rparr>\<rparr>)"
  by (rule doom_loop_one_failing_batch [where pre = "[]"]) (simp, simp add: message_new_def)

lemma fold_context_add: "fold context_add ms c = c\<lparr>messages := messages c @ ms\<rparr>"
  by (induction ms arbitrary: c) (simp_all add: context_add_def)

text \<open>
  Restoring a checkpoint undoes every change to the window, the phase and the counters
  since it was taken, whatever happened in between; identity, limits, transcript and spending
  of the thread stay those of the later state, and the compaction and summary counters start
  again at zero.
\<close>

lemma restore_snapshot_thread:
  "thread_snapshot (thread_restore (thread_snapshot t) t') = thread_snapshot t
   \<and> budget (thread_restore (thread_snapshot t) t') = budget t'
   \<and> conversation (thread_restore (thread_snapshot t) t') = conversation t'
   \<and> max_iterations (thread_restore (thread_snapshot t) t') = max_iterations t'
   \<and> compaction_count (ctx (thread_restore (thread_snapshot t) t')) = 0
   \<and> summary_count (ctx (thread_restore (thread_snapshot t) t')) = 0"
  by (simp add: thread_snapshot_def thread_restore_def fold_context_add context_clear_def)

section \<open>Projections\<close>

lemma add_message_sel [thread_simps, simp]:
  "tid (add_message m t) = tid t" "status (add_message m t) = status t"
  "phase (add_message m t) = phase t" "conversation (add_message m t) = conversation t"
  "turn_no (add_message m t) = turn_no t" "iterations (add_message m t) = iterations t"
  "max_turns (add_message m t) = max_turns t" "max_iterations (add_message m t) = max_iterations t"
  "yolo_mode (add_message m t) = yolo_mode t" "budget (add_message m t) = budget t"
  "ctx (add_message m t) = context_add m (ctx t)"
  by (simp_all add: add_message_def)

lemma enter_act_phase_sel [thread_simps, simp]:
  "tid (enter_act_phase t) = tid t" "status (enter_act_phase t) = status t"
  "phase (enter_act_phase t) = Act" "conversation (enter_act_phase t) = conversation t"
  "turn_no (enter_act_phase t) = turn_no t" "iterations (enter_act_phase t) = iterations t"
  "max_turns (enter_act_phase t) = max_turns t" "max_iterations (enter_act_phase t) = max_iterations t"
  "yolo_mode (enter_act_phase t) = yolo_mode t" "budget (enter_act_phase t) = budget t"
  "ctx (enter_act_phase t) = ctx t"
  by (simp_all add: enter_act_phase_def)

end
