(* ===== verification/Approval.thy ===== *)
theory Approval
  imports Thread
begin

text \<open>
  Who may say no to a tool call before it runs: the permission rules and gates of
  \<open>sentinel-core/src/approval.rs\<close>, the policy engines of \<open>sentinel-core/src/event_bus.rs\<close>
  and the interactive gate of \<open>sentinel-cli/src/approval.rs\<close>.

  A gate is a function on the state of the outside world \<open>'w\<close> (a terminal, a script): it
  answers a request and may change that state. \<open>lower\<close> stands for \<open>str::to_lowercase\<close> (the
  Unicode case mapping). A script run is its outcome: it could not be run, it timed out, or it
  printed some bytes.
\<close>

datatype approval_decision =
    Approved
  | Rejected string
  | Modify string json

type_synonym 'w gate = "'w \<Rightarrow> approval_request \<Rightarrow> approval_decision \<times> 'w"

definition auto_approval_gate :: "'w gate" where
  "auto_approval_gate w req = (Approved, w)"

section \<open>Permission rules (approval.rs)\<close>

datatype permission_level = Allow | Ask | Deny

record permission_rule =
  pattern :: string
  level :: permission_level
  reason :: "string option"

record permission_ruleset =
  rules :: "permission_rule list"
  default_level :: permission_level

definition ruleset_new :: "permission_rule list \<Rightarrow> permission_ruleset" where
  "ruleset_new rs = \<lparr>rules = rs, default_level = Ask\<rparr>"

definition glob_match :: "string \<Rightarrow> string \<Rightarrow> bool" where
  "glob_match pat name =
     (if pat = ''*'' \<or> pat = name then True
      else case strip_suffix pat ''*'' of
             Some pre \<Rightarrow> starts_with name pre
           | None \<Rightarrow>
               (case strip_prefix pat ''*'' of
                  Some suf \<Rightarrow> ends_with name suf
                | None \<Rightarrow> False))"

definition rule_for :: "string \<Rightarrow> permission_ruleset \<Rightarrow> permission_rule option" where
  "rule_for name rs = List.find (\<lambda>r. glob_match (pattern r) name) (rules rs)"

definition ruleset_evaluate :: "string \<Rightarrow> permission_ruleset \<Rightarrow> permission_level" where
  "ruleset_evaluate name rs =
     (case rule_for name rs of Some r \<Rightarrow> level r | None \<Rightarrow> default_level rs)"

text \<open>The \<open>[permissions]\<close> section of the configuration file.\<close>

record permission_rule_setting =
  prs_pattern :: string
  prs_level :: string
  prs_reason :: "string option"

record permission_settings =
  ps_rules :: "permission_rule_setting list"
  ps_default_level :: "string option"

definition level_of_string :: "string \<Rightarrow> permission_level" where
  "level_of_string s =
     (if s = ''allow'' then Allow else if s = ''deny'' then Deny else Ask)"

definition ruleset_from_config :: "permission_settings \<Rightarrow> permission_ruleset" where
  "ruleset_from_config st =
     \<lparr>rules = map (\<lambda>r. \<lparr>pattern = prs_pattern r, level = level_of_string (prs_level r),
                        reason = prs_reason r\<rparr>) (ps_rules st),
      default_level = (case ps_default_level st of
                         Some d \<Rightarrow> level_of_string d | None \<Rightarrow> Ask)\<rparr>"

definition ruleset_gate :: "'w gate \<Rightarrow> permission_ruleset \<Rightarrow> 'w gate" where
  "ruleset_gate inner rs w req =
     (case ruleset_evaluate (ar_tool_name req) rs of
        Allow \<Rightarrow> (Approved, w)
      | Deny \<Rightarrow>
          (let r = (case Option.bind (rule_for (ar_tool_name req) rs) reason of
                      Some x \<Rightarrow> x
                    | None \<Rightarrow> ''Tool '' @ [CHR 0x27] @ ar_tool_name req @ [CHR 0x27]
                              @ '' is denied by permission ruleset'')
           in (Rejected r, w))
      | Ask \<Rightarrow> inner w req)"

definition permissions_gate_for :: "permission_settings \<Rightarrow> 'w gate \<Rightarrow> 'w gate" where
  "permissions_gate_for st inner =
     (if ps_rules st = [] \<and> ps_default_level st = None then inner
      else ruleset_gate inner (ruleset_from_config st))"

section \<open>Policy engines (event_bus.rs)\<close>

datatype policy_decision = PAllow | PDeny string | PromptUser

type_synonym 'w policy = "'w \<Rightarrow> string \<Rightarrow> json \<Rightarrow> policy_decision \<times> 'w"

definition allow_all_policy :: "'w policy" where
  "allow_all_policy w n a = (PAllow, w)"

definition safe_policy :: "'w policy" where
  "safe_policy w n a =
     (if n \<in> {''write'', ''edit'', ''bash'', ''git_commit'', ''github''}
      then (PromptUser, w) else (PAllow, w))"

datatype script_run =
    NotRun               \<comment> \<open>the process could not be spawned or awaited\<close>
  | TimedOut
  | Printed string       \<comment> \<open>standard output, invalid UTF-8 already replaced\<close>

definition verdict_line :: "(string \<Rightarrow> string) \<Rightarrow> string \<Rightarrow> string" where
  "verdict_line lower out =
     lower (str_trim (case str_lines out of [] \<Rightarrow> [] | l # _ \<Rightarrow> l))"

definition trim_colons :: "string \<Rightarrow> string" where
  "trim_colons s = dropWhile (\<lambda>c. c = CHR '':'') s"

text \<open>How \<open>ScriptPolicyEngine::evaluate\<close> reads the run of its script; \<open>timeout_text\<close> is the
  \<open>Debug\<close> rendering of the configured duration.\<close>

definition script_policy_decision ::
    "(string \<Rightarrow> string) \<Rightarrow> string \<Rightarrow> script_run \<Rightarrow> policy_decision" where
  "script_policy_decision lower timeout_text run =
     (case run of
        Printed out \<Rightarrow>
          (let line = verdict_line lower out in
           if line = ''allow'' then PAllow
           else case strip_prefix line ''deny'' of
                  Some rest \<Rightarrow>
                    (let r = str_trim (trim_colons (str_trim rest)) in
                     PDeny (if r = [] then ''denied by policy script'' else r))
                | None \<Rightarrow>
                    (if line = ''ask'' \<or> line = ''prompt'' then PromptUser
                     else PDeny (''policy script returned unrecognized verdict '' @ [CHR 0x27]
                                 @ line @ [CHR 0x27])))
      | NotRun \<Rightarrow> PDeny ''policy script failed to run''
      | TimedOut \<Rightarrow> PDeny (''policy script timed out after '' @ timeout_text))"

text \<open>\<open>sh\<close> runs a command line with some bytes on its standard input, \<open>ser\<close> is the JSON
  serialisation of the arguments.\<close>

definition script_policy ::
    "(string \<Rightarrow> string) \<Rightarrow> (json \<Rightarrow> string) \<Rightarrow> string \<Rightarrow> ('w \<Rightarrow> string \<Rightarrow> string \<Rightarrow> script_run \<times> 'w)
       \<Rightarrow> string \<Rightarrow> 'w policy" where
  "script_policy lower ser timeout_text sh command w tool_name args =
     (case sh w command (tool_name @ LF @ ser args @ LF) of
        (run, w') \<Rightarrow> (script_policy_decision lower timeout_text run, w'))"

section \<open>The interactive gate (sentinel-cli/src/approval.rs)\<close>

text \<open>
  The terminal is the list of the lines that standard input still holds; at the end of the
  list every read returns 0 bytes. A rejection reason is one more line.
\<close>

definition inquire_reason :: "string list \<Rightarrow> string \<times> string list" where
  "inquire_reason ls =
     (case ls of
        [] \<Rightarrow> (''stdin closed (EOF)'', [])
      | l # rest \<Rightarrow> (str_trim l, rest))"

fun prompt_user :: "(string \<Rightarrow> string) \<Rightarrow> string list \<Rightarrow> approval_decision \<times> string list" where
  "prompt_user lower [] = (Rejected ''stdin closed (EOF)'', [])"
| "prompt_user lower (l # ls) =
     (let input = lower (str_trim l) in
      if input \<in> {'''', ''y'', ''yes''} then (Approved, ls)
      else if input \<in> {''n'', ''no''} then
        (case inquire_reason ls of (r, ls') \<Rightarrow> (Rejected r, ls'))
      else if input \<in> {''e'', ''edit''} then (Rejected ''user chose to edit'', ls)
      else if input \<in> {''s'', ''skip''} then (Rejected ''all skipped'', ls)
      else prompt_user lower ls)"

definition cli_gate :: "(string \<Rightarrow> string) \<Rightarrow> (string list) gate" where
  "cli_gate lower ls req = prompt_user lower ls"

section \<open>Lemmas\<close>

lemma glob_match_iff:
  "glob_match pat name \<longleftrightarrow>
     pat = name \<or> (\<exists>pre. pat = pre @ ''*'' \<and> prefix pre name) \<or>
     (\<exists>suf. pat = ''*'' @ suf \<and> \<not> suffix ''*'' pat \<and> suffix suf name)"
proof -
  have sfx: "strip_suffix pat ''*'' = Some pre \<longleftrightarrow> pat = pre @ ''*''" for pre
    by (cases pat rule: rev_cases) (auto simp: strip_suffix_def ends_with_suffix suffix_def)
  have none: "strip_suffix pat ''*'' = None \<longleftrightarrow> \<not> suffix ''*'' pat"
    by (simp add: strip_suffix_def ends_with_suffix)
  have pfx: "strip_prefix pat ''*'' = Some suf \<longleftrightarrow> pat = ''*'' @ suf" for suf
    by (cases pat) (auto simp: strip_prefix_def starts_with_def)
  show ?thesis
  proof (cases "pat = ''*'' \<or> pat = name")
    case True
    then show ?thesis by (auto simp: glob_match_def)
  next
    case False
    show ?thesis
    proof (cases "strip_suffix pat ''*''")
      case None
      then have "\<not> suffix ''*'' pat" by (simp add: none)
      then have "glob_match pat name \<longleftrightarrow> (\<exists>suf. strip_prefix pat ''*'' = Some suf \<and> suffix suf name)"
        using False None by (auto simp: glob_match_def ends_with_suffix split: option.splits)
      with \<open>\<not> suffix ''*'' pat\<close> False show ?thesis unfolding pfx by (auto simp: suffix_def)
    next
      case (Some pre)
      then have "pat = pre @ ''*''" by (simp add: sfx)
      with False Some show ?thesis
        by (auto simp: glob_match_def starts_with_prefix suffix_def)
    qed
  qed
qed

lemma find_first:
  "P r \<Longrightarrow> \<forall>x \<in> set before. \<not> P x \<Longrightarrow> List.find P (before @ r # after) = Some r"
  by (induction before) auto

lemma rule_for_first:
  "rule_for name rs = Some r \<Longrightarrow>
     \<exists>before after. rules rs = before @ r # after \<and> glob_match (pattern r) name
       \<and> (\<forall>r' \<in> set before. \<not> glob_match (pattern r') name)"
  unfolding rule_for_def find_Some_iff
  by (metis id_take_nth_drop in_set_conv_nth length_take less_imp_le min.absorb2 nth_take)

section \<open>Properties\<close>

text \<open>
  The permission gate: the first rule in declaration order whose pattern matches the tool
  decides. If it says deny, the call is rejected with that rule's reason and the inner gate is
  never asked (the world is unchanged), also when auto-approving; if it says allow, the call is
  approved without asking; only an ask rule reaches the inner gate.
\<close>

theorem ruleset_gate_first_match:
  assumes "rules rs = before @ r # after" and "glob_match (pattern r) (ar_tool_name req)"
    and "\<forall>r' \<in> set before. \<not> glob_match (pattern r') (ar_tool_name req)"
  shows "(level r = Deny \<longrightarrow> (\<exists>why. ruleset_gate inner rs w req = (Rejected why, w)
            \<and> (\<forall>x. reason r = Some x \<longrightarrow> why = x)))
    \<and> (level r = Allow \<longrightarrow> ruleset_gate inner rs w req = (Approved, w))
    \<and> (level r = Ask \<longrightarrow> ruleset_gate inner rs w req = inner w req)"
proof -
  have "rule_for (ar_tool_name req) rs = Some r"
    using assms by (simp add: rule_for_def find_first)
  then show ?thesis by (auto simp: ruleset_gate_def ruleset_evaluate_def)
qed

theorem ruleset_gate_first_match_witness:
  "ruleset_gate auto_approval_gate
     (ruleset_new [\<lparr>pattern = ''git_*'', level = Deny, reason = Some ''no git''\<rparr>,
                   \<lparr>pattern = ''*'', level = Allow, reason = None\<rparr>])
     () (approval_request_new ''git_commit'' JNull ''p'')
   = (Rejected ''no git'', ())"
proof -
  let ?r = "\<lparr>pattern = ''git_*'', level = Deny, reason = Some ''no git''\<rparr>"
  let ?rs = "ruleset_new [?r, \<lparr>pattern = ''*'', level = Allow, reason = None\<rparr>]"
  let ?req = "approval_request_new ''git_commit'' JNull ''p''"
  have "rules ?rs = [] @ ?r # [\<lparr>pattern = ''*'', level = Allow, reason = None\<rparr>]"
    by (simp add: ruleset_new_def)
  moreover have "glob_match (pattern ?r) (ar_tool_name ?req)"
    by (simp add: approval_request_new_def glob_match_def strip_suffix_def ends_with_def starts_with_def)
  ultimately show ?thesis
    using ruleset_gate_first_match [of ?rs "[]" ?r _ ?req auto_approval_gate "()"] by auto
qed

text \<open>
  The script policy fails closed: a call is allowed without asking exactly when the script
  ran to the end in time and the first line it printed, trimmed and lowered, is \<open>allow\<close>; the
  user is asked exactly for \<open>ask\<close> and \<open>prompt\<close>; everything else, including every failure to run
  and every timeout, is a denial.
\<close>

theorem script_policy_fails_closed:
  "(script_policy_decision lower tt run = PAllow \<longleftrightarrow>
      (\<exists>out. run = Printed out \<and> verdict_line lower out = ''allow''))
   \<and> (script_policy_decision lower tt run = PromptUser \<longleftrightarrow>
      (\<exists>out. run = Printed out \<and> verdict_line lower out \<in> {''ask'', ''prompt''}))
   \<and> ((\<exists>why. script_policy_decision lower tt run = PDeny why) \<longleftrightarrow>
      \<not> (\<exists>out. run = Printed out \<and> verdict_line lower out \<in> {''allow'', ''ask'', ''prompt''}))"
  by (cases run)
    (auto simp: script_policy_decision_def Let_def strip_prefix_def starts_with_def split: option.splits)

definition understood :: "(string \<Rightarrow> string) \<Rightarrow> string \<Rightarrow> bool" where
  "understood lower l \<longleftrightarrow>
     lower (str_trim l) \<in> {'''', ''y'', ''yes'', ''n'', ''no'', ''e'', ''edit'', ''s'', ''skip''}"

text \<open>
  The interactive gate fails closed and asks until it understands: on input with no
  understood answer left it rejects, and it approves exactly when the first line that is one of
  the understood answers is an approving one (an empty line counts as yes).
\<close>

theorem prompt_user_approves_iff:
  "fst (prompt_user lower ls) = Approved \<longleftrightarrow>
     (\<exists>l. List.find (understood lower) ls = Some l \<and> lower (str_trim l) \<in> {'''', ''y'', ''yes''})"
  by (induction ls) (auto simp: understood_def Let_def split: prod.splits)

text \<open>
  The answer \<open>s\<close> (\<open>skip\<close>) rejects one call only: the gate keeps no state, and the next request
  reads the terminal again and can be approved.
\<close>

lemma skip_all_skips_one:
  "let (d, rest) = cli_gate (\<lambda>s. s) [''s'', ''y''] r1; (d', _) = cli_gate (\<lambda>s. s) rest r2
   in d = Rejected ''all skipped'' \<and> d' = Approved"
  by (simp add: cli_gate_def str_trim_def is_ws_char_def is_cont_byte_def Let_def)

text \<open>The policy that is meant to hold back mutating tools lets the shell, patch and undo tools
  pass without a prompt; the name \<open>bash\<close> it lists is the name of no built-in tool.\<close>

lemma safe_policy_allows_shell:
  "safe_policy w ''run_shell_command'' a = (PAllow, w)" "safe_policy w ''apply_patch'' a = (PAllow, w)"
  "safe_policy w ''patch'' a = (PAllow, w)" "safe_policy w ''undo'' a = (PAllow, w)"
  by (simp_all add: safe_policy_def)

end
