(* ===== verification/Plugins.thy ===== *)
theory Plugins
  imports Approval
begin

text \<open>
  Plugins (\<open>sentinel-plugin-system\<close>): the events and actions of \<open>plugin.rs\<close>, the registry of
  \<open>registry.rs\<close>, the builder of \<open>host.rs\<close> and the script-backed plugins of \<open>script.rs\<close>.

  A hook is a function on the state \<open>'w\<close> of the outside world. Parameters stand for what is
  outside the repository: \<open>lower\<close> for \<open>str::to_lowercase\<close>, \<open>ser\<close> for the JSON serialisation of an
  event, \<open>sh\<close> for running a command line with some bytes on its standard input, \<open>exists\<close> for
  the existence of a path. The model is the one of Unix (\<open>cfg(not(target_os = "windows"))\<close>).
\<close>

section \<open>Events, actions and plugins (plugin.rs)\<close>

record plugin_manifest =
  pm_id :: string
  pm_name :: string
  pm_version :: string
  pm_description :: string
  pm_author :: "string option"
  pm_homepage :: "string option"

datatype plugin_event =
    BeforeToolCall string json                   \<comment> \<open>tool_name, args\<close>
  | AfterToolCall string json string bool         \<comment> \<open>tool_name, args, result, is_error\<close>
  | BeforeModelRequest string u32
  | AfterModelResponse string u32
  | SessionCreated string
  | SessionEnded string
  | Custom string json

datatype plugin_action =
    PContinue
  | PVeto string
  | PDenyRun string       \<comment> \<open>\<open>PluginAction::Deny\<close>\<close>
  | PModify json

type_synonym 'w hook = "'w \<Rightarrow> plugin_event \<Rightarrow> plugin_action \<times> 'w"

text \<open>
  The implementations of the trait \<open>Plugin\<close>: the two of the crate, which keep the default
  \<open>init\<close> and \<open>shutdown\<close>, and any other one, given by its methods. \<open>hooks()\<close> of a script plugin
  drains the hooks, so the second call returns none.
\<close>

datatype 'w plugin =
    BuiltinPlugin plugin_manifest
  | ScriptPlugin plugin_manifest "'w hook list"
  | OtherPlugin plugin_manifest "'w \<Rightarrow> (string + unit) \<times> 'w" "'w \<Rightarrow> (string + unit) \<times> 'w"
      "'w hook list"

fun manifest :: "'w plugin \<Rightarrow> plugin_manifest" where
  "manifest (BuiltinPlugin m) = m"
| "manifest (ScriptPlugin m _) = m"
| "manifest (OtherPlugin m _ _ _) = m"

fun plugin_init :: "'w plugin \<Rightarrow> 'w \<Rightarrow> (string + unit) \<times> 'w" where
  "plugin_init (OtherPlugin _ i _ _) w = i w"
| "plugin_init _ w = (Inr (), w)"

fun plugin_shutdown :: "'w plugin \<Rightarrow> 'w \<Rightarrow> (string + unit) \<times> 'w" where
  "plugin_shutdown (OtherPlugin _ _ s _) w = s w"
| "plugin_shutdown _ w = (Inr (), w)"

fun plugin_hooks :: "'w plugin \<Rightarrow> 'w hook list \<times> 'w plugin" where
  "plugin_hooks (BuiltinPlugin m) = ([], BuiltinPlugin m)"
| "plugin_hooks (ScriptPlugin m hs) = (hs, ScriptPlugin m [])"
| "plugin_hooks (OtherPlugin m i s hs) = (hs, OtherPlugin m i s hs)"

section \<open>The registry (registry.rs)\<close>

record 'w plugin_registry =
  reg_plugins :: "string \<rightharpoonup> 'w plugin"
  reg_hooks :: "(string \<times> 'w hook) list"

definition registry_new :: "'w plugin_registry" where
  "registry_new = \<lparr>reg_plugins = Map.empty, reg_hooks = []\<rparr>"

definition register ::
    "'w plugin_registry \<Rightarrow> 'w plugin \<Rightarrow> 'w \<Rightarrow> (string + unit) \<times> 'w plugin_registry \<times> 'w" where
  "register reg p w =
     (let i = pm_id (manifest p) in
      case plugin_init p w of
        (Inl e, w') \<Rightarrow> (Inl e, reg, w')
      | (Inr _, w') \<Rightarrow>
          (let (hs, p') = plugin_hooks p in
           (Inr (), \<lparr>reg_plugins = (reg_plugins reg)(i \<mapsto> p'),
                     reg_hooks = reg_hooks reg @ map (Pair i) hs\<rparr>, w')))"

definition retain_other_hooks :: "string \<Rightarrow> 'w plugin_registry \<Rightarrow> 'w plugin_registry" where
  "retain_other_hooks i reg = reg\<lparr>reg_hooks := filter (\<lambda>(pid, _). pid \<noteq> i) (reg_hooks reg)\<rparr>"

definition unregister ::
    "'w plugin_registry \<Rightarrow> string \<Rightarrow> 'w \<Rightarrow> (string + unit) \<times> 'w plugin_registry \<times> 'w" where
  "unregister reg i w =
     (let reg' = reg\<lparr>reg_plugins := (reg_plugins reg)(i := None)\<rparr> in
      case reg_plugins reg i of
        None \<Rightarrow> (Inr (), retain_other_hooks i reg', w)
      | Some p \<Rightarrow>
          (case plugin_shutdown p w of
             (Inl e, w') \<Rightarrow> (Inl e, reg', w')
           | (Inr _, w') \<Rightarrow> (Inr (), retain_other_hooks i reg', w')))"

fun dispatch_hooks ::
    "(string \<times> 'w hook) list \<Rightarrow> plugin_action \<Rightarrow> 'w \<Rightarrow> plugin_event \<Rightarrow> plugin_action \<times> 'w" where
  "dispatch_hooks [] last_action w e = (last_action, w)"
| "dispatch_hooks ((_, h) # hs) last_action w e =
     (case h w e of
        (PContinue, w') \<Rightarrow> dispatch_hooks hs last_action w' e
      | (PDenyRun r, w') \<Rightarrow> (PDenyRun r, w')
      | (PVeto r, w') \<Rightarrow> (PVeto r, w')
      | (PModify v, w') \<Rightarrow> dispatch_hooks hs (PModify v) w' e)"

definition dispatch :: "'w plugin_registry \<Rightarrow> 'w \<Rightarrow> plugin_event \<Rightarrow> plugin_action \<times> 'w" where
  "dispatch reg w e = dispatch_hooks (reg_hooks reg) PContinue w e"

definition list_plugins :: "'w plugin_registry \<Rightarrow> string set" where
  "list_plugins reg = dom (reg_plugins reg)"

definition plugin_count :: "'w plugin_registry \<Rightarrow> nat" where
  "plugin_count reg = card (list_plugins reg)"

section \<open>The builder (host.rs)\<close>

record 'w plugin_builder =
  pb_manifest :: plugin_manifest
  pb_hooks :: "'w hook list"

definition plugin_builder_new :: "string \<Rightarrow> string \<Rightarrow> string \<Rightarrow> 'w plugin_builder" where
  "plugin_builder_new i n v =
     \<lparr>pb_manifest = \<lparr>pm_id = i, pm_name = n, pm_version = v, pm_description = [],
                     pm_author = None, pm_homepage = None\<rparr>,
      pb_hooks = []\<rparr>"

definition pb_description :: "'w plugin_builder \<Rightarrow> string \<Rightarrow> 'w plugin_builder" where
  "pb_description b d = b\<lparr>pb_manifest := (pb_manifest b)\<lparr>pm_description := d\<rparr>\<rparr>"

definition pb_author :: "'w plugin_builder \<Rightarrow> string \<Rightarrow> 'w plugin_builder" where
  "pb_author b a = b\<lparr>pb_manifest := (pb_manifest b)\<lparr>pm_author := Some a\<rparr>\<rparr>"

definition pb_on :: "'w plugin_builder \<Rightarrow> 'w hook \<Rightarrow> 'w plugin_builder" where
  "pb_on b h = b\<lparr>pb_hooks := pb_hooks b @ [h]\<rparr>"

definition fn_hook :: "(plugin_event \<Rightarrow> plugin_action) \<Rightarrow> 'w hook" where
  "fn_hook f w e = (f e, w)"

definition pb_on_event :: "'w plugin_builder \<Rightarrow> (plugin_event \<Rightarrow> plugin_action) \<Rightarrow> 'w plugin_builder" where
  "pb_on_event b f = b\<lparr>pb_hooks := pb_hooks b @ [fn_hook f]\<rparr>"

definition pb_build :: "'w plugin_builder \<Rightarrow> 'w plugin" where
  "pb_build b = BuiltinPlugin (pb_manifest b)"

definition into_hooks :: "'w plugin_builder \<Rightarrow> 'w hook list" where
  "into_hooks b = pb_hooks b"

section \<open>Script plugins (script.rs)\<close>

record hook_map =
  hm_before_tool_call :: "string option"
  hm_after_tool_call :: "string option"
  hm_before_model_request :: "string option"
  hm_after_model_response :: "string option"
  hm_session_created :: "string option"
  hm_session_ended :: "string option"

record plugin_file_manifest =
  pf_manifest :: plugin_manifest
  pf_hooks :: hook_map

record script_hook =
  sh_command :: string
  sh_event :: string

fun event_key :: "plugin_event \<Rightarrow> string" where
  "event_key (BeforeToolCall _ _) = ''before_tool_call''"
| "event_key (AfterToolCall _ _ _ _) = ''after_tool_call''"
| "event_key (BeforeModelRequest _ _) = ''before_model_request''"
| "event_key (AfterModelResponse _ _) = ''after_model_response''"
| "event_key (SessionCreated _) = ''session_created''"
| "event_key (SessionEnded _) = ''session_ended''"
| "event_key (Custom _ _) = ''custom''"

fun event_tool_name :: "plugin_event \<Rightarrow> string" where
  "event_tool_name (BeforeToolCall n _) = n"
| "event_tool_name (AfterToolCall n _ _ _) = n"
| "event_tool_name _ = []"

text \<open>\<open>split_once(char::is_whitespace)\<close>, of which the code uses the second half.\<close>

definition after_first_ws :: "string \<Rightarrow> string option" where
  "after_first_ws s =
     (case dropWhile (\<lambda>u. \<not> is_ws_char u) (utf8_chars s) of
        [] \<Rightarrow> None | _ # us \<Rightarrow> Some (concat us))"

definition verdict_reason :: "string \<Rightarrow> string \<Rightarrow> string" where
  "verdict_reason line dflt =
     (case map_option str_trim (after_first_ws line) of
        Some r \<Rightarrow> if r = [] then dflt else r
      | None \<Rightarrow> dflt)"

definition script_verdict :: "(string \<Rightarrow> string) \<Rightarrow> script_run \<Rightarrow> plugin_action" where
  "script_verdict lower run =
     (case run of
        Printed out \<Rightarrow>
          (let line = verdict_line lower out in
           if starts_with line ''deny'' then PDenyRun (verdict_reason line ''denied by plugin script'')
           else if starts_with line ''veto'' then PVeto (verdict_reason line ''vetoed by plugin script'')
           else PContinue)
      | _ \<Rightarrow> PContinue)"

definition script_hook_handle ::
    "(string \<Rightarrow> string) \<Rightarrow> (plugin_event \<Rightarrow> string) \<Rightarrow> ('w \<Rightarrow> string \<Rightarrow> string \<Rightarrow> script_run \<times> 'w)
       \<Rightarrow> script_hook \<Rightarrow> 'w hook" where
  "script_hook_handle lower ser sh h w e =
     (if event_key e \<noteq> sh_event h then (PContinue, w)
      else
        let cmd = sh_command h @ '' '' @ sh_event h @ '' '' @ event_tool_name e;
            (run, w') = sh w cmd (ser e)
        in (script_verdict lower run, w'))"

definition resolve_command :: "(string \<Rightarrow> bool) \<Rightarrow> string \<Rightarrow> string option \<Rightarrow> string option" where
  "resolve_command exists dir cmd =
     map_option (\<lambda>c. if is_absolute c \<or> exists c then c else path_join dir c) cmd"

definition hook_commands :: "hook_map \<Rightarrow> (string \<times> string option) list" where
  "hook_commands m =
     [(''before_tool_call'', hm_before_tool_call m),
      (''after_tool_call'', hm_after_tool_call m),
      (''before_model_request'', hm_before_model_request m),
      (''after_model_response'', hm_after_model_response m),
      (''session_created'', hm_session_created m),
      (''session_ended'', hm_session_ended m)]"

text \<open>\<open>load\<close> is the reading and TOML parsing of \<open>sentinel-plugin.toml\<close> in a directory.\<close>

definition script_hooks :: "(string \<Rightarrow> bool) \<Rightarrow> string \<Rightarrow> hook_map \<Rightarrow> script_hook list" where
  "script_hooks exists dir m =
     List.map_filter (\<lambda>(ev, cmd).
        map_option (\<lambda>c. \<lparr>sh_command = c, sh_event = ev\<rparr>) (resolve_command exists dir cmd))
       (hook_commands m)"

definition load_plugin_dir ::
    "(script_hook \<Rightarrow> 'w hook) \<Rightarrow> (string \<Rightarrow> bool) \<Rightarrow> (string \<Rightarrow> string + plugin_file_manifest)
       \<Rightarrow> string \<Rightarrow> string + 'w plugin" where
  "load_plugin_dir handle exists load dir =
     (case load dir of
        Inl e \<Rightarrow> Inl e
      | Inr f \<Rightarrow> Inr (ScriptPlugin (pf_manifest f) (map handle (script_hooks exists dir (pf_hooks f)))))"

text \<open>\<open>entries\<close> are the paths \<open>read_dir\<close> yields, \<open>None\<close> when the directory cannot be read.\<close>

definition load_plugins_dir ::
    "(script_hook \<Rightarrow> 'w hook) \<Rightarrow> (string \<Rightarrow> bool) \<Rightarrow> (string \<Rightarrow> bool)
       \<Rightarrow> (string \<Rightarrow> string + plugin_file_manifest) \<Rightarrow> string list option \<Rightarrow> 'w plugin list" where
  "load_plugins_dir handle exists is_dir load entries =
     (case entries of
        None \<Rightarrow> []
      | Some ps \<Rightarrow>
          List.map_filter (\<lambda>path.
            if is_dir path \<and> exists (path_join path ''sentinel-plugin.toml'')
            then (case load_plugin_dir handle exists load path of
                    Inr p \<Rightarrow> Some p | Inl _ \<Rightarrow> None)
            else None) ps)"

section \<open>What a dispatch amounts to\<close>

fun blocking :: "plugin_action \<Rightarrow> bool" where
  "blocking (PVeto _) = True"
| "blocking (PDenyRun _) = True"
| "blocking _ = False"

text \<open>The specification: all hooks asked in order, and the last modification among the answers.\<close>

fun ask_hooks :: "(string \<times> 'w hook) list \<Rightarrow> 'w \<Rightarrow> plugin_event \<Rightarrow> plugin_action list \<times> 'w" where
  "ask_hooks [] w e = ([], w)"
| "ask_hooks ((_, h) # hs) w e =
     (let (a, w') = h w e; (as, w'') = ask_hooks hs w' e in (a # as, w''))"

definition last_modify :: "plugin_action \<Rightarrow> plugin_action list \<Rightarrow> plugin_action" where
  "last_modify d as = fold (\<lambda>a l. case a of PModify v \<Rightarrow> PModify v | _ \<Rightarrow> l) as d"

lemma dispatch_hooks_no_block:
  "ask_hooks hs w e = (as, w') \<Longrightarrow> list_all (\<lambda>a. \<not> blocking a) as \<Longrightarrow>
     dispatch_hooks (hs @ hs') d w e = dispatch_hooks hs' (last_modify d as) w' e"
proof (induction hs arbitrary: d w as)
  case Nil
  then show ?case by (simp add: last_modify_def)
next
  case (Cons ph hs)
  obtain i h where ph: "ph = (i, h)" by (cases ph)
  obtain a w1 where a: "h w e = (a, w1)" by (cases "h w e")
  obtain bs w2 where bs: "ask_hooks hs w1 e = (bs, w2)" by (cases "ask_hooks hs w1 e")
  from Cons.prems have as: "as = a # bs" "w' = w2" by (auto simp: ph a bs)
  have "dispatch_hooks (hs @ hs') d' w1 e = dispatch_hooks hs' (last_modify d' bs) w2 e" for d'
    using Cons.prems(2) by (intro Cons.IH [of w1 bs, unfolded as(2)]) (simp_all add: as bs)
  then show ?case using Cons.prems(2) by (cases a) (auto simp: ph a as last_modify_def)
qed

lemma dispatch_hooks_block:
  assumes "ask_hooks before w e = (as, w1)" "list_all (\<lambda>a. \<not> blocking a) as"
    "h w1 e = (a, w2)" "blocking a"
  shows "dispatch_hooks (before @ (i, h) # after) d w e = (a, w2)"
  using assms by (cases a) (simp_all add: dispatch_hooks_no_block)

section \<open>Properties\<close>

text \<open>
  An event reaches the hooks in registration order. The first hook that vetoes or denies
  decides: its action is the result, and no later hook runs. If none blocks, the result is the
  last modification, or \<open>Continue\<close>. (The comment of \<open>dispatch\<close> says that a deny outranks a
  veto; an earlier veto hides a later deny.)
\<close>

theorem dispatch_first_blocking:
  assumes "reg_hooks reg = before @ (i, h) # after"
    and "ask_hooks before w e = (as, w1)" and "list_all (\<lambda>a. \<not> blocking a) as"
    and "h w1 e = (a, w2)"
  shows "dispatch reg w e =
     (if blocking a then (a, w2)
      else dispatch_hooks after (last_modify PContinue (as @ [a])) w2 e)"
proof (cases "blocking a")
  case True
  with assms show ?thesis by (simp add: dispatch_def dispatch_hooks_block)
next
  case False
  then show ?thesis using assms
    by (cases a) (simp_all add: dispatch_def dispatch_hooks_no_block last_modify_def)
qed

theorem dispatch_first_blocking_witness:
  "dispatch \<lparr>reg_plugins = Map.empty,
             reg_hooks = [(''m'', fn_hook (\<lambda>_. PModify JNull)), (''v'', fn_hook (\<lambda>_. PVeto ''no'')),
                          (''d'', fn_hook (\<lambda>_. PDenyRun ''stop''))]\<rparr> () (SessionCreated ''s'')
   = (PVeto ''no'', ())"
proof -
  let ?reg = "\<lparr>reg_plugins = Map.empty,
      reg_hooks = [(''m'', fn_hook (\<lambda>_. PModify JNull)), (''v'', fn_hook (\<lambda>_. PVeto ''no'')),
                   (''d'', fn_hook (\<lambda>_. PDenyRun ''stop''))]\<rparr> :: unit plugin_registry"
  show ?thesis
    using dispatch_first_blocking [of ?reg "[(''m'', fn_hook (\<lambda>_. PModify JNull))]" "''v''"
        "fn_hook (\<lambda>_. PVeto ''no'')" "[(''d'', fn_hook (\<lambda>_. PDenyRun ''stop''))]" "()"
        "SessionCreated ''s''" "[PModify JNull]" "()" "PVeto ''no''" "()"]
    by (simp add: fn_hook_def)
qed

text \<open>
  A script hook fails open: it blocks an event only if the event is the one the hook was
  registered for, and the script ran in time and printed a first line that starts with \<open>deny\<close>
  or \<open>veto\<close>; a script that cannot run, times out or prints anything else lets the event pass.
  The verdict is read for every event, not for \<open>before_tool_call\<close> only, and a \<open>deny\<close> line is a
  denial (which ends the agent run), not the veto the doc comment of \<open>ScriptHook\<close> promises.
\<close>

theorem script_hook_blocks_iff:
  "blocking (fst (script_hook_handle lower ser sh h w e)) \<longleftrightarrow>
     event_key e = sh_event h \<and>
     (\<exists>out. fst (sh w (sh_command h @ '' '' @ sh_event h @ '' '' @ event_tool_name e) (ser e)) = Printed out
        \<and> (prefix ''deny'' (verdict_line lower out) \<or> prefix ''veto'' (verdict_line lower out)))"
  by (auto simp: script_hook_handle_def script_verdict_def starts_with_prefix Let_def
      split: prod.splits script_run.splits)

text \<open>
  Unregistering: on success no hook of the plugin is left and every other hook is, in
  order; when the plugin's shutdown fails, the plugin is gone from the listing but all its
  hooks stay and go on deciding events.
\<close>

lemma unregister_result:
  assumes "unregister reg i w = (res, reg', w')"
  shows "i \<notin> list_plugins reg' \<and>
    (case res of
       Inr _ \<Rightarrow> reg_hooks reg' = filter (\<lambda>(p, _). p \<noteq> i) (reg_hooks reg)
     | Inl _ \<Rightarrow> reg_hooks reg' = reg_hooks reg)"
  using assms
  by (auto simp: unregister_def retain_other_hooks_def list_plugins_def Let_def
      split: option.splits prod.splits sum.splits)

lemma unregister_result_example:
  "let m = \<lparr>pm_id = ''p'', pm_name = [], pm_version = [], pm_description = [],
            pm_author = None, pm_homepage = None\<rparr>;
       p = OtherPlugin m (\<lambda>w. (Inr (), w)) (\<lambda>w. (Inl ''busy'', w)) [fn_hook (\<lambda>_. PVeto ''no'')];
       (_, reg, w) = register registry_new p ();
       (r, reg', w') = unregister reg ''p'' w
   in r = Inl ''busy'' \<and> ''p'' \<notin> list_plugins reg'
      \<and> fst (dispatch reg' w' (SessionCreated ''s'')) = PVeto ''no''"
proof -
  define m where "m = \<lparr>pm_id = ''p'', pm_name = [], pm_version = [], pm_description = [],
            pm_author = None, pm_homepage = None\<rparr>"
  define p where "p = (OtherPlugin m (\<lambda>w. (Inr (), w)) (\<lambda>w. (Inl ''busy'', w))
                         [fn_hook (\<lambda>_. PVeto ''no'')] :: unit plugin)"
  define reg where "reg = fst (snd (register registry_new p ()))"
  have "unregister reg ''p'' () =
          (Inl ''busy'', \<lparr>reg_plugins = Map.empty, reg_hooks = [(''p'', fn_hook (\<lambda>_. PVeto ''no''))]\<rparr>, ())"
    by (simp add: reg_def p_def m_def register_def registry_new_def unregister_def Let_def)
  from this unregister_result [OF this] show ?thesis
    by (simp add: reg_def p_def m_def register_def registry_new_def dispatch_def fn_hook_def
        Let_def)
qed

text \<open>
  A plugin made by the builder has none of the hooks given to the builder: registering it adds
  no hook.
\<close>

lemma built_plugin_has_no_hooks:
  "register reg (pb_build (pb_on_event b f)) w
     = (Inr (), reg\<lparr>reg_plugins := (reg_plugins reg)(pm_id (pb_manifest b) \<mapsto> BuiltinPlugin (pb_manifest b))\<rparr>, w)"
  by (cases reg) (simp add: register_def pb_build_def pb_on_event_def)

end
