(* ===== verification/Filesystem.thy ===== *)
theory Filesystem
  imports Prelude "HOL-Library.AList"
begin

text \<open>
  The part of \<open>std::fs\<close> and \<open>std::path\<close> that the snapshot, checkpoint and sandbox code uses.
  A file system is the tree below \<open>/\<close> with a current directory; a file holds bytes. Symbolic
  links, devices, permissions and failing disks are outside the model, so the only errors are
  the ones the tree itself causes. \<open>file_at\<close> is the abstract view, a map from paths to
  contents: the locale \<open>file_store\<close> says what each operation does to it, and clients reason
  with those laws only.
\<close>

section \<open>Trees\<close>

datatype node = File string | Dir "(string \<times> node) list"

datatype io_error = ENotFound | ENotADirectory | EIsADirectory

fun show_io_error :: "io_error \<Rightarrow> string" where
  "show_io_error ENotFound = ''No such file or directory (os error 2)''"
| "show_io_error ENotADirectory = ''Not a directory (os error 20)''"
| "show_io_error EIsADirectory = ''Is a directory (os error 21)''"

fun node_at :: "node \<Rightarrow> string list \<Rightarrow> node option" where
  "node_at n [] = Some n"
| "node_at (File _) (c # cs) = None"
| "node_at (Dir es) (c # cs) = (case map_of es c of None \<Rightarrow> None | Some n \<Rightarrow> node_at n cs)"

definition file_at :: "node \<Rightarrow> string list \<rightharpoonup> string" where
  "file_at n p = (case node_at n p of Some (File s) \<Rightarrow> Some s | _ \<Rightarrow> None)"

definition dir_at :: "node \<Rightarrow> string list \<Rightarrow> bool" where
  "dir_at n p \<longleftrightarrow> (case node_at n p of Some (Dir _) \<Rightarrow> True | _ \<Rightarrow> False)"

abbreviation in_dir :: "string \<Rightarrow> (string \<times> node) list \<Rightarrow> io_error + node \<Rightarrow> io_error + node" where
  "in_dir c es r \<equiv> map_sum id (\<lambda>n. Dir (AList.update c n es)) r"

text \<open>\<open>fs::write\<close>, \<open>fs::remove_file\<close> and \<open>fs::create_dir_all\<close>.\<close>

fun put_file :: "node \<Rightarrow> string list \<Rightarrow> string \<Rightarrow> io_error + node" where
  "put_file (File _) [] s = Inr (File s)"
| "put_file (Dir _) [] s = Inl EIsADirectory"
| "put_file (File _) (c # cs) s = Inl ENotADirectory"
| "put_file (Dir es) (c # cs) s =
     (case map_of es c of
        None \<Rightarrow> if cs = [] then Inr (Dir (AList.update c (File s) es)) else Inl ENotFound
      | Some n \<Rightarrow> in_dir c es (put_file n cs s))"

fun rm_file :: "node \<Rightarrow> string list \<Rightarrow> io_error + node" where
  "rm_file _ [] = Inl EIsADirectory"
| "rm_file (File _) (c # cs) = Inl ENotADirectory"
| "rm_file (Dir es) (c # cs) =
     (case map_of es c of
        None \<Rightarrow> Inl ENotFound
      | Some n \<Rightarrow>
          (if cs = [] then
             (case n of File _ \<Rightarrow> Inr (Dir (AList.delete c es)) | Dir _ \<Rightarrow> Inl EIsADirectory)
           else in_dir c es (rm_file n cs)))"

fun mk_dirs :: "node \<Rightarrow> string list \<Rightarrow> io_error + node" where
  "mk_dirs (File _) _ = Inl ENotADirectory"
| "mk_dirs (Dir es) [] = Inr (Dir es)"
| "mk_dirs (Dir es) (c # cs) =
     in_dir c es (mk_dirs (case map_of es c of None \<Rightarrow> Dir [] | Some n \<Rightarrow> n) cs)"

lemma file_at_Dir_Cons: "file_at (Dir es) (c # cs) = (case map_of es c of None \<Rightarrow> None | Some n \<Rightarrow> file_at n cs)"
  by (simp add: file_at_def split: option.splits)

lemma file_at_simps [simp]:
  "file_at (Dir es) [] = None" "file_at (File s) [] = Some s" "file_at (File s) (c # cs) = None"
  by (simp_all add: file_at_def)

lemma file_at_update:
  "file_at (Dir (AList.update c n es)) q =
     (case q of d # ds \<Rightarrow> if d = c then file_at n ds else file_at (Dir es) q | [] \<Rightarrow> None)"
  by (cases q) (auto simp: file_at_Dir_Cons update_conv')

lemma file_at_delete:
  "file_at (Dir (AList.delete c es)) q =
     (case q of d # ds \<Rightarrow> if d = c then None else file_at (Dir es) q | [] \<Rightarrow> None)"
  by (cases q) (auto simp: file_at_Dir_Cons delete_conv')

lemma file_at_File: "file_at (File s) q = (if q = [] then Some s else None)"
  by (cases q) auto

lemma file_at_put_file:
  "put_file n p s = Inr n' \<Longrightarrow> file_at n' = (file_at n)(p \<mapsto> s)"
proof (induction n p s arbitrary: n' rule: put_file.induct)
  case (4 es c cs s)
  show ?case
  proof (cases "map_of es c")
    case None
    with "4.prems" have "cs = []" "n' = Dir (AList.update c (File s) es)" by (auto split: if_splits)
    with None show ?thesis
      by (auto simp: fun_eq_iff file_at_update file_at_File file_at_Dir_Cons split: list.splits)
  next
    case (Some m)
    with "4.prems" obtain m' where m: "put_file m cs s = Inr m'" "n' = Dir (AList.update c m' es)"
      by (cases "put_file m cs s") auto
    from "4.IH" [OF Some m(1)] show ?thesis
      by (auto simp: m(2) fun_eq_iff file_at_update file_at_Dir_Cons Some split: list.splits)
  qed
qed (auto simp: fun_eq_iff file_at_File)

lemma file_at_rm_file:
  "rm_file n p = Inr n' \<Longrightarrow> file_at n' = (file_at n)(p := None)"
proof (induction n p arbitrary: n' rule: rm_file.induct)
  case (3 es c cs)
  then obtain m where Some: "map_of es c = Some m" by (cases "map_of es c") auto
  show ?case
  proof (cases "cs = []")
    case True
    with "3.prems" Some obtain s where "m = File s" "n' = Dir (AList.delete c es)"
      by (auto split: node.splits)
    with True Some show ?thesis
      by (auto simp: fun_eq_iff file_at_delete file_at_Dir_Cons file_at_File split: list.splits)
  next
    case False
    with "3.prems" Some obtain m' where m: "rm_file m cs = Inr m'" "n' = Dir (AList.update c m' es)"
      by (cases "rm_file m cs") auto
    from "3.IH" [OF Some False m(1)] show ?thesis
      by (auto simp: m(2) fun_eq_iff file_at_update file_at_Dir_Cons Some split: list.splits)
  qed
qed auto

lemma file_at_empty_dir [simp]: "file_at (Dir []) q = None"
  by (cases q) (auto simp: file_at_Dir_Cons)

lemma file_at_mk_dirs:
  "mk_dirs n p = Inr n' \<Longrightarrow> file_at n' = file_at n"
proof (induction n p arbitrary: n' rule: mk_dirs.induct)
  case (3 es c cs)
  let ?m = "case map_of es c of None \<Rightarrow> Dir [] | Some n \<Rightarrow> n"
  from "3.prems" obtain m' where m: "mk_dirs ?m cs = Inr m'" "n' = Dir (AList.update c m' es)"
    by (cases "mk_dirs ?m cs") auto
  from "3.IH" [OF m(1)] have "file_at m' = file_at ?m" .
  then show ?case
    by (auto simp: m(2) fun_eq_iff file_at_update file_at_Dir_Cons split: list.splits option.splits)
qed auto

lemma dir_at_simps [simp]:
  "dir_at (Dir es) []" "\<not> dir_at (File s) p"
  "dir_at (Dir es) (c # cs) = (case map_of es c of None \<Rightarrow> False | Some n \<Rightarrow> dir_at n cs)"
  by (cases p; simp add: dir_at_def split: option.splits)+

lemma dir_at_update:
  "dir_at (Dir (AList.update c n es)) q =
     (case q of d # ds \<Rightarrow> if d = c then dir_at n ds else dir_at (Dir es) q | [] \<Rightarrow> True)"
  by (cases q) (auto simp: update_conv')

lemma dir_at_put_file:
  "put_file n p s = Inr n' \<Longrightarrow> dir_at n' q = dir_at n q"
proof (induction n p s arbitrary: n' q rule: put_file.induct)
  case (4 es c cs s)
  show ?case
  proof (cases "map_of es c")
    case None
    with "4.prems" have "n' = Dir (AList.update c (File s) es)" by (auto split: if_splits)
    with None show ?thesis by (auto simp: dir_at_update split: list.splits)
  next
    case (Some m)
    with "4.prems" obtain m' where m: "put_file m cs s = Inr m'" "n' = Dir (AList.update c m' es)"
      by (cases "put_file m cs s") auto
    from "4.IH" [OF Some m(1)] show ?thesis
      by (auto simp: m(2) dir_at_update Some split: list.splits)
  qed
qed auto

lemma dir_at_rm_file:
  "rm_file n p = Inr n' \<Longrightarrow> dir_at n' q = dir_at n q"
proof (induction n p arbitrary: n' q rule: rm_file.induct)
  case (3 es c cs)
  then obtain m where Some: "map_of es c = Some m" by (cases "map_of es c") auto
  show ?case
  proof (cases "cs = []")
    case True
    with "3.prems" Some obtain s where "m = File s" "n' = Dir (AList.delete c es)"
      by (auto split: node.splits)
    with Some show ?thesis by (cases q) (auto simp: delete_conv')
  next
    case False
    with "3.prems" Some obtain m' where m: "rm_file m cs = Inr m'" "n' = Dir (AList.update c m' es)"
      by (cases "rm_file m cs") auto
    from "3.IH" [OF Some False m(1)] show ?thesis
      by (auto simp: m(2) dir_at_update Some split: list.splits)
  qed
qed auto

lemma dir_at_empty_dir: "dir_at (Dir []) q \<longleftrightarrow> q = []"
  by (cases q) auto

lemma dir_at_mk_dirs:
  "mk_dirs n p = Inr n' \<Longrightarrow> dir_at n' q \<longleftrightarrow> dir_at n q \<or> prefix q p"
proof (induction n p arbitrary: n' q rule: mk_dirs.induct)
  case (3 es c cs)
  let ?m = "case map_of es c of None \<Rightarrow> Dir [] | Some n \<Rightarrow> n"
  from "3.prems" obtain m' where m: "mk_dirs ?m cs = Inr m'" "n' = Dir (AList.update c m' es)"
    by (cases "mk_dirs ?m cs") auto
  from "3.IH" [OF m(1)] have "dir_at m' q = (dir_at ?m q \<or> prefix q cs)" for q .
  then show ?case
    by (cases q) (auto simp: m(2) update_conv' dir_at_empty_dir split: option.splits if_splits)
qed auto

lemma mk_dirs_ok:
  "(\<And>q. prefix q p \<Longrightarrow> file_at n q = None) \<Longrightarrow> \<exists>n'. mk_dirs n p = Inr n'"
proof (induction n p rule: mk_dirs.induct)
  case (1 s cs)
  from 1 [of "[]"] show ?case by simp
next
  case (3 es c cs)
  let ?m = "case map_of es c of None \<Rightarrow> Dir [] | Some n \<Rightarrow> n"
  have "file_at ?m q = None" if "prefix q cs" for q
    using "3.prems" [of "c # q"] that by (auto simp: file_at_Dir_Cons split: option.splits)
  from "3.IH" [OF this] show ?case by auto
qed auto

lemma put_file_ok:
  "p \<noteq> [] \<Longrightarrow> dir_at n (butlast p) \<Longrightarrow> \<not> dir_at n p \<Longrightarrow> \<exists>n'. put_file n p s = Inr n'"
proof (induction n p s rule: put_file.induct)
  case (4 es c cs s)
  show ?case
  proof (cases "map_of es c")
    case None
    with "4.prems" show ?thesis by (auto split: if_splits)
  next
    case (Some m)
    show ?thesis
    proof (cases "cs = []")
      case True
      with Some "4.prems" show ?thesis by (cases m) auto
    next
      case False
      with Some "4.prems" have "dir_at m (butlast cs)" "\<not> dir_at m cs" by auto
      from "4.IH" [OF Some False this] show ?thesis using Some by auto
    qed
  qed
qed auto

lemma rm_file_ok:
  "p \<noteq> [] \<Longrightarrow> file_at n p \<noteq> None \<Longrightarrow> \<exists>n'. rm_file n p = Inr n'"
proof (induction n p rule: rm_file.induct)
  case (3 es c cs)
  then obtain m where m: "map_of es c = Some m" "file_at m cs \<noteq> None"
    by (auto simp: file_at_Dir_Cons split: option.splits)
  show ?case
  proof (cases "cs = []")
    case True
    with m show ?thesis by (cases m) auto
  next
    case False
    with "3.IH" [OF m(1) False False m(2)] m show ?thesis by auto
  qed
qed auto

section \<open>Path strings\<close>

text \<open>How the system resolves a path string: component by component from the root or from the
  current directory.\<close>

definition os_step :: "string list \<Rightarrow> string \<Rightarrow> string list" where
  "os_step acc c =
     (if c = [] \<or> c = ''.'' then acc else if c = ''..'' then butlast acc else acc @ [c])"

definition os_path :: "string list \<Rightarrow> string \<Rightarrow> string list" where
  "os_path cwd p = foldl os_step (if is_absolute p then [] else cwd) (split_char CHR ''/'' p)"

definition plain_name :: "string \<Rightarrow> bool" where
  "plain_name c \<longleftrightarrow> c \<noteq> [] \<and> c \<noteq> ''.'' \<and> c \<noteq> ''..'' \<and> CHR ''/'' \<notin> set c"

text \<open>\<open>Path::parent\<close>, \<open>Path::file_name\<close> and \<open>Path::extension\<close>.\<close>

definition trim_slashes :: "string \<Rightarrow> string" where
  "trim_slashes p = rev (dropWhile (\<lambda>c. c = CHR ''/'') (rev p))"

definition path_parent :: "string \<Rightarrow> string option" where
  "path_parent p =
     (let t = trim_slashes p in
      if t = [] then None
      else let d = rev (dropWhile (\<lambda>c. c \<noteq> CHR ''/'') (rev t)) in
           Some (if trim_slashes d = [] then take 1 d else trim_slashes d))"

definition file_name :: "string \<Rightarrow> string option" where
  "file_name p =
     (case rev (filter (\<lambda>c. c \<noteq> [] \<and> c \<noteq> ''.'') (split_char CHR ''/'' p)) of
        [] \<Rightarrow> None | c # _ \<Rightarrow> if c = ''..'' then None else Some c)"

definition name_extension :: "string \<Rightarrow> string option" where
  "name_extension c =
     (case dropWhile (\<lambda>x. x \<noteq> CHR ''.'') (rev c) of
        [] \<Rightarrow> None | _ # stem \<Rightarrow> if stem = [] then None else Some (rev (takeWhile (\<lambda>x. x \<noteq> CHR ''.'') (rev c))))"

definition path_extension :: "string \<Rightarrow> string option" where
  "path_extension p = Option.bind (file_name p) name_extension"

section \<open>The file system\<close>

record fs =
  fs_root :: node
  fs_cwd :: "string list"

abbreviation loc :: "fs \<Rightarrow> string \<Rightarrow> string list" where
  "loc f p \<equiv> os_path (fs_cwd f) p"

definition fs_exists :: "fs \<Rightarrow> string \<Rightarrow> bool" where
  "fs_exists f p \<longleftrightarrow> node_at (fs_root f) (loc f p) \<noteq> None"

definition fs_read :: "fs \<Rightarrow> string \<Rightarrow> string option" where
  "fs_read f p = file_at (fs_root f) (loc f p)"

text \<open>\<open>fs::read_to_string\<close>.\<close>

definition read_to_string :: "fs \<Rightarrow> string \<Rightarrow> string + string" where
  "read_to_string f path =
     (case node_at (fs_root f) (loc f path) of
        None \<Rightarrow> Inl (show_io_error ENotFound)
      | Some (Dir _) \<Rightarrow> Inl (show_io_error EIsADirectory)
      | Some (File s) \<Rightarrow>
          if valid_utf8 s then Inr s else Inl ''stream did not contain valid UTF-8'')"

definition fs_write :: "fs \<Rightarrow> string \<Rightarrow> string \<Rightarrow> io_error + fs" where
  "fs_write f p s = map_sum id (\<lambda>r. f\<lparr>fs_root := r\<rparr>) (put_file (fs_root f) (loc f p) s)"

definition fs_remove_file :: "fs \<Rightarrow> string \<Rightarrow> io_error + fs" where
  "fs_remove_file f p = map_sum id (\<lambda>r. f\<lparr>fs_root := r\<rparr>) (rm_file (fs_root f) (loc f p))"

definition fs_create_dir_all :: "fs \<Rightarrow> string \<Rightarrow> io_error + fs" where
  "fs_create_dir_all f p = map_sum id (\<lambda>r. f\<lparr>fs_root := r\<rparr>) (mk_dirs (fs_root f) (loc f p))"

text \<open>\<open>fs::rename\<close> of a file: an existing file at the new place is replaced.\<close>

definition fs_rename :: "fs \<Rightarrow> string \<Rightarrow> string \<Rightarrow> io_error + fs" where
  "fs_rename f a b =
     (case fs_read f a of
        None \<Rightarrow> Inl ENotFound
      | Some s \<Rightarrow>
          (if loc f a = loc f b then Inr f
           else case fs_write f b s of Inl e \<Rightarrow> Inl e | Inr f1 \<Rightarrow> fs_remove_file f1 a))"

definition fs_files :: "fs \<Rightarrow> string list \<rightharpoonup> string" where
  "fs_files f = file_at (fs_root f)"

definition fs_dirs :: "fs \<Rightarrow> string list \<Rightarrow> bool" where
  "fs_dirs f = dir_at (fs_root f)"

text \<open>The place of a file is free when no directory is there and no file is above it.\<close>

definition free_for :: "(string list \<rightharpoonup> string) \<Rightarrow> (string list \<Rightarrow> bool) \<Rightarrow> string list \<Rightarrow> bool" where
  "free_for files dirs p \<longleftrightarrow>
     p \<noteq> [] \<and> \<not> dirs p \<and> (\<forall>q. strict_prefix q p \<longrightarrow> files q = None)"

section \<open>The interface of a file store\<close>

locale file_store =
  fixes files :: "'fs \<Rightarrow> string list \<rightharpoonup> string"
    and dirs :: "'fs \<Rightarrow> string list \<Rightarrow> bool"
    and place :: "'fs \<Rightarrow> string \<Rightarrow> string list"
    and put :: "'fs \<Rightarrow> string \<Rightarrow> string \<Rightarrow> 'e + 'fs"
    and rm :: "'fs \<Rightarrow> string \<Rightarrow> 'e + 'fs"
    and mkd :: "'fs \<Rightarrow> string \<Rightarrow> 'e + 'fs"
  assumes write_law: "put f p s = Inr f' \<Longrightarrow>
      files f' = (files f)(place f p \<mapsto> s) \<and> dirs f' = dirs f \<and> place f' = place f"
    and remove_law: "rm f p = Inr f' \<Longrightarrow>
      files f' = (files f)(place f p := None) \<and> dirs f' = dirs f \<and> place f' = place f"
    and create_law: "mkd f p = Inr f' \<Longrightarrow>
      files f' = files f \<and> place f' = place f \<and>
      (\<forall>q. dirs f' q \<longleftrightarrow> dirs f q \<or> prefix q (place f p))"
    and write_ok: "place f p \<noteq> [] \<Longrightarrow> dirs f (butlast (place f p)) \<Longrightarrow> \<not> dirs f (place f p) \<Longrightarrow>
      \<exists>f'. put f p s = Inr f'"
    and remove_ok: "place f p \<noteq> [] \<Longrightarrow> files f (place f p) \<noteq> None \<Longrightarrow> \<exists>f'. rm f p = Inr f'"
    and create_ok: "(\<forall>q. prefix q (place f p) \<longrightarrow> files f q = None) \<Longrightarrow> \<exists>f'. mkd f p = Inr f'"
begin

lemma create_write_ok:
  assumes free: "free_for (files f) (dirs f) (place f p)"
    and parent: "place f d = butlast (place f p)"
  shows "\<exists>f1 f2. mkd f d = Inr f1 \<and> put f1 p s = Inr f2"
proof -
  have "strict_prefix q (place f p)" if "prefix q (place f d)" for q
  proof -
    have "prefix q (place f p)"
      using that prefixeq_butlast [of "place f p"] by (simp add: parent prefix_order.trans)
    moreover have "length q < length (place f p)"
      using prefix_length_le [OF that] free
      by (cases "place f p" rule: rev_cases) (auto simp: parent free_for_def)
    ultimately show ?thesis by (auto simp: strict_prefix_def)
  qed
  then have "\<forall>q. prefix q (place f d) \<longrightarrow> files f q = None"
    using free by (auto simp: free_for_def)
  from create_ok [OF this] obtain f1 where f1: "mkd f d = Inr f1" ..
  have "\<not> prefix (place f p) (place f d)"
    using free prefix_length_le [of "place f p" "butlast (place f p)"]
    by (cases "place f p" rule: rev_cases) (auto simp: parent free_for_def)
  with create_law [OF f1] free parent have "\<exists>f2. put f1 p s = Inr f2"
    by (intro write_ok) (auto simp: free_for_def)
  with f1 show ?thesis by blast
qed

end

interpretation disk: file_store fs_files fs_dirs loc fs_write fs_remove_file fs_create_dir_all
proof (unfold_locales, goal_cases)
  case (1 f p s f')
  then obtain r where "put_file (fs_root f) (loc f p) s = Inr r" "f' = f\<lparr>fs_root := r\<rparr>"
    by (cases "put_file (fs_root f) (loc f p) s") (auto simp: fs_write_def)
  then show ?case by (auto simp: fs_files_def fs_dirs_def file_at_put_file dir_at_put_file)
next
  case (2 f p f')
  then obtain r where "rm_file (fs_root f) (loc f p) = Inr r" "f' = f\<lparr>fs_root := r\<rparr>"
    by (cases "rm_file (fs_root f) (loc f p)") (auto simp: fs_remove_file_def)
  then show ?case by (auto simp: fs_files_def fs_dirs_def file_at_rm_file dir_at_rm_file)
next
  case (3 f p f')
  then obtain r where "mk_dirs (fs_root f) (loc f p) = Inr r" "f' = f\<lparr>fs_root := r\<rparr>"
    by (cases "mk_dirs (fs_root f) (loc f p)") (auto simp: fs_create_dir_all_def)
  then show ?case by (auto simp: fs_files_def fs_dirs_def file_at_mk_dirs dir_at_mk_dirs)
next
  case (4 f p s)
  then show ?case
    using put_file_ok [of "loc f p" "fs_root f" s] by (auto simp: fs_write_def fs_dirs_def)
next
  case (5 f p)
  then show ?case
    using rm_file_ok [of "loc f p" "fs_root f"] by (auto simp: fs_remove_file_def fs_files_def)
next
  case (6 f p)
  then show ?case
    using mk_dirs_ok [of "loc f p" "fs_root f"] by (auto simp: fs_create_dir_all_def fs_files_def)
qed

text \<open>A store that can also rename: writing a temporary file next to the target and renaming it
  has the effect of one write.\<close>

locale renaming_store = file_store +
  fixes mv :: "'a \<Rightarrow> string \<Rightarrow> string \<Rightarrow> 'b + 'a"
  assumes rename_law: "mv f a b = Inr f' \<Longrightarrow>
      \<exists>s. files f (place f a) = Some s \<and> files f' = (files f)(place f a := None, place f b \<mapsto> s)
        \<and> dirs f' = dirs f \<and> place f' = place f"
begin

lemma write_rename:
  assumes "put f tmp s = Inr f1" "mv f1 tmp p = Inr f2"
  shows "files f2 = (files f)(place f tmp := None, place f p \<mapsto> s) \<and> dirs f2 = dirs f \<and> place f2 = place f"
  using write_law [OF assms(1)] rename_law [OF assms(2)] by (auto simp: fun_eq_iff)

end

interpretation disk_mv: renaming_store fs_files fs_dirs loc fs_write fs_remove_file fs_create_dir_all fs_rename
proof (unfold_locales, goal_cases)
  case (1 f a b f')
  then obtain s where s: "fs_read f a = Some s" by (auto simp: fs_rename_def split: option.splits)
  then have fa: "fs_files f (loc f a) = Some s" by (simp add: fs_read_def fs_files_def)
  show ?case
  proof (cases "loc f a = loc f b")
    case True
    with 1 s have "f' = f" by (simp add: fs_rename_def)
    with True fa show ?thesis by (auto simp: fun_eq_iff)
  next
    case False
    with 1 s obtain f1 where w: "fs_write f b s = Inr f1" "fs_remove_file f1 a = Inr f'"
      by (auto simp: fs_rename_def split: sum.splits)
    from disk.write_law [OF w(1)] disk.remove_law [OF w(2)] False fa show ?thesis
      by (auto simp: fun_eq_iff)
  qed
qed

section \<open>Paths of files below a directory\<close>

lemma is_absolute_Cons [simp]: "is_absolute (c # p) \<longleftrightarrow> c = CHR ''/''"
  by (simp add: is_absolute_def starts_with_def)

lemma is_absolute_Nil [simp]: "\<not> is_absolute []"
  by (simp add: is_absolute_def starts_with_def)

lemma is_absolute_append: "p \<noteq> [] \<Longrightarrow> is_absolute (p @ q) = is_absolute p"
  by (cases p) auto

lemma os_path_snoc_slash: "p \<noteq> [] \<Longrightarrow> os_path cwd (p @ ''/'') = os_path cwd p"
  using split_char_append_sep [of "CHR ''/''" p "[]"]
  by (simp add: os_path_def is_absolute_append os_step_def)

lemma os_path_join:
  assumes "plain_name c"
  shows "os_path cwd (path_join d c) = os_path cwd d @ [c]"
proof -
  from assms obtain x xs where c: "c = x # xs" "x \<noteq> CHR ''/''" by (cases c) (auto simp: plain_name_def)
  have sp: "split_char CHR ''/'' c = [c]" using assms by (simp add: plain_name_def split_char_no_sep)
  have st: "os_step acc c = acc @ [c]" for acc using assms by (simp add: plain_name_def os_step_def)
  have key: "os_path cwd (e @ CHR ''/'' # c) = os_path cwd (e @ ''/'') @ [c]" for e
  proof -
    have abs: "is_absolute (e @ CHR ''/'' # c) = is_absolute (e @ ''/'')" by (cases e) auto
    have "split_char CHR ''/'' (e @ ''/'') = split_char CHR ''/'' e @ [[]]"
      using split_char_append_sep [of "CHR ''/''" e "[]"] by simp
    moreover have "os_step acc [] = acc" for acc by (simp add: os_step_def)
    ultimately show ?thesis
      unfolding os_path_def abs by (simp add: split_char_append_sep sp st)
  qed
  show ?thesis
  proof (cases "d = []")
    case True
    with c have "path_join d c = c" by (simp add: path_join_def)
    moreover have "\<not> is_absolute c" using c by simp
    ultimately show ?thesis unfolding True by (simp add: os_path_def sp st) (simp add: os_step_def)
  next
    case False
    show ?thesis
    proof (cases "ends_with d ''/''")
      case True
      then obtain e where "d = e @ ''/''" by (auto simp: ends_with_suffix suffix_def)
      with True False c key show ?thesis by (simp add: path_join_def)
    next
      case no: False
      with False c have "path_join d c = d @ CHR ''/'' # c" by (simp add: path_join_def)
      with key os_path_snoc_slash [OF False] show ?thesis by simp
    qed
  qed
qed

lemma trim_slashes_snoc [simp]:
  "trim_slashes [] = []" "trim_slashes (p @ [c]) = (if c = CHR ''/'' then trim_slashes p else p @ [c])"
  by (simp_all add: trim_slashes_def)

lemma os_path_trim_slashes:
  "os_path cwd (if trim_slashes p = [] then take 1 p else trim_slashes p) = os_path cwd p"
proof (induction p rule: rev_induct)
  case (snoc c p)
  show ?case
  proof (cases "c = CHR ''/'' \<and> p \<noteq> []")
    case True
    then have "take 1 (p @ [c]) = take 1 p" by (cases p) auto
    with True snoc show ?thesis by (auto simp: os_path_snoc_slash)
  next
    case False
    then show ?thesis by (cases "p = []") (auto simp: trim_slashes_def)
  qed
qed simp

lemma path_parent_join:
  assumes "plain_name c"
  obtains p where "path_parent (path_join d c) = Some p" "os_path cwd p = os_path cwd d"
proof -
  from assms obtain ys y where c: "c = ys @ [y]" "y \<noteq> CHR ''/''"
    by (cases c rule: rev_cases) (auto simp: plain_name_def)
  have ns: "CHR ''/'' \<notin> set c" and nabs: "\<not> is_absolute c" using assms
    by (auto simp: plain_name_def) (cases c; auto)
  define e where "e = (if d = [] \<or> ends_with d ''/'' then d else d @ ''/'')"
  have j: "path_join d c = e @ c" using nabs by (simp add: path_join_def e_def)
  have t: "trim_slashes (e @ c) = e @ c" using c by (simp flip: append_assoc)
  have dw: "dropWhile (\<lambda>x. x \<noteq> CHR ''/'') (rev c @ r) = dropWhile (\<lambda>x. x \<noteq> CHR ''/'') r" for r
    using ns by (intro dropWhile_append2) auto
  have "rev (dropWhile (\<lambda>x. x \<noteq> CHR ''/'') (rev e)) = e"
    by (cases e rule: rev_cases) (auto simp: e_def ends_with_def split: if_splits)
  then have "path_parent (path_join d c) = Some (if trim_slashes e = [] then take 1 e else trim_slashes e)"
    unfolding path_parent_def j t Let_def using \<open>c = ys @ [y]\<close> dw [of "rev e"] by simp
  moreover have "os_path cwd e = os_path cwd d" by (simp add: e_def os_path_snoc_slash)
  ultimately show ?thesis using that os_path_trim_slashes [of cwd e] by simp
qed

end
