(* ===== verification/Tools.thy ===== *)
theory Tools
  imports Protocol
begin

text \<open>
  The tool interface and registry of \<open>sentinel-tools\<close> (\<open>tool.rs\<close>, \<open>registry.rs\<close>). A tool is the
  record of its methods; executing it changes the state \<open>'w\<close> of the world outside the agent.
  \<open>None\<close> is a panic of the execution. The registry is the map from names to tools; the order in
  which a hash map lists its values is not determined, so \<open>registry_list\<close> is a relation.
  The optional activity log is output only and is left out.
\<close>

record tool_output =
  to_text :: string
  to_is_error :: bool
  to_sandboxed :: bool

definition output_ok :: "string \<Rightarrow> tool_output" where
  "output_ok t = \<lparr>to_text = t, to_is_error = False, to_sandboxed = False\<rparr>"

definition output_err :: "string \<Rightarrow> tool_output" where
  "output_err t = \<lparr>to_text = t, to_is_error = True, to_sandboxed = False\<rparr>"

definition output_ok_sandboxed :: "string \<Rightarrow> tool_output" where
  "output_ok_sandboxed t = \<lparr>to_text = t, to_is_error = False, to_sandboxed = True\<rparr>"

definition output_err_sandboxed :: "string \<Rightarrow> tool_output" where
  "output_err_sandboxed t = \<lparr>to_text = t, to_is_error = True, to_sandboxed = True\<rparr>"

record tool_context =
  tc_workspace_dir :: "string option"
  tc_sandbox_dir :: "string option"
  tc_env_vars :: "string \<rightharpoonup> string"

definition tool_context_new :: tool_context where
  "tool_context_new = \<lparr>tc_workspace_dir = None, tc_sandbox_dir = None, tc_env_vars = Map.empty\<rparr>"

record 'w tool =
  t_name :: string
  t_description :: string
  t_input_schema :: json
  t_is_mutating :: bool
  t_execute :: "'w \<Rightarrow> json \<Rightarrow> tool_context \<Rightarrow> tool_output option \<times> 'w"

definition to_tool_def :: "'w tool \<Rightarrow> tool_def" where
  "to_tool_def t =
     \<lparr>td_name = t_name t, td_description = t_description t,
      td_input_schema = t_input_schema t, td_read_only_hint = \<not> t_is_mutating t\<rparr>"

section \<open>The truncating wrapper\<close>

text \<open>\<open>&s[..n]\<close>: the first \<open>n\<close> bytes, a panic when \<open>n\<close> is inside a character or past the end.\<close>

definition is_char_boundary :: "string \<Rightarrow> nat \<Rightarrow> bool" where
  "is_char_boundary s n \<longleftrightarrow> n = 0 \<or> n = length s \<or> (n < length s \<and> \<not> is_cont_byte (s ! n))"

definition slice_to :: "string \<Rightarrow> nat \<Rightarrow> string option" where
  "slice_to s n = (if is_char_boundary s n then Some (take n s) else None)"

definition truncation_notice :: "nat \<Rightarrow> nat \<Rightarrow> string" where
  "truncation_notice m len =
     ''...'' @ LF @ ''[Output truncated at '' @ show_nat m @ '' characters (was '' @ show_nat len
       @ ''). '' @ show_nat (len - m) @ '' characters omitted]''"

definition truncate_output :: "usize \<Rightarrow> tool_output \<Rightarrow> tool_output option" where
  "truncate_output m out =
     (if unat m < length (to_text out) then
        map_option (\<lambda>t. \<lparr>to_text = t @ truncation_notice (unat m) (length (to_text out)),
                         to_is_error = to_is_error out, to_sandboxed = to_sandboxed out\<rparr>)
          (slice_to (to_text out) (unat m))
      else Some out)"

definition truncating_tool :: "'w tool \<Rightarrow> usize \<Rightarrow> 'w tool" where
  "truncating_tool t m =
     t\<lparr>t_execute := \<lambda>w args ctx.
         case t_execute t w args ctx of
           (None, w') \<Rightarrow> (None, w')
         | (Some out, w') \<Rightarrow> (truncate_output m out, w')\<rparr>"

section \<open>The registry\<close>

type_synonym 'w tool_registry = "string \<rightharpoonup> 'w tool"

definition registry_register :: "'w tool \<Rightarrow> 'w tool_registry \<Rightarrow> 'w tool_registry" where
  "registry_register t reg = reg(t_name t \<mapsto> t)"

text \<open>\<open>ToolRegistry::new\<close> registers the built-in tools in turn.\<close>

definition tool_registry_new :: "'w tool list \<Rightarrow> 'w tool_registry" where
  "tool_registry_new builtin = fold registry_register builtin Map.empty"

definition registry_execute ::
    "'w tool_registry \<Rightarrow> 'w \<Rightarrow> string \<Rightarrow> json \<Rightarrow> tool_context \<Rightarrow> tool_output option \<times> 'w" where
  "registry_execute reg w name args ctx =
     (case reg name of
        Some t \<Rightarrow> t_execute t w args ctx
      | None \<Rightarrow> (Some (output_err (''Tool not found: '' @ name)), w))"

definition registry_list :: "'w tool_registry \<Rightarrow> tool_def list \<Rightarrow> bool" where
  "registry_list reg ds \<longleftrightarrow>
     (\<exists>ns. distinct ns \<and> set ns = dom reg \<and> ds = map (\<lambda>n. to_tool_def (the (reg n))) ns)"

definition tool_defs_for_model :: "tool_def list \<Rightarrow> bool \<Rightarrow> tool_def list option" where
  "tool_defs_for_model listed supports_tools = (if \<not> supports_tools then None else Some listed)"

section \<open>Lemmas\<close>

definition registry_wf :: "'w tool_registry \<Rightarrow> bool" where
  "registry_wf reg \<longleftrightarrow> (\<forall>n t. reg n = Some t \<longrightarrow> t_name t = n)"

lemma registry_register_wf [inv_intros]: "registry_wf reg \<Longrightarrow> registry_wf (registry_register t reg)"
  by (auto simp: registry_wf_def registry_register_def)

lemma fold_register_wf: "registry_wf reg \<Longrightarrow> registry_wf (fold registry_register ts reg)"
  by (induction ts arbitrary: reg) (simp_all add: registry_register_wf)

lemma tool_registry_new_wf: "registry_wf (tool_registry_new builtin)"
  unfolding tool_registry_new_def by (rule fold_register_wf) (simp add: registry_wf_def)

text \<open>
  The truncating wrapper: an output within the limit is passed on unchanged; a longer one
  is cut to exactly the limit's bytes plus the notice, with its flags kept, provided the limit
  falls on a character boundary; a longer output with a character across the limit panics.
\<close>

theorem truncate_output_cases:
  "truncate_output m out =
     (if length (to_text out) \<le> unat m then Some out
      else if is_cont_byte (to_text out ! unat m) \<and> m \<noteq> 0 then None
      else Some (out\<lparr>to_text := take (unat m) (to_text out)
                       @ truncation_notice (unat m) (length (to_text out))\<rparr>))"
  by (cases out) (auto simp: truncate_output_def slice_to_def is_char_boundary_def unat_eq_zero)

end
