(* ===== verification/Sandbox.thy ===== *)
theory Sandbox
  imports Filesystem Tools
begin

text \<open>
  The sandbox of \<open>sentinel-core/src/sandbox.rs\<close> and the re-rooting of tool arguments in
  \<open>reroot_sandbox_args\<close> of \<open>agent.rs\<close>. \<open>LocalSandbox::new\<close> copies the workspace below a fresh
  temporary directory; here a local sandbox is the path of that directory. Running a shell
  command is a parameter.
\<close>

section \<open>Sandboxes (sandbox.rs)\<close>

datatype sandbox = NoSandbox | LocalSandbox string

fun sb_root :: "sandbox \<Rightarrow> string" where
  "sb_root NoSandbox = ''.''"
| "sb_root (LocalSandbox rt) = rt"

definition sb_work_dir :: "sandbox \<Rightarrow> string" where
  "sb_work_dir sb = path_join (sb_root sb) ''work''"

definition strip_root :: "string \<Rightarrow> string" where
  "strip_root p = dropWhile (\<lambda>c. c = CHR ''/'') p"

definition local_resolve :: "string \<Rightarrow> string \<Rightarrow> string" where
  "local_resolve rt path =
     (if is_absolute path then path_join (path_join rt ''work'') (strip_root path)
      else path_join (path_join rt ''work'') path)"

fun sb_resolve_path :: "sandbox \<Rightarrow> string \<Rightarrow> string" where
  "sb_resolve_path NoSandbox path = path"
| "sb_resolve_path (LocalSandbox rt) path = local_resolve rt path"

fun sb_read_file :: "sandbox \<Rightarrow> fs \<Rightarrow> string \<Rightarrow> string + string" where
  "sb_read_file NoSandbox f path = read_to_string f path"
| "sb_read_file (LocalSandbox rt) f path =
     (let sp = local_resolve rt path in
      map_sum (\<lambda>e. ''sandbox read '' @ sp @ '': '' @ e) id (read_to_string f sp))"

text \<open>The parent directory is created first; its error is reported as it is.\<close>

definition io_write :: "(string \<Rightarrow> string) \<Rightarrow> fs \<Rightarrow> string \<Rightarrow> string \<Rightarrow> (string + unit) \<times> fs" where
  "io_write wrap f path text =
     (case (case path_parent path of
              Some parent \<Rightarrow> fs_create_dir_all f parent | None \<Rightarrow> Inr f) of
        Inl e \<Rightarrow> (Inl (show_io_error e), f)
      | Inr f1 \<Rightarrow>
          (case fs_write f1 path text of
             Inl e \<Rightarrow> (Inl (wrap (show_io_error e)), f1)
           | Inr f2 \<Rightarrow> (Inr (), f2)))"

fun sb_write_file :: "sandbox \<Rightarrow> fs \<Rightarrow> string \<Rightarrow> string \<Rightarrow> (string + unit) \<times> fs" where
  "sb_write_file NoSandbox f path text = io_write id f path text"
| "sb_write_file (LocalSandbox rt) f path text =
     (let sp = local_resolve rt path in
      io_write (\<lambda>e. ''sandbox write '' @ sp @ '': '' @ e) f sp text)"

text \<open>\<open>run\<close> runs a command line in a directory.\<close>

fun sb_exec :: "('w \<Rightarrow> string \<Rightarrow> string \<Rightarrow> (string + string) \<times> 'w) \<Rightarrow> sandbox \<Rightarrow> 'w \<Rightarrow> string \<Rightarrow> string
    \<Rightarrow> (string + string) \<times> 'w" where
  "sb_exec run NoSandbox w command workdir = run w command workdir"
| "sb_exec run (LocalSandbox rt) w command workdir = run w command (path_join rt ''work'')"

section \<open>Re-rooting the arguments of a tool call (agent.rs)\<close>

definition path_keys :: "string \<Rightarrow> string list option" where
  "path_keys name =
     (if name \<in> {''read'', ''write'', ''edit'', ''view''} then Some [''file_path'']
      else if name \<in> {''glob'', ''grep'', ''git_status'', ''git_diff'', ''git_log'', ''ls''} then Some [''path'']
      else if name \<in> {''apply_patch'', ''patch''} then Some [''base_path'']
      else None)"

text \<open>The loop over the keys reads the original object and writes the copy.\<close>

fun reroot_keys :: "sandbox \<Rightarrow> json_object \<Rightarrow> string list \<Rightarrow> json_object \<Rightarrow> bool \<Rightarrow> json_object \<times> bool" where
  "reroot_keys sb obj [] out changed = (out, changed)"
| "reroot_keys sb obj (k # ks) out changed =
     (case Option.bind (map_of obj k) as_str of
        Some v \<Rightarrow>
          (if v \<noteq> [] then reroot_keys sb obj ks (obj_insert k (JString (sb_resolve_path sb v)) out) True
           else reroot_keys sb obj ks out changed)
      | None \<Rightarrow> reroot_keys sb obj ks out changed)"

definition reroot_sandbox_args :: "string \<Rightarrow> json \<Rightarrow> sandbox option \<Rightarrow> json" where
  "reroot_sandbox_args name args sb =
     (case sb of
        None \<Rightarrow> args
      | Some s \<Rightarrow>
          (case as_object args of
             None \<Rightarrow> args
           | Some obj \<Rightarrow>
               (case path_keys name of
                  None \<Rightarrow> args
                | Some ks \<Rightarrow>
                    (case reroot_keys s obj ks obj False of
                       (out, changed) \<Rightarrow> if changed then JObject out else args))))"

definition sandbox_context :: "tool_context \<Rightarrow> sandbox option \<Rightarrow> tool_context" where
  "sandbox_context ctx sb =
     (case sb of
        None \<Rightarrow> ctx
      | Some s \<Rightarrow> ctx\<lparr>tc_sandbox_dir := Some (sb_work_dir s), tc_workspace_dir := Some (sb_work_dir s)\<rparr>)"

section \<open>Where a resolved path leads\<close>

abbreviation comps :: "string \<Rightarrow> string list" where
  "comps p \<equiv> split_char CHR ''/'' p"

lemma foldl_os_step_prefix: "''..'' \<notin> set cs \<Longrightarrow> prefix acc (foldl os_step acc cs)"
proof (induction cs arbitrary: acc)
  case (Cons c cs)
  then have "prefix acc (os_step acc c)" by (auto simp: os_step_def)
  with Cons show ?case by (auto intro: prefix_order.trans)
qed simp

lemma os_path_join_rel:
  assumes "\<not> is_absolute p" "d \<noteq> []"
  shows "os_path cwd (path_join d p) = foldl os_step (os_path cwd d) (comps p)"
proof (cases "ends_with d ''/''")
  case True
  then obtain e where d: "d = e @ ''/''" by (auto simp: ends_with_suffix suffix_def)
  have "is_absolute (e @ CHR ''/'' # p) = is_absolute (e @ ''/'')" by (cases e) auto
  with True assms show ?thesis
    unfolding os_path_def path_join_def d
    by (simp add: split_char_append_sep) (simp add: os_step_def)
next
  case False
  with assms have "path_join d p = d @ CHR ''/'' # p" by (simp add: path_join_def)
  then show ?thesis using assms(2) by (simp add: os_path_def split_char_append_sep is_absolute_append)
qed

lemma strip_root_rel: "\<not> is_absolute (strip_root p)"
  by (induction p) (simp_all add: strip_root_def)

lemma comps_strip_root: "''..'' \<notin> set (comps p) \<Longrightarrow> ''..'' \<notin> set (comps (strip_root p))"
  by (induction p) (auto simp: strip_root_def)

lemma work_nonempty: "path_join rt ''work'' \<noteq> []"
  by (simp add: path_join_def)

lemma local_resolve_os_path:
  "os_path cwd (local_resolve rt p) =
     foldl os_step (os_path cwd rt @ [''work'']) (comps (if is_absolute p then strip_root p else p))"
proof -
  have "os_path cwd (path_join rt ''work'') = os_path cwd rt @ [''work'']"
    by (rule os_path_join) (simp add: plain_name_def)
  then show ?thesis
    by (simp add: local_resolve_def os_path_join_rel work_nonempty strip_root_rel)
qed

lemma reroot_keys_one:
  "reroot_keys sb obj [k] obj False =
     (case Option.bind (map_of obj k) as_str of
        Some v \<Rightarrow> if v \<noteq> [] then (obj_insert k (JString (sb_resolve_path sb v)) obj, True) else (obj, False)
      | None \<Rightarrow> (obj, False))"
  by (auto split: option.splits)

section \<open>Properties\<close>

text \<open>
  A path with no \<open>..\<close> component is confined: whatever the tool asked for, absolute or
  relative, the resolved path leads below the sandbox's working copy.
\<close>

theorem resolve_confined:
  assumes "''..'' \<notin> set (comps p)"
  shows "prefix (os_path cwd (sb_work_dir (LocalSandbox rt))) (os_path cwd (sb_resolve_path (LocalSandbox rt) p))"
proof -
  have "os_path cwd (path_join rt ''work'') = os_path cwd rt @ [''work'']"
    by (rule os_path_join) (simp add: plain_name_def)
  then show ?thesis using assms
    by (simp add: sb_work_dir_def local_resolve_os_path foldl_os_step_prefix comps_strip_root)
qed

theorem resolve_confined_witness:
  "prefix (os_path [] (sb_work_dir (LocalSandbox ''/tmp/s''))) (os_path [] (sb_resolve_path (LocalSandbox ''/tmp/s'') ''/etc/passwd''))"
  by (rule resolve_confined) simp

text \<open>
  The confinement ends there: \<open>resolve\<close> does not look at \<open>..\<close>, so the path that a file tool
  is given can lead to any place of the file system; for every absolute target there is a
  relative path that the sandbox resolves to it.
\<close>

theorem resolve_escapes:
  "\<exists>p. os_path cwd (sb_resolve_path (LocalSandbox rt) p) = os_path [] target"
proof -
  let ?n = "Suc (length (os_path cwd rt))"
  let ?up = "concat (replicate ?n ''../'')"
  have up: "comps (concat (replicate n ''../'') @ q) = replicate n ''..'' @ comps q" for n q
    by (induction n) auto
  have pop: "foldl os_step acc (replicate n ''..'') = take (length acc - n) acc" for acc n
    by (induction n arbitrary: acc) (auto simp: os_step_def butlast_conv_take min_def)
  have rel: "\<not> is_absolute (?up @ target)" by simp
  have "os_path cwd (sb_resolve_path (LocalSandbox rt) (?up @ target)) = foldl os_step [] (comps target)"
    using rel by (simp only: sb_resolve_path.simps local_resolve_os_path if_False up foldl_append pop) simp
  also have "\<dots> = os_path [] target" by (simp add: os_path_def)
  finally show ?thesis by blast
qed

text \<open>
  The arguments of a re-rooted tool call: the path argument of the tool becomes the resolved
  path, and every other argument is what it was.
\<close>

lemma reroot_args_lookup:
  assumes "path_keys name = Some [k]" "map_of obj k = Some (JString v)" "v \<noteq> []"
  shows "\<exists>out. reroot_sandbox_args name (JObject obj) (Some sb) = JObject out
    \<and> map_of out = (map_of obj)(k \<mapsto> JString (sb_resolve_path sb v))"
  using assms by (simp add: reroot_sandbox_args_def map_of_obj_insert)

end
