(* ===== verification/Diff_Capture.thy ===== *)
theory Diff_Capture
  imports Filesystem Protocol
begin

text \<open>
  The preview of a file change that an approval request shows: \<open>sentinel-core/src/diff_capture.rs\<close>
  and \<open>simulate_edit_content\<close> of \<open>agent.rs\<close>. The loop of \<open>DiffCapture::diff\<close> appends each hunk to
  its output when the hunk ends; here it returns the hunks, which are then rendered in order.
\<close>

section \<open>Replacing substrings\<close>

function replace_nonempty :: "string \<Rightarrow> string \<Rightarrow> string \<Rightarrow> string" where
  "replace_nonempty old new [] = []"
| "replace_nonempty old new (c # s) =
     (if old \<noteq> [] \<and> starts_with (c # s) old
      then new @ replace_nonempty old new (drop (length old) (c # s))
      else c # replace_nonempty old new s)"
  by pat_completeness auto
termination
  by (relation "measure (\<lambda>(_, _, s). length s)") auto

text \<open>\<open>str::replace\<close>; the empty pattern matches at every character boundary.\<close>

definition str_replace :: "string \<Rightarrow> string \<Rightarrow> string \<Rightarrow> string" where
  "str_replace s old new =
     (if old = [] then new @ concat (map (\<lambda>u. u @ new) (utf8_chars s))
      else replace_nonempty old new s)"

definition simulate_edit ::
    "string \<Rightarrow> string \<Rightarrow> string \<Rightarrow> bool \<Rightarrow> string + string" where
  "simulate_edit file_text old_string new_string replace_all =
     (if replace_all then Inr (str_replace file_text old_string new_string)
      else case str_find file_text old_string of
             Some pos \<Rightarrow> Inr (take pos file_text @ new_string @ drop (pos + length old_string) file_text)
           | None \<Rightarrow> Inl ''old_string not found'')"

definition simulate_edit_content ::
    "fs \<Rightarrow> string \<Rightarrow> string \<Rightarrow> string \<Rightarrow> bool \<Rightarrow> string + string" where
  "simulate_edit_content f path old_string new_string replace_all =
     (case read_to_string f path of
        Inl e \<Rightarrow> Inl e
      | Inr s \<Rightarrow> simulate_edit s old_string new_string replace_all)"

section \<open>The diff\<close>

definition before_write :: "fs \<Rightarrow> string \<Rightarrow> string + string option" where
  "before_write f path =
     (if fs_exists f path then map_sum id Some (read_to_string f path) else Inr None)"

type_synonym line_change = "nat \<times> char \<times> string"

text \<open>The main loop at line \<open>i\<close>, with the open hunk \<open>changes\<close> that started at \<open>start\<close>.\<close>

fun diff_hunks ::
    "string list \<Rightarrow> string list \<Rightarrow> nat \<Rightarrow> nat \<Rightarrow> line_change list \<Rightarrow> (nat \<times> line_change list) list" where
  "diff_hunks [] [] i start changes = (if changes = [] then [] else [(start, changes)])"
| "diff_hunks (a # as) [] i start changes =
     diff_hunks as [] (Suc i) (if changes = [] then i else start) (changes @ [(i, CHR ''-'', a)])"
| "diff_hunks [] (b # bs) i start changes =
     diff_hunks [] bs (Suc i) (if changes = [] then i else start) (changes @ [(i, CHR ''+'', b)])"
| "diff_hunks (a # as) (b # bs) i start changes =
     (if a \<noteq> b then
        diff_hunks as bs (Suc i) (if changes = [] then i else start)
          (changes @ [(i, CHR ''-'', a), (i, CHR ''+'', b)])
      else (if changes = [] then [] else [(start, changes)]) @ diff_hunks as bs (Suc i) start [])"

definition count_sign :: "char \<Rightarrow> line_change list \<Rightarrow> nat" where
  "count_sign c changes = length (filter (\<lambda>(_, x, _). x = c) changes)"

definition format_hunk :: "nat \<times> line_change list \<Rightarrow> string" where
  "format_hunk h =
     (case h of (start, changes) \<Rightarrow>
        ''@@ -'' @ show_nat (start + 1) @ '','' @ show_nat (max (count_sign CHR ''-'' changes) 1)
        @ '' +'' @ show_nat (start + 1) @ '','' @ show_nat (max (count_sign CHR ''+'' changes) 1)
        @ '' @@'' @ LF @ concat (map (\<lambda>(_, c, line). c # line @ LF) changes))"

definition diff_header :: "string \<Rightarrow> string" where
  "diff_header path = ''--- a/'' @ path @ LF @ ''+++ b/'' @ path @ LF"

definition diff_new_file :: "string \<Rightarrow> string \<Rightarrow> string" where
  "diff_new_file path proposed =
     diff_header path @ ''@@ -0,0 +1,'' @ show_nat (length (str_lines proposed)) @ '' @@'' @ LF
     @ ''+'' @ join (LF @ ''+'') (str_lines proposed)"

definition diff :: "string \<Rightarrow> string option \<Rightarrow> string \<Rightarrow> string" where
  "diff path original proposed =
     (case original of
        Some orig \<Rightarrow>
          (if orig \<noteq> proposed then
             let out = diff_header path @
                   concat (map format_hunk (diff_hunks (str_lines orig) (str_lines proposed) 0 0 []))
             in if length (str_lines out) \<le> 2
                then diff_header path @ ''@@ -1 +1 @@'' @ LF @ ''-full file replaced'' @ LF
                else out
           else diff_new_file path proposed)
      | None \<Rightarrow> diff_new_file path proposed)"

section \<open>Lemmas\<close>

definition hunk_changes :: "(nat \<times> line_change list) list \<Rightarrow> line_change list" where
  "hunk_changes hs = concat (map snd hs)"

text \<open>The specification: at every line where the two texts differ, the old line if there is one
  and then the new one.\<close>

fun line_changes :: "string list \<Rightarrow> string list \<Rightarrow> nat \<Rightarrow> line_change list" where
  "line_changes [] [] i = []"
| "line_changes (a # as) [] i = (i, CHR ''-'', a) # line_changes as [] (Suc i)"
| "line_changes [] (b # bs) i = (i, CHR ''+'', b) # line_changes [] bs (Suc i)"
| "line_changes (a # as) (b # bs) i =
     (if a \<noteq> b then [(i, CHR ''-'', a), (i, CHR ''+'', b)] else []) @ line_changes as bs (Suc i)"

lemma hunk_changes_append [simp]: "hunk_changes (xs @ ys) = hunk_changes xs @ hunk_changes ys"
  by (simp add: hunk_changes_def)

lemma hunk_changes_diff_hunks:
  "hunk_changes (diff_hunks as bs i start ch) = ch @ line_changes as bs i"
  by (induction as bs i start ch rule: diff_hunks.induct) (auto simp: hunk_changes_def)

lemma diff_hunks_nonempty: "h \<in> set (diff_hunks as bs i start ch) \<Longrightarrow> snd h \<noteq> []"
  by (induction as bs i start ch rule: diff_hunks.induct) (auto split: if_splits)

text \<open>Replaying the changes of a diff on the old lines.\<close>

fun replay :: "string list \<Rightarrow> nat \<Rightarrow> line_change list \<Rightarrow> string list" where
  "replay [] i ch = map (\<lambda>(_, _, l). l) ch"
| "replay (a # as) i ((j, s, l) # (k, s', l') # ch) =
     (if j = i then
        (if s = CHR ''-'' \<and> k = i \<and> s' = CHR ''+'' then l' # replay as (Suc i) ch
         else replay as (Suc i) ((k, s', l') # ch))
      else a # replay as (Suc i) ((j, s, l) # (k, s', l') # ch))"
| "replay (a # as) i [(j, s, l)] =
     (if j = i then replay as (Suc i) [] else a # replay as (Suc i) [(j, s, l)])"
| "replay (a # as) i [] = a # as"

lemma line_changes_new: "line_changes [] bs i = map (\<lambda>(j, b). (j, CHR ''+'', b)) (enumerate i bs)"
  by (induction bs arbitrary: i) auto

lemma line_changes_same: "line_changes as as i = []"
  by (induction as arbitrary: i) auto

lemma line_changes_from: "(j, s, l) \<in> set (line_changes as bs i) \<Longrightarrow> i \<le> j"
  by (induction as bs i rule: line_changes.induct) (auto split: if_splits)

lemma replay_skip:
  "\<forall>(j, _, _) \<in> set ch. Suc i \<le> j \<Longrightarrow> replay (a # as) i ch = a # replay as (Suc i) ch"
proof (cases ch)
  case Nil
  then show ?thesis by (cases as) auto
next
  case (Cons c cs)
  assume "\<forall>(j, _, _) \<in> set ch. Suc i \<le> j"
  with Cons show ?thesis by (cases c; cases cs) auto
qed

lemma replay_line_changes: "replay as i (line_changes as bs i) = bs"
proof (induction as bs i rule: line_changes.induct)
  case (2 a as i)
  have "replay (a # as) i ((i, CHR ''-'', a) # line_changes as [] (Suc i)) =
      replay as (Suc i) (line_changes as [] (Suc i))"
    by (cases as) auto
  with 2 show ?case by simp
next
  case (3 b bs i)
  show ?case by (simp add: line_changes_new o_def case_prod_unfold)
next
  case (4 a as b bs i)
  have "\<forall>(j, _, _) \<in> set (line_changes as bs (Suc i)). Suc i \<le> j"
    using line_changes_from by fast
  with 4 show ?case by (auto simp: replay_skip)
qed auto

section \<open>Properties\<close>

text \<open>
  The preview is faithful: the hunks of a diff hold, line by line, exactly the old and new
  lines at the positions where the two texts differ; no hunk is empty; and replaying the
  changes on the old lines gives the new lines.
\<close>

theorem diff_hunks_faithful:
  "hunk_changes (diff_hunks as bs 0 0 []) = line_changes as bs 0
   \<and> list_all (\<lambda>h. snd h \<noteq> []) (diff_hunks as bs 0 0 [])
   \<and> replay as 0 (hunk_changes (diff_hunks as bs 0 0 [])) = bs"
  using diff_hunks_nonempty by (auto simp: hunk_changes_diff_hunks replay_line_changes list_all_iff)

text \<open>A write that changes nothing is shown as the creation of a new file.\<close>

lemma unchanged_shown_as_new: "diff path (Some s) s = diff path None s"
  by (simp add: diff_def)

lemma str_find_at: "str_find s p = Some i \<Longrightarrow> take (length p) (drop i s) = p"
proof (induction s arbitrary: i)
  case Nil
  then show ?case by (subst (asm) str_find.simps) (auto simp: starts_with_def split: if_splits)
next
  case (Cons c s)
  show ?case
  proof (cases "starts_with (c # s) p")
    case True
    with Cons.prems have "i = 0" by (simp add: str_find.simps [of "c # s"])
    with True show ?thesis by (simp add: starts_with_def)
  next
    case False
    with Cons.prems obtain j where "str_find s p = Some j" "i = Suc j"
      by (auto simp: str_find.simps [of "c # s"])
    with Cons.IH show ?thesis by simp
  qed
qed

text \<open>The simulated edit replaces one occurrence and keeps the rest of the file.\<close>

lemma simulate_edit_once:
  assumes "str_find s old = Some pos"
  shows "s = take pos s @ old @ drop (pos + length old) s"
    and "simulate_edit s old new False = Inr (take pos s @ new @ drop (pos + length old) s)"
proof -
  have "drop pos s = old @ drop (pos + length old) s"
    using append_take_drop_id [of "length old" "drop pos s"] str_find_at [OF assms] by (simp add: add.commute)
  then show "s = take pos s @ old @ drop (pos + length old) s" by (metis append_take_drop_id)
qed (simp add: simulate_edit_def assms)

end
