(* ===== verification/Batch.thy ===== *)
theory Batch
  imports Plugins Sandbox Diff_Capture
begin

text \<open>
  One batch of tool calls: \<open>validate_tool_calls\<close> and \<open>execute_tools_concurrent\<close> of
  \<open>sentinel-core/src/agent.rs\<close>.

  The state of a batch holds the world outside (\<open>'w\<close>), the thread, the results collected so far
  (the \<open>BTreeMap\<close> by index), the spawned tasks that have not run yet, and a trace. The trace
  records the events the code emits and, for the statements below, the answers it got from the
  plugins, the policy and the gate, and the start of every tool execution.

  Concurrency: a spawned task runs as one step, but at any await of the submitting loop and, in
  the joining loop, in any order; \<open>be_sched\<close> decides. A task whose cancellation token is set
  before it starts does not execute its tool; \<open>be_interrupt\<close> lets the token be set in the middle
  of an execution, leaving the world in any state. A tool that panics leaves no result, as the
  \<open>JoinError\<close> branch of the code (with \<open>panic = "abort"\<close> the process ends instead).
\<close>

section \<open>Validation\<close>

definition call_errors :: "nat \<Rightarrow> tool_call \<Rightarrow> string list" where
  "call_errors i c =
     (case c of (cid, name, args) \<Rightarrow>
        (if cid = [] then [''Tool call #'' @ show_nat i @ '': missing id''] else []) @
        (if name = [] then [''Tool call #'' @ show_nat i @ '': missing name''] else []) @
        (if \<not> is_object args \<and> \<not> is_null args
         then [''Tool call #'' @ show_nat i @ '' ('' @ [CHR 0x27] @ name @ [CHR 0x27]
               @ ''): arguments must be a JSON object''] else []))"

definition validate_tool_calls :: "tool_call list \<Rightarrow> string list + unit" where
  "validate_tool_calls calls =
     (let errors = concat (map (\<lambda>(i, c). call_errors i c) (enumerate 0 calls)) in
      if errors = [] then Inr () else Inl errors)"

section \<open>Events and state\<close>

datatype permission_action = PermAllow | PermDeny | PermVeto

datatype agent_event =
    Thinking string
  | EvToolCall string json
  | EvToolResult string string bool bool      \<comment> \<open>name, output, is_error, sandboxed\<close>
  | EvCompleted string
  | EvError string
  | Permission string permission_action "string option"
  | EvTurnEnd u32 u32

datatype entry =
    Emitted agent_event
  | VetoCheck nat plugin_action
  | DenyCheck nat plugin_action
  | PolicySaid nat policy_decision
  | GateSaid nat approval_decision
  | Started nat string json

record task =
  tk_id :: string
  tk_name :: string
  tk_args :: json
  tk_ctx :: tool_context

record 'w batch_state =
  world :: 'w
  trace :: "entry list"
  thr :: agent_thread
  results :: "nat \<rightharpoonup> tool_result"
  pending :: "(nat \<times> task) list"

record 'w batch_env =
  be_tools :: "'w tool_registry"
  be_gate :: "'w gate"
  be_policy :: "'w policy option"
  be_plugins :: "'w plugin_registry"
  be_sandbox :: "sandbox option"
  be_compress :: "'w \<Rightarrow> string \<Rightarrow> string \<Rightarrow> bool \<Rightarrow> string \<times> 'w"
  be_fs :: "'w \<Rightarrow> fs"
  be_cancelled :: "'w \<Rightarrow> bool"
  be_interrupt :: "'w \<Rightarrow> nat \<Rightarrow> 'w option"
  be_sched :: "'w \<Rightarrow> nat list \<Rightarrow> nat option"

datatype batch_outcome = Results "tool_result list" | Denied string

definition jot :: "entry \<Rightarrow> 'w batch_state \<Rightarrow> 'w batch_state" where
  "jot n st = st\<lparr>trace := trace st @ [n]\<rparr>"

definition mk_result :: "string \<Rightarrow> string \<Rightarrow> string \<Rightarrow> bool \<Rightarrow> tool_result" where
  "mk_result cid name out err =
     \<lparr>tool_call_id = cid, tr_name = name, tr_output = out, tr_is_error = err\<rparr>"

definition put_result :: "nat \<Rightarrow> tool_result \<Rightarrow> 'w batch_state \<Rightarrow> 'w batch_state" where
  "put_result i r st = st\<lparr>results := (results st)(i \<mapsto> r)\<rparr>"

section \<open>Spawned tasks\<close>

definition finish_task ::
    "'w batch_env \<Rightarrow> nat \<Rightarrow> task \<Rightarrow> tool_output \<Rightarrow> 'w \<Rightarrow> 'w batch_state \<Rightarrow> 'w batch_state" where
  "finish_task env i tk out w st =
     (let (_, w1) = dispatch (be_plugins env) w
            (AfterToolCall (tk_name tk) (tk_args tk) (to_text out) (to_is_error out));
          (compressed, w2) = be_compress env w1 (tk_name tk) (to_text out) (to_is_error out)
      in put_result i (mk_result (tk_id tk) (tk_name tk) compressed (to_is_error out))
           (jot (Emitted (EvToolResult (tk_name tk) compressed (to_is_error out) (to_sandboxed out)))
              (st\<lparr>world := w2\<rparr>)))"

definition perform_task :: "'w batch_env \<Rightarrow> nat \<Rightarrow> task \<Rightarrow> 'w batch_state \<Rightarrow> 'w batch_state" where
  "perform_task env i tk st =
     (let cancelled = mk_result (tk_id tk) (tk_name tk) ''Cancelled'' True in
      if be_cancelled env (world st) then put_result i cancelled st
      else
        let st1 = jot (Started i (tk_name tk) (tk_args tk)) st in
        case be_interrupt env (world st) i of
          Some w \<Rightarrow> put_result i cancelled (st1\<lparr>world := w\<rparr>)
        | None \<Rightarrow>
            (case registry_execute (be_tools env) (world st) (tk_name tk) (tk_args tk) (tk_ctx tk) of
               (None, w) \<Rightarrow> st1\<lparr>world := w\<rparr>
             | (Some out, w) \<Rightarrow> finish_task env i tk out w st1))"

definition run_task :: "'w batch_env \<Rightarrow> nat \<Rightarrow> 'w batch_state \<Rightarrow> 'w batch_state" where
  "run_task env j st =
     (case pending st ! j of (i, tk) \<Rightarrow>
        perform_task env i tk (st\<lparr>pending := take j (pending st) @ drop (Suc j) (pending st)\<rparr>))"

text \<open>An await of the submitting loop: the scheduler lets pending tasks run, or none.\<close>

fun run_ready :: "nat \<Rightarrow> 'w batch_env \<Rightarrow> 'w batch_state \<Rightarrow> 'w batch_state" where
  "run_ready 0 env st = st"
| "run_ready (Suc n) env st =
     (case be_sched env (world st) (map fst (pending st)) of
        None \<Rightarrow> st
      | Some k \<Rightarrow>
          (if pending st = [] then st
           else run_ready n env (run_task env (k mod length (pending st)) st)))"

definition await :: "'w batch_env \<Rightarrow> 'w batch_state \<Rightarrow> 'w batch_state" where
  "await env st = run_ready (length (pending st)) env st"

text \<open>The joining loop: every remaining task runs.\<close>

fun join_all :: "nat \<Rightarrow> 'w batch_env \<Rightarrow> 'w batch_state \<Rightarrow> 'w batch_state" where
  "join_all 0 env st = st"
| "join_all (Suc n) env st =
     (if pending st = [] then st
      else join_all n env
             (run_task env
                (case be_sched env (world st) (map fst (pending st)) of
                   None \<Rightarrow> 0 | Some k \<Rightarrow> k mod length (pending st)) st))"

section \<open>Submitting a call\<close>

text \<open>\<open>Next\<close> goes on with the next call, \<open>Stop\<close> is the early return with a denial.\<close>

datatype 'w flow = Next "'w batch_state" | Stop string "'w batch_state"

definition captured_diff :: "fs \<Rightarrow> string \<Rightarrow> json \<Rightarrow> string option" where
  "captured_diff f name args =
     (let str = (\<lambda>k. case as_str (json_get args k) of Some s \<Rightarrow> s | None \<Rightarrow> []) in
      if name = ''write'' \<or> name = ''edit'' then
        let path = str ''file_path'' in
        if path \<noteq> [] then
          let original = before_write f path;
              proposed =
                (if name = ''edit'' then
                   (case simulate_edit_content f path (str ''old_string'') (str ''new_string'')
                          (case as_bool (json_get args ''replace_all'') of Some b \<Rightarrow> b | None \<Rightarrow> False) of
                      Inr p \<Rightarrow> Some p | Inl _ \<Rightarrow> None)
                 else Some (str ''content''))
          in case (original, proposed) of
               (Inr orig, Some prop) \<Rightarrow> Some (diff path orig prop)
             | _ \<Rightarrow> None
        else None
      else None)"

definition make_request :: "fs \<Rightarrow> string \<Rightarrow> json \<Rightarrow> approval_request" where
  "make_request f name args =
     (let d = captured_diff f name args in
      \<lparr>ar_tool_name = name, ar_args = args,
       ar_prompt = ''Execute '' @ name @ '' with the given arguments?'',
       ar_diff = d,
       ar_estimated_cost =
         (if name = ''write'' \<or> name = ''edit''
          then map_option (\<lambda>s. f64_mul (f64_of_nat (length s)) (f64_lit (1 / 1000))) d else None)\<rparr>)"

definition refuse ::
    "nat \<Rightarrow> string \<Rightarrow> string \<Rightarrow> permission_action \<Rightarrow> string \<Rightarrow> string \<Rightarrow> 'w batch_state \<Rightarrow> 'w batch_state" where
  "refuse i cid name act why out st =
     put_result i (mk_result cid name out True) (jot (Emitted (Permission name act (Some why))) st)"

definition spawn_call ::
    "'w batch_env \<Rightarrow> tool_context \<Rightarrow> nat \<Rightarrow> tool_call \<Rightarrow> 'w batch_state \<Rightarrow> 'w batch_state" where
  "spawn_call env tcx i c st =
     (case c of (cid, name, args) \<Rightarrow>
        let st1 = jot (Emitted (Permission name PermAllow None)) st in
        st1\<lparr>pending := pending st1 @
          [(i, \<lparr>tk_id = cid, tk_name = name, tk_args = reroot_sandbox_args name args (be_sandbox env),
                tk_ctx = sandbox_context tcx (be_sandbox env)\<rparr>)]\<rparr>)"

definition ask_approval ::
    "'w batch_env \<Rightarrow> tool_context \<Rightarrow> nat \<Rightarrow> tool_call \<Rightarrow> 'w batch_state \<Rightarrow> 'w batch_state" where
  "ask_approval env tcx i c st0 =
     (case c of (cid, name, args) \<Rightarrow>
        let st = await env st0;
            req = make_request (be_fs env (world st)) name args;
            st1 = (if \<not> yolo_mode (thr st) then st\<lparr>thr := (thr st)\<lparr>status := AwaitingApproval\<rparr>\<rparr> else st);
            (d, w) = be_gate env (world st1) req;
            st2 = jot (GateSaid i d) (st1\<lparr>world := w\<rparr>)
        in case d of
             Approved \<Rightarrow> spawn_call env tcx i c st2
           | Rejected why \<Rightarrow> refuse i cid name PermDeny why (''User rejected: '' @ why) st2
           | Modify _ _ \<Rightarrow>
               refuse i cid name PermDeny ''request modified by user'' ''User modified the request'' st2)"

definition check_policy ::
    "'w batch_env \<Rightarrow> tool_context \<Rightarrow> nat \<Rightarrow> tool_call \<Rightarrow> 'w batch_state \<Rightarrow> 'w batch_state" where
  "check_policy env tcx i c st =
     (case c of (cid, name, args) \<Rightarrow>
        (case be_policy env of
           None \<Rightarrow> ask_approval env tcx i c st
         | Some policy \<Rightarrow>
             (let st1 = await env st;
                  (d, w) = policy (world st1) name args;
                  st2 = jot (PolicySaid i d) (st1\<lparr>world := w\<rparr>)
              in case d of
                   PDeny why \<Rightarrow> refuse i cid name PermDeny why (''Policy denied: '' @ why) st2
                 | PromptUser \<Rightarrow> ask_approval env tcx i c st2
                 | PAllow \<Rightarrow> ask_approval env tcx i c st2)))"

definition check_plugins ::
    "'w batch_env \<Rightarrow> tool_context \<Rightarrow> nat \<Rightarrow> tool_call \<Rightarrow> 'w batch_state \<Rightarrow> 'w flow" where
  "check_plugins env tcx i c st0 =
     (case c of (cid, name, args) \<Rightarrow>
        let st = await env st0;
            (a, w) = dispatch (be_plugins env) (world st) (BeforeToolCall name args);
            st1 = jot (VetoCheck i a) (st\<lparr>world := w\<rparr>)
        in case a of
             PVeto why \<Rightarrow> Next (refuse i cid name PermVeto why (''Vetoed by plugin policy: '' @ why) st1)
           | _ \<Rightarrow>
               (let st2 = await env st1;
                    (b, w') = dispatch (be_plugins env) (world st2) (BeforeToolCall name args);
                    st3 = jot (DenyCheck i b) (st2\<lparr>world := w'\<rparr>)
                in case b of
                     PDenyRun why \<Rightarrow> Stop why (jot (Emitted (Permission name PermDeny (Some why))) st3)
                   | _ \<Rightarrow> Next (check_policy env tcx i c st3)))"

definition submit_call ::
    "'w batch_env \<Rightarrow> tool_context \<Rightarrow> nat \<Rightarrow> tool_call \<Rightarrow> 'w batch_state \<Rightarrow> 'w flow" where
  "submit_call env tcx i c st0 =
     (case c of (cid, name, args) \<Rightarrow>
        let conv = (case add_tool_call cid name args (conversation (thr st0)) of
                      Some cv \<Rightarrow> cv | None \<Rightarrow> conversation (thr st0));
            st = jot (Emitted (EvToolCall name args)) (st0\<lparr>thr := (thr st0)\<lparr>conversation := conv\<rparr>\<rparr>)
        in if exhausted (budget (thr st)) then
             Next (put_result i (mk_result cid name
                     (''Budget exhausted '' @ em_dash @ '' tool execution skipped'') True) st)
           else if be_tools env name = None then
             Next (put_result i (mk_result cid name (''Tool not found: '' @ name) True) st)
           else check_plugins env tcx i c st)"

fun submit_all ::
    "'w batch_env \<Rightarrow> tool_context \<Rightarrow> nat \<Rightarrow> tool_call list \<Rightarrow> 'w batch_state \<Rightarrow> 'w flow" where
  "submit_all env tcx i [] st = Next st"
| "submit_all env tcx i (c # cs) st =
     (case submit_call env tcx i c st of
        Stop why st' \<Rightarrow> Stop why st'
      | Next st' \<Rightarrow> submit_all env tcx (Suc i) cs st')"

definition batch_start :: "agent_thread \<Rightarrow> 'w \<Rightarrow> 'w batch_state" where
  "batch_start t w = \<lparr>world = w, trace = [], thr = t, results = Map.empty, pending = []\<rparr>"

definition ordered_results :: "nat \<Rightarrow> 'w batch_state \<Rightarrow> tool_result list" where
  "ordered_results n st = List.map_filter (results st) [0..<n]"

definition execute_tools_concurrent ::
    "'w batch_env \<Rightarrow> tool_context \<Rightarrow> tool_call list \<Rightarrow> agent_thread \<Rightarrow> 'w
       \<Rightarrow> batch_outcome \<times> 'w batch_state" where
  "execute_tools_concurrent env tcx calls t w =
     (case submit_all env tcx 0 calls (batch_start t w) of
        Stop why st \<Rightarrow> (Denied why, st)
      | Next st \<Rightarrow>
          (let st' = join_all (length (pending st)) env st in
           (Results (ordered_results (length calls) st'), st')))"

section \<open>The invariant of a batch\<close>

fun started_index :: "entry \<Rightarrow> nat option" where
  "started_index (Started i _ _) = Some i"
| "started_index _ = None"

definition started :: "entry list \<Rightarrow> nat list" where
  "started tr = List.map_filter started_index tr"

lemma started_append [simp]: "started (xs @ ys) = started xs @ started ys"
  by (simp add: started_def)

lemma started_simps [simp]:
  "started [] = []" "started (Started i n a # tr) = i # started tr"
  "started (Emitted e # tr) = started tr" "started (VetoCheck i p # tr) = started tr"
  "started (DenyCheck i p # tr) = started tr" "started (PolicySaid i d # tr) = started tr"
  "started (GateSaid i g # tr) = started tr"
  by (simp_all add: started_def)

definition cleared :: "'w batch_env \<Rightarrow> nat \<Rightarrow> entry list \<Rightarrow> bool" where
  "cleared env i tr \<longleftrightarrow>
     (\<exists>a. VetoCheck i a \<in> set tr \<and> (\<nexists>why. a = PVeto why)) \<and>
     (\<exists>a. DenyCheck i a \<in> set tr \<and> (\<nexists>why. a = PDenyRun why)) \<and>
     (be_policy env = None \<or> PolicySaid i PAllow \<in> set tr \<or> PolicySaid i PromptUser \<in> set tr)"

definition authorised :: "'w batch_env \<Rightarrow> nat \<Rightarrow> entry list \<Rightarrow> bool" where
  "authorised env i tr \<longleftrightarrow> cleared env i tr \<and> GateSaid i Approved \<in> set tr"

lemma authorised_append: "authorised env i tr \<Longrightarrow> authorised env i (tr @ tr')"
  by (auto simp: authorised_def cleared_def)

text \<open>Every execution in the trace comes after all that authorises it.\<close>

definition started_ok :: "'w batch_env \<Rightarrow> entry list \<Rightarrow> bool" where
  "started_ok env tr \<longleftrightarrow> (\<forall>pre i n a post. tr = pre @ Started i n a # post \<longrightarrow> authorised env i pre)"

lemma started_ok_Nil [simp]: "started_ok env []"
  by (simp add: started_ok_def)

lemma started_ok_snoc:
  "started_ok env (tr @ [x]) \<longleftrightarrow>
     started_ok env tr \<and> (case x of Started i n a \<Rightarrow> authorised env i tr | _ \<Rightarrow> True)"
proof
  assume l: "started_ok env (tr @ [x])"
  have "started_ok env tr" using l unfolding started_ok_def by (metis append.assoc append_Cons)
  then show "started_ok env tr \<and> (case x of Started i n a \<Rightarrow> authorised env i tr | _ \<Rightarrow> True)"
    using l by (auto simp: started_ok_def split: entry.splits)
next
  assume r: "started_ok env tr \<and> (case x of Started i n a \<Rightarrow> authorised env i tr | _ \<Rightarrow> True)"
  show "started_ok env (tr @ [x])" unfolding started_ok_def
  proof (intro allI impI)
    fix pre i n a post assume eq: "tr @ [x] = pre @ Started i n a # post"
    show "authorised env i pre"
    proof (cases post rule: rev_cases)
      case Nil
      with eq r show ?thesis by auto
    next
      case (snoc ys y)
      with eq have "tr = pre @ Started i n a # ys" by auto
      with r show ?thesis by (auto simp: started_ok_def)
    qed
  qed
qed

text \<open>What a batch may change of the thread: its transcript and its status.\<close>

definition thread_frame :: "agent_thread \<Rightarrow> agent_thread \<Rightarrow> bool" where
  "thread_frame t t' \<longleftrightarrow> (\<exists>c s. t' = t\<lparr>conversation := c, status := s\<rparr>)"

definition no_panic :: "'w batch_env \<Rightarrow> bool" where
  "no_panic env \<longleftrightarrow> (\<forall>n t w a c. be_tools env n = Some t \<longrightarrow> fst (t_execute t w a c) \<noteq> None)"

text \<open>The invariant when the calls below \<open>n\<close> have been submitted.\<close>

definition batch_inv :: "'w batch_env \<Rightarrow> tool_call list \<Rightarrow> nat \<Rightarrow> 'w batch_state \<Rightarrow> bool" where
  "batch_inv env calls n st \<longleftrightarrow>
     (\<forall>i r. results st i = Some r \<longrightarrow> i < n \<and> tool_call_id r = fst (calls ! i) \<and> tr_name r = fst (snd (calls ! i))) \<and>
     (\<forall>(i, tk) \<in> set (pending st). i < n \<and> tk_id tk = fst (calls ! i) \<and> tk_name tk = fst (snd (calls ! i))
        \<and> results st i = None \<and> i \<notin> set (started (trace st)) \<and> authorised env i (trace st)) \<and>
     distinct (map fst (pending st)) \<and>
     (\<forall>i < n. results st i \<noteq> None \<or> i \<in> fst ` set (pending st) \<or> i \<in> set (started (trace st))) \<and>
     (\<forall>i \<in> set (started (trace st)). i < n) \<and> distinct (started (trace st)) \<and>
     started_ok env (trace st) \<and>
     (no_panic env \<longrightarrow> (\<forall>i \<in> set (started (trace st)). results st i \<noteq> None))"

lemma batch_invI:
  assumes "\<And>i r. results st i = Some r \<Longrightarrow>
      i < n \<and> tool_call_id r = fst (calls ! i) \<and> tr_name r = fst (snd (calls ! i))"
    and "\<And>i tk. (i, tk) \<in> set (pending st) \<Longrightarrow>
      i < n \<and> tk_id tk = fst (calls ! i) \<and> tk_name tk = fst (snd (calls ! i))
        \<and> results st i = None \<and> i \<notin> set (started (trace st)) \<and> authorised env i (trace st)"
    and "distinct (map fst (pending st))"
    and "\<And>i. i < n \<Longrightarrow> results st i \<noteq> None \<or> i \<in> fst ` set (pending st) \<or> i \<in> set (started (trace st))"
    and "\<And>i. i \<in> set (started (trace st)) \<Longrightarrow> i < n"
    and "distinct (started (trace st))" and "started_ok env (trace st)"
    and "\<And>i. no_panic env \<Longrightarrow> i \<in> set (started (trace st)) \<Longrightarrow> results st i \<noteq> None"
  shows "batch_inv env calls n st"
  using assms unfolding batch_inv_def by blast

lemma batch_invD:
  assumes "batch_inv env calls n st"
  shows "results st i = Some r \<Longrightarrow>
      i < n \<and> tool_call_id r = fst (calls ! i) \<and> tr_name r = fst (snd (calls ! i))"
    and "(i, tk) \<in> set (pending st) \<Longrightarrow>
      i < n \<and> tk_id tk = fst (calls ! i) \<and> tk_name tk = fst (snd (calls ! i))
        \<and> results st i = None \<and> i \<notin> set (started (trace st)) \<and> authorised env i (trace st)"
    and "distinct (map fst (pending st))"
    and "i < n \<Longrightarrow> results st i \<noteq> None \<or> i \<in> fst ` set (pending st) \<or> i \<in> set (started (trace st))"
    and "i \<in> set (started (trace st)) \<Longrightarrow> i < n"
    and "distinct (started (trace st))" and "started_ok env (trace st)"
    and "no_panic env \<Longrightarrow> i \<in> set (started (trace st)) \<Longrightarrow> results st i \<noteq> None"
  using assms unfolding batch_inv_def by blast+

lemma batch_inv_start: "batch_inv env calls 0 (batch_start t w)"
  by (simp add: batch_inv_def batch_start_def)

text \<open>The three ways a task can end.\<close>

lemma perform_task_cases:
  obtains (cancelled) w res where
      "perform_task env i tk st = put_result i res (st\<lparr>world := w\<rparr>)"
      "tool_call_id res = tk_id tk" "tr_name res = tk_name tk"
  | (ended) w res tr where
      "perform_task env i tk st = put_result i res (st\<lparr>world := w, trace := trace st @ Started i (tk_name tk) (tk_args tk) # tr\<rparr>)"
      "tool_call_id res = tk_id tk" "tr_name res = tk_name tk" "tr = [] \<or> (\<exists>e. tr = [Emitted e])"
  | (panicked) w where
      "perform_task env i tk st = st\<lparr>world := w, trace := trace st @ [Started i (tk_name tk) (tk_args tk)]\<rparr>"
      "\<not> no_panic env"
proof (cases "be_cancelled env (world st)")
  case True
  then show ?thesis
    by (intro cancelled [of "mk_result (tk_id tk) (tk_name tk) ''Cancelled'' True" "world st"])
      (simp_all add: perform_task_def mk_result_def)
next
  case nc: False
  show ?thesis
  proof (cases "be_interrupt env (world st) i")
    case (Some w)
    with nc show ?thesis
      by (intro ended [of "mk_result (tk_id tk) (tk_name tk) ''Cancelled'' True" "[]" w])
        (cases st; simp add: perform_task_def mk_result_def put_result_def jot_def Let_def)+
  next
    case ni: None
    obtain res w where ex: "registry_execute (be_tools env) (world st) (tk_name tk) (tk_args tk) (tk_ctx tk) = (res, w)"
      by (cases "registry_execute (be_tools env) (world st) (tk_name tk) (tk_args tk) (tk_ctx tk)")
    show ?thesis
    proof (cases res)
      case None
      then obtain t where "be_tools env (tk_name tk) = Some t"
        "fst (t_execute t (world st) (tk_args tk) (tk_ctx tk)) = None"
        using ex by (auto simp: registry_execute_def split: option.splits)
      then have "\<not> no_panic env" unfolding no_panic_def by blast
      with None nc ni ex show ?thesis by (intro panicked [of w]) (cases st; simp add: perform_task_def jot_def Let_def)+
    next
      case (Some out)
      obtain a w1 where d: "dispatch (be_plugins env) w
          (AfterToolCall (tk_name tk) (tk_args tk) (to_text out) (to_is_error out)) = (a, w1)" by fastforce
      obtain z w2 where z: "be_compress env w1 (tk_name tk) (to_text out) (to_is_error out) = (z, w2)" by fastforce
      show ?thesis
        by (rule ended [of "mk_result (tk_id tk) (tk_name tk) z (to_is_error out)"
            "[Emitted (EvToolResult (tk_name tk) z (to_is_error out) (to_sandboxed out))]" w2])
          (use nc ni ex Some d z in \<open>simp_all add: perform_task_def finish_task_def jot_def put_result_def mk_result_def Let_def\<close>)
    qed
  qed
qed

text \<open>Whatever does not touch the results, the pending tasks or the trace keeps the invariant.\<close>

lemma batch_inv_frame [simp]:
  "batch_inv env calls n (st\<lparr>world := w\<rparr>) = batch_inv env calls n st"
  "batch_inv env calls n (st\<lparr>thr := t\<rparr>) = batch_inv env calls n st"
  by (simp_all add: batch_inv_def)

lemma batch_inv_jot:
  assumes "batch_inv env calls n st" "started [e] = []"
  shows "batch_inv env calls n (jot e st)"
proof -
  have "\<forall>i m a. e \<noteq> Started i m a" using assms(2) by auto
  then have "started_ok env (trace st @ [e])"
    using assms(1) by (auto simp: batch_inv_def started_ok_snoc split: entry.splits)
  with assms show ?thesis
    by (auto simp: batch_inv_def jot_def intro: authorised_append)
qed

lemma batch_inv_task_done:
  assumes inv: "batch_inv env calls n st" and pd: "pending st = xs @ (i, tk) # ys"
    and tr: "started tr = [] \<or> started tr = [i]" "started_ok env (trace st @ tr)"
    and res: "res = results st \<or> (\<exists>r. res = (results st)(i \<mapsto> r) \<and> tool_call_id r = tk_id tk \<and> tr_name r = tk_name tk)"
    and cov: "res i \<noteq> None \<or> started tr = [i]" and ans: "no_panic env \<Longrightarrow> res i \<noteq> None"
  shows "batch_inv env calls n (st\<lparr>pending := xs @ ys, world := w, trace := trace st @ tr, results := res\<rparr>)"
    (is "batch_inv env calls n ?st")
proof (rule batch_invI)
  note D = batch_invD [OF inv]
  have dist: "i \<notin> fst ` set (xs @ ys)" "distinct (map fst (xs @ ys))"
    using D(3) by (auto simp: pd)
  note here = D(2) [of i tk, unfolded pd, simplified]
  show "j < n \<and> tool_call_id q = fst (calls ! j) \<and> tr_name q = fst (snd (calls ! j))"
    if "results ?st j = Some q" for j q
    using that res D(1) [of j q] here by (auto split: if_splits)
  show "k < n \<and> tk_id t = fst (calls ! k) \<and> tk_name t = fst (snd (calls ! k)) \<and> results ?st k = None
      \<and> k \<notin> set (started (trace ?st)) \<and> authorised env k (trace ?st)"
    if "(k, t) \<in> set (pending ?st)" for k t
  proof -
    from that have "k \<noteq> i" using imageI [of "(k, t)" "set (xs @ ys)" fst] dist(1) by auto
    with that D(2) [of k t] res tr(1) show ?thesis by (auto simp: pd intro: authorised_append)
  qed
  show "distinct (map fst (pending ?st))" using dist by simp
  show "k < n" if "k \<in> set (started (trace ?st))" for k
    using that D(5) [of k] tr(1) here by auto
  show "results ?st k \<noteq> None \<or> k \<in> fst ` set (pending ?st) \<or> k \<in> set (started (trace ?st))"
    if "k < n" for k
    using D(4) [OF that] res cov by (cases "k = i") (auto simp: pd)
  show "distinct (started (trace ?st))" using D(6) tr(1) here by auto
  show "started_ok env (trace ?st)" using tr(2) by simp
  show "results ?st k \<noteq> None" if "no_panic env" "k \<in> set (started (trace ?st))" for k
    using that D(8) [of k] res tr(1) ans by (cases "k = i") auto
qed

lemma perform_task_keeps:
  assumes inv: "batch_inv env calls n st" and pd: "pending st = xs @ (i, tk) # ys"
  defines "st' \<equiv> perform_task env i tk (st\<lparr>pending := xs @ ys\<rparr>)"
  shows "batch_inv env calls n st'" and "pending st' = xs @ ys" and "thr st' = thr st"
    and "\<exists>tr. trace st' = trace st @ tr \<and> set tr \<subseteq> range Emitted \<union> {Started i m a | m a. True}"
proof -
  note fin = batch_inv_task_done [OF inv pd]
  have ok: "started_ok env (trace st)" "authorised env i (trace st)"
    using batch_invD(7) [OF inv] batch_invD(2) [OF inv, of i tk] by (auto simp: pd)
  have ok1: "started_ok env (trace st @ [Started i m a])" for m a
    using ok by (simp add: started_ok_snoc)
  have ok2: "started_ok env (trace st @ [Started i m a, Emitted e])" for m a e
    using ok1 [of m a] started_ok_snoc [of env "trace st @ [Started i m a]" "Emitted e"] by simp
  have "\<exists>w tr res. st' = st\<lparr>pending := xs @ ys, world := w, trace := trace st @ tr, results := res\<rparr>
     \<and> batch_inv env calls n st' \<and> set tr \<subseteq> range Emitted \<union> {Started i m a | m a. True}"
  proof (cases rule: perform_task_cases [of env i tk "st\<lparr>pending := xs @ ys\<rparr>"])
    case (cancelled w r)
    then have "st' = st\<lparr>pending := xs @ ys, world := w, trace := trace st @ [], results := (results st)(i \<mapsto> r)\<rparr>"
      by (simp add: st'_def put_result_def)
    with fin [of "[]" "(results st)(i \<mapsto> r)" w] cancelled(2,3) ok(1) show ?thesis by fastforce
  next
    case (ended w r tr)
    let ?tr = "Started i (tk_name tk) (tk_args tk) # tr"
    from ended have st': "st' = st\<lparr>pending := xs @ ys, world := w, trace := trace st @ ?tr,
        results := (results st)(i \<mapsto> r)\<rparr>"
      by (simp add: st'_def put_result_def)
    have "started ?tr = [i]" "started_ok env (trace st @ ?tr)" using ended(4) ok1 ok2 by auto
    then have "batch_inv env calls n st'" using ended(2,3) unfolding st' by (intro fin) auto
    moreover have "set ?tr \<subseteq> range Emitted \<union> {Started i m a | m a. True}" using ended(4) by auto
    ultimately show ?thesis using st' by blast
  next
    case (panicked w)
    let ?tr = "[Started i (tk_name tk) (tk_args tk)]"
    from panicked have st': "st' = st\<lparr>pending := xs @ ys, world := w, trace := trace st @ ?tr, results := results st\<rparr>"
      by (simp add: st'_def)
    have "batch_inv env calls n st'" unfolding st' by (intro fin) (use ok1 panicked(2) in auto)
    moreover have "set ?tr \<subseteq> range Emitted \<union> {Started i m a | m a. True}" by auto
    ultimately show ?thesis using st' by blast
  qed
  then show "batch_inv env calls n st'" "pending st' = xs @ ys" "thr st' = thr st"
    "\<exists>tr. trace st' = trace st @ tr \<and> set tr \<subseteq> range Emitted \<union> {Started i m a | m a. True}" by auto
qed

text \<open>What running tasks in the background does: the invariant and the thread stay, the trace only
  grows, by events and by executions.\<close>

definition background :: "'w batch_env \<Rightarrow> tool_call list \<Rightarrow> nat \<Rightarrow> 'w batch_state \<Rightarrow> 'w batch_state \<Rightarrow> bool" where
  "background env calls n st st' \<longleftrightarrow>
     batch_inv env calls n st' \<and> thr st' = thr st \<and>
     (\<exists>tr. trace st' = trace st @ tr \<and> set tr \<subseteq> range Emitted \<union> {Started i m a | i m a. i < n})"

lemma background_refl: "batch_inv env calls n st \<Longrightarrow> background env calls n st st"
  by (simp add: background_def)

lemma background_trans:
  "background env calls n a b \<Longrightarrow> background env calls n b c \<Longrightarrow> background env calls n a c"
  unfolding background_def by (metis (no_types, lifting) Un_least append.assoc set_append)

lemma run_task_background:
  assumes inv: "batch_inv env calls n st" and j: "j < length (pending st)"
  shows "background env calls n st (run_task env j st)"
    and "length (pending (run_task env j st)) = length (pending st) - 1"
proof -
  obtain i tk where itk: "pending st ! j = (i, tk)" by fastforce
  let ?xs = "take j (pending st)" and ?ys = "drop (Suc j) (pending st)"
  have pd: "pending st = ?xs @ (i, tk) # ?ys" using id_take_nth_drop [OF j] itk by simp
  have i: "i < n" using batch_invD(2) [OF inv, of i tk] j itk nth_mem by metis
  have run: "run_task env j st = perform_task env i tk (st\<lparr>pending := ?xs @ ?ys\<rparr>)"
    by (simp add: run_task_def itk)
  from perform_task_keeps [OF inv pd] i show "background env calls n st (run_task env j st)"
    unfolding run background_def by blast
  from perform_task_keeps(2) [OF inv pd] show "length (pending (run_task env j st)) = length (pending st) - 1"
    using j unfolding run by simp
qed

lemma run_ready_background:
  "batch_inv env calls n st \<Longrightarrow> background env calls n st (run_ready k env st)"
proof (induction k env st rule: run_ready.induct)
  case (2 k env st)
  show ?case
  proof (cases "be_sched env (world st) (map fst (pending st)) = None \<or> pending st = []")
    case True
    then show ?thesis using 2 by (auto simp: background_refl split: option.splits)
  next
    case False
    then obtain m where m: "be_sched env (world st) (map fst (pending st)) = Some m" "pending st \<noteq> []" by auto
    then have "m mod length (pending st) < length (pending st)" by simp
    from run_task_background(1) [OF "2.prems" this] have bg: "background env calls n st (run_task env (m mod length (pending st)) st)" .
    then have "batch_inv env calls n (run_task env (m mod length (pending st)) st)" by (simp add: background_def)
    from "2.IH" [OF m this] bg m show ?thesis by (auto intro: background_trans)
  qed
qed (simp add: background_refl)

lemma await_background: "batch_inv env calls n st \<Longrightarrow> background env calls n st (await env st)"
  unfolding await_def by (rule run_ready_background)

lemma join_all_background:
  "batch_inv env calls n st \<Longrightarrow> length (pending st) \<le> k \<Longrightarrow>
     background env calls n st (join_all k env st) \<and> pending (join_all k env st) = []"
proof (induction k env st rule: join_all.induct)
  case (2 k env st)
  show ?case
  proof (cases "pending st = []")
    case True
    then show ?thesis using 2 by (simp add: background_refl)
  next
    case False
    let ?j = "case be_sched env (world st) (map fst (pending st)) of None \<Rightarrow> 0 | Some k \<Rightarrow> k mod length (pending st)"
    have "?j < length (pending st)" using False by (auto split: option.splits)
    note bg = run_task_background [OF "2.prems"(1) this]
    have "batch_inv env calls n (run_task env ?j st)" using bg(1) by (simp add: background_def)
    from "2.IH" [OF False this] bg "2.prems"(2) False show ?thesis by (auto intro: background_trans)
  qed
qed (simp add: background_refl)

section \<open>Submitting keeps the invariant\<close>

lemma batch_inv_put_result:
  assumes inv: "batch_inv env calls n st" and r: "tool_call_id r = fst (calls ! n)" "tr_name r = fst (snd (calls ! n))"
  shows "batch_inv env calls (Suc n) (put_result n r st)"
proof (rule batch_invI)
  note D = batch_invD [OF inv]
  show "i < Suc n \<and> tk_id tk = fst (calls ! i) \<and> tk_name tk = fst (snd (calls ! i))
      \<and> results (put_result n r st) i = None \<and> i \<notin> set (started (trace (put_result n r st)))
      \<and> authorised env i (trace (put_result n r st))"
    if "(i, tk) \<in> set (pending (put_result n r st))" for i tk
    using that D(2) [of i tk] by (auto simp: put_result_def)
  show "i < Suc n \<and> tool_call_id q = fst (calls ! i) \<and> tr_name q = fst (snd (calls ! i))"
    if "results (put_result n r st) i = Some q" for i q
    using that r D(1) [of i q] by (auto simp: put_result_def split: if_splits)
  show "results (put_result n r st) i \<noteq> None \<or> i \<in> fst ` set (pending (put_result n r st))
      \<or> i \<in> set (started (trace (put_result n r st)))" if "i < Suc n" for i
    using that D(4) [of i] by (cases "i = n") (auto simp: put_result_def)
  show "i < Suc n" if "i \<in> set (started (trace (put_result n r st)))" for i
    using that D(5) [of i] by (simp add: put_result_def)
qed (use batch_invD(3,6,7,8) [OF inv] in \<open>simp_all add: put_result_def\<close>)

lemma batch_inv_spawn:
  assumes inv: "batch_inv env calls n st" and c: "calls ! n = c"
    and auth: "authorised env n (trace st)"
  shows "batch_inv env calls (Suc n) (spawn_call env tcx n c st)"
proof -
  obtain cid name args where call: "c = (cid, name, args)" by (cases c)
  define e where "e = Emitted (Permission name PermAllow None)"
  have inv': "batch_inv env calls n (jot e st)" using inv by (rule batch_inv_jot) (simp add: e_def)
  note D = batch_invD [OF inv']
  have auth': "authorised env n (trace (jot e st))" using auth by (simp add: jot_def authorised_append)
  have new: "results (jot e st) n = None" "n \<notin> set (started (trace (jot e st)))" "n \<notin> fst ` set (pending (jot e st))"
    using D(1) [of n] D(5) [of n] D(2) [of n] by fastforce+
  define tk where "tk = \<lparr>tk_id = cid, tk_name = name, tk_args = reroot_sandbox_args name args (be_sandbox env),
                tk_ctx = sandbox_context tcx (be_sandbox env)\<rparr>"
  have sp: "spawn_call env tcx n c st = (jot e st)\<lparr>pending := pending (jot e st) @ [(n, tk)]\<rparr>"
    by (simp add: spawn_call_def call e_def tk_def Let_def)
  show ?thesis unfolding sp
  proof (rule batch_invI)
    show "i < Suc n \<and> tk_id t = fst (calls ! i) \<and> tk_name t = fst (snd (calls ! i))
      \<and> results ((jot e st)\<lparr>pending := pending (jot e st) @ [(n, tk)]\<rparr>) i = None
      \<and> i \<notin> set (started (trace ((jot e st)\<lparr>pending := pending (jot e st) @ [(n, tk)]\<rparr>)))
      \<and> authorised env i (trace ((jot e st)\<lparr>pending := pending (jot e st) @ [(n, tk)]\<rparr>))"
      if "(i, t) \<in> set (pending ((jot e st)\<lparr>pending := pending (jot e st) @ [(n, tk)]\<rparr>))" for i t
      using that D(2) [of i t] new(1,2) auth' by (auto simp: tk_def c call)
  next
    show "i < Suc n \<and> tool_call_id r = fst (calls ! i) \<and> tr_name r = fst (snd (calls ! i))"
      if "results ((jot e st)\<lparr>pending := pending (jot e st) @ [(n, tk)]\<rparr>) i = Some r" for i r
      using that D(1) [of i r] by simp
    show "distinct (map fst (pending ((jot e st)\<lparr>pending := pending (jot e st) @ [(n, tk)]\<rparr>)))"
      using D(3) new(3) by simp
    show "results ((jot e st)\<lparr>pending := pending (jot e st) @ [(n, tk)]\<rparr>) i \<noteq> None
        \<or> i \<in> fst ` set (pending ((jot e st)\<lparr>pending := pending (jot e st) @ [(n, tk)]\<rparr>))
        \<or> i \<in> set (started (trace ((jot e st)\<lparr>pending := pending (jot e st) @ [(n, tk)]\<rparr>)))"
      if "i < Suc n" for i
      using that D(4) [of i] by (cases "i = n") auto
    show "i < Suc n" if "i \<in> set (started (trace ((jot e st)\<lparr>pending := pending (jot e st) @ [(n, tk)]\<rparr>)))" for i
      using that D(5) [of i] by simp
  qed (use D(6,7,8) in simp_all)
qed

lemma trace_jot [simp]: "trace (jot e st) = trace st @ [e]" "thr (jot e st) = thr st" "world (jot e st) = world st"
  by (simp_all add: jot_def)

lemma trace_put_result [simp]: "trace (put_result i r st) = trace st" "thr (put_result i r st) = thr st"
  by (simp_all add: put_result_def)

lemma refuse_keeps:
  assumes "batch_inv env calls n st" "calls ! n = (cid, name, args)"
  shows "batch_inv env calls (Suc n) (refuse n cid name act why out st)"
    and "thr (refuse n cid name act why out st) = thr st"
  using batch_inv_put_result [OF batch_inv_jot [OF assms(1)]] assms(2)
  by (simp_all add: refuse_def mk_result_def)

definition asked :: "entry list \<Rightarrow> bool" where
  "asked tr \<longleftrightarrow> (\<exists>i d. GateSaid i d \<in> set tr)"

text \<open>After the gate was asked, a thread that is not in yolo mode is awaiting approval.\<close>

definition status_ok :: "'w batch_state \<Rightarrow> bool" where
  "status_ok st \<longleftrightarrow> yolo_mode (thr st) \<or> \<not> asked (trace st) \<or> status (thr st) = AwaitingApproval"

definition step_ok :: "'w batch_env \<Rightarrow> tool_call list \<Rightarrow> nat \<Rightarrow> agent_thread \<Rightarrow> 'w batch_state \<Rightarrow> bool" where
  "step_ok env calls n t st \<longleftrightarrow> batch_inv env calls n st \<and> thread_frame t (thr st) \<and> status_ok st"

lemma asked_append [simp]: "asked (xs @ ys) \<longleftrightarrow> asked xs \<or> asked ys"
  by (auto simp: asked_def)

lemma asked_simps [simp]:
  "\<not> asked []" "asked (GateSaid i d # tr)" "asked (Emitted e # tr) = asked tr"
  "asked (VetoCheck i a # tr) = asked tr" "asked (DenyCheck i a # tr) = asked tr"
  "asked (PolicySaid i p # tr) = asked tr"
  by (auto simp: asked_def)

lemma thread_frame_refl [simp]: "thread_frame t t"
  unfolding thread_frame_def by (rule exI [of _ "conversation t"], rule exI [of _ "status t"]) simp

lemma thread_frame_status: "thread_frame t u \<Longrightarrow> thread_frame t (u\<lparr>status := s\<rparr>)"
  by (auto simp: thread_frame_def) blast

lemma thread_frame_conversation: "thread_frame t u \<Longrightarrow> thread_frame t (u\<lparr>conversation := c\<rparr>)"
proof -
  assume "thread_frame t u"
  then obtain d s where "u = t\<lparr>conversation := d, status := s\<rparr>" by (auto simp: thread_frame_def)
  then have "u\<lparr>conversation := c\<rparr> = t\<lparr>conversation := c, status := s\<rparr>" by simp
  then show ?thesis unfolding thread_frame_def by blast
qed

lemma await_step_ok:
  assumes "step_ok env calls n t st"
  shows "step_ok env calls n t (await env st)" and "thr (await env st) = thr st"
    and "set (trace st) \<subseteq> set (trace (await env st))"
proof -
  from assms have "background env calls n st (await env st)" by (simp add: step_ok_def await_background)
  then obtain tr where tr: "batch_inv env calls n (await env st)" "thr (await env st) = thr st"
    "trace (await env st) = trace st @ tr" "set tr \<subseteq> range Emitted \<union> {Started i m a | i m a. i < n}"
    by (auto simp: background_def)
  then have "\<not> asked tr" by (auto simp: asked_def)
  with tr assms show "step_ok env calls n t (await env st)" "thr (await env st) = thr st"
    "set (trace st) \<subseteq> set (trace (await env st))" by (auto simp: step_ok_def status_ok_def)
qed

lemma step_ok_jot_world:
  "step_ok env calls n t st \<Longrightarrow> started [e] = [] \<Longrightarrow> \<not> asked [e] \<Longrightarrow> step_ok env calls n t (jot e (st\<lparr>world := w\<rparr>))"
  by (simp add: step_ok_def batch_inv_jot status_ok_def)

lemma step_ok_jot:
  "step_ok env calls n t st \<Longrightarrow> started [e] = [] \<Longrightarrow> \<not> asked [e] \<Longrightarrow> step_ok env calls n t (jot e st)"
  by (simp add: step_ok_def batch_inv_jot status_ok_def)

lemma refuse_step_ok:
  "step_ok env calls n t st \<Longrightarrow> calls ! n = (cid, name, args) \<Longrightarrow>
     step_ok env calls (Suc n) t (refuse n cid name act why out st)"
  using refuse_keeps [of env calls n st cid name args act why out]
  by (auto simp: step_ok_def status_ok_def refuse_def)

lemma spawn_call_sel [simp]:
  "thr (spawn_call env tcx i c st) = thr st" "asked (trace (spawn_call env tcx i c st)) = asked (trace st)"
  by (cases c; simp add: spawn_call_def Let_def)+

lemma ask_approval_step_ok:
  assumes ok: "step_ok env calls n t st" and c: "calls ! n = c" and clr: "cleared env n (trace st)"
  shows "step_ok env calls (Suc n) t (ask_approval env tcx n c st)"
proof -
  obtain cid name args where call: "c = (cid, name, args)" by (cases c)
  define st0 where "st0 = await env st"
  define st1 where "st1 = (if \<not> yolo_mode (thr st0) then st0\<lparr>thr := (thr st0)\<lparr>status := AwaitingApproval\<rparr>\<rparr> else st0)"
  obtain d w where g: "be_gate env (world st1) (make_request (be_fs env (world st0)) name args) = (d, w)" by fastforce
  define st2 where "st2 = jot (GateSaid n d) (st1\<lparr>world := w\<rparr>)"
  note aw = await_step_ok [OF ok, folded st0_def]
  have ok2: "step_ok env calls n t st2"
    using aw(1) by (auto simp: step_ok_def st2_def st1_def batch_inv_jot status_ok_def
        intro: thread_frame_status)
  have clr2: "cleared env n (trace st2)"
    using clr aw(3) by (auto simp: cleared_def st2_def st1_def)
  have eq: "ask_approval env tcx n c st = (case d of
       Approved \<Rightarrow> spawn_call env tcx n c st2
     | Rejected why \<Rightarrow> refuse n cid name PermDeny why (''User rejected: '' @ why) st2
     | Modify _ _ \<Rightarrow> refuse n cid name PermDeny ''request modified by user'' ''User modified the request'' st2)"
    unfolding ask_approval_def call Let_def prod.case
    by (simp only: st0_def [symmetric] st1_def [symmetric] g prod.case st2_def [symmetric])
  show ?thesis
  proof (cases d)
    case Approved
    have "authorised env n (trace st2)"
      using clr2 Approved by (simp add: authorised_def st2_def)
    with ok2 c have "batch_inv env calls (Suc n) (spawn_call env tcx n c st2)"
      by (simp add: batch_inv_spawn step_ok_def)
    with ok2 show ?thesis unfolding eq by (simp add: Approved step_ok_def status_ok_def)
  qed (unfold eq, use refuse_step_ok [OF ok2 c [unfolded call]] in simp_all)
qed

lemma check_policy_step_ok:
  assumes ok: "step_ok env calls n t st" and c: "calls ! n = c"
    and veto: "\<exists>a. VetoCheck n a \<in> set (trace st) \<and> (\<nexists>why. a = PVeto why)"
    and deny: "\<exists>a. DenyCheck n a \<in> set (trace st) \<and> (\<nexists>why. a = PDenyRun why)"
  shows "step_ok env calls (Suc n) t (check_policy env tcx n c st)"
proof (cases "be_policy env")
  case None
  then have "cleared env n (trace st)" using veto deny by (simp add: cleared_def)
  from ask_approval_step_ok [OF ok c this] None show ?thesis
    by (cases c) (simp add: check_policy_def)
next
  case (Some policy)
  obtain cid name args where call: "c = (cid, name, args)" by (cases c)
  obtain d w where g: "policy (world (await env st)) name args = (d, w)" by fastforce
  define st2 where "st2 = jot (PolicySaid n d) ((await env st)\<lparr>world := w\<rparr>)"
  note aw = await_step_ok [OF ok]
  have ok2: "step_ok env calls n t st2" unfolding st2_def by (rule step_ok_jot_world [OF aw(1)]) simp_all
  have eq: "check_policy env tcx n c st = (case d of
       PDeny why \<Rightarrow> refuse n cid name PermDeny why (''Policy denied: '' @ why) st2
     | PromptUser \<Rightarrow> ask_approval env tcx n c st2 | PAllow \<Rightarrow> ask_approval env tcx n c st2)"
    unfolding check_policy_def call Let_def prod.case
    by (simp only: Some option.case g prod.case st2_def [symmetric])
  have "cleared env n (trace st2)" if "\<nexists>why. d = PDeny why"
    using that veto deny aw(3) by (cases d) (auto simp: cleared_def st2_def)
  with ok2 c refuse_step_ok [OF ok2 c [unfolded call]] show ?thesis unfolding eq
    by (cases d) (simp_all add: ask_approval_step_ok)
qed

fun flow_ok :: "'w batch_env \<Rightarrow> tool_call list \<Rightarrow> nat \<Rightarrow> agent_thread \<Rightarrow> 'w flow \<Rightarrow> bool" where
  "flow_ok env calls n t (Next st) \<longleftrightarrow> step_ok env calls (Suc n) t st"
| "flow_ok env calls n t (Stop why st) \<longleftrightarrow>
     step_ok env calls n t st \<and> DenyCheck n (PDenyRun why) \<in> set (trace st)"

lemma check_plugins_ok:
  assumes ok: "step_ok env calls n t st" and c: "calls ! n = c"
  shows "flow_ok env calls n t (check_plugins env tcx n c st)"
proof -
  obtain cid name args where call: "c = (cid, name, args)" by (cases c)
  let ?ev = "BeforeToolCall name args"
  obtain a w where a: "dispatch (be_plugins env) (world (await env st)) ?ev = (a, w)" by fastforce
  define st1 where "st1 = jot (VetoCheck n a) ((await env st)\<lparr>world := w\<rparr>)"
  have ok1: "step_ok env calls n t st1"
    unfolding st1_def by (rule step_ok_jot_world [OF await_step_ok(1) [OF ok]]) simp_all
  obtain b w' where b: "dispatch (be_plugins env) (world (await env st1)) ?ev = (b, w')" by fastforce
  define st3 where "st3 = jot (DenyCheck n b) ((await env st1)\<lparr>world := w'\<rparr>)"
  note aw = await_step_ok [OF ok1]
  have ok3: "step_ok env calls n t st3" unfolding st3_def by (rule step_ok_jot_world [OF aw(1)]) simp_all
  have tr3: "VetoCheck n a \<in> set (trace st3)" "DenyCheck n b \<in> set (trace st3)"
    using aw(3) by (auto simp: st3_def st1_def)
  have eq: "check_plugins env tcx n c st = (case a of
       PVeto why \<Rightarrow> Next (refuse n cid name PermVeto why (''Vetoed by plugin policy: '' @ why) st1)
     | _ \<Rightarrow> (case b of
           PDenyRun why \<Rightarrow> Stop why (jot (Emitted (Permission name PermDeny (Some why))) st3)
         | _ \<Rightarrow> Next (check_policy env tcx n c st3)))"
    unfolding check_plugins_def call Let_def prod.case
    by (simp only: a prod.case st1_def [symmetric] b st3_def [symmetric])
  have pol: "step_ok env calls (Suc n) t (check_policy env tcx n c st3)"
    if "\<nexists>why. a = PVeto why" "\<nexists>why. b = PDenyRun why"
    using check_policy_step_ok [OF ok3 c] that tr3 by blast
  have stop: "flow_ok env calls n t (Stop why (jot (Emitted (Permission name PermDeny (Some why))) st3))"
    if "b = PDenyRun why" for why
    using that tr3(2) step_ok_jot [OF ok3] by simp
  show ?thesis unfolding eq
    using refuse_step_ok [OF ok1 c [unfolded call]] pol stop by (cases a; cases b) auto
qed

lemma submit_call_ok:
  assumes ok: "step_ok env calls n t st" and c: "calls ! n = c"
  shows "flow_ok env calls n t (submit_call env tcx n c st)"
proof -
  obtain cid name args where call: "c = (cid, name, args)" by (cases c)
  define conv where "conv = (case add_tool_call cid name args (conversation (thr st)) of
                      Some cv \<Rightarrow> cv | None \<Rightarrow> conversation (thr st))"
  define st1 where "st1 = jot (Emitted (EvToolCall name args)) (st\<lparr>thr := (thr st)\<lparr>conversation := conv\<rparr>\<rparr>)"
  have ok1: "step_ok env calls n t st1"
    using ok by (auto simp: st1_def step_ok_def batch_inv_jot status_ok_def intro: thread_frame_conversation)
  have put: "step_ok env calls (Suc n) t (put_result n (mk_result cid name out True) st1)" for out
    using ok1 c batch_inv_put_result [of env calls n st1 "mk_result cid name out True"]
    by (simp add: step_ok_def status_ok_def call mk_result_def)
  have eq: "submit_call env tcx n c st =
     (if exhausted (budget (thr st1)) then
             Next (put_result n (mk_result cid name
                     (''Budget exhausted '' @ em_dash @ '' tool execution skipped'') True) st1)
           else if be_tools env name = None then
             Next (put_result n (mk_result cid name (''Tool not found: '' @ name) True) st1)
           else check_plugins env tcx n c st1)"
    unfolding submit_call_def call Let_def prod.case by (simp only: conv_def [symmetric] st1_def [symmetric])
  show ?thesis unfolding eq using put check_plugins_ok [OF ok1 c] by auto
qed

lemma submit_all_ok:
  "step_ok env calls n t st \<Longrightarrow> drop n calls = cs \<Longrightarrow> n + length cs = length calls \<Longrightarrow>
     (case submit_all env tcx n cs st of
        Next st' \<Rightarrow> step_ok env calls (length calls) t st'
      | Stop why st' \<Rightarrow> \<exists>i < length calls. flow_ok env calls i t (Stop why st'))"
proof (induction cs arbitrary: n st)
  case (Cons c cs)
  then have c: "calls ! n = c" "n < length calls" by (auto simp: nth_via_drop)
  note ok = submit_call_ok [OF Cons.prems(1) c(1), of tcx]
  show ?case
  proof (cases "submit_call env tcx n c st")
    case (Next st')
    with ok have "step_ok env calls (Suc n) t st'" by simp
    moreover have "drop (Suc n) calls = cs" using Cons.prems(2) by (metis drop_Suc drop_tl list.sel(3))
    ultimately show ?thesis using Cons.IH [of "Suc n" st'] Cons.prems(3) Next by simp
  next
    case (Stop why st')
    with ok c(2) show ?thesis by auto
  qed
qed simp

lemma execute_ok:
  assumes "execute_tools_concurrent env tcx calls t w = (out, st)"
  shows "case out of
       Results rs \<Rightarrow> step_ok env calls (length calls) t st \<and> pending st = [] \<and> rs = ordered_results (length calls) st
     | Denied why \<Rightarrow> \<exists>i < length calls. flow_ok env calls i t (Stop why st)"
proof -
  have "step_ok env calls 0 t (batch_start t w)"
    by (simp add: step_ok_def batch_inv_start status_ok_def) (simp add: batch_start_def)
  note ok = submit_all_ok [OF this, of calls tcx, simplified]
  show ?thesis
  proof (cases "submit_all env tcx 0 calls (batch_start t w)")
    case (Next st')
    with ok have s: "step_ok env calls (length calls) t st'" by simp
    then have "background env calls (length calls) st' (join_all (length (pending st')) env st')"
      and nil: "pending (join_all (length (pending st')) env st') = []"
      using join_all_background [of env calls "length calls" st'] by (auto simp: step_ok_def)
    then have "step_ok env calls (length calls) t (join_all (length (pending st')) env st')"
      using s by (fastforce simp: background_def step_ok_def status_ok_def asked_def)
    with Next assms nil show ?thesis by (auto simp: execute_tools_concurrent_def Let_def)
  next
    case (Stop why st')
    with assms ok show ?thesis by (auto simp: execute_tools_concurrent_def)
  qed
qed

section \<open>Properties\<close>

lemma map_filter_total: "\<forall>x \<in> set xs. f x \<noteq> None \<Longrightarrow> List.map_filter f xs = map (the \<circ> f) xs"
  by (induction xs) auto

lemma execute_in_order:
  assumes "no_panic env" and "execute_tools_concurrent env tcx calls t w = (Results rs, st)"
  shows "length rs = length calls \<and>
    (\<forall>i < length calls. tool_call_id (rs ! i) = fst (calls ! i) \<and> tr_name (rs ! i) = fst (snd (calls ! i)))"
proof -
  from execute_ok [OF assms(2)] have inv: "batch_inv env calls (length calls) st"
    and pd: "pending st = []" and rs: "rs = ordered_results (length calls) st"
    by (auto simp: step_ok_def)
  have "results st i \<noteq> None" if "i < length calls" for i
    using batch_invD(4,8) [OF inv, of i] that assms(1) pd by auto
  then have "rs = map (the \<circ> results st) [0..<length calls]"
    by (simp add: rs ordered_results_def map_filter_total)
  with batch_invD(1) [OF inv] \<open>\<And>i. i < length calls \<Longrightarrow> results st i \<noteq> None\<close> show ?thesis by fastforce
qed


definition ex_tool :: "string \<Rightarrow> unit tool" where
  "ex_tool n = \<lparr>t_name = n, t_description = [], t_input_schema = JNull, t_is_mutating = False,
                t_execute = (\<lambda>w a c. (Some (output_ok ''ok''), w))\<rparr>"

definition ex_env :: "unit gate \<Rightarrow> unit plugin_registry \<Rightarrow> unit batch_env" where
  "ex_env g pr = \<lparr>be_tools = [''t'' \<mapsto> ex_tool ''t''], be_gate = g, be_policy = None, be_plugins = pr,
     be_sandbox = None, be_compress = (\<lambda>w n s e. (s, w)), be_fs = (\<lambda>_. \<lparr>fs_root = Dir [], fs_cwd = []\<rparr>),
     be_cancelled = (\<lambda>_. False), be_interrupt = (\<lambda>_ _. None),
     be_sched = (\<lambda>_ ps. if length ps = 2 then Some 1 else None)\<rparr>"

lemmas ex_batch_simps = execute_tools_concurrent_def submit_call_def check_plugins_def check_policy_def
  ask_approval_def spawn_call_def refuse_def put_result_def jot_def await_def run_task_def perform_task_def
  finish_task_def registry_execute_def dispatch_def batch_start_def ordered_results_def ex_env_def ex_tool_def
  thread_new_def budget_new_def reroot_sandbox_args_def sandbox_context_def mk_result_def Let_def
  auto_approval_gate_def registry_new_def add_tool_call_def push_item_def conversation_new_def
  output_ok_def make_request_def captured_diff_def

lemma ex_env_no_panic: "no_panic (ex_env g pr)"
  by (auto simp: no_panic_def ex_env_def ex_tool_def)


text \<open>
  C7. No tool runs unauthorised: in every run of a batch, whatever the interleaving, each
  execution of a tool comes after a first plugin dispatch that was no veto, a second one that
  was no denial, a policy that did not deny (when there is one) and an approval of the gate, all
  for that very call; and no call is executed twice.
\<close>

theorem tools_run_authorised:
  assumes "execute_tools_concurrent env tcx calls t w = (out, st)"
  shows "distinct (started (trace st)) \<and>
    (\<forall>pre i name args post. trace st = pre @ Started i name args # post \<longrightarrow>
       GateSaid i Approved \<in> set pre
       \<and> (\<exists>a. VetoCheck i a \<in> set pre \<and> (\<nexists>why. a = PVeto why))
       \<and> (\<exists>a. DenyCheck i a \<in> set pre \<and> (\<nexists>why. a = PDenyRun why))
       \<and> (be_policy env = None \<or> PolicySaid i PAllow \<in> set pre \<or> PolicySaid i PromptUser \<in> set pre))"
proof -
  have "\<exists>n. batch_inv env calls n st"
    using execute_ok [OF assms] by (auto simp: step_ok_def split: batch_outcome.splits)
  then obtain n where inv: "batch_inv env calls n st" ..
  from batch_invD(6,7) [OF inv] show ?thesis
    unfolding started_ok_def authorised_def cleared_def by blast
qed

theorem tools_run_authorised_witness:
  "\<exists>pre post st. execute_tools_concurrent (ex_env auto_approval_gate registry_new) tool_context_new
       [(''1'', ''t'', JNull)] (thread_new ''x'' 5 5 True) () = (Results [mk_result ''1'' ''t'' ''ok'' False], st)
     \<and> trace st = pre @ Started 0 ''t'' JNull # post \<and> GateSaid 0 Approved \<in> set pre"
proof -
  define pre where "pre = [Emitted (EvToolCall ''t'' JNull), VetoCheck 0 PContinue, DenyCheck 0 PContinue,
        GateSaid 0 Approved, Emitted (Permission ''t'' PermAllow None)]"
  define post where "post = [Emitted (EvToolResult ''t'' ''ok'' False False)]"
  obtain st where e: "execute_tools_concurrent (ex_env auto_approval_gate registry_new) tool_context_new
       [(''1'', ''t'', JNull)] (thread_new ''x'' 5 5 True) () = (Results [mk_result ''1'' ''t'' ''ok'' False], st)"
    and t: "trace st = pre @ Started 0 ''t'' JNull # post"
    by (simp add: ex_batch_simps pre_def post_def)
  from tools_run_authorised [OF e, THEN conjunct2, rule_format, OF t] have "GateSaid 0 Approved \<in> set pre"
    by (rule conjunct1)
  then show ?thesis using e t by (intro exI [of _ pre] exI [of _ post] exI [of _ st] conjI)
qed

text \<open>
  A plugin denial stops the batch: when the batch is denied, the second plugin dispatch for
  some call denied it with that reason, and neither that call nor any later one was executed
  (earlier calls may have been).
\<close>

theorem denied_batch_stops:
  assumes "execute_tools_concurrent env tcx calls t w = (Denied why, st)"
  shows "\<exists>i < length calls. DenyCheck i (PDenyRun why) \<in> set (trace st) \<and> (\<forall>j \<in> set (started (trace st)). j < i)"
  using execute_ok [OF assms] by (auto simp: step_ok_def dest: batch_invD(5))

theorem denied_batch_stops_witness:
  "\<exists>st. execute_tools_concurrent
       (ex_env auto_approval_gate \<lparr>reg_plugins = Map.empty, reg_hooks = [(''p'', fn_hook (\<lambda>_. PDenyRun ''no''))]\<rparr>)
       tool_context_new [(''1'', ''t'', JNull)] (thread_new ''x'' 5 5 True) () = (Denied ''no'', st)
     \<and> started (trace st) = []"
proof -
  let ?env = "ex_env auto_approval_gate \<lparr>reg_plugins = Map.empty, reg_hooks = [(''p'', fn_hook (\<lambda>_. PDenyRun ''no''))]\<rparr>"
  obtain st where e: "execute_tools_concurrent ?env tool_context_new [(''1'', ''t'', JNull)]
      (thread_new ''x'' 5 5 True) () = (Denied ''no'', st)"
    by (simp add: ex_batch_simps fn_hook_def)
  from denied_batch_stops [OF e] have "started (trace st) = []" by (cases "started (trace st)") auto
  with e show ?thesis by blast
qed

definition skip_result :: "tool_call \<Rightarrow> tool_result" where
  "skip_result c =
     mk_result (fst c) (fst (snd c)) (''Budget exhausted '' @ em_dash @ '' tool execution skipped'') True"

lemma submit_call_exhausted:
  assumes "exhausted (budget (thr st))"
  obtains cv where "submit_call env tcx i (cid, name, args) st =
    Next (st\<lparr>thr := (thr st)\<lparr>conversation := cv\<rparr>, trace := trace st @ [Emitted (EvToolCall name args)],
             results := (results st)(i \<mapsto> skip_result (cid, name, args))\<rparr>)"
  using assms that by (simp add: submit_call_def put_result_def jot_def skip_result_def Let_def)

lemma submit_all_exhausted:
  assumes "exhausted (budget (thr st))" "pending st = []" "\<forall>j \<ge> n. results st j = None"
  shows "\<exists>st' cv. submit_all env tcx n cs st = Next st' \<and> world st' = world st \<and> pending st' = []
    \<and> thr st' = (thr st)\<lparr>conversation := cv\<rparr>
    \<and> trace st' = trace st @ map (\<lambda>(_, name, args). Emitted (EvToolCall name args)) cs
    \<and> results st' = (\<lambda>j. if n \<le> j \<and> j < n + length cs then Some (skip_result (cs ! (j - n))) else results st j)"
  using assms
proof (induction cs arbitrary: n st)
  case Nil
  show ?case
    by (rule exI [of _ st], rule exI [of _ "conversation (thr st)"]) (use Nil in \<open>auto simp: fun_eq_iff\<close>)
next
  case (Cons c cs)
  obtain cid name args where c: "c = (cid, name, args)" by (cases c)
  from submit_call_exhausted [OF Cons.prems(1), of env tcx n cid name args] obtain cv where
    st1: "submit_call env tcx n c st =
      Next (st\<lparr>thr := (thr st)\<lparr>conversation := cv\<rparr>, trace := trace st @ [Emitted (EvToolCall name args)],
             results := (results st)(n \<mapsto> skip_result c)\<rparr>)" (is "_ = Next ?st1") by (auto simp: c)
  have "exhausted (budget (thr ?st1))" "pending ?st1 = []" "\<forall>j \<ge> Suc n. results ?st1 j = None"
    using Cons.prems by auto
  from Cons.IH [OF this] obtain st' cv' where st': "submit_all env tcx (Suc n) cs ?st1 = Next st'"
    "world st' = world st" "pending st' = []" "thr st' = (thr ?st1)\<lparr>conversation := cv'\<rparr>"
    "trace st' = trace ?st1 @ map (\<lambda>(_, name, args). Emitted (EvToolCall name args)) cs"
    "results st' = (\<lambda>j. if Suc n \<le> j \<and> j < Suc n + length cs then Some (skip_result (cs ! (j - Suc n))) else results ?st1 j)"
    by auto
  show ?case
  proof (intro exI conjI)
    show "submit_all env tcx n (c # cs) st = Next st'" using st1 st'(1) by simp
    show "thr st' = (thr st)\<lparr>conversation := cv'\<rparr>" using st'(4) by simp
    show "results st' = (\<lambda>j. if n \<le> j \<and> j < n + length (c # cs) then Some (skip_result ((c # cs) ! (j - n))) else results st j)"
      unfolding st'(6) by (auto simp: fun_eq_iff nth_Cons' Suc_le_eq diff_Suc split: nat.splits)
  qed (use st' in \<open>simp_all add: c\<close>)
qed

text \<open>
  With an exhausted budget nothing is executed and nobody is asked: every call gets the
  skip result, and the world outside is left alone.
\<close>

theorem exhausted_runs_nothing:
  assumes "exhausted (budget t)"
  shows "\<exists>st. execute_tools_concurrent env tcx calls t w = (Results (map skip_result calls), st)
    \<and> world st = w \<and> trace st = map (\<lambda>(_, name, args). Emitted (EvToolCall name args)) calls"
proof -
  have "exhausted (budget (thr (batch_start t w)))" "pending (batch_start t w) = []"
    "\<forall>j \<ge> 0. results (batch_start t w) j = None"
    using assms by (simp_all add: batch_start_def)
  from submit_all_exhausted [OF this, of env tcx calls] obtain st where
    st: "submit_all env tcx 0 calls (batch_start t w) = Next st" "world st = w" "pending st = []"
    "trace st = map (\<lambda>(_, name, args). Emitted (EvToolCall name args)) calls"
    "results st = (\<lambda>j. if j < length calls then Some (skip_result (calls ! j)) else None)"
    by (auto simp: batch_start_def fun_eq_iff)
  have "ordered_results (length calls) st = map skip_result calls"
  proof -
    have "ordered_results (length calls) st = map (the \<circ> results st) [0..<length calls]"
      unfolding ordered_results_def by (rule map_filter_total) (simp add: st(5))
    also have "\<dots> = map skip_result calls" by (rule nth_equalityI) (simp_all add: st(5))
    finally show ?thesis .
  qed
  with st show ?thesis by (simp add: execute_tools_concurrent_def)
qed

theorem exhausted_runs_nothing_witness:
  "\<exists>st. execute_tools_concurrent (ex_env auto_approval_gate registry_new) tool_context_new [(''1'', ''t'', JNull)]
      ((thread_new ''x'' 5 5 True)\<lparr>budget := (budget_new None True)\<lparr>exhausted := True\<rparr>\<rparr>) ()
    = (Results [skip_result (''1'', ''t'', JNull)], st) \<and> world st = ()"
  using exhausted_runs_nothing
    [of "(thread_new ''x'' 5 5 True)\<lparr>budget := (budget_new None True)\<lparr>exhausted := True\<rparr>\<rparr>"
      "ex_env auto_approval_gate registry_new" tool_context_new "[(''1'', ''t'', JNull)]" "()"] by auto

text \<open>
  The status is left behind: outside yolo mode, once the gate was asked in a batch, the thread
  still says \<open>AwaitingApproval\<close> when the batch is over, although every answer is in.
\<close>

lemma status_left_awaiting:
  assumes "execute_tools_concurrent env tcx calls t w = (out, st)" and "\<not> yolo_mode t" and "asked (trace st)"
  shows "status (thr st) = AwaitingApproval"
proof -
  have "thread_frame t (thr st)" "status_ok st"
    using execute_ok [OF assms(1)] by (auto simp: step_ok_def split: batch_outcome.splits)
  with assms(2,3) show ?thesis by (auto simp: thread_frame_def status_ok_def)
qed

lemma status_left_awaiting_example:
  "\<exists>st. execute_tools_concurrent (ex_env auto_approval_gate registry_new) tool_context_new [(''1'', ''t'', JNull)]
      (thread_new ''x'' 5 5 False) () = (Results [mk_result ''1'' ''t'' ''ok'' False], st)
    \<and> status (thr st) = AwaitingApproval"
proof -
  obtain st where e: "execute_tools_concurrent (ex_env auto_approval_gate registry_new) tool_context_new [(''1'', ''t'', JNull)]
      (thread_new ''x'' 5 5 False) () = (Results [mk_result ''1'' ''t'' ''ok'' False], st)"
    and a: "asked (trace st)"
    by (simp add: ex_batch_simps asked_def)
  from status_left_awaiting [OF e _ a] e show ?thesis by (auto simp: thread_new_def)
qed

lemma execute_frame:
  "execute_tools_concurrent env tcx calls t w = (out, st) \<Longrightarrow> thread_frame t (thr st)"
  using execute_ok [of env tcx calls t w out st] by (auto simp: step_ok_def split: batch_outcome.splits)

lemma execute_started:
  assumes "execute_tools_concurrent env tcx calls t w = (out, st)"
  shows "started_ok env (trace st)" and "distinct (started (trace st))"
    and "set (started (trace st)) \<subseteq> {..<length calls}"
proof -
  have "\<exists>n \<le> length calls. batch_inv env calls n st"
    using execute_ok [OF assms] by (auto simp: step_ok_def intro: less_imp_le split: batch_outcome.splits)
  then obtain n where n: "n \<le> length calls" and inv: "batch_inv env calls n st" by blast
  show "started_ok env (trace st)" "distinct (started (trace st))"
    using batch_invD(6,7) [OF inv] by simp_all
  show "set (started (trace st)) \<subseteq> {..<length calls}"
    using batch_invD(5) [OF inv] n by fastforce
qed

end
