(* ===== verification/Directory_Walk.thy ===== *)
theory Directory_Walk
  imports Filesystem
begin

text \<open>
  Walks over a directory tree with an explicit stack, the shape that the snapshot store and the search
  tools share: a directory is popped, its files are offered, and its subdirectories that pass a test are
  pushed. Where the code holds paths, the stack here also holds the nodes they name.
\<close>

section \<open>Well-formed trees\<close>

fun wf_node :: "node \<Rightarrow> bool" where
  "wf_node (File _) = True"
| "wf_node (Dir es) \<longleftrightarrow>
     distinct (map fst es) \<and> (\<forall>(c, n) \<in> set es. plain_name c \<and> wf_node n)"

text \<open>The path string of a file below a directory.\<close>

abbreviation path_under :: "string \<Rightarrow> string list \<Rightarrow> string" where
  "path_under d cs \<equiv> foldl path_join d cs"

section \<open>The walk\<close>

text \<open>One directory: what its files contribute and the directories it pushes.\<close>

fun entry_file :: "(string \<Rightarrow> 'a option) \<Rightarrow> string \<Rightarrow> string \<times> node \<Rightarrow> 'a option" where
  "entry_file g d (name, File _) = g (path_join d name)"
| "entry_file g d (name, Dir _) = None"

fun entry_dir :: "(string \<Rightarrow> string \<Rightarrow> bool) \<Rightarrow> string \<Rightarrow> string \<times> node \<Rightarrow> (string \<times> node) option" where
  "entry_dir keep d (name, Dir es) = (if keep d name then Some (path_join d name, Dir es) else None)"
| "entry_dir keep d (name, File _) = None"

abbreviation sub_dirs :: "(string \<Rightarrow> string \<Rightarrow> bool) \<Rightarrow> string \<Rightarrow> (string \<times> node) list \<Rightarrow> (string \<times> node) list" where
  "sub_dirs keep d es \<equiv> List.map_filter (entry_dir keep d) es"

lemma size_sub_dirs:
  "sum_list (map (\<lambda>(_, n). size n) (sub_dirs keep d es)) + length (sub_dirs keep d es) < Suc (size (Dir es))"
proof (induction es)
  case (Cons e es)
  obtain c n where "e = (c, n)" by (cases e)
  then show ?case using Cons by (cases n) auto
qed simp

function tree_walk :: "(string \<Rightarrow> string \<Rightarrow> bool) \<Rightarrow> (string \<Rightarrow> 'a option) \<Rightarrow> (string \<times> node) list \<Rightarrow> 'a list" where
  "tree_walk keep g [] = []"
| "tree_walk keep g ((d, File _) # stack) = tree_walk keep g stack"
| "tree_walk keep g ((d, Dir es) # stack) =
     List.map_filter (entry_file g d) es @ tree_walk keep g (rev (sub_dirs keep d es) @ stack)"
  by pat_completeness auto
termination
  by (relation "measure (\<lambda>(_, _, st). sum_list (map (\<lambda>(_, n). size n) st) + length st)")
    (use size_sub_dirs in \<open>auto simp: rev_map [symmetric]\<close>)

section \<open>What a walk finds\<close>

fun kept :: "(string \<Rightarrow> string \<Rightarrow> bool) \<Rightarrow> string \<Rightarrow> string list \<Rightarrow> bool" where
  "kept keep d [] = True"
| "kept keep d (c # cs) \<longleftrightarrow> keep d c \<and> kept keep (path_join d c) cs"

definition reached :: "(string \<Rightarrow> string \<Rightarrow> bool) \<Rightarrow> (string \<Rightarrow> 'a option) \<Rightarrow> string \<Rightarrow> node \<Rightarrow> 'a set" where
  "reached keep g d n =
     {y. \<exists>cs. cs \<noteq> [] \<and> file_at n cs \<noteq> None \<and> kept keep d (butlast cs) \<and> g (path_under d cs) = Some y}"

lemma kept_names: "kept (\<lambda>_ c. c \<notin> A) d cs \<longleftrightarrow> set cs \<inter> A = {}"
  by (induction cs arbitrary: d) auto

lemma map_filter_set: "set (List.map_filter g xs) = {y. \<exists>x \<in> set xs. g x = Some y}"
  by (induction xs) (auto split: option.splits)

lemma entry_file_Some: "entry_file g d (c, n) = Some x \<longleftrightarrow> (\<exists>s. n = File s) \<and> g (path_join d c) = Some x"
  by (cases n) auto

lemma entry_dir_Some:
  "entry_dir keep d (c, n) = Some x \<longleftrightarrow> (\<exists>ns. n = Dir ns \<and> keep d c \<and> x = (path_join d c, Dir ns))"
  by (cases n) auto

lemma split_paired_Bex: "(\<exists>x \<in> A. P x) \<longleftrightarrow> (\<exists>a b. (a, b) \<in> A \<and> P (a, b))"
  by auto

lemma reached_File [simp]: "reached keep g d (File s) = {}"
  by (auto simp: reached_def file_at_File)

lemma reached_Cons:
  "(\<exists>cs. cs \<noteq> [] \<and> P cs) \<longleftrightarrow> (\<exists>c. P [c]) \<or> (\<exists>c cs. cs \<noteq> [] \<and> P (c # cs))"
  by (metis neq_Nil_conv)

lemma reached_Dir:
  assumes "distinct (map fst es)"
  shows "reached keep g d (Dir es) =
     set (List.map_filter (entry_file g d) es) \<union> (\<Union>(d', n) \<in> set (sub_dirs keep d es). reached keep g d' n)"
proof (rule set_eqI)
  fix y
  have mem: "(c, n) \<in> set es \<longleftrightarrow> map_of es c = Some n" for c n using assms by simp
  have leaf: "file_at (Dir es) [c] \<noteq> None \<longleftrightarrow> (\<exists>s. map_of es c = Some (File s))" for c
    by (auto simp: file_at_def split: option.splits node.splits)
  have F: "y \<in> set (List.map_filter (entry_file g d) es) \<longleftrightarrow>
      (\<exists>c. file_at (Dir es) [c] \<noteq> None \<and> g (path_join d c) = Some y)"
    unfolding map_filter_set leaf mem_Collect_eq split_paired_Bex entry_file_Some mem by blast
  have D: "y \<in> (\<Union>(d', n) \<in> set (sub_dirs keep d es). reached keep g d' n) \<longleftrightarrow>
      (\<exists>c ns. map_of es c = Some (Dir ns) \<and> keep d c \<and> y \<in> reached keep g (path_join d c) (Dir ns))"
    unfolding map_filter_set by (force simp: entry_dir_Some split_paired_Bex mem)
  have "y \<in> reached keep g d (Dir es) \<longleftrightarrow>
      (\<exists>c. file_at (Dir es) [c] \<noteq> None \<and> g (path_join d c) = Some y) \<or>
      (\<exists>c cs. cs \<noteq> [] \<and> file_at (Dir es) (c # cs) \<noteq> None \<and> keep d c \<and> kept keep (path_join d c) (butlast cs)
         \<and> g (path_under (path_join d c) cs) = Some y)"
    unfolding reached_def by (subst mem_Collect_eq, subst reached_Cons) (simp cong: conj_cong)
  also have "(\<exists>c cs. cs \<noteq> [] \<and> file_at (Dir es) (c # cs) \<noteq> None \<and> keep d c \<and> kept keep (path_join d c) (butlast cs)
         \<and> g (path_under (path_join d c) cs) = Some y) \<longleftrightarrow>
      (\<exists>c ns. map_of es c = Some (Dir ns) \<and> keep d c \<and> y \<in> reached keep g (path_join d c) (Dir ns))"
  proof -
    have "cs \<noteq> [] \<and> file_at (Dir es) (c # cs) \<noteq> None \<and> Q \<longleftrightarrow>
        (\<exists>ns. map_of es c = Some (Dir ns) \<and> cs \<noteq> [] \<and> file_at (Dir ns) cs \<noteq> None \<and> Q)" for c cs Q
    proof (cases "map_of es c")
      case (Some m)
      then show ?thesis by (cases m) (auto simp: file_at_Dir_Cons file_at_File)
    qed (simp add: file_at_Dir_Cons)
    then have "(\<exists>c cs. cs \<noteq> [] \<and> file_at (Dir es) (c # cs) \<noteq> None \<and> Q c cs) \<longleftrightarrow>
        (\<exists>c ns cs. map_of es c = Some (Dir ns) \<and> cs \<noteq> [] \<and> file_at (Dir ns) cs \<noteq> None \<and> Q c cs)" for Q
      by (simp only:) blast
    then show ?thesis unfolding reached_def mem_Collect_eq by (simp only:) blast
  qed
  finally show "y \<in> reached keep g d (Dir es) \<longleftrightarrow> y \<in> set (List.map_filter (entry_file g d) es) \<union>
      (\<Union>(d', n) \<in> set (sub_dirs keep d es). reached keep g d' n)"
    using F D by blast
qed

lemma sub_dirs_wf: "wf_node (Dir es) \<Longrightarrow> x \<in> set (sub_dirs keep d es) \<Longrightarrow> wf_node (snd x)"
  unfolding map_filter_set by (auto simp: entry_dir_Some split_paired_Bex)

lemma set_tree_walk:
  "\<forall>x \<in> set stack. wf_node (snd x) \<Longrightarrow>
     set (tree_walk keep g stack) = (\<Union>(d, n) \<in> set stack. reached keep g d n)"
proof (induction keep g stack rule: tree_walk.induct)
  case (3 keep g d es stack)
  then have "\<forall>x \<in> set (rev (sub_dirs keep d es) @ stack). wf_node (snd x)"
    using sub_dirs_wf [of es _ keep d] by auto
  from "3.IH" [OF this] "3.prems" show ?case
    by (auto simp: reached_Dir)
qed auto

section \<open>Paths below a directory\<close>

lemma node_at_append:
  "node_at n (p @ q) = (case node_at n p of None \<Rightarrow> None | Some m \<Rightarrow> node_at m q)"
  by (induction n p rule: node_at.induct) (simp_all split: option.splits)

lemma wf_node_at: "wf_node n \<Longrightarrow> node_at n p = Some m \<Longrightarrow> wf_node m \<and> (\<forall>c \<in> set p. plain_name c)"
  by (induction n p rule: node_at.induct) (auto split: option.splits dest!: map_of_SomeD)

lemma os_path_under:
  "\<forall>c \<in> set cs. plain_name c \<Longrightarrow> os_path cwd (path_under d cs) = os_path cwd d @ cs"
  by (induction cs arbitrary: d) (auto simp: os_path_join)

end
