(* ===== verification/Snapshot.thy ===== *)
theory Snapshot
  imports Directory_Walk Tools
begin

text \<open>
  Undo: the snapshots of \<open>sentinel-core/src/snapshot.rs\<close>, the checkpoint store of
  \<open>checkpoint.rs\<close> and the \<open>undo\<close> tool of \<open>sentinel-tools/src/undo.rs\<close>, over the file system of
  the theory Filesystem. Where the code walks directories by path, the model's stack also holds
  the node of each path, which is what \<open>read_dir\<close> reads there. A hash map is its map.
\<close>

section \<open>Snapshots (snapshot.rs)\<close>

definition ignore_dirs :: "string list" where
  "ignore_dirs =
     [''.git'', ''.hg'', ''.svn'', ''target'', ''node_modules'', ''dist'', ''build'', ''out'', ''.venv'',
      ''venv'', ''__pycache__'', ''.idea'', ''.vscode'', ''.next'', ''.nuxt'', ''coverage'',
      ''.pytest_cache'', ''.mypy_cache'']"

definition default_history_cap :: nat where
  "default_history_cap = 10"

record file_snapshot =
  sf_path :: string
  sf_content :: string

datatype file_change =
    Created string string            \<comment> \<open>path, content\<close>
  | Modified string string string    \<comment> \<open>path, before, after\<close>
  | Deleted string string            \<comment> \<open>path, before\<close>

fun change_path :: "file_change \<Rightarrow> string" where
  "change_path (Created p _) = p"
| "change_path (Modified p _ _) = p"
| "change_path (Deleted p _) = p"

record snapshot =
  sn_turn :: u32
  sn_before :: "file_snapshot list"
  sn_after :: "file_snapshot list"
  sn_changes :: "file_change list"

record snapshot_manager =
  snapshots :: "snapshot list"
  history_cap :: nat

definition snapshot_manager_new :: snapshot_manager where
  "snapshot_manager_new = \<lparr>snapshots = [], history_cap = default_history_cap\<rparr>"

definition with_history_cap :: "snapshot_manager \<Rightarrow> nat \<Rightarrow> snapshot_manager" where
  "with_history_cap m cap = m\<lparr>history_cap := max cap 1\<rparr>"

definition snapshot_entry :: "(string \<Rightarrow> string option) \<Rightarrow> string \<Rightarrow> file_snapshot option" where
  "snapshot_entry reader path =
     (if valid_utf8 path then map_option (\<lambda>c. \<lparr>sf_path = path, sf_content = c\<rparr>) (reader path) else None)"

definition walk :: "(string \<Rightarrow> string option) \<Rightarrow> (string \<times> node) list \<Rightarrow> file_snapshot list" where
  "walk reader = tree_walk (\<lambda>_ name. name \<notin> set ignore_dirs) (snapshot_entry reader)"

definition discover_files :: "fs \<Rightarrow> string option \<Rightarrow> (string \<Rightarrow> string option) \<Rightarrow> file_snapshot list" where
  "discover_files f workspace_dir reader =
     (let root = (case workspace_dir of None \<Rightarrow> ''.'' | Some d \<Rightarrow> d) in
      sort_key sf_path
        (case node_at (fs_root f) (loc f root) of
           None \<Rightarrow> []
         | Some n \<Rightarrow> walk reader [(root, n)]))"

definition contents_map :: "file_snapshot list \<Rightarrow> string \<rightharpoonup> string" where
  "contents_map fs = map_of (rev (map (\<lambda>s. (sf_path s, sf_content s)) fs))"

definition change_of :: "(string \<rightharpoonup> string) \<Rightarrow> file_snapshot \<Rightarrow> file_change option" where
  "change_of before s =
     (case before (sf_path s) of
        None \<Rightarrow> Some (Created (sf_path s) (sf_content s))
      | Some b \<Rightarrow>
          (if b \<noteq> sf_content s then Some (Modified (sf_path s) b (sf_content s)) else None))"

definition compute_changes :: "file_snapshot list \<Rightarrow> file_snapshot list \<Rightarrow> file_change list" where
  "compute_changes before after =
     sort_key change_path
       (List.map_filter (change_of (contents_map before)) after @
        List.map_filter (\<lambda>s. if contents_map after (sf_path s) = None
                             then Some (Deleted (sf_path s) (sf_content s)) else None) before)"

fun drop_oldest :: "nat \<Rightarrow> 'a list \<Rightarrow> 'a list" where
  "drop_oldest cap xs = (if length xs > cap then drop_oldest cap (tl xs) else xs)"

declare drop_oldest.simps [simp del]

definition take_snapshot ::
    "snapshot_manager \<Rightarrow> fs \<Rightarrow> u32 \<Rightarrow> string option \<Rightarrow> (string \<Rightarrow> string option)
       \<Rightarrow> snapshot \<times> snapshot_manager" where
  "take_snapshot m f turn workspace_dir reader =
     (let before = discover_files f workspace_dir reader;
          changes = (if snapshots m = [] then []
                     else compute_changes (sn_before (last (snapshots m))) before);
          stored = \<lparr>sn_turn = turn, sn_before = before, sn_after = [], sn_changes = changes\<rparr>
      in (stored\<lparr>sn_after := before\<rparr>,
          m\<lparr>snapshots := drop_oldest (history_cap m) (snapshots m @ [stored])\<rparr>))"

text \<open>\<open>iter_mut().rev().find(..)\<close>: the last element that satisfies the test is updated.\<close>

fun update_first :: "('a \<Rightarrow> bool) \<Rightarrow> ('a \<Rightarrow> 'a) \<Rightarrow> 'a list \<Rightarrow> 'a list" where
  "update_first P g [] = []"
| "update_first P g (x # xs) = (if P x then g x # xs else x # update_first P g xs)"

definition update_after ::
    "snapshot_manager \<Rightarrow> fs \<Rightarrow> u32 \<Rightarrow> string option \<Rightarrow> (string \<Rightarrow> string option) \<Rightarrow> snapshot_manager" where
  "update_after m f turn workspace_dir reader =
     (let after = discover_files f workspace_dir reader in
      m\<lparr>snapshots := rev (update_first (\<lambda>s. sn_turn s = turn)
           (\<lambda>s. s\<lparr>sn_changes := compute_changes (sn_before s) after, sn_after := after\<rparr>)
           (rev (snapshots m)))\<rparr>)"

definition pop_latest :: "snapshot_manager \<Rightarrow> snapshot option \<times> snapshot_manager" where
  "pop_latest m =
     (if snapshots m = [] then (None, m)
      else (Some (last (snapshots m)), m\<lparr>snapshots := butlast (snapshots m)\<rparr>))"

definition last_changes :: "snapshot_manager \<Rightarrow> file_change list" where
  "last_changes m = (if snapshots m = [] then [] else sn_changes (last (snapshots m)))"

definition changes_at_turn :: "snapshot_manager \<Rightarrow> u32 \<Rightarrow> file_change list" where
  "changes_at_turn m turn =
     (case List.find (\<lambda>s. sn_turn s = turn) (snapshots m) of Some s \<Rightarrow> sn_changes s | None \<Rightarrow> [])"

definition is_text_file :: "string \<Rightarrow> bool" where
  "is_text_file path =
     (case path_extension path of
        Some ext \<Rightarrow>
          ext \<notin> {''png'', ''jpg'', ''jpeg'', ''gif'', ''bmp'', ''ico'', ''mp3'', ''mp4'', ''avi'', ''mov'',
                  ''bin'', ''exe'', ''dll'', ''so'', ''dylib'', ''wasm''}
      | None \<Rightarrow> True)"

definition default_file_reader :: "fs \<Rightarrow> string \<Rightarrow> string option" where
  "default_file_reader f path =
     (if \<not> fs_exists f path \<or> fs_read f path = None \<or> \<not> is_text_file path then None
      else case fs_read f path of
             Some c \<Rightarrow> if valid_utf8 c \<and> c \<noteq> [] then Some c else None
           | None \<Rightarrow> None)"

definition resolve_path :: "string \<Rightarrow> string \<Rightarrow> string" where
  "resolve_path dir stored = (if is_absolute stored then stored else path_join dir stored)"

text \<open>The two loops of \<open>restore_snapshot\<close>. What was done before an error stays done.\<close>

fun restore_deletes ::
    "fs \<Rightarrow> string \<Rightarrow> string set \<Rightarrow> file_snapshot list \<Rightarrow> string list \<Rightarrow> (string + string list) \<times> fs" where
  "restore_deletes f dir before_paths [] touched = (Inr touched, f)"
| "restore_deletes f dir before_paths (s # ss) touched =
     (if sf_path s \<in> before_paths then restore_deletes f dir before_paths ss touched
      else
        let path = resolve_path dir (sf_path s) in
        if fs_exists f path then
          (case fs_remove_file f path of
             Inl e \<Rightarrow> (Inl (''Failed to delete '' @ path @ '': '' @ show_io_error e), f)
           | Inr f' \<Rightarrow> restore_deletes f' dir before_paths ss (touched @ [''deleted '' @ sf_path s]))
        else restore_deletes f dir before_paths ss touched)"

definition ensure_parent :: "fs \<Rightarrow> string \<Rightarrow> string + fs" where
  "ensure_parent f path =
     (case path_parent path of
        Some parent \<Rightarrow>
          (if \<not> fs_exists f parent then
             (case fs_create_dir_all f parent of
                Inl e \<Rightarrow> Inl (''Failed to create '' @ parent @ '': '' @ show_io_error e)
              | Inr f' \<Rightarrow> Inr f')
           else Inr f)
      | None \<Rightarrow> Inr f)"

fun restore_writes ::
    "fs \<Rightarrow> string \<Rightarrow> file_snapshot list \<Rightarrow> string list \<Rightarrow> (string + string list) \<times> fs" where
  "restore_writes f dir [] touched = (Inr touched, f)"
| "restore_writes f dir (s # ss) touched =
     (let path = resolve_path dir (sf_path s) in
      case ensure_parent f path of
        Inl e \<Rightarrow> (Inl e, f)
      | Inr f1 \<Rightarrow>
          (case fs_write f1 path (sf_content s) of
             Inl e \<Rightarrow> (Inl (''Failed to restore '' @ path @ '': '' @ show_io_error e), f1)
           | Inr f2 \<Rightarrow> restore_writes f2 dir ss (touched @ [''restored '' @ sf_path s])))"

definition restore_snapshot :: "fs \<Rightarrow> snapshot \<Rightarrow> string \<Rightarrow> (string + string list) \<times> fs" where
  "restore_snapshot f sn dir =
     (case restore_deletes f dir (set (map sf_path (sn_before sn))) (sn_after sn) [] of
        (Inl e, f') \<Rightarrow> (Inl e, f')
      | (Inr touched, f') \<Rightarrow> restore_writes f' dir (sn_before sn) touched)"

section \<open>The checkpoint store (checkpoint.rs)\<close>

definition begin_batch :: "snapshot_manager \<Rightarrow> fs \<Rightarrow> string \<Rightarrow> u32 \<Rightarrow> snapshot_manager" where
  "begin_batch m f dir turn = snd (take_snapshot m f turn (Some dir) (default_file_reader f))"

definition end_batch :: "snapshot_manager \<Rightarrow> fs \<Rightarrow> string \<Rightarrow> u32 \<Rightarrow> snapshot_manager" where
  "end_batch m f dir turn = update_after m f turn (Some dir) (default_file_reader f)"

definition restore_latest ::
    "snapshot_manager \<Rightarrow> fs \<Rightarrow> string \<Rightarrow> (string + string list) \<times> snapshot_manager \<times> fs" where
  "restore_latest m f dir =
     (case pop_latest m of
        (None, m') \<Rightarrow> (Inl ''nothing to undo'', m', f)
      | (Some sn, m') \<Rightarrow> (case restore_snapshot f sn dir of (r, f') \<Rightarrow> (r, m', f')))"

definition snapshot_count :: "snapshot_manager \<Rightarrow> nat" where
  "snapshot_count m = length (snapshots m)"

section \<open>The undo tool (undo.rs)\<close>

text \<open>The loop over the batches: an error result ends it; it is the tool's error when nothing
  was restored before.\<close>

fun undo_loop ::
    "nat \<Rightarrow> string list \<Rightarrow> snapshot_manager \<Rightarrow> fs \<Rightarrow> string
       \<Rightarrow> (tool_output + string list) \<times> snapshot_manager \<times> fs" where
  "undo_loop 0 restored m f dir = (Inr restored, m, f)"
| "undo_loop (Suc n) restored m f dir =
     (case restore_latest m f dir of
        (Inr paths, m', f') \<Rightarrow> undo_loop n (restored @ paths) m' f' dir
      | (Inl e, m', f') \<Rightarrow>
          (if restored = [] then (Inl (output_err (''undo failed: '' @ e)), m', f')
           else (Inr restored, m', f')))"

definition undo_count :: "json \<Rightarrow> nat" where
  "undo_count args =
     (case as_u64 (json_get args ''count'') of
        None \<Rightarrow> 1 | Some n \<Rightarrow> unat (max 1 (min n 10)))"

definition undo_execute ::
    "json \<Rightarrow> tool_context \<Rightarrow> snapshot_manager option \<Rightarrow> fs
       \<Rightarrow> tool_output \<times> snapshot_manager option \<times> fs" where
  "undo_execute args ctx store f =
     (case store of
        None \<Rightarrow>
          (output_err ''undo is not available in this context (no checkpoint store attached)'', None, f)
      | Some m \<Rightarrow>
          (case undo_loop (undo_count args) [] m f
                  (case tc_workspace_dir ctx of Some d \<Rightarrow> d | None \<Rightarrow> ''.'') of
             (Inl out, m', f') \<Rightarrow> (out, Some m', f')
           | (Inr restored, m', f') \<Rightarrow>
               (if restored = [] then (output_err ''nothing to undo'', Some m', f')
                else (output_ok (''Reverted '' @ show_nat (length restored) @ '' file(s):'' @ LF
                        @ join LF restored), Some m', f'))))"

section \<open>What the directory walk finds\<close>

definition walked :: "(string \<Rightarrow> string option) \<Rightarrow> string \<Rightarrow> node \<Rightarrow> file_snapshot set" where
  "walked reader d n =
     {\<lparr>sf_path = path_under d cs, sf_content = c\<rparr> | cs c.
        cs \<noteq> [] \<and> file_at n cs \<noteq> None \<and> set (butlast cs) \<inter> set ignore_dirs = {}
        \<and> valid_utf8 (path_under d cs) \<and> reader (path_under d cs) = Some c}"

lemma set_walk: "wf_node n \<Longrightarrow> set (walk reader [(d, n)]) = walked reader d n"
  by (force simp: walk_def set_tree_walk reached_def kept_names walked_def snapshot_entry_def split: if_splits)

text \<open>The specification of a snapshot: the files below the directory that are captured.\<close>

definition captured :: "fs \<Rightarrow> string \<Rightarrow> string list \<Rightarrow> string \<Rightarrow> bool" where
  "captured f W cs c \<longleftrightarrow>
     cs \<noteq> [] \<and> fs_files f (loc f W @ cs) = Some c \<and> set (butlast cs) \<inter> set ignore_dirs = {}
     \<and> valid_utf8 (path_under W cs) \<and> is_text_file (path_under W cs) \<and> valid_utf8 c \<and> c \<noteq> []"

lemma default_file_reader_Some:
  "default_file_reader f p = Some c \<longleftrightarrow>
     fs_files f (loc f p) = Some c \<and> is_text_file p \<and> valid_utf8 c \<and> c \<noteq> []"
  by (auto simp: default_file_reader_def fs_read_def fs_files_def fs_exists_def file_at_def
      split: option.splits if_splits node.splits)

lemma captured_plain: "wf_node (fs_root f) \<Longrightarrow> captured f W cs c \<Longrightarrow> \<forall>c \<in> set cs. plain_name c"
  using wf_node_at [of "fs_root f" "loc f W @ cs"]
  by (auto simp: captured_def fs_files_def file_at_def split: option.splits)

lemma set_discover_files:
  assumes "wf_node (fs_root f)"
  shows "set (discover_files f (Some W) (default_file_reader f)) =
     {\<lparr>sf_path = path_under W cs, sf_content = c\<rparr> | cs c. captured f W cs c}"
proof (cases "node_at (fs_root f) (loc f W)")
  case None
  then have "\<not> captured f W cs c" for cs c
    by (simp add: captured_def fs_files_def file_at_def node_at_append)
  with None show ?thesis by (simp add: discover_files_def)
next
  case (Some n)
  note wf = wf_node_at [OF assms Some]
  have at: "file_at n cs = fs_files f (loc f W @ cs)" for cs
    by (simp add: fs_files_def file_at_def node_at_append Some)
  have loc: "loc f (path_under W cs) = loc f W @ cs" if "file_at n cs \<noteq> None" for cs
    using that wf wf_node_at [of n cs] by (intro os_path_under) (auto simp: file_at_def split: option.splits)
  have "set (discover_files f (Some W) (default_file_reader f)) = walked (default_file_reader f) W n"
    using wf by (simp add: discover_files_def Some set_walk)
  also have "\<dots> = {\<lparr>sf_path = path_under W cs, sf_content = c\<rparr> | cs c. captured f W cs c}"
    unfolding walked_def captured_def default_file_reader_Some
    by (rule Collect_cong, rule ex_cong1, rule ex_cong1) (use loc at in auto)
  finally show ?thesis .
qed

section \<open>What a restore does to the files\<close>

abbreviation spot :: "fs \<Rightarrow> string \<Rightarrow> file_snapshot \<Rightarrow> string list" where
  "spot f W s \<equiv> loc f (resolve_path W (sf_path s))"

lemma files_absent: "\<not> fs_exists f p \<Longrightarrow> fs_files f (loc f p) = None"
  by (simp add: fs_exists_def fs_files_def file_at_def)

lemma ensure_parent_ok:
  "ensure_parent f p = Inr f' \<Longrightarrow>
     fs_files f' = fs_files f \<and> loc f' = loc f"
  by (auto simp: ensure_parent_def dest!: disk.create_law split: option.splits if_splits sum.splits)

lemma restore_deletes_files:
  "restore_deletes f W B ss t = (Inr t', f') \<Longrightarrow>
     loc f' = loc f \<and> fs_files f' =
       (\<lambda>p. if p \<in> spot f W ` {s \<in> set ss. sf_path s \<notin> B} then None else fs_files f p)"
proof (induction f W B ss t rule: restore_deletes.induct)
  case (2 f W B s ss t)
  let ?p = "resolve_path W (sf_path s)"
  show ?case
  proof (cases "sf_path s \<in> B")
    case True
    have *: "{x \<in> set (s # ss). sf_path x \<notin> B} = {x \<in> set ss. sf_path x \<notin> B}" using True by auto
    from 2 True show ?thesis by (simp only: *) simp
  next
    case out: False
    show ?thesis
    proof (cases "fs_exists f ?p")
      case False
      with 2 out have IH: "loc f' = loc f" "fs_files f' = (\<lambda>p. if p \<in> spot f W ` {s \<in> set ss. sf_path s \<notin> B}
          then None else fs_files f p)" by (auto simp: Let_def)
      from files_absent [OF False] show ?thesis by (auto simp: IH fun_eq_iff image_iff)
    next
      case True
      with 2 out obtain f1 where f1: "fs_remove_file f ?p = Inr f1"
        and r: "restore_deletes f1 W B ss (t @ [''deleted '' @ sf_path s]) = (Inr t', f')"
        by (auto simp: Let_def split: sum.splits)
      from disk.remove_law [OF f1] have "loc f1 = loc f"
        "fs_files f1 = (fs_files f)(loc f ?p := None)" by auto
      with "2.IH"(2) [OF out refl True f1 r] out show ?thesis by (auto simp: fun_eq_iff image_iff)
    qed
  qed
qed auto

lemma restore_writes_files:
  "restore_writes f W ss t = (Inr t', f') \<Longrightarrow>
     loc f' = loc f \<and> fs_files f' = fold (\<lambda>s m. m(spot f W s \<mapsto> sf_content s)) ss (fs_files f)"
proof (induction f W ss t rule: restore_writes.induct)
  case (2 f W s ss t)
  let ?p = "resolve_path W (sf_path s)"
  from "2.prems" obtain f1 f2 where f12: "ensure_parent f ?p = Inr f1"
    "fs_write f1 ?p (sf_content s) = Inr f2"
    and r: "restore_writes f2 W ss (t @ [''restored '' @ sf_path s]) = (Inr t', f')"
    by (auto simp: Let_def split: sum.splits)
  from ensure_parent_ok [OF f12(1)] disk.write_law [OF f12(2)]
  have "loc f2 = loc f" "fs_files f2 = (fs_files f)(loc f ?p \<mapsto> sf_content s)" by auto
  with "2.IH" [OF refl f12 r] show ?case by simp
qed simp

lemma find_Some_in: "List.find P xs = Some x \<Longrightarrow> x \<in> set xs \<and> P x"
  by (auto simp: find_Some_iff)

lemma fold_map_upd:
  assumes "\<And>x y. x \<in> set xs \<Longrightarrow> y \<in> set xs \<Longrightarrow> k x = k y \<Longrightarrow> v x = v y"
  shows "fold (\<lambda>x m. m(k x \<mapsto> v x)) xs m p =
     (case List.find (\<lambda>x. k x = p) xs of Some x \<Rightarrow> Some (v x) | None \<Rightarrow> m p)"
  using assms
proof (induction xs arbitrary: m)
  case (Cons x xs)
  then have IH: "fold (\<lambda>x m. m(k x \<mapsto> v x)) xs m' p =
     (case List.find (\<lambda>x. k x = p) xs of Some x \<Rightarrow> Some (v x) | None \<Rightarrow> m' p)" for m'
    by (intro Cons.IH Cons.prems) simp_all
  have eq: "fold (\<lambda>x m. m(k x \<mapsto> v x)) (x # xs) m p =
      (case List.find (\<lambda>x. k x = p) xs of Some y \<Rightarrow> Some (v y) | None \<Rightarrow> (m(k x \<mapsto> v x)) p)"
    using IH [of "m(k x \<mapsto> v x)"] by (simp only: fold.simps comp_apply)
  have "v y = v x" if "List.find (\<lambda>y. k y = k x) xs = Some y" for y
    using that Cons.prems [of y x] by (auto dest: find_Some_in)
  then show ?case unfolding eq by (cases "k x = p") (auto split: option.splits)
qed simp

lemma is_absolute_under: "is_absolute W \<Longrightarrow> is_absolute (path_under W cs)"
proof (induction cs arbitrary: W)
  case (Cons c cs)
  then have "W \<noteq> []" by auto
  with Cons have "is_absolute (path_join W c)" by (simp add: path_join_def is_absolute_append)
  with Cons show ?case by simp
qed simp

lemma spot_captured:
  assumes "is_absolute W" "wf_node (fs_root g)" "fs_cwd g = fs_cwd f" "captured g W cs c"
  shows "spot f W \<lparr>sf_path = path_under W cs, sf_content = c'\<rparr> = loc f W @ cs"
  using os_path_under [OF captured_plain [OF assms(2,4)], of "fs_cwd f" W]
    is_absolute_under [OF assms(1), of cs] by (simp add: resolve_path_def)

definition taken :: "fs \<Rightarrow> string \<Rightarrow> string list \<Rightarrow> bool" where
  "taken f W p \<longleftrightarrow> (\<exists>cs c. p = loc f W @ cs \<and> captured f W cs c)"

lemma restore_snapshot_files:
  assumes W: "is_absolute W" and wf: "wf_node (fs_root f0)" "wf_node (fs_root f1)"
    and cwd: "fs_cwd f0 = fs_cwd f" "fs_cwd f1 = fs_cwd f"
    and bef: "sn_before sn = discover_files f0 (Some W) (default_file_reader f0)"
    and aft: "sn_after sn = discover_files f1 (Some W) (default_file_reader f1)"
    and res: "restore_snapshot f sn W = (Inr t, f')"
  shows "fs_files f' p =
     (if taken f0 W p then fs_files f0 p else if taken f1 W p then None else fs_files f p)"
proof -
  note sets = set_discover_files [OF wf(1), of W, folded bef] set_discover_files [OF wf(2), of W, folded aft]
  note sp = spot_captured [OF W wf(1) cwd(1)] spot_captured [OF W wf(2) cwd(2)]
  let ?B = "set (map sf_path (sn_before sn))"
  from res obtain g t1 where g: "restore_deletes f W ?B (sn_after sn) [] = (Inr t1, g)"
    "restore_writes g W (sn_before sn) t1 = (Inr t, f')"
    by (auto simp: restore_snapshot_def split: prod.splits sum.splits)
  from restore_deletes_files [OF g(1)] have lg: "loc g = loc f"
    and fg: "fs_files g p = (if p \<in> spot f W ` {s \<in> set (sn_after sn). sf_path s \<notin> ?B}
                             then None else fs_files f p)" by auto
  have cont: "s \<in> set (sn_before sn) \<Longrightarrow> fs_files f0 (spot f W s) = Some (sf_content s)" for s
    using sp(1) by (auto simp: sets captured_def cwd)
  have B: "(\<exists>s \<in> set (sn_before sn). spot f W s = p) \<longleftrightarrow> taken f0 W p"
  proof -
    have "(\<exists>s \<in> set (sn_before sn). spot f W s = p) \<longleftrightarrow>
        (\<exists>cs c. captured f0 W cs c \<and> spot f W \<lparr>sf_path = path_under W cs, sf_content = c\<rparr> = p)"
      unfolding sets by blast
    also have "\<dots> \<longleftrightarrow> taken f0 W p" unfolding taken_def cwd using sp(1) by metis
    finally show ?thesis .
  qed
  have A: "p \<in> spot f W ` {s \<in> set (sn_after sn). sf_path s \<notin> ?B} \<longleftrightarrow> taken f1 W p"
    if "\<not> taken f0 W p"
  proof -
    have "sf_path s \<notin> ?B" if "s \<in> set (sn_after sn)" "spot f W s = p" for s
      using that \<open>\<not> taken f0 W p\<close> unfolding B [symmetric] by auto
    then have "p \<in> spot f W ` {s \<in> set (sn_after sn). sf_path s \<notin> ?B} \<longleftrightarrow>
        (\<exists>s \<in> set (sn_after sn). spot f W s = p)"
      by auto
    also have "\<dots> \<longleftrightarrow>
        (\<exists>cs c. captured f1 W cs c \<and> spot f W \<lparr>sf_path = path_under W cs, sf_content = c\<rparr> = p)"
      unfolding sets by blast
    also have "\<dots> \<longleftrightarrow> taken f1 W p" unfolding taken_def cwd using sp(2) by metis
    finally show ?thesis .
  qed
  from restore_writes_files [OF g(2)] have "fs_files f' p =
      fold (\<lambda>s m. m(spot f W s \<mapsto> sf_content s)) (sn_before sn) (fs_files g) p" by (simp add: lg)
  also have "\<dots> = (case List.find (\<lambda>s. spot f W s = p) (sn_before sn) of
      Some s \<Rightarrow> Some (sf_content s) | None \<Rightarrow> fs_files g p)"
    by (rule fold_map_upd) (metis cont option.inject)
  also have "\<dots> = (if taken f0 W p then fs_files f0 p else if taken f1 W p then None else fs_files f p)"
  proof (cases "List.find (\<lambda>s. spot f W s = p) (sn_before sn)")
    case None
    then have "\<not> taken f0 W p" unfolding B [symmetric] by (simp add: find_None_iff)
    with None A show ?thesis by (simp add: fg)
  next
    case (Some s)
    then have "s \<in> set (sn_before sn)" "spot f W s = p" by (auto dest: find_Some_in)
    moreover from this have "taken f0 W p" unfolding B [symmetric] by blast
    ultimately show ?thesis using Some cont by auto
  qed
  finally show ?thesis .
qed

section \<open>When a restore succeeds\<close>

lemma restore_deletes_succeeds:
  "\<forall>s \<in> set ss. sf_path s \<notin> B \<longrightarrow> \<not> fs_dirs f (spot f W s) \<and> spot f W s \<noteq> [] \<Longrightarrow>
     \<exists>t' f'. restore_deletes f W B ss t = (Inr t', f') \<and> fs_dirs f' = fs_dirs f"
proof (induction f W B ss t rule: restore_deletes.induct)
  case (2 f W B s ss t)
  let ?p = "resolve_path W (sf_path s)"
  show ?case
  proof (cases "sf_path s \<in> B \<or> \<not> fs_exists f ?p")
    case True
    with 2 show ?thesis by (auto simp: Let_def)
  next
    case False
    with "2.prems" have "loc f ?p \<noteq> []" "fs_files f (loc f ?p) \<noteq> None"
      by (auto simp: fs_exists_def fs_files_def fs_dirs_def file_at_def dir_at_def
          split: option.splits node.splits)
    then obtain f1 where f1: "fs_remove_file f ?p = Inr f1" using disk.remove_ok by blast
    note law = disk.remove_law [OF f1]
    have "\<forall>s \<in> set ss. sf_path s \<notin> B \<longrightarrow> \<not> fs_dirs f1 (spot f1 W s) \<and> spot f1 W s \<noteq> []"
      using "2.prems" law by (auto simp: fun_eq_iff)
    from "2.IH"(2) [OF _ refl _ f1 this] False law f1 show ?thesis by (auto simp: Let_def)
  qed
qed auto

lemma strict_prefix_butlast: "p \<noteq> [] \<Longrightarrow> prefix q (butlast p) \<Longrightarrow> strict_prefix q p"
  by (metis append_butlast_last_id prefix_order.le_less_trans prefix_snoc strict_prefix_simps(2)
      prefix_order.less_le prefixeq_butlast prefix_order.antisym_conv2 not_Cons_self2
      append_self_conv)

lemma ensure_parent_succeeds:
  assumes free: "free_for (fs_files f) (fs_dirs f) (loc f p)"
    and par: "path_parent p = Some d" "loc f d = butlast (loc f p)"
  shows "\<exists>f1 f2. ensure_parent f p = Inr f1 \<and> fs_write f1 p c = Inr f2
     \<and> (\<forall>q. fs_dirs f2 q \<longrightarrow> fs_dirs f q \<or> strict_prefix q (loc f p))"
proof (cases "fs_exists f d")
  case True
  have "strict_prefix (loc f d) (loc f p)"
    using free by (simp add: par strict_prefix_butlast free_for_def)
  then have "fs_files f (loc f d) = None" using free by (simp add: free_for_def)
  with True have "fs_dirs f (butlast (loc f p))"
    by (auto simp: fs_exists_def fs_files_def fs_dirs_def file_at_def dir_at_def par
        split: option.splits node.splits)
  then obtain f2 where "fs_write f p c = Inr f2"
    using free disk.write_ok [of f p c] by (auto simp: free_for_def)
  with True show ?thesis using disk.write_law [of f p c f2] by (auto simp: ensure_parent_def par)
next
  case False
  from disk.create_write_ok [OF free par(2)] obtain f1 f2 where
    f12: "fs_create_dir_all f d = Inr f1" "fs_write f1 p c = Inr f2" by blast
  have "fs_dirs f q \<or> strict_prefix q (loc f p)" if "fs_dirs f2 q" for q
    using that disk.create_law [OF f12(1)] disk.write_law [OF f12(2)] free
    by (auto simp: par free_for_def intro: strict_prefix_butlast)
  with False f12 show ?thesis by (auto simp: ensure_parent_def par)
qed

lemma restore_writes_succeeds:
  assumes "\<forall>s \<in> set ss. free_for (fs_files f) (fs_dirs f) (spot f W s)"
    and "\<forall>s \<in> set ss. \<exists>d. path_parent (resolve_path W (sf_path s)) = Some d \<and> loc f d = butlast (spot f W s)"
    and "\<forall>s \<in> set ss. \<forall>s' \<in> set ss. \<not> strict_prefix (spot f W s) (spot f W s')"
  shows "\<exists>t' f'. restore_writes f W ss t = (Inr t', f')"
  using assms
proof (induction f W ss t rule: restore_writes.induct)
  case (2 f W s ss t)
  let ?p = "resolve_path W (sf_path s)"
  from "2.prems"(2) obtain d where d: "path_parent ?p = Some d" "loc f d = butlast (spot f W s)" by auto
  from "2.prems"(1) have "free_for (fs_files f) (fs_dirs f) (spot f W s)" by simp
  from ensure_parent_succeeds [OF this d] obtain f1 f2 where
    f12: "ensure_parent f ?p = Inr f1" "fs_write f1 ?p (sf_content s) = Inr f2"
    and dirs: "\<And>q. fs_dirs f2 q \<Longrightarrow> fs_dirs f q \<or> strict_prefix q (spot f W s)" by blast
  have upd: "loc f2 = loc f" "fs_files f2 = (fs_files f)(spot f W s \<mapsto> sf_content s)"
    using ensure_parent_ok [OF f12(1)] disk.write_law [OF f12(2)] by auto
  have loc: "loc f2 x = loc f x" for x using upd(1) by (simp add: fun_eq_iff)
  have free: "\<forall>s' \<in> set ss. free_for (fs_files f2) (fs_dirs f2) (spot f2 W s')"
    using "2.prems"(1,3) dirs by (force simp: free_for_def upd loc)
  have "\<exists>t' f'. restore_writes f2 W ss (t @ [''restored '' @ sf_path s]) = (Inr t', f')"
    by (rule "2.IH" [OF refl f12 free]) (use "2.prems"(2,3) in \<open>auto simp: loc\<close>)
  then show ?case by (simp add: Let_def f12)
qed simp

section \<open>Batches\<close>

lemma drop_oldest_drop: "drop_oldest cap xs = drop (length xs - cap) xs"
proof (induction cap xs rule: drop_oldest.induct)
  case (1 cap xs)
  show ?case
  proof (cases "length xs > cap")
    case True
    then have "length xs - cap = Suc (length (tl xs) - cap)" by (cases xs) auto
    with 1 True show ?thesis by (cases xs) (simp_all add: drop_oldest.simps [of cap])
  qed (simp add: drop_oldest.simps)
qed

lemma drop_oldest_snoc:
  "1 \<le> cap \<Longrightarrow> drop_oldest cap (xs @ [x]) = drop_oldest (cap - 1) xs @ [x]"
  by (auto simp: drop_oldest_drop Suc_diff_le)

lemma batch_snapshot:
  assumes "1 \<le> history_cap m"
  obtains sn where "sn_turn sn = t"
    "sn_before sn = discover_files f0 (Some W) (default_file_reader f0)"
    "sn_after sn = discover_files f1 (Some W) (default_file_reader f1)"
    "sn_changes sn = compute_changes (sn_before sn) (sn_after sn)"
    "end_batch (begin_batch m f0 W t) f1 W t = m\<lparr>snapshots := drop_oldest (history_cap m - 1) (snapshots m) @ [sn]\<rparr>"
proof -
  let ?b = "discover_files f0 (Some W) (default_file_reader f0)"
  let ?a = "discover_files f1 (Some W) (default_file_reader f1)"
  show thesis
    by (rule that [of "\<lparr>sn_turn = t, sn_before = ?b, sn_after = ?a, sn_changes = compute_changes ?b ?a\<rparr>"])
      (use assms in \<open>simp_all add: begin_batch_def end_batch_def take_snapshot_def update_after_def
        Let_def drop_oldest_snoc\<close>)
qed

lemma restore_latest_batch:
  assumes "1 \<le> history_cap m"
  obtains sn where
    "sn_before sn = discover_files f0 (Some W) (default_file_reader f0)"
    "sn_after sn = discover_files f1 (Some W) (default_file_reader f1)"
    "\<And>f. restore_latest (end_batch (begin_batch m f0 W t) f1 W t) f W =
       (case restore_snapshot f sn W of
          (r, f') \<Rightarrow> (r, m\<lparr>snapshots := drop_oldest (history_cap m - 1) (snapshots m)\<rparr>, f'))"
proof -
  from batch_snapshot [OF assms, of t f0 W f1] obtain sn where
    "sn_before sn = discover_files f0 (Some W) (default_file_reader f0)"
    "sn_after sn = discover_files f1 (Some W) (default_file_reader f1)"
    "end_batch (begin_batch m f0 W t) f1 W t = m\<lparr>snapshots := drop_oldest (history_cap m - 1) (snapshots m) @ [sn]\<rparr>"
    by blast
  then show thesis using that [of sn] by (simp add: restore_latest_def pop_latest_def)
qed

lemma file_at_antichain:
  assumes "file_at n p \<noteq> None" "file_at n q \<noteq> None"
  shows "\<not> strict_prefix p q"
proof
  assume "strict_prefix p q"
  then obtain z where z: "q = p @ z" "z \<noteq> []" by (auto simp: strict_prefix_def prefix_def)
  from assms(1) obtain s where "node_at n p = Some (File s)"
    by (auto simp: file_at_def split: option.splits node.splits)
  with z assms(2) show False by (cases z) (simp_all add: file_at_def node_at_append)
qed

lemma restore_snapshot_succeeds:
  assumes W: "is_absolute W" and wf: "wf_node (fs_root f0)" "wf_node (fs_root f1)"
    and cwd: "fs_cwd f0 = fs_cwd f1"
    and bef: "sn_before sn = discover_files f0 (Some W) (default_file_reader f0)"
    and aft: "sn_after sn = discover_files f1 (Some W) (default_file_reader f1)"
    and free: "\<And>cs c. captured f0 W cs c \<Longrightarrow> free_for (fs_files f1) (fs_dirs f1) (loc f1 W @ cs)"
  shows "\<exists>t f'. restore_snapshot f1 sn W = (Inr t, f')"
proof -
  note sets = set_discover_files [OF wf(1), of W, folded bef] set_discover_files [OF wf(2), of W, folded aft]
  note sp = spot_captured [OF W wf(1) cwd] spot_captured [OF W wf(2) refl]
  let ?B = "set (map sf_path (sn_before sn))"
  have "\<forall>s \<in> set (sn_after sn). sf_path s \<notin> ?B \<longrightarrow> \<not> fs_dirs f1 (spot f1 W s) \<and> spot f1 W s \<noteq> []"
  proof (intro ballI impI)
    fix s assume "s \<in> set (sn_after sn)"
    then obtain cs c where s: "s = \<lparr>sf_path = path_under W cs, sf_content = c\<rparr>" "captured f1 W cs c"
      unfolding sets by blast
    then have "spot f1 W s = loc f1 W @ cs" using sp(2) by simp
    then show "\<not> fs_dirs f1 (spot f1 W s) \<and> spot f1 W s \<noteq> []" using s(2)
      by (auto simp: captured_def fs_dirs_def fs_files_def file_at_def dir_at_def
          split: option.splits node.splits)
  qed
  from restore_deletes_succeeds [OF this] obtain t1 g where
    g: "restore_deletes f1 W ?B (sn_after sn) [] = (Inr t1, g)" "fs_dirs g = fs_dirs f1" by blast
  from restore_deletes_files [OF g(1)] have lg: "\<And>x. loc g x = loc f1 x"
    and fg: "\<And>p. fs_files f1 p = None \<Longrightarrow> fs_files g p = None" by (auto simp: fun_eq_iff)
  have ent: "\<exists>cs c. s = \<lparr>sf_path = path_under W cs, sf_content = c\<rparr> \<and> captured f0 W cs c
      \<and> spot g W s = loc f1 W @ cs" if "s \<in> set (sn_before sn)" for s
    using that sp(1) unfolding sets lg by blast
  have "\<exists>t f'. restore_writes g W (sn_before sn) t1 = (Inr t, f')"
  proof (rule restore_writes_succeeds; intro ballI)
    fix s assume "s \<in> set (sn_before sn)"
    from ent [OF this] obtain cs c where s: "s = \<lparr>sf_path = path_under W cs, sf_content = c\<rparr>"
      "captured f0 W cs c" "spot g W s = loc f1 W @ cs" by blast
    show "free_for (fs_files g) (fs_dirs g) (spot g W s)"
      using free [OF s(2)] fg by (auto simp: s(3) free_for_def g(2))
    from s(2) have "cs \<noteq> []" by (simp add: captured_def)
    then obtain ds e where cs: "cs = ds @ [e]" by (cases cs rule: rev_cases) auto
    with captured_plain [OF wf(1) s(2)] have pl: "plain_name e" "\<forall>c \<in> set ds. plain_name c" by auto
    from path_parent_join [OF pl(1), of "path_under W ds" "fs_cwd g"] obtain d where
      "path_parent (path_under W cs) = Some d" "loc g d = loc g (path_under W ds)"
      by (auto simp: cs)
    moreover have "resolve_path W (sf_path s) = path_under W cs"
      using is_absolute_under [OF W] by (simp add: s(1) resolve_path_def)
    ultimately show "\<exists>d. path_parent (resolve_path W (sf_path s)) = Some d \<and> loc g d = butlast (spot g W s)"
      using os_path_under [OF pl(2), of "fs_cwd g" W] lg [of W] s(3)
      by (intro exI [of _ d]) (simp add: cs butlast_append)
  next
    fix s s' assume "s \<in> set (sn_before sn)" "s' \<in> set (sn_before sn)"
    with ent obtain cs c cs' c' where "captured f0 W cs c" "spot g W s = loc f1 W @ cs"
      "captured f0 W cs' c'" "spot g W s' = loc f1 W @ cs'" by metis
    then show "\<not> strict_prefix (spot g W s) (spot g W s')"
      using file_at_antichain [of "fs_root f0" "loc f0 W @ cs" "loc f0 W @ cs'"]
      by (simp add: captured_def fs_files_def cwd)
  qed
  with g show ?thesis by (simp add: restore_snapshot_def)
qed

section \<open>Properties\<close>

text \<open>
  C9. Undo: for a batch with a snapshot of the workspace before it (state \<open>f0\<close>) and after it
  (state \<open>f1\<close>), a successful undo in any later state leaves every file the first snapshot
  captured with its content before the batch, removes every file only the second one captured,
  and changes no other file; in any case the snapshot is used up, and the history below it is
  what it was before the batch, except for the oldest entries beyond the cap.
\<close>

theorem undo_reverts_batch:
  assumes "is_absolute W" "wf_node (fs_root f0)" "wf_node (fs_root f1)"
    "fs_cwd f0 = fs_cwd f" "fs_cwd f1 = fs_cwd f" "1 \<le> history_cap m"
    and "restore_latest (end_batch (begin_batch m f0 W t) f1 W t) f W = (r, m', f')"
  shows "snapshots m' = drop_oldest (history_cap m - 1) (snapshots m) \<and>
    (\<forall>touched p. r = Inr touched \<longrightarrow>
       fs_files f' p = (if taken f0 W p then fs_files f0 p
                        else if taken f1 W p then None else fs_files f p))"
proof -
  from restore_latest_batch [OF assms(6), of f0 W f1 t] obtain sn where
    sn: "sn_before sn = discover_files f0 (Some W) (default_file_reader f0)"
    "sn_after sn = discover_files f1 (Some W) (default_file_reader f1)"
    "restore_snapshot f sn W = (r, f')"
    "m' = m\<lparr>snapshots := drop_oldest (history_cap m - 1) (snapshots m)\<rparr>"
    using assms(7) by (metis (no_types, lifting) case_prod_conv prod.collapse prod.inject)
  then show ?thesis
    using restore_snapshot_files [OF assms(1-5) sn(1,2)] by (auto simp del: split_paired_All)
qed

definition ex_fs :: "(string \<times> string) list \<Rightarrow> fs" where
  "ex_fs es = \<lparr>fs_root = Dir [(''w'', Dir (map (\<lambda>(n, s). (n, File s)) es))], fs_cwd = []\<rparr>"

lemmas ex_simps = ex_fs_def begin_batch_def end_batch_def take_snapshot_def update_after_def Let_def
  discover_files_def walk_def snapshot_entry_def os_path_def os_step_def path_join_def is_absolute_def starts_with_def ends_with_def
  default_file_reader_def fs_exists_def fs_read_def is_text_file_def path_extension_def file_name_def
  name_extension_def valid_utf8_def snapshot_manager_new_def default_history_cap_def drop_oldest_drop
  compute_changes_def contents_map_def change_of_def restore_latest_def pop_latest_def
  restore_snapshot_def resolve_path_def fs_remove_file_def fs_write_def ensure_parent_def
  path_parent_def trim_slashes_def fs_files_def file_at_def

theorem undo_reverts_batch_witness:
  "let f0 = ex_fs [(''a'', ''1'')]; f1 = ex_fs [(''a'', ''2''), (''b'', ''3'')];
       (r, m', f') = restore_latest (end_batch (begin_batch snapshot_manager_new f0 ''/w'' 0) f1 ''/w'' 0) f1 ''/w''
   in r = Inr [''deleted /w/b'', ''restored /w/a''] \<and> snapshots m' = []
      \<and> fs_files f' [''w'', ''a''] = Some ''1'' \<and> fs_files f' [''w'', ''b''] = None"
proof -
  define f0 where "f0 = ex_fs [(''a'', ''1'')]"
  define f1 where "f1 = ex_fs [(''a'', ''2''), (''b'', ''3'')]"
  have wf: "wf_node (fs_root f0)" "wf_node (fs_root f1)"
    by (simp_all add: f0_def f1_def ex_fs_def plain_name_def)
  obtain m' f' where res: "restore_latest (end_batch (begin_batch snapshot_manager_new f0 ''/w'' 0) f1 ''/w'' 0) f1 ''/w''
      = (Inr [''deleted /w/b'', ''restored /w/a''], m', f')"
    by (simp add: f0_def f1_def ex_simps)
  have a: "taken f0 ''/w'' [''w'', ''a'']"
    unfolding taken_def by (rule exI [of _ "[''a'']"], rule exI [of _ "''1''"]) (simp add: captured_def f0_def ex_simps)
  have b: "taken f1 ''/w'' [''w'', ''b'']"
    unfolding taken_def by (rule exI [of _ "[''b'']"], rule exI [of _ "''3''"]) (simp add: captured_def f1_def ex_simps)
  have nb: "\<not> taken f0 ''/w'' [''w'', ''b'']"
    by (simp add: taken_def captured_def f0_def ex_simps)
  from undo_reverts_batch [OF _ wf _ _ _ res] a b nb show ?thesis
    unfolding f0_def [symmetric] f1_def [symmetric] Let_def res
    by (simp add: f0_def f1_def ex_simps)
qed

text \<open>
  Undo right after a batch succeeds, unless the batch put a directory in the place of a
  captured file or a file in the place of a directory above one.
\<close>

theorem undo_succeeds:
  assumes "is_absolute W" "wf_node (fs_root f0)" "wf_node (fs_root f1)"
    "fs_cwd f0 = fs_cwd f1" "1 \<le> history_cap m"
    and "\<And>cs c. captured f0 W cs c \<Longrightarrow> free_for (fs_files f1) (fs_dirs f1) (loc f1 W @ cs)"
  shows "\<exists>touched m' f'. restore_latest (end_batch (begin_batch m f0 W t) f1 W t) f1 W = (Inr touched, m', f')"
proof -
  from restore_latest_batch [OF assms(5), of f0 W f1 t] obtain sn where
    sn: "sn_before sn = discover_files f0 (Some W) (default_file_reader f0)"
    "sn_after sn = discover_files f1 (Some W) (default_file_reader f1)"
    and r: "\<And>f. restore_latest (end_batch (begin_batch m f0 W t) f1 W t) f W =
       (case restore_snapshot f sn W of
          (r, f') \<Rightarrow> (r, m\<lparr>snapshots := drop_oldest (history_cap m - 1) (snapshots m)\<rparr>, f'))"
    by blast
  have "\<exists>touched f'. restore_snapshot f1 sn W = (Inr touched, f')"
    by (rule restore_snapshot_succeeds [OF assms(1-4) sn]) (rule assms(6))
  then show ?thesis by (auto simp: r)
qed

theorem undo_succeeds_witness:
  "\<exists>touched m' f'.
     restore_latest (end_batch (begin_batch snapshot_manager_new (ex_fs [(''a'', ''1'')]) ''/w'' 0)
       (ex_fs []) ''/w'' 0) (ex_fs []) ''/w'' = (Inr touched, m', f')"
proof (rule undo_succeeds)
  fix cs c assume "captured (ex_fs [(''a'', ''1'')]) ''/w'' cs c"
  then have "cs = [''a'']"
    by (auto simp: captured_def ex_fs_def fs_files_def os_path_def os_step_def is_absolute_def
        starts_with_def file_at_Dir_Cons file_at_File neq_Nil_conv split: if_splits)
  then show "free_for (fs_files (ex_fs [])) (fs_dirs (ex_fs [])) (loc (ex_fs []) ''/w'' @ cs)"
    by (auto simp: free_for_def ex_fs_def fs_files_def fs_dirs_def os_path_def os_step_def is_absolute_def
        starts_with_def file_at_Dir_Cons strict_prefix_def prefix_Cons)
qed (simp_all add: ex_fs_def plain_name_def snapshot_manager_new_def default_history_cap_def
    is_absolute_def starts_with_def)


lemma file_snapshot_eta [simp]: "\<lparr>sf_path = sf_path s, sf_content = sf_content s\<rparr> = s"
  by (cases s) simp

lemma contents_map_iff:
  assumes "distinct (map sf_path fs)"
  shows "contents_map fs p = Some c \<longleftrightarrow> \<lparr>sf_path = p, sf_content = c\<rparr> \<in> set fs"
proof -
  have "distinct (map fst (rev (map (\<lambda>s. (sf_path s, sf_content s)) fs)))"
    using assms by (simp add: rev_map [symmetric] o_def)
  then have "contents_map fs p = Some c \<longleftrightarrow> (p, c) \<in> (\<lambda>s. (sf_path s, sf_content s)) ` set fs"
    by (simp add: contents_map_def)
  also have "\<dots> \<longleftrightarrow> \<lparr>sf_path = p, sf_content = c\<rparr> \<in> set fs"
    by (auto simp: image_iff intro: bexI [of _ "\<lparr>sf_path = p, sf_content = c\<rparr>"])
  finally show ?thesis .
qed

lemma map_filter_change_paths:
  assumes "\<forall>x \<in> set xs. \<forall>y. g x = Some y \<longrightarrow> h y = k x"
  shows "map h (List.map_filter g xs) = map k (filter (\<lambda>x. g x \<noteq> None) xs)"
  using assms by (induction xs) (auto split: option.splits)

fun change_spec :: "(string \<rightharpoonup> string) \<Rightarrow> (string \<rightharpoonup> string) \<Rightarrow> file_change \<Rightarrow> bool" where
  "change_spec b a (Created p c) \<longleftrightarrow> b p = None \<and> a p = Some c"
| "change_spec b a (Modified p x y) \<longleftrightarrow> b p = Some x \<and> a p = Some y \<and> x \<noteq> y"
| "change_spec b a (Deleted p x) \<longleftrightarrow> b p = Some x \<and> a p = None"

lemma change_of_path: "change_of b s = Some ch \<Longrightarrow> change_path ch = sf_path s"
  by (auto simp: change_of_def split: option.splits if_splits)

lemma change_of_Some:
  "change_of b s = Some ch \<longleftrightarrow>
     b (sf_path s) = None \<and> ch = Created (sf_path s) (sf_content s) \<or>
     (\<exists>x. b (sf_path s) = Some x \<and> x \<noteq> sf_content s \<and> ch = Modified (sf_path s) x (sf_content s))"
  by (auto simp: change_of_def split: option.splits)

lemma compute_changes_paths:
  assumes "distinct (map sf_path before)" "distinct (map sf_path after)"
  shows "distinct (map change_path (compute_changes before after))"
proof -
  let ?g = "change_of (contents_map before)"
  let ?h = "\<lambda>s. if contents_map after (sf_path s) = None then Some (Deleted (sf_path s) (sf_content s)) else None"
  have g: "map change_path (List.map_filter ?g after) = map sf_path (filter (\<lambda>x. ?g x \<noteq> None) after)"
    by (rule map_filter_change_paths) (simp add: change_of_path)
  have h: "map change_path (List.map_filter ?h before) = map sf_path (filter (\<lambda>x. ?h x \<noteq> None) before)"
    by (rule map_filter_change_paths) auto
  have dist: "distinct (map change_path (List.map_filter ?g after))"
    "distinct (map change_path (List.map_filter ?h before))"
    unfolding g h using assms by (simp_all only: distinct_map_filter)
  have "contents_map after (sf_path s) \<noteq> None" if "s \<in> set after" for s
    using contents_map_iff [OF assms(2), of "sf_path s" "sf_content s"] that by simp
  then have "set (map change_path (List.map_filter ?g after)) \<inter> set (map change_path (List.map_filter ?h before)) = {}"
    unfolding g h by (fastforce split: if_splits)
  with dist have "distinct (map change_path (List.map_filter ?g after @ List.map_filter ?h before))"
    by (simp only: map_append distinct_append)
  then have "inj_on change_path (set (List.map_filter ?g after @ List.map_filter ?h before))"
    "distinct (List.map_filter ?g after @ List.map_filter ?h before)"
    by (simp_all only: distinct_map)
  then show ?thesis by (simp add: compute_changes_def distinct_map)
qed

text \<open>
  What a batch is reported to have changed is exact: for two captured states the change
  list is sorted by path, has one entry per changed path, and holds the created, modified and
  deleted files with their old and new contents, and nothing else.
\<close>

theorem compute_changes_exact:
  assumes "distinct (map sf_path before)" "distinct (map sf_path after)"
  shows "sorted (map change_path (compute_changes before after)) \<and>
    distinct (map change_path (compute_changes before after)) \<and>
    (\<forall>ch. ch \<in> set (compute_changes before after) \<longleftrightarrow>
       change_spec (contents_map before) (contents_map after) ch)"
proof (intro conjI allI)
  show "sorted (map change_path (compute_changes before after))"
    by (simp add: compute_changes_def)
  show "distinct (map change_path (compute_changes before after))"
    by (rule compute_changes_paths [OF assms])
next
  fix ch
  have mem: "ch \<in> set (compute_changes before after) \<longleftrightarrow>
     (\<exists>s \<in> set after. change_of (contents_map before) s = Some ch) \<or>
     (\<exists>s \<in> set before. contents_map after (sf_path s) = None \<and> ch = Deleted (sf_path s) (sf_content s))"
    by (auto simp: compute_changes_def map_filter_set)
  have ex: "(\<exists>s \<in> set fs. P s) \<longleftrightarrow> (\<exists>p c. contents_map fs p = Some c \<and> P \<lparr>sf_path = p, sf_content = c\<rparr>)"
    if "distinct (map sf_path fs)" for fs P
    unfolding contents_map_iff [OF that] by (metis file_snapshot_eta)
  show "ch \<in> set (compute_changes before after) \<longleftrightarrow> change_spec (contents_map before) (contents_map after) ch"
    unfolding mem ex [OF assms(1)] ex [OF assms(2)]
    by (cases ch) (auto simp: change_of_Some)
qed

theorem compute_changes_exact_witness:
  "set (compute_changes [\<lparr>sf_path = ''a'', sf_content = ''1''\<rparr>, \<lparr>sf_path = ''b'', sf_content = ''2''\<rparr>]
          [\<lparr>sf_path = ''a'', sf_content = ''3''\<rparr>, \<lparr>sf_path = ''c'', sf_content = ''4''\<rparr>])
     \<supseteq> {Modified ''a'' ''1'' ''3'', Deleted ''b'' ''2'', Created ''c'' ''4''}"
  using compute_changes_exact
    [of "[\<lparr>sf_path = ''a'', sf_content = ''1''\<rparr>, \<lparr>sf_path = ''b'', sf_content = ''2''\<rparr>]"
        "[\<lparr>sf_path = ''a'', sf_content = ''3''\<rparr>, \<lparr>sf_path = ''c'', sf_content = ''4''\<rparr>]"]
  by (simp add: contents_map_def)

text \<open>
  A file that was empty before a batch is not captured, so if the batch writes something into
  it, undo deletes the file instead of emptying it again.
\<close>

lemma undo_deletes_formerly_empty_file:
  "let f0 = ex_fs [(''a'', [])]; f1 = ex_fs [(''a'', ''x'')];
       (r, _, f') = restore_latest (end_batch (begin_batch snapshot_manager_new f0 ''/w'' 0) f1 ''/w'' 0) f1 ''/w''
   in fs_files f0 [''w'', ''a''] = Some [] \<and> r = Inr [''deleted /w/a''] \<and> fs_files f' [''w'', ''a''] = None"
  by (simp add: ex_simps)

lemma drop_oldest_length: "length (drop_oldest cap xs) \<le> cap"
  by (simp add: drop_oldest_drop)

lemma update_first_length [simp]: "length (update_first P g xs) = length xs"
  by (induction xs) auto

text \<open>
  The snapshot history never exceeds its cap, whatever the sequence of batches.
\<close>

lemma snapshot_history_bounded:
  "snapshot_count (begin_batch m f W t) \<le> history_cap m
   \<and> snapshot_count (end_batch m f W t) = snapshot_count m
   \<and> history_cap (begin_batch m f W t) = history_cap m
   \<and> snapshot_count (fst (snd (restore_latest m f W))) = snapshot_count m - 1"
  by (auto simp: snapshot_count_def begin_batch_def end_batch_def take_snapshot_def update_after_def
      restore_latest_def pop_latest_def Let_def drop_oldest_length split: prod.splits)

end
