(* ===== verification/Agent_State.thy ===== *)
theory Agent_State
  imports Batch Snapshot
begin

text \<open>
  What the agent loops of \<open>sentinel-core/src/agent.rs\<close> and \<open>pipeline.rs\<close> share: the outcome
  of a run, the session events (\<open>event.rs\<close>) and lifecycle hooks (\<open>hooks.rs\<close>) it reports to, the
  configuration of an agent, and the state of a running one.

  The log of the state lists, in order, what the agent sends out: events appended to the
  session store, hook events, events for the handler, completion requests, verification
  commands and, for every batch of tool calls, the trace of \<open>Batch\<close>. Time stamps are left
  out. The store and the handler are sinks; a hook may change the world outside.
\<close>

section \<open>Outcomes\<close>

datatype agent_output = Success string | OutError string

fun text_or_empty :: "agent_output \<Rightarrow> string" where
  "text_or_empty (Success t) = t"
| "text_or_empty (OutError _) = []"

datatype agent_error = ProviderErr provider_error | Generic string

type_synonym agent_result = "agent_error + agent_output"

definition denied_error :: "string \<Rightarrow> agent_output" where
  "denied_error why = OutError (''Policy denied: '' @ why)"

section \<open>Session events and hooks\<close>

datatype session_event =
    SeSessionCreated string string               \<comment> \<open>session_id, model\<close>
  | SeUserMessage string string
  | SeAssistantText string string
  | SeToolCall string string string json
  | SeToolResult string string string string bool \<comment> \<open>session_id, call id, name, output, is_error\<close>
  | SeTurnEnd string u32 u32
  | SeSessionEnded string string
  | SeError string string

fun session_id :: "session_event \<Rightarrow> string" where
  "session_id (SeSessionCreated i _) = i"
| "session_id (SeUserMessage i _) = i"
| "session_id (SeAssistantText i _) = i"
| "session_id (SeToolCall i _ _ _) = i"
| "session_id (SeToolResult i _ _ _ _) = i"
| "session_id (SeTurnEnd i _ _) = i"
| "session_id (SeSessionEnded i _) = i"
| "session_id (SeError i _) = i"

fun variant_name :: "session_event \<Rightarrow> string" where
  "variant_name (SeSessionCreated _ _) = ''session_created''"
| "variant_name (SeUserMessage _ _) = ''user_message''"
| "variant_name (SeAssistantText _ _) = ''assistant_text''"
| "variant_name (SeToolCall _ _ _ _) = ''tool_call''"
| "variant_name (SeToolResult _ _ _ _ _) = ''tool_result''"
| "variant_name (SeTurnEnd _ _ _) = ''turn_end''"
| "variant_name (SeSessionEnded _ _) = ''session_ended''"
| "variant_name (SeError _ _) = ''error''"

datatype hook_event =
    HBeforeToolCall string json
  | HAfterToolCall string string bool
  | HBeforeModelRequest string "message list"
  | HAfterModelResponse string string "(string \<times> string \<times> json) list"
  | HBeforeTurn u32
  | HAfterTurn u32 u32
  | HSessionStarted string
  | HSessionEnded string string
  | HAppCreated string string
  | HVersionChanged string string
  | HMigration string string
  | HPreMerge string string

type_synonym 'w hook_fn = "'w \<Rightarrow> hook_event \<Rightarrow> 'w"

definition hook_dispatch :: "'w hook_fn list \<Rightarrow> hook_event \<Rightarrow> 'w \<Rightarrow> 'w" where
  "hook_dispatch hs e w = fold (\<lambda>h w. h w e) hs w"

section \<open>The upload of a finished session (uploader.rs)\<close>

record session_payload =
  sp_id :: string
  sp_turns :: u32
  sp_iterations :: u32
  sp_total_tokens :: u64
  sp_total_cost_usd :: rat
  sp_conversation :: conversation

record upload_result =
  up_ok :: bool
  up_error :: "string option"
  up_url :: "string option"

definition null_upload :: "'w \<Rightarrow> session_payload \<Rightarrow> upload_result \<times> 'w" where
  "null_upload w p = (\<lparr>up_ok = True, up_error = None, up_url = None\<rparr>, w)"

section \<open>A verification command\<close>

text \<open>What \<open>Command::output\<close> under a timeout gives: standard output and error after lossy decoding
  (which keeps emptiness) and whether the exit status is success; the error of a failed start; the
  timeout.\<close>

datatype command_run = Exited string string bool | NotStarted string | TimedOut

section \<open>The agent\<close>

text \<open>
  An agent. \<open>ae_batch\<close> holds its tools, plugins, sandbox and cancellation token, and the gate and
  policy of the run. \<open>ae_complete\<close> and \<open>ae_complete_stream\<close> are the provider; a stream is the
  finite list of its chunks. \<open>ae_cut\<close> tells that the token is set while a completion is awaited.
  \<open>ae_tool_defs\<close> is the order in which the registry lists its tools, \<open>ae_keys\<close> that of the keys of
  the price table, \<open>ae_dbg\<close> and \<open>ae_parse\<close> are \<open>serde_json\<close>'s debug rendering and parser.
  \<open>ae_manager\<close> and \<open>ae_set_manager\<close> reach the checkpoint store, which the \<open>undo\<close> tool also uses.
\<close>

record 'w agent_env =
  ae_batch :: "'w batch_env"
  ae_complete :: "'w \<Rightarrow> completion_request \<Rightarrow> (provider_error + completion_response) \<times> 'w"
  ae_complete_stream ::
    "'w \<Rightarrow> completion_request \<Rightarrow> (provider_error + (provider_error + stream_chunk) list) \<times> 'w"
  ae_cut :: "'w \<Rightarrow> 'w option"
  ae_compress_conversation :: "'w \<Rightarrow> message list \<Rightarrow> string \<Rightarrow> message list \<times> 'w"
  ae_hooks :: "'w hook_fn list"
  ae_upload :: "'w \<Rightarrow> session_payload \<Rightarrow> upload_result \<times> 'w"
  ae_run_command :: "'w \<Rightarrow> string \<Rightarrow> string \<Rightarrow> command_run \<times> 'w"
  ae_manager :: "'w \<Rightarrow> snapshot_manager"
  ae_set_manager :: "snapshot_manager \<Rightarrow> 'w \<Rightarrow> 'w"
  ae_cwd :: "'w \<Rightarrow> string option"
  ae_tool_defs :: "tool_def list"
  ae_keys :: "string list"
  ae_dbg :: "json \<Rightarrow> string"
  ae_parse :: "string \<Rightarrow> json option"
  ae_prompt :: string
  ae_provider_name :: string
  ae_model :: string
  ae_default_model :: string
  ae_max_tokens :: "u32 option"
  ae_verify_command :: "string option"
  ae_max_fix_cycles :: u32
  ae_paths :: "string list"

definition effective_model :: "'w agent_env \<Rightarrow> string" where
  "effective_model env = (if ae_model env = [] then ae_default_model env else ae_model env)"

definition with_model :: "string \<Rightarrow> 'w agent_env \<Rightarrow> 'w agent_env" where
  "with_model m env = (if m \<noteq> [] then env\<lparr>ae_model := m\<rparr> else env)"

datatype agent_note =
    Stored session_event
  | Hooked hook_event
  | Handled agent_event
  | Asked completion_request
  | AskedStream completion_request
  | BatchRan "tool_call list" "entry list"
  | Verified string

record 'w agent_state =
  ag_world :: 'w
  ag_thread :: agent_thread
  ag_log :: "agent_note list"
  total_prompt_tokens :: u64
  total_completion_tokens :: u64
  fix_cycles :: u32

definition logged :: "agent_note \<Rightarrow> 'w agent_state \<Rightarrow> 'w agent_state" where
  "logged n s = s\<lparr>ag_log := ag_log s @ [n]\<rparr>"

definition on_thread :: "(agent_thread \<Rightarrow> agent_thread) \<Rightarrow> 'w agent_state \<Rightarrow> 'w agent_state" where
  "on_thread f s = s\<lparr>ag_thread := f (ag_thread s)\<rparr>"

definition set_status :: "thread_status \<Rightarrow> 'w agent_state \<Rightarrow> 'w agent_state" where
  "set_status x s = on_thread (\<lambda>t. t\<lparr>status := x\<rparr>) s"

definition run_hooks :: "'w agent_env \<Rightarrow> hook_event \<Rightarrow> 'w agent_state \<Rightarrow> 'w agent_state" where
  "run_hooks env e s = logged (Hooked e) (s\<lparr>ag_world := hook_dispatch (ae_hooks env) e (ag_world s)\<rparr>)"

definition dispatch_plugin_event :: "'w agent_env \<Rightarrow> plugin_event \<Rightarrow> 'w agent_state \<Rightarrow> 'w agent_state" where
  "dispatch_plugin_event env e s =
     s\<lparr>ag_world := snd (dispatch (be_plugins (ae_batch env)) (ag_world s) e)\<rparr>"

section \<open>Projections\<close>

lemma logged_sel [thread_simps, simp]:
  "ag_world (logged n s) = ag_world s" "ag_thread (logged n s) = ag_thread s"
  "ag_log (logged n s) = ag_log s @ [n]" "fix_cycles (logged n s) = fix_cycles s"
  "total_prompt_tokens (logged n s) = total_prompt_tokens s"
  "total_completion_tokens (logged n s) = total_completion_tokens s"
  by (simp_all add: logged_def)

lemma on_thread_sel [thread_simps, simp]:
  "ag_world (on_thread f s) = ag_world s" "ag_thread (on_thread f s) = f (ag_thread s)"
  "ag_log (on_thread f s) = ag_log s" "fix_cycles (on_thread f s) = fix_cycles s"
  "total_prompt_tokens (on_thread f s) = total_prompt_tokens s"
  "total_completion_tokens (on_thread f s) = total_completion_tokens s"
  by (simp_all add: on_thread_def)

lemma set_status_sel [thread_simps, simp]:
  "ag_world (set_status x s) = ag_world s" "ag_thread (set_status x s) = (ag_thread s)\<lparr>status := x\<rparr>"
  "ag_log (set_status x s) = ag_log s" "fix_cycles (set_status x s) = fix_cycles s"
  by (simp_all add: set_status_def)

lemma run_hooks_sel [thread_simps, simp]:
  "ag_thread (run_hooks env e s) = ag_thread s" "ag_log (run_hooks env e s) = ag_log s @ [Hooked e]"
  "fix_cycles (run_hooks env e s) = fix_cycles s"
  by (simp_all add: run_hooks_def)

lemma dispatch_plugin_event_sel [thread_simps, simp]:
  "ag_thread (dispatch_plugin_event env e s) = ag_thread s"
  "ag_log (dispatch_plugin_event env e s) = ag_log s"
  "fix_cycles (dispatch_plugin_event env e s) = fix_cycles s"
  by (simp_all add: dispatch_plugin_event_def)

section \<open>One step of a loop\<close>

text \<open>A stage of an iteration leaves the function, goes back to the head of the loop, or hands a
  value to the stage after it.\<close>

datatype 'a outcome = Return agent_result | Continue | Proceed 'a

definition and_then ::
    "'a outcome \<times> 's \<Rightarrow> ('a \<Rightarrow> 's \<Rightarrow> 'b outcome \<times> 's) \<Rightarrow> 'b outcome \<times> 's" where
  "and_then x f =
     (case x of (Proceed a, s) \<Rightarrow> f a s | (Return r, s) \<Rightarrow> (Return r, s) | (Continue, s) \<Rightarrow> (Continue, s))"

lemma and_then_simps [simp]:
  "and_then (Proceed a, s) f = f a s" "and_then (Return r, s) f = (Return r, s)"
  "and_then (Continue, s) f = (Continue, s)"
  by (simp_all add: and_then_def)

fun returns :: "'a outcome \<Rightarrow> bool" where
  "returns (Return _) = True"
| "returns _ = False"

text \<open>A loop with such a body, cut off after \<open>n\<close> iterations.\<close>

fun fuel_loop :: "nat \<Rightarrow> ('s \<Rightarrow> 'a outcome \<times> 's) \<Rightarrow> 's \<Rightarrow> (agent_result \<times> 's) option" where
  "fuel_loop 0 step s = None"
| "fuel_loop (Suc n) step s =
     (case step s of (Return r, s') \<Rightarrow> Some (r, s') | (_, s') \<Rightarrow> fuel_loop n step s')"

text \<open>
  The contract of a loop whose body reports one of the three, and whose iterations are counted:
  an iteration that does not leave the function lowers the number that is left. From it follow
  invariants of the whole run, and a bound on any quantity an iteration raises by at most a
  constant.
\<close>

locale counted_loop =
  fixes step :: "'s \<Rightarrow> 'a outcome \<times> 's" and loop :: "'s \<Rightarrow> agent_result \<times> 's" and left :: "'s \<Rightarrow> nat"
  assumes unfold_loop:
      "loop s = (case step s of (Return r, s') \<Rightarrow> (r, s') | (_, s') \<Rightarrow> loop s')"
    and step_left: "step s = (x, s') \<Longrightarrow> \<not> returns x \<Longrightarrow> left s' < left s"
begin

lemma loop_induct [case_names iter]:
  assumes "\<And>s. (\<And>x s'. step s = (x, s') \<Longrightarrow> \<not> returns x \<Longrightarrow> P s') \<Longrightarrow> P s"
  shows "P s"
proof (induction "left s" arbitrary: s rule: less_induct)
  case less
  show ?case
  proof (rule assms)
    fix x s'
    assume "step s = (x, s')" "\<not> returns x"
    then have "left s' < left s" by (rule step_left)
    then show "P s'" by (rule less)
  qed
qed

lemma loop_cases:
  obtains (leave) r s' where "step s = (Return r, s')" "loop s = (r, s')"
  | (again) x s' where "step s = (x, s')" "\<not> returns x" "loop s = loop s'"
  using unfold_loop [of s] by (cases "step s"; cases "fst (step s)") auto

lemma loop_invariant:
  assumes "Q s" and keep: "\<And>s x s'. Q s \<Longrightarrow> step s = (x, s') \<Longrightarrow> Q s'"
  shows "Q (snd (loop s))"
  using assms(1)
proof (induction s rule: loop_induct)
  case (iter s)
  show ?case by (cases s rule: loop_cases) (use iter keep in \<open>auto\<close>)
qed

lemma loop_bound:
  assumes grow: "\<And>s x s'. step s = (x, s') \<Longrightarrow> f s' \<le> f s + (k :: nat)"
    and idle: "\<And>s x s'. step s = (x, s') \<Longrightarrow> left s = 0 \<Longrightarrow> f s' \<le> f s"
  shows "f (snd (loop s)) \<le> f s + k * left s"
proof (induction s rule: loop_induct)
  case (iter s)
  show ?case
  proof (cases s rule: loop_cases)
    case (leave r s')
    then show ?thesis using grow [OF leave(1)] idle [OF leave(1)] by (cases "left s") auto
  next
    case (again x s')
    then have "Suc (left s') \<le> left s" using step_left by fastforce
    then have "k * Suc (left s') \<le> k * left s" by (rule mult_le_mono2)
    moreover have "f (snd (loop s')) \<le> f s' + k * left s'" by (rule iter) (use again in auto)
    ultimately show ?thesis using grow [OF again(1)] again(3) by simp
  qed
qed

lemma loop_fuel: "left s < n \<Longrightarrow> fuel_loop n step s = Some (loop s)"
proof (induction n arbitrary: s)
  case (Suc n)
  show ?case
  proof (cases s rule: loop_cases)
    case (again x s')
    moreover have "left s' < left s" using again step_left by blast
    ultimately show ?thesis using Suc by (cases x) auto
  qed (use Suc in auto)
qed simp

end

end
