(* ===== verification/Agent.thy ===== *)
theory Agent
  imports Agent_State
begin

text \<open>
  The agent loop: \<open>Agent::run_with_approval_with_system\<close> of \<open>sentinel-core/src/agent.rs\<close> and
  everything it calls. One iteration of the loop is the sequence of its stages, each the
  translation of a stretch of the loop body: the counter and the cancellation check, the
  request with its retries, the accounting of the answer, the message and its tool calls, the
  batch, the verification, the end of the turn with the compaction of the window.

  The waiting between two attempts and the tracing are left out.
\<close>

section \<open>Constants\<close>

definition TRUNCATION_HINT :: string where
  "TRUNCATION_HINT =
     ''Your previous response was truncated because the output hit the token limit. '' @
     ''The following tool calls were lost. '' @
     ''IMPORTANT: Do NOT retry with the same large content. Instead: '' @
     ''use bash with cat<<'' @ [CHR 0x27] @ ''HEREDOC'' @ [CHR 0x27] @
     '' to write files, or split into several smaller tool calls.''"

definition MALFORMED_TOOL_CALL_HINT :: string where
  "MALFORMED_TOOL_CALL_HINT =
     ''Your previous response contained malformed tool calls that could not be executed. '' @
     ''Issues found: '' @
     ''- Empty or missing tool call ID '' @
     ''- Empty or missing tool name '' @
     ''- Invalid JSON in tool call arguments (must be valid JSON object) '' @
     ''Please correct the tool calls and retry. Do NOT repeat the same malformed calls.''"

definition VERIFY_TRIGGER_TOOLS :: "string list" where
  "VERIFY_TRIGGER_TOOLS = [''write'', ''edit'', ''patch'', ''apply_patch'']"

definition budget_exhausted_text :: string where
  "budget_exhausted_text = ''[Budget exhausted '' @ em_dash @ '' spend cap reached]''"

section \<open>Requests and accounting\<close>

definition build_request :: "'w agent_env \<Rightarrow> 'w agent_state \<Rightarrow> completion_request \<times> 'w agent_state" where
  "build_request env s =
     (let (compressed, w) = ae_compress_conversation env (ag_world s) (messages (ctx (ag_thread s)))
            (effective_model env);
          req = completion_request_new (effective_model env);
          req1 = (case ae_max_tokens env of Some m \<Rightarrow> req\<lparr>req_max_tokens := Some m\<rparr> | None \<Rightarrow> req)
      in (fold (\<lambda>m r. with_message r m) compressed req1, s\<lparr>ag_world := w\<rparr>))"

definition offer_tools :: "'w agent_env \<Rightarrow> completion_request \<Rightarrow> completion_request" where
  "offer_tools env req =
     (case tool_defs_for_model (ae_tool_defs env) True of Some ts \<Rightarrow> with_tools req ts | None \<Rightarrow> req)"

text \<open>The price lookup never fails (lemma \<open>estimate_llm_cost_total\<close>); the second branch is not
  reached when \<open>ae_keys\<close> lists the keys of the table.\<close>

definition llm_cost :: "'w agent_env \<Rightarrow> string \<Rightarrow> usage \<Rightarrow> rat" where
  "llm_cost env model u =
     (case estimate_llm_cost (ae_keys env) model (prompt_tokens u) (completion_tokens u) of
        Some c \<Rightarrow> c | None \<Rightarrow> 0)"

definition charge_usage :: "'w agent_env \<Rightarrow> string \<Rightarrow> usage option \<Rightarrow> 'w agent_state \<Rightarrow> 'w agent_state" where
  "charge_usage env model uo s =
     (case uo of
        None \<Rightarrow> s
      | Some u \<Rightarrow>
          on_thread (\<lambda>t. t\<lparr>budget := record_usage (llm_cost env model u) (ucast (prompt_tokens u))
                               (ucast (completion_tokens u)) (budget t)\<rparr>)
            (s\<lparr>total_prompt_tokens := total_prompt_tokens s + ucast (prompt_tokens u),
               total_completion_tokens := total_completion_tokens s + ucast (completion_tokens u)\<rparr>))"

section \<open>The model call\<close>

fun is_transient :: "provider_error \<Rightarrow> bool" where
  "is_transient (Reqwest _) = True"
| "is_transient (RateLimitExceeded _) = True"
| "is_transient (RateLimited _) = True"
| "is_transient (Timeout _) = True"
| "is_transient (ServiceUnavailable _) = True"
| "is_transient _ = False"

datatype model_answer = Answer completion_response | CallCancelled | CallFailed nat provider_error

text \<open>One awaited completion under the biased \<open>select!\<close>: a token that is already set wins before
  the provider is asked.\<close>

definition await_completion ::
    "'w agent_env \<Rightarrow> completion_request \<Rightarrow> 'w agent_state
       \<Rightarrow> (provider_error + completion_response) option \<times> 'w agent_state" where
  "await_completion env req s =
     (if be_cancelled (ae_batch env) (ag_world s) then (None, s)
      else
        (let s1 = logged (Asked req) s in
         case ae_cut env (ag_world s1) of
           Some w \<Rightarrow> (None, s1\<lparr>ag_world := w\<rparr>)
         | None \<Rightarrow> (let (r, w) = ae_complete env (ag_world s1) req in (Some r, s1\<lparr>ag_world := w\<rparr>))))"

function complete_retry ::
    "'w agent_env \<Rightarrow> completion_request \<Rightarrow> nat \<Rightarrow> 'w agent_state \<Rightarrow> model_answer \<times> 'w agent_state" where
  "complete_retry env req attempts s =
     (case await_completion env req s of
        (None, s') \<Rightarrow> (CallCancelled, s')
      | (Some (Inr r), s') \<Rightarrow> (Answer r, s')
      | (Some (Inl e), s') \<Rightarrow>
          (if attempts + 1 < 3 \<and> is_transient e then complete_retry env req (attempts + 1) s'
           else (CallFailed (attempts + 1) e, s')))"
  by pat_completeness auto
termination by (relation "measure (\<lambda>(_, _, a, _). 3 - a)") auto

declare complete_retry.simps [simp del]

definition begin_iteration :: "'w agent_env \<Rightarrow> 'w agent_state \<Rightarrow> unit outcome \<times> 'w agent_state" where
  "begin_iteration env s =
     (let (t, ok) = increment_iteration (ag_thread s);
          s1 = s\<lparr>ag_thread := t\<rparr>
      in if \<not> ok then (Return (Inr (OutError ''Max iterations reached'')), s1)
         else
           (let s2 = run_hooks env (HBeforeTurn (iterations t)) s1 in
            if be_cancelled (ae_batch env) (ag_world s2)
            then (Return (Inr (OutError ''Agent cancelled'')), set_status Cancelled s2)
            else (Proceed (), s2)))"

definition ask_model :: "'w agent_env \<Rightarrow> 'w agent_state \<Rightarrow> completion_response outcome \<times> 'w agent_state" where
  "ask_model env s =
     (let (req0, s1) = build_request env s;
          req = offer_tools env req0;
          s2 = dispatch_plugin_event env (BeforeModelRequest (effective_model env) 0) s1;
          s3 = run_hooks env (HBeforeModelRequest (effective_model env) (messages (ctx (ag_thread s2)))) s2
      in case complete_retry env req 0 s3 of
           (Answer r, s4) \<Rightarrow> (Proceed r, s4)
         | (CallCancelled, s4) \<Rightarrow>
             (Return (Inr (OutError ''Agent cancelled'')), set_status Cancelled s4)
         | (CallFailed n e, s4) \<Rightarrow>
             (Return (Inr (OutError (''LLM call failed: '' @ show_provider_error e))),
              logged (Stored (SeError (tid (ag_thread s4))
                (''LLM call failed after '' @ show_nat n @ '' attempt(s): '' @ show_provider_error e))) s4))"

definition hook_view :: "completion_response \<Rightarrow> string \<times> (string \<times> string \<times> json) list" where
  "hook_view r =
     (case resp_choices r of
        [] \<Rightarrow> ([], [])
      | c # _ \<Rightarrow> (extract_text (ch_message c),
                 map (\<lambda>(i, n, a). (n, i, a)) (message_tool_calls (ch_message c))))"

definition settle :: "'w agent_env \<Rightarrow> completion_response \<Rightarrow> 'w agent_state \<Rightarrow> choice outcome \<times> 'w agent_state" where
  "settle env r s =
     (let s1 = dispatch_plugin_event env (AfterModelResponse (ae_default_model env)
                 (case resp_usage r of Some u \<Rightarrow> completion_tokens u | None \<Rightarrow> 0)) s;
          (txt, calls) = hook_view r;
          s2 = run_hooks env (HAfterModelResponse (effective_model env) txt calls) s1;
          s3 = charge_usage env (effective_model env) (resp_usage r) s2
      in if exhausted (budget (ag_thread s3))
         then (Return (Inr (Success budget_exhausted_text)), set_status Completed s3)
         else case resp_choices r of
                [] \<Rightarrow> (Return (Inr (OutError ''No response from model'')), s3)
              | c # _ \<Rightarrow> (Proceed c, s3))"

section \<open>The answer\<close>

definition note_assistant_text :: "string \<Rightarrow> agent_thread \<Rightarrow> agent_thread" where
  "note_assistant_text txt t =
     t\<lparr>conversation := (case add_assistant_text txt (conversation t) of
                          Some c \<Rightarrow> c | None \<Rightarrow> conversation t)\<rparr>"

definition accept_message :: "choice \<Rightarrow> 'w agent_state \<Rightarrow> 'w agent_state" where
  "accept_message c s =
     (let txt = extract_text (ch_message c) in
      logged (Handled (Thinking txt))
        (on_thread (\<lambda>t. note_assistant_text txt (add_message (ch_message c) t))
          (logged (Stored (SeAssistantText (tid (ag_thread s)) txt)) s)))"

definition malformed_hint :: "string list \<Rightarrow> message" where
  "malformed_hint errs =
     message_user (''[SYSTEM: Malformed tool calls detected '' @ em_dash @ '' '' @ join ''; '' errs @ '']''
       @ LF @ LF @ MALFORMED_TOOL_CALL_HINT)"

definition truncation_hint :: message where
  "truncation_hint = message_user (''[SYSTEM: '' @ TRUNCATION_HINT @ '']'')"

definition vet_calls :: "choice \<Rightarrow> 'w agent_state \<Rightarrow> tool_call list outcome \<times> 'w agent_state" where
  "vet_calls c s =
     (let calls = message_tool_calls (ch_message c);
          txt = extract_text (ch_message c)
      in case (if calls = [] then Inr () else validate_tool_calls calls) of
           Inl errs \<Rightarrow> (Continue, on_thread (add_message (malformed_hint errs)) s)
         | Inr _ \<Rightarrow>
             (if ch_finish_reason c = Some ''length'' \<and> calls \<noteq> []
              then (Continue, on_thread (add_message truncation_hint) s)
              else if calls = []
              then (Return (Inr (Success txt)), logged (Handled (EvCompleted txt)) (set_status Completed s))
              else (Proceed calls, s)))"

section \<open>The batch\<close>

definition workspace_dir :: "'w agent_env \<Rightarrow> 'w \<Rightarrow> string" where
  "workspace_dir env w =
     (let cwd = (case ae_cwd env w of Some d \<Rightarrow> d | None \<Rightarrow> ''.'') in
      case ae_paths env of
        [] \<Rightarrow> cwd
      | p # _ \<Rightarrow> (if is_absolute p then p else path_join cwd p))"

definition agent_tool_context :: "'w agent_env \<Rightarrow> 'w \<Rightarrow> tool_context" where
  "agent_tool_context env w = tool_context_new\<lparr>tc_workspace_dir := Some (workspace_dir env w)\<rparr>"

definition batch_mutates :: "'w agent_env \<Rightarrow> tool_call list \<Rightarrow> bool" where
  "batch_mutates env calls =
     list_ex (\<lambda>(_, name, _). name \<noteq> ''undo'' \<and>
        (case be_tools (ae_batch env) name of Some t \<Rightarrow> t_is_mutating t | None \<Rightarrow> False)) calls"

definition open_checkpoint :: "'w agent_env \<Rightarrow> string \<Rightarrow> 'w agent_state \<Rightarrow> 'w agent_state" where
  "open_checkpoint env ws s =
     s\<lparr>ag_world := ae_set_manager env
         (begin_batch (ae_manager env (ag_world s)) (be_fs (ae_batch env) (ag_world s)) ws
            (turn_no (ag_thread s))) (ag_world s)\<rparr>"

definition close_checkpoint :: "'w agent_env \<Rightarrow> string \<Rightarrow> 'w agent_state \<Rightarrow> 'w agent_state" where
  "close_checkpoint env ws s =
     s\<lparr>ag_world := ae_set_manager env
         (end_batch (ae_manager env (ag_world s)) (be_fs (ae_batch env) (ag_world s)) ws
            (turn_no (ag_thread s))) (ag_world s)\<rparr>"

definition call_tools ::
    "'w batch_env \<Rightarrow> tool_context \<Rightarrow> tool_call list \<Rightarrow> 'w agent_state \<Rightarrow> batch_outcome \<times> 'w agent_state" where
  "call_tools benv tcx calls s =
     (case execute_tools_concurrent benv tcx calls (ag_thread s) (ag_world s) of
        (out, b) \<Rightarrow> (out, logged (BatchRan calls (trace b)) (s\<lparr>ag_world := world b, ag_thread := thr b\<rparr>)))"

definition result_message :: "tool_result \<Rightarrow> message" where
  "result_message r =
     message_new RTool [ToolResultBlock (tool_call_id r) (tr_output r) (Some (tr_is_error r))]"

definition record_result :: "tool_result \<Rightarrow> 'w agent_state \<Rightarrow> 'w agent_state" where
  "record_result r s =
     on_thread (add_message (result_message r))
       (logged (Stored (SeToolResult (tid (ag_thread s)) (tool_call_id r) (tr_name r) (tr_output r)
          (tr_is_error r))) s)"

definition leave_plan :: "agent_thread \<Rightarrow> agent_thread" where
  "leave_plan t = (if is_plan (phase t) then enter_act_phase t else t)"

definition run_batch ::
    "'w agent_env \<Rightarrow> tool_call list \<Rightarrow> 'w agent_state \<Rightarrow> tool_result list outcome \<times> 'w agent_state" where
  "run_batch env calls s =
     (let s1 = on_thread leave_plan s;
          tcx = agent_tool_context env (ag_world s1);
          ws = workspace_dir env (ag_world s1);
          mutating = batch_mutates env calls;
          s2 = (if mutating then open_checkpoint env ws s1 else s1)
      in case call_tools (ae_batch env) tcx calls s2 of
           (Denied why, s3) \<Rightarrow> (Return (Inr (denied_error why)), s3)
         | (Results rs, s3) \<Rightarrow>
             (let s4 = fold record_result rs s3 in
              (Proceed rs, if mutating then close_checkpoint env ws s4 else s4)))"

section \<open>Verification\<close>

datatype verify_outcome = VPass | VFail string | VError string

definition run_verify_command :: "'w agent_env \<Rightarrow> string \<Rightarrow> string \<Rightarrow> 'w \<Rightarrow> verify_outcome \<times> 'w" where
  "run_verify_command env cmd dir w =
     (case ae_run_command env w cmd dir of
        (Exited out err ok, w') \<Rightarrow>
          (let txt = (if out \<noteq> [] then out else []);
               txt1 = (if err \<noteq> [] then (if txt \<noteq> [] then txt @ LF else txt) @ err else txt)
           in (if ok then VPass else VFail txt1, w'))
      | (NotStarted e, w') \<Rightarrow> (VError (''failed to start: '' @ e), w')
      | (TimedOut, w') \<Rightarrow> (VError ''timed out after 180s'', w'))"

definition truncate_verify_output :: "string \<Rightarrow> string" where
  "truncate_verify_output out =
     (if length out \<le> 6000 then out
      else concat (take 6000 (utf8_chars out)) @ ''...'' @ LF @ ''[output truncated after 6000 chars]'')"

definition verify_hint :: "string \<Rightarrow> string \<Rightarrow> message" where
  "verify_hint cmd excerpt =
     message_user (''[SYSTEM: Verification failed after your edits '' @ em_dash @ '' `'' @ cmd @
       ''` exited non-zero:'' @ LF @ ''```'' @ LF @ excerpt @ LF @ ''```'' @ LF @ LF @
       ''Fix the errors above, then retry. Do NOT repeat the same edit without fixing it.]'')"

definition edited :: "tool_result list \<Rightarrow> bool" where
  "edited rs = list_ex (\<lambda>r. \<not> tr_is_error r \<and> tr_name r \<in> set VERIFY_TRIGGER_TOOLS) rs"

definition maybe_run_verify ::
    "'w agent_env \<Rightarrow> tool_result list \<Rightarrow> 'w agent_state \<Rightarrow> bool \<times> 'w agent_state" where
  "maybe_run_verify env rs s =
     (case ae_verify_command env of
        None \<Rightarrow> (False, s)
      | Some cmd \<Rightarrow>
          (if str_trim cmd = [] then (False, s)
           else if \<not> edited rs then (False, s)
           else if ae_max_fix_cycles env \<le> fix_cycles s then (False, s)
           else
             (let s1 = logged (Verified cmd) s in
              case run_verify_command env cmd (workspace_dir env (ag_world s1)) (ag_world s1) of
                (VPass, w) \<Rightarrow> (False, s1\<lparr>ag_world := w, fix_cycles := 0\<rparr>)
              | (VFail out, w) \<Rightarrow>
                  (True, on_thread (add_message (verify_hint cmd (truncate_verify_output out)))
                           (s1\<lparr>ag_world := w, fix_cycles := fix_cycles s1 + 1\<rparr>))
              | (VError _, w) \<Rightarrow> (False, s1\<lparr>ag_world := w\<rparr>))))"

section \<open>The end of a turn\<close>

fun show_role :: "role \<Rightarrow> string" where
  "show_role RSystem = ''System''"
| "show_role RUser = ''User''"
| "show_role RAssistant = ''Assistant''"
| "show_role RTool = ''Tool''"

definition transcript_line :: "message \<Rightarrow> string" where
  "transcript_line m =
     (let txt = extract_text m; r = show_role (role m) in
      if txt = [] then [] else ''<'' @ r @ ''>'' @ LF @ txt @ LF @ ''</'' @ r @ ''>'')"

definition summary_request :: "'w agent_env \<Rightarrow> message list \<Rightarrow> completion_request" where
  "summary_request env ms =
     with_system
       (with_message (completion_request_new (effective_model env))
          (message_user (''Summarize the following conversation concisely, focusing on: '' @
             ''key decisions made, problems solved, code/files created or modified, '' @
             ''and any important context needed for continuing the work.'' @ LF @ LF @
             join LF (map transcript_line ms))))
       ''You are a conversation summarizer. Produce a concise 2-3 paragraph summary.''"

definition summarize_context ::
    "'w agent_env \<Rightarrow> 'w agent_state \<Rightarrow> (provider_error + string) \<times> 'w agent_state" where
  "summarize_context env s =
     (case await_completion env (summary_request env (messages (ctx (ag_thread s)))) s of
        (None, s1) \<Rightarrow> (Inl PCancelled, s1)
      | (Some (Inl e), s1) \<Rightarrow> (Inl e, s1)
      | (Some (Inr r), s1) \<Rightarrow>
          (Inr (case resp_choices r of [] \<Rightarrow> [] | c # _ \<Rightarrow> extract_text (ch_message c)),
           charge_usage env (effective_model env) (resp_usage r) s1))"

definition manage_context :: "'w agent_env \<Rightarrow> 'w agent_state \<Rightarrow> 'w agent_state" where
  "manage_context env s =
     (if needs_compaction (ctx (ag_thread s)) then
        (let s1 = on_thread (\<lambda>t. t\<lparr>ctx := compact (ctx t)\<rparr>) s in
         if should_summarize (ctx (ag_thread s1)) then
           (case summarize_context env s1 of
              (Inr summary, s2) \<Rightarrow> on_thread (\<lambda>t. t\<lparr>ctx := insert_summary summary (ctx t)\<rparr>) s2
            | (Inl _, s2) \<Rightarrow> s2)
         else s1)
      else s)"

definition end_turn :: "'w agent_env \<Rightarrow> 'w agent_state \<Rightarrow> unit outcome \<times> 'w agent_state" where
  "end_turn env s =
     (let (t, ok) = increment_turn (ag_thread s);
          s1 = s\<lparr>ag_thread := t\<rparr>
      in if \<not> ok then (Return (Inr (OutError ''Max turns reached'')), s1)
         else
           (let s2 = run_hooks env (HAfterTurn (turn_no t) (iterations t))
                       (logged (Handled (EvTurnEnd (turn_no t) (iterations t)))
                         (logged (Stored (SeTurnEnd (tid t) (turn_no t) (iterations t))) s1))
            in if is_doom_loop (ae_dbg env) (ag_thread s2)
               then (Return (Inr (OutError ''Doom loop detected'')), s2)
               else (Continue, manage_context env s2)))"

section \<open>The loop\<close>

definition after_batch ::
    "'w agent_env \<Rightarrow> tool_result list \<Rightarrow> 'w agent_state \<Rightarrow> unit outcome \<times> 'w agent_state" where
  "after_batch env rs s =
     (case maybe_run_verify env rs s of (True, s') \<Rightarrow> (Continue, s') | (False, s') \<Rightarrow> end_turn env s')"

definition agent_iteration :: "'w agent_env \<Rightarrow> 'w agent_state \<Rightarrow> unit outcome \<times> 'w agent_state" where
  "agent_iteration env s =
     and_then (begin_iteration env s) (\<lambda>_ s.
     and_then (ask_model env s) (\<lambda>r s.
     and_then (settle env r s) (\<lambda>c s.
     and_then (vet_calls c (accept_message c s)) (\<lambda>calls s.
     and_then (run_batch env calls s) (\<lambda>rs s.
     after_batch env rs s)))))"

section \<open>What a stage keeps\<close>

text \<open>The log an iteration adds, and what it leaves alone in the thread.\<close>

fun is_ask :: "agent_note \<Rightarrow> bool" where
  "is_ask (Asked _) = True"
| "is_ask (AskedStream _) = True"
| "is_ask _ = False"

definition asks :: "agent_note list \<Rightarrow> nat" where
  "asks l = length (filter is_ask l)"

lemma asks_simps [simp]:
  "asks [] = 0" "asks (l @ l') = asks l + asks l'"
  "asks (Asked r # l) = Suc (asks l)" "asks (AskedStream r # l) = Suc (asks l)"
  "asks (Stored e # l) = asks l" "asks (Hooked h # l) = asks l" "asks (Handled v # l) = asks l"
  "asks (BatchRan c t # l) = asks l" "asks (Verified cmd # l) = asks l"
  by (simp_all add: asks_def)

text \<open>Every tool that starts, in the batches of a log, starts once and cleared.\<close>

fun note_ok :: "'w batch_env \<Rightarrow> agent_note \<Rightarrow> bool" where
  "note_ok env (BatchRan calls tr) \<longleftrightarrow> started_ok env tr \<and> distinct (started tr) \<and> set (started tr) \<subseteq> {..<length calls}"
| "note_ok env _ \<longleftrightarrow> True"

fun is_verified :: "agent_note \<Rightarrow> bool" where
  "is_verified (Verified _) = True"
| "is_verified _ = False"

definition evolves :: "'w batch_env \<Rightarrow> nat \<Rightarrow> 'w agent_state \<Rightarrow> 'w agent_state \<Rightarrow> bool" where
  "evolves benv k s s' \<longleftrightarrow>
     iterations (ag_thread s') = iterations (ag_thread s) \<and>
     max_iterations (ag_thread s') = max_iterations (ag_thread s) \<and>
     tid (ag_thread s') = tid (ag_thread s) \<and>
     (\<exists>l. ag_log s' = ag_log s @ l \<and> asks l \<le> k \<and> list_all (note_ok benv) l)"

text \<open>All stages but the verification also keep the count of fix cycles.\<close>

definition extends :: "'w batch_env \<Rightarrow> nat \<Rightarrow> 'w agent_state \<Rightarrow> 'w agent_state \<Rightarrow> bool" where
  "extends benv k s s' \<longleftrightarrow>
     iterations (ag_thread s') = iterations (ag_thread s) \<and>
     max_iterations (ag_thread s') = max_iterations (ag_thread s) \<and>
     tid (ag_thread s') = tid (ag_thread s) \<and> fix_cycles s' = fix_cycles s \<and>
     (\<exists>l. ag_log s' = ag_log s @ l \<and> asks l \<le> k \<and> list_all (\<lambda>n. note_ok benv n \<and> \<not> is_verified n) l)"

lemma extends_refl: "extends benv k s s" and evolves_refl: "evolves benv k s s"
  by (simp_all add: extends_def evolves_def)

lemma extends_evolves: "extends benv k s s' \<Longrightarrow> evolves benv k s s'"
  by (auto simp: extends_def evolves_def list_all_iff)

lemma extends_trans:
  assumes "extends benv j a b" "extends benv k b c" "j + k \<le> n"
  shows "extends benv n a c"
proof -
  let ?P = "list_all (\<lambda>n. note_ok benv n \<and> \<not> is_verified n)"
  obtain l l' where l: "ag_log b = ag_log a @ l" "asks l \<le> j" "?P l"
    and l': "ag_log c = ag_log b @ l'" "asks l' \<le> k" "?P l'"
    using assms(1,2) by (auto simp: extends_def)
  then have "ag_log c = ag_log a @ (l @ l')" "asks (l @ l') \<le> n" "?P (l @ l')"
    using assms(3) by simp_all
  then show ?thesis using assms(1,2) unfolding extends_def by (metis (no_types, lifting))
qed

lemma evolves_trans:
  assumes "evolves benv j a b" "evolves benv k b c" "j + k \<le> n"
  shows "evolves benv n a c"
proof -
  obtain l l' where l: "ag_log b = ag_log a @ l" "asks l \<le> j" "list_all (note_ok benv) l"
    and l': "ag_log c = ag_log b @ l'" "asks l' \<le> k" "list_all (note_ok benv) l'"
    using assms(1,2) by (auto simp: evolves_def)
  then have "ag_log c = ag_log a @ (l @ l')" "asks (l @ l') \<le> n" "list_all (note_ok benv) (l @ l')"
    using assms(3) by simp_all
  then show ?thesis using assms(1,2) unfolding evolves_def by (metis (no_types, lifting))
qed

lemma extends_mono: "extends benv j a b \<Longrightarrow> j \<le> k \<Longrightarrow> extends benv k a b"
  using extends_trans [of benv j a b 0 b k] by (simp add: extends_refl)

lemma evolves_mono: "evolves benv j a b \<Longrightarrow> j \<le> k \<Longrightarrow> evolves benv k a b"
  using evolves_trans [of benv j a b 0 b k] by (simp add: evolves_refl)

lemma extends_logged:
  "extends benv k s s' \<Longrightarrow> \<not> is_ask n \<Longrightarrow> \<not> is_verified n \<Longrightarrow> note_ok benv n \<Longrightarrow> extends benv k s (logged n s')"
  by (cases n) (auto simp: extends_def)

lemma extends_world: "extends benv k s (s'\<lparr>ag_world := w\<rparr>) = extends benv k s s'"
  by (simp add: extends_def)

lemma extends_run_hooks: "extends benv k s s' \<Longrightarrow> extends benv k s (run_hooks env e s')"
  by (simp add: run_hooks_def extends_logged extends_world)

lemma extends_plugin: "extends benv k s (dispatch_plugin_event env e s') = extends benv k s s'"
  by (simp add: dispatch_plugin_event_def extends_world)

lemma extends_on_thread:
  assumes "extends benv k s s'" "\<And>t. iterations (f t) = iterations t"
    "\<And>t. max_iterations (f t) = max_iterations t" "\<And>t. tid (f t) = tid t"
  shows "extends benv k s (on_thread f s')"
  using assms by (simp add: extends_def)

lemma extends_set_status: "extends benv k s s' \<Longrightarrow> extends benv k s (set_status x s')"
  by (simp add: set_status_def extends_on_thread)

lemma extends_charge: "extends benv k s s' \<Longrightarrow> extends benv k s (charge_usage env m u s')"
  by (simp add: charge_usage_def extends_on_thread split: option.splits) (simp add: extends_def)

lemmas extends_intros = extends_refl extends_logged extends_run_hooks extends_on_thread
  extends_set_status extends_charge

lemmas extends_simps = extends_world extends_plugin

lemma await_completion_extends:
  "await_completion env req s = (r, s') \<Longrightarrow> extends benv 1 s s'"
  by (auto simp: await_completion_def extends_def Let_def split: if_splits option.splits prod.splits)

lemma complete_retry_extends:
  "complete_retry env req n s = (r, s') \<Longrightarrow> n < 3 \<Longrightarrow> extends benv (3 - n) s s'"
proof (induction env req n s arbitrary: r s' rule: complete_retry.induct)
  case (1 env req n s)
  obtain q s1 where q: "await_completion env req s = (q, s1)" by fastforce
  then have e: "extends benv 1 s s1" by (rule await_completion_extends)
  show ?case
  proof (cases "\<exists>e. q = Some (Inl e) \<and> n + 1 < 3 \<and> is_transient e")
    case True
    then obtain e where t: "q = Some (Inl e)" "n + 1 < 3" "is_transient e" by blast
    with 1(2) q have "complete_retry env req (n + 1) s1 = (r, s')"
      by (subst (asm) complete_retry.simps) simp
    then have "extends benv (3 - (n + 1)) s1 s'" by (intro 1(1)) (use q t in auto)
    then show ?thesis using extends_trans [OF e] t(2) by (simp add: extends_trans [OF e])
  next
    case False
    with 1(2) q have "s' = s1"
      by (subst (asm) complete_retry.simps) (auto split: option.splits sum.splits if_splits)
    with e 1(3) show ?thesis by (auto intro: extends_mono)
  qed
qed

lemma build_request_extends: "build_request env s = (req, s') \<Longrightarrow> extends benv k s s'"
  by (auto simp: build_request_def Let_def extends_world extends_refl split: prod.splits)

lemma ask_model_extends:
  assumes "ask_model env s = (x, s')"
  shows "extends benv 3 s s'"
proof -
  obtain req s1 where b: "build_request env s = (req, s1)" by fastforce
  let ?s3 = "run_hooks env (HBeforeModelRequest (effective_model env) (messages (ctx (ag_thread s1))))
      (dispatch_plugin_event env (BeforeModelRequest (effective_model env) 0) s1)"
  obtain a s4 where c: "complete_retry env (offer_tools env req) 0 ?s3 = (a, s4)" by fastforce
  have "extends benv 0 s ?s3"
    using build_request_extends [OF b] by (simp add: extends_run_hooks extends_plugin)
  moreover have "extends benv 3 ?s3 s4" using complete_retry_extends [OF c] by simp
  ultimately have "extends benv 3 s s4" by (rule extends_trans) simp
  with assms b c show ?thesis
    by (auto simp: ask_model_def Let_def intro!: extends_intros split: model_answer.splits)
qed

lemma settle_extends: "settle env r s = (x, s') \<Longrightarrow> extends benv 0 s s'"
  by (auto simp: settle_def Let_def extends_simps intro!: extends_intros
      split: prod.splits if_splits list.splits)

lemma accept_message_extends: "extends benv 0 s (accept_message c s)"
  by (simp add: accept_message_def Let_def note_assistant_text_def extends_intros)

lemma vet_calls_extends: "vet_calls c s = (x, s') \<Longrightarrow> extends benv 0 s s'"
  by (auto simp: vet_calls_def Let_def intro!: extends_intros split: if_splits sum.splits)

lemma call_tools_extends:
  assumes "call_tools benv tcx calls s = (x, s')"
  shows "extends benv 0 s s'"
proof -
  obtain out b where e: "execute_tools_concurrent benv tcx calls (ag_thread s) (ag_world s) = (out, b)"
    by fastforce
  note execute_frame [OF e] execute_started [OF e]
  with e assms show ?thesis by (auto simp: call_tools_def extends_def thread_frame_def)
qed

lemma record_results_extends: "extends benv 0 s s' \<Longrightarrow> extends benv 0 s (fold record_result rs s')"
  by (induction rs arbitrary: s') (simp_all add: record_result_def extends_intros)

lemma run_batch_extends:
  assumes "run_batch env calls s = (x, s')"
  shows "extends (ae_batch env) 0 s s'"
proof -
  define s2 where "s2 = (let s1 = on_thread leave_plan s in
     if batch_mutates env calls then open_checkpoint env (workspace_dir env (ag_world s1)) s1 else s1)"
  have s2: "extends (ae_batch env) 0 s s2"
    by (simp add: s2_def Let_def open_checkpoint_def extends_simps extends_intros leave_plan_def)
  obtain out s3 where c: "call_tools (ae_batch env) (agent_tool_context env (ag_world s)) calls s2 = (out, s3)"
    by fastforce
  have "extends (ae_batch env) 0 s s3" using s2 call_tools_extends [OF c] by (rule extends_trans) simp
  with assms c show ?thesis
    by (auto simp: run_batch_def Let_def s2_def close_checkpoint_def extends_simps record_results_extends
        split: batch_outcome.splits)
qed

lemma maybe_run_verify_evolves: "maybe_run_verify env rs s = (b, s') \<Longrightarrow> evolves benv 0 s s'"
  by (auto simp: maybe_run_verify_def Let_def evolves_def split: option.splits if_splits prod.splits verify_outcome.splits)

lemma summarize_context_extends:
  assumes "summarize_context env s = (x, s')"
  shows "extends benv 1 s s'"
proof -
  obtain q s1 where q: "await_completion env (summary_request env (messages (ctx (ag_thread s)))) s = (q, s1)"
    by fastforce
  note await_completion_extends [OF q, of benv]
  with assms q show ?thesis
    by (auto simp: summarize_context_def intro!: extends_intros split: option.splits sum.splits)
qed

lemma manage_context_extends: "extends benv 1 s (manage_context env s)"
proof -
  let ?s1 = "on_thread (\<lambda>t. t\<lparr>ctx := compact (ctx t)\<rparr>) s"
  obtain q s2 where q: "summarize_context env ?s1 = (q, s2)" by fastforce
  have s1: "extends benv 0 s ?s1" by (simp add: extends_intros)
  then have "extends benv 1 s s2" using summarize_context_extends [OF q] by (rule extends_trans) simp
  with s1 q show ?thesis
    by (auto simp: manage_context_def Let_def intro!: extends_intros split: sum.splits)
qed

lemma extends_turn: "extends benv k s s' \<Longrightarrow>
    extends benv k s (s'\<lparr>ag_thread := (ag_thread s')\<lparr>turn_no := n\<rparr>\<rparr>)"
  by (simp add: extends_def)

lemma end_turn_extends:
  assumes "end_turn env s = (x, s')"
  shows "extends benv 1 s s'"
proof -
  obtain t ok where t: "increment_turn (ag_thread s) = (t, ok)" by fastforce
  then have te: "t = (ag_thread s)\<lparr>turn_no := turn_no (ag_thread s) + 1\<rparr>"
    by (simp add: increment_turn_def Let_def)
  let ?s2 = "run_hooks env (HAfterTurn (turn_no t) (iterations t))
       (logged (Handled (EvTurnEnd (turn_no t) (iterations t)))
         (logged (Stored (SeTurnEnd (tid t) (turn_no t) (iterations t))) (s\<lparr>ag_thread := t\<rparr>)))"
  have e: "extends benv 0 s (s\<lparr>ag_thread := t\<rparr>)" by (simp add: te extends_turn extends_refl)
  then have s2: "extends benv 0 s ?s2" by (simp add: extends_intros)
  then have "extends benv 1 s (manage_context env ?s2)" using manage_context_extends by (rule extends_trans) simp
  with assms t e s2 show ?thesis
    by (auto simp: end_turn_def Let_def intro: extends_mono split: if_splits)
qed

lemma after_batch_evolves:
  assumes "after_batch env rs s = (x, s')"
  shows "evolves benv 1 s s'"
proof -
  obtain b s1 where v: "maybe_run_verify env rs s = (b, s1)" by fastforce
  have e: "evolves benv 0 s s1" using v by (rule maybe_run_verify_evolves)
  show ?thesis
  proof (cases b)
    case True
    with assms v e show ?thesis by (auto simp: after_batch_def intro: evolves_mono)
  next
    case False
    with assms v have "end_turn env s1 = (x, s')" by (simp add: after_batch_def)
    then show ?thesis using extends_evolves [OF end_turn_extends] evolves_trans [OF e] by fastforce
  qed
qed

lemma and_then_evolves:
  assumes "and_then p f = (y, s2)" and "\<And>x s1. p = (x, s1) \<Longrightarrow> evolves benv j s s1"
    and "\<And>a s1. f a s1 = (y, s2) \<Longrightarrow> evolves benv k s1 s2" and "j + k \<le> n"
  shows "evolves benv n s s2"
proof -
  obtain x s1 where p: "p = (x, s1)" by fastforce
  then have e: "evolves benv j s s1" by (rule assms(2))
  show ?thesis
  proof (cases x)
    case (Proceed a)
    with assms(1) p have "evolves benv k s1 s2" by (intro assms(3)) simp
    then show ?thesis using evolves_trans [OF e] assms(4) by blast
  qed (use assms(1,4) p e in \<open>auto intro: evolves_mono\<close>)
qed

text \<open>The part of an iteration after its counter has been raised.\<close>

definition iteration_body :: "'w agent_env \<Rightarrow> 'w agent_state \<Rightarrow> unit outcome \<times> 'w agent_state" where
  "iteration_body env s =
     and_then (ask_model env s) (\<lambda>r s.
     and_then (settle env r s) (\<lambda>c s.
     and_then (vet_calls c (accept_message c s)) (\<lambda>calls s.
     and_then (run_batch env calls s) (\<lambda>rs s.
     after_batch env rs s))))"

lemma iteration_body_evolves:
  assumes "iteration_body env s = (x, s')"
  shows "evolves (ae_batch env) 4 s s'"
  using assms unfolding iteration_body_def
proof (rule and_then_evolves [where j = 3 and k = 1])
  fix r s1
  assume "and_then (settle env r s1) (\<lambda>c s. and_then (vet_calls c (accept_message c s)) (\<lambda>calls s.
     and_then (run_batch env calls s) (\<lambda>rs s. after_batch env rs s))) = (x, s')"
  then show "evolves (ae_batch env) 1 s1 s'"
  proof (rule and_then_evolves [where j = 0 and k = 1])
    fix c s2
    assume "and_then (vet_calls c (accept_message c s2)) (\<lambda>calls s.
       and_then (run_batch env calls s) (\<lambda>rs s. after_batch env rs s)) = (x, s')"
    then show "evolves (ae_batch env) 1 s2 s'"
    proof (rule and_then_evolves [where j = 0 and k = 1])
      fix calls s3
      assume "and_then (run_batch env calls s3) (\<lambda>rs s. after_batch env rs s) = (x, s')"
      then show "evolves (ae_batch env) 1 s3 s'"
        by (rule and_then_evolves [where j = 0 and k = 1])
          (simp_all add: extends_evolves [OF run_batch_extends] after_batch_evolves del: One_nat_def)
    qed (auto intro: extends_evolves [OF extends_trans [OF accept_message_extends vet_calls_extends]])
  qed (auto intro: extends_evolves [OF settle_extends])
qed (auto intro: extends_evolves [OF ask_model_extends])

lemma begin_iteration_cases:
  obtains (limit) "begin_iteration env s =
      (Return (Inr (OutError ''Max iterations reached'')), s\<lparr>ag_thread := fst (increment_iteration (ag_thread s))\<rparr>)"
      "\<not> snd (increment_iteration (ag_thread s))"
  | (cancelled) "begin_iteration env s =
      (Return (Inr (OutError ''Agent cancelled'')),
       set_status Cancelled (run_hooks env (HBeforeTurn (iterations (ag_thread s) + 1))
         (s\<lparr>ag_thread := fst (increment_iteration (ag_thread s))\<rparr>)))"
      "snd (increment_iteration (ag_thread s))"
  | (going) "begin_iteration env s =
      (Proceed (), run_hooks env (HBeforeTurn (iterations (ag_thread s) + 1))
         (s\<lparr>ag_thread := fst (increment_iteration (ag_thread s))\<rparr>))"
      "snd (increment_iteration (ag_thread s))"
proof (cases "snd (increment_iteration (ag_thread s))")
  case False
  then show thesis by (intro limit) (simp_all add: begin_iteration_def increment_iteration_def Let_def)
next
  case True
  let ?s = "run_hooks env (HBeforeTurn (iterations (ag_thread s) + 1))
         (s\<lparr>ag_thread := fst (increment_iteration (ag_thread s))\<rparr>)"
  show thesis
  proof (cases "be_cancelled (ae_batch env) (ag_world ?s)")
    case True
    with \<open>snd (increment_iteration (ag_thread s))\<close> show thesis
      by (intro cancelled) (simp_all add: begin_iteration_def increment_iteration_def Let_def)
  next
    case False
    with \<open>snd (increment_iteration (ag_thread s))\<close> show thesis
      by (intro going) (simp_all add: begin_iteration_def increment_iteration_def Let_def)
  qed
qed

lemma agent_iteration_eq: "agent_iteration env s = and_then (begin_iteration env s) (\<lambda>_. iteration_body env)"
  by (simp add: agent_iteration_def iteration_body_def [abs_def])

lemma evolves_iter_left: "evolves benv k s s' \<Longrightarrow> iter_left (ag_thread s') = iter_left (ag_thread s)"
  by (simp add: evolves_def iter_left_def)

lemma agent_iteration_left:
  assumes "agent_iteration env s = (x, s')" "\<not> returns x"
  shows "iter_left (ag_thread s') < iter_left (ag_thread s)"
proof (cases s rule: begin_iteration_cases [where env = env])
  case going
  let ?s1 = "run_hooks env (HBeforeTurn (iterations (ag_thread s) + 1))
         (s\<lparr>ag_thread := fst (increment_iteration (ag_thread s))\<rparr>)"
  from going assms have "iteration_body env ?s1 = (x, s')" by (simp add: agent_iteration_eq)
  from evolves_iter_left [OF iteration_body_evolves [OF this]]
  have "iter_left (ag_thread s') = iter_left (fst (increment_iteration (ag_thread s)))" by simp
  then show ?thesis using iter_left_tick [OF going(2)] by simp
qed (use assms in \<open>auto simp: agent_iteration_eq\<close>)

function agent_loop :: "'w agent_env \<Rightarrow> 'w agent_state \<Rightarrow> agent_result \<times> 'w agent_state" where
  "agent_loop env s =
     (case agent_iteration env s of
        (Return r, s') \<Rightarrow> (r, s')
      | (Continue, s') \<Rightarrow> agent_loop env s'
      | (Proceed _, s') \<Rightarrow> agent_loop env s')"
  by pat_completeness auto
termination
  by (relation "measure (\<lambda>(_, s). iter_left (ag_thread s))") (auto dest!: agent_iteration_left [OF sym])

declare agent_loop.simps [simp del]

interpretation run: counted_loop "agent_iteration env" "agent_loop env" "\<lambda>s. iter_left (ag_thread s)" for env
proof
  fix s
  show "agent_loop env s =
      (case agent_iteration env s of (Return r, s') \<Rightarrow> (r, s') | (_, s') \<Rightarrow> agent_loop env s')"
    by (subst agent_loop.simps) (auto split: prod.splits outcome.splits)
qed (rule agent_iteration_left)

section \<open>Running an agent\<close>

text \<open>The message window before the first request: the system message is added once, after the
  user's message.\<close>

definition ensure_system :: "'w agent_env \<Rightarrow> string option \<Rightarrow> agent_thread \<Rightarrow> agent_thread" where
  "ensure_system env system t =
     (if list_ex (\<lambda>m. role m = RSystem) (messages (ctx t)) then t
      else add_message (message_system (case system of Some x \<Rightarrow> x | None \<Rightarrow> ae_prompt env)) t)"

definition run_start :: "'w agent_env \<Rightarrow> string \<Rightarrow> string option \<Rightarrow> 'w agent_state \<Rightarrow> 'w agent_state" where
  "run_start env input system s =
     (let sid = tid (ag_thread s);
          s1 = dispatch_plugin_event env (SessionCreated sid) s;
          s2 = run_hooks env (HSessionStarted sid) s1;
          s3 = logged (Stored (SeUserMessage sid input)) s2;
          s4 = on_thread (\<lambda>t. (add_message (message_user input) (t\<lparr>status := Running\<rparr>))) s3;
          s5 = on_thread (\<lambda>t. t\<lparr>conversation := add_user_message input (conversation t)\<rparr>) s4
      in (on_thread (ensure_system env system) s5)\<lparr>fix_cycles := 0\<rparr>)"

definition run_with_approval_inner ::
    "'w agent_env \<Rightarrow> string \<Rightarrow> string option \<Rightarrow> 'w agent_state \<Rightarrow> agent_result \<times> 'w agent_state" where
  "run_with_approval_inner env input system s = agent_loop env (run_start env input system s)"

definition upload_session :: "'w agent_env \<Rightarrow> 'w agent_state \<Rightarrow> 'w agent_state" where
  "upload_session env s =
     (let t = ag_thread s;
          payload = \<lparr>sp_id = tid t, sp_turns = turn_no t, sp_iterations = iterations t,
                     sp_total_tokens = total_prompt_tokens s + total_completion_tokens s,
                     sp_total_cost_usd = total_spent (budget t), sp_conversation = conversation t\<rparr>
      in s\<lparr>ag_world := snd (ae_upload env (ag_world s) payload)\<rparr>)"

definition with_gate :: "'w gate \<Rightarrow> 'w policy option \<Rightarrow> 'w agent_env \<Rightarrow> 'w agent_env" where
  "with_gate g p env = env\<lparr>ae_batch := (ae_batch env)\<lparr>be_gate := g, be_policy := p\<rparr>\<rparr>"

definition run_with_approval_with_system ::
    "'w agent_env \<Rightarrow> string \<Rightarrow> string option \<Rightarrow> 'w gate \<Rightarrow> 'w policy option \<Rightarrow> 'w agent_state
       \<Rightarrow> agent_result \<times> 'w agent_state" where
  "run_with_approval_with_system env0 input system g p s =
     (let env = with_gate g p env0;
          (r, s1) = run_with_approval_inner env input system s;
          sid = tid (ag_thread s1);
          s2 = dispatch_plugin_event env (SessionEnded sid) s1;
          s3 = run_hooks env (HSessionEnded sid
                 (case r of Inr out \<Rightarrow> text_or_empty out | Inl _ \<Rightarrow> [])) s2
      in (r, case r of Inr _ \<Rightarrow> upload_session env s3 | Inl _ \<Rightarrow> s3))"

definition run_with_approval ::
    "'w agent_env \<Rightarrow> string \<Rightarrow> 'w gate \<Rightarrow> 'w policy option \<Rightarrow> 'w agent_state \<Rightarrow> agent_result \<times> 'w agent_state" where
  "run_with_approval env input g p s = run_with_approval_with_system env input None g p s"

definition run_agent :: "'w agent_env \<Rightarrow> string \<Rightarrow> 'w agent_state \<Rightarrow> agent_result \<times> 'w agent_state" where
  "run_agent env input s = run_with_approval env input auto_approval_gate None s"

definition run_with_system ::
    "'w agent_env \<Rightarrow> string \<Rightarrow> string option \<Rightarrow> 'w agent_state \<Rightarrow> agent_result \<times> 'w agent_state" where
  "run_with_system env input system s =
     run_with_approval_inner (with_gate auto_approval_gate None env) input system s"

section \<open>Invariants of a run\<close>

lemma iteration_cases [consumes 1, case_names limit cancelled body]:
  assumes "agent_iteration env s = (x, s')"
  obtains (limit) "x = Return (Inr (OutError ''Max iterations reached''))"
      "s' = s\<lparr>ag_thread := fst (increment_iteration (ag_thread s))\<rparr>" "\<not> snd (increment_iteration (ag_thread s))"
  | (cancelled) "x = Return (Inr (OutError ''Agent cancelled''))"
      "s' = set_status Cancelled (run_hooks env (HBeforeTurn (iterations (ag_thread s) + 1))
         (s\<lparr>ag_thread := fst (increment_iteration (ag_thread s))\<rparr>))" "snd (increment_iteration (ag_thread s))"
  | (body) s1 where "s1 = run_hooks env (HBeforeTurn (iterations (ag_thread s) + 1))
         (s\<lparr>ag_thread := fst (increment_iteration (ag_thread s))\<rparr>)"
      "iteration_body env s1 = (x, s')" "snd (increment_iteration (ag_thread s))"
  using assms by (cases s rule: begin_iteration_cases [where env = env]) (auto simp: agent_iteration_eq)

lemma agent_iteration_log:
  assumes "agent_iteration env s = (x, s')"
  shows "\<exists>l. ag_log s' = ag_log s @ l \<and> asks l \<le> 4 \<and> list_all (note_ok (ae_batch env)) l
    \<and> (iter_left (ag_thread s) = 0 \<longrightarrow> l = [])"
  using assms
proof (cases rule: iteration_cases)
  case (body s1)
  from iteration_body_evolves [OF body(2)]
  obtain l where l: "ag_log s' = ag_log s1 @ l" "asks l \<le> 4" "list_all (note_ok (ae_batch env)) l"
    by (auto simp: evolves_def)
  then have "ag_log s' = ag_log s @ (Hooked (HBeforeTurn (iterations (ag_thread s) + 1)) # l)"
    using body(1) by simp
  moreover have "iter_left (ag_thread s) \<noteq> 0" using iter_left_tick [OF body(3)] by simp
  ultimately show ?thesis using l
    by (intro exI [of _ "Hooked (HBeforeTurn (iterations (ag_thread s) + 1)) # l"]) simp
next
  case cancelled
  then show ?thesis using iter_left_tick [OF cancelled(3)]
    by (intro exI [of _ "[Hooked (HBeforeTurn (iterations (ag_thread s) + 1))]"]) simp
qed simp

lemma agent_loop_asks:
  "asks (ag_log (snd (agent_loop env s))) \<le> asks (ag_log s) + 4 * iter_left (ag_thread s)"
proof (rule run.loop_bound)
  fix s x s'
  assume "agent_iteration env s = (x, s')"
  from agent_iteration_log [OF this]
  show "asks (ag_log s') \<le> asks (ag_log s) + 4" and "iter_left (ag_thread s) = 0 \<Longrightarrow> asks (ag_log s') \<le> asks (ag_log s)"
    by auto
qed

lemma agent_loop_notes:
  assumes "list_all (note_ok (ae_batch env)) (ag_log s)"
  shows "list_all (note_ok (ae_batch env)) (ag_log (snd (agent_loop env s)))"
  using assms by (rule run.loop_invariant) (auto dest: agent_iteration_log)

lemma run_start_sel [simp]:
  "iterations (ag_thread (run_start env i sys s)) = iterations (ag_thread s)"
  "max_iterations (ag_thread (run_start env i sys s)) = max_iterations (ag_thread s)"
  "ag_log (run_start env i sys s) =
     ag_log s @ [Hooked (HSessionStarted (tid (ag_thread s))), Stored (SeUserMessage (tid (ag_thread s)) i)]"
  "fix_cycles (run_start env i sys s) = 0"
  by (simp_all add: run_start_def Let_def ensure_system_def)

section \<open>An example agent\<close>

text \<open>An agent with one tool \<open>t\<close> whose model always gives the same answer.\<close>

definition ex_response :: "message \<Rightarrow> string option \<Rightarrow> completion_response" where
  "ex_response m fin = \<lparr>resp_id = ''r'', resp_model = ''m'',
     resp_choices = [\<lparr>ch_index = 0, ch_message = m, ch_finish_reason = fin\<rparr>], resp_usage = None\<rparr>"

definition ex_agent :: "unit gate \<Rightarrow> unit plugin_registry \<Rightarrow> completion_response \<Rightarrow> unit agent_env" where
  "ex_agent g pr r =
     \<lparr>ae_batch = ex_env g pr,
      ae_complete = (\<lambda>w req. (Inr (r), w)),
      ae_complete_stream = (\<lambda>w req. (Inl (StreamError ''none''), w)),
      ae_cut = (\<lambda>w. None), ae_compress_conversation = (\<lambda>w ms m. (ms, w)), ae_hooks = [],
      ae_upload = null_upload, ae_run_command = (\<lambda>w c d. (TimedOut, w)),
      ae_manager = (\<lambda>w. snapshot_manager_new), ae_set_manager = (\<lambda>m w. w), ae_cwd = (\<lambda>w. Some ''/w''),
      ae_tool_defs = [], ae_keys = map fst model_pricing, ae_dbg = (\<lambda>j. []), ae_parse = (\<lambda>x. None),
      ae_prompt = ''You are Sentinel.'', ae_provider_name = ''p'', ae_model = [], ae_default_model = ''m'', ae_max_tokens = None,
      ae_verify_command = None, ae_max_fix_cycles = 3, ae_paths = []\<rparr>"

definition ex_state :: "agent_thread \<Rightarrow> unit agent_state" where
  "ex_state t = \<lparr>ag_world = (), ag_thread = t, ag_log = [], total_prompt_tokens = 0,
     total_completion_tokens = 0, fix_cycles = 0\<rparr>"

lemmas stage_defs = begin_iteration_def ask_model_def settle_def accept_message_def vet_calls_def run_batch_def
  after_batch_def end_turn_def manage_context_def maybe_run_verify_def build_request_def offer_tools_def
  await_completion_def hook_view_def charge_usage_def call_tools_def record_result_def result_message_def
  leave_plan_def batch_mutates_def note_assistant_text_def run_hooks_def hook_dispatch_def
  dispatch_plugin_event_def logged_def on_thread_def set_status_def agent_tool_context_def workspace_dir_def
  increment_iteration_def increment_turn_def effective_model_def

lemma ex_agent_sel [simp]:
  "ae_batch (ex_agent g pr r) = ex_env g pr" "ae_complete (ex_agent g pr r) w req = (Inr (r), w)"
  "ae_complete_stream (ex_agent g pr r) w req = (Inl (StreamError ''none''), w)"
  "ae_cut (ex_agent g pr r) w = None" "ae_compress_conversation (ex_agent g pr r) w ms m = (ms, w)"
  "ae_hooks (ex_agent g pr r) = []" "ae_upload (ex_agent g pr r) = null_upload"
  "ae_tool_defs (ex_agent g pr r) = []" "ae_dbg (ex_agent g pr r) j = []" "ae_prompt (ex_agent g pr r) = ''You are Sentinel.''"
  "ae_provider_name (ex_agent g pr r) = ''p''" "ae_model (ex_agent g pr r) = []" "ae_default_model (ex_agent g pr r) = ''m''" "ae_max_tokens (ex_agent g pr r) = None"
  "ae_verify_command (ex_agent g pr r) = None" "ae_paths (ex_agent g pr r) = []" "ae_cwd (ex_agent g pr r) w = Some ''/w''"
  by (simp_all add: ex_agent_def)

lemma ex_agent_model [simp]: "effective_model (ex_agent g pr r) = ''m''"
  by (simp add: effective_model_def)

lemma ex_agent_gate [simp]: " with_gate g None (ex_agent g' pr r) = ex_agent g pr r"
  by (simp add: with_gate_def ex_agent_def ex_env_def)

lemma ex_env_sel [simp]: "be_cancelled (ex_env g pr) w = False" "be_plugins (ex_env g pr) = pr"
  by (simp_all add: ex_env_def)

abbreviation exa :: "message \<Rightarrow> string option \<Rightarrow> unit agent_env" where
  "exa m fin \<equiv> ex_agent auto_approval_gate registry_new (ex_response m fin)"

definition ex_call :: message where
  "ex_call = message_new RAssistant [ToolCall ''1'' ''t'' JNull]"

lemmas state_defs = run_hooks_def hook_dispatch_def dispatch_plugin_event_def logged_def on_thread_def set_status_def

section \<open>Properties\<close>

text \<open>
  C2. Every run ends: the loop returns within as many iterations as the thread has left (one
  more for the refusing tick), whatever the model, the tools and the plugins do, also when the
  counter starts near the top of its 32 bits; and it asks the model at most four times per
  iteration (three attempts and one summary).
\<close>

theorem agent_run_terminates:
  "fuel_loop (Suc (unat (max_iterations (ag_thread s)) - unat (iterations (ag_thread s) + 1)))
      (agent_iteration env) (run_start env input system s)
    = Some (run_with_approval_inner env input system s)
   \<and> asks (ag_log (snd (run_with_approval_inner env input system s)))
     \<le> asks (ag_log s) + 4 * (unat (max_iterations (ag_thread s)) - unat (iterations (ag_thread s) + 1))"
proof
  show "fuel_loop (Suc (unat (max_iterations (ag_thread s)) - unat (iterations (ag_thread s) + 1)))
      (agent_iteration env) (run_start env input system s)
    = Some (run_with_approval_inner env input system s)"
    unfolding run_with_approval_inner_def by (rule run.loop_fuel) (simp add: iter_left_def)
  show "asks (ag_log (snd (run_with_approval_inner env input system s)))
     \<le> asks (ag_log s) + 4 * (unat (max_iterations (ag_thread s)) - unat (iterations (ag_thread s) + 1))"
    using agent_loop_asks [of env "run_start env input system s"]
    by (simp add: run_with_approval_inner_def iter_left_def)
qed

lemma complete_retry_answer:
  "await_completion env req s = (Some (Inr r), s') \<Longrightarrow> complete_retry env req n s = (Answer r, s')"
  by (subst complete_retry.simps) simp

lemma await_completion_log:
  assumes "await_completion env req s = (r, s')"
  shows "ag_thread s' = ag_thread s" "fix_cycles s' = fix_cycles s"
    "r \<noteq> None \<Longrightarrow> ag_log s' = ag_log s @ [Asked req]"
    "r = None \<Longrightarrow> ag_log s' = ag_log s \<or> ag_log s' = ag_log s @ [Asked req]"
  using assms by (auto simp: await_completion_def Let_def split: if_splits option.splits prod.splits)

lemma complete_retry_log:
  assumes "complete_retry env req n s = (a, s')" "n < 3"
  shows "ag_thread s' = ag_thread s \<and> (\<exists>k \<le> 3 - n. ag_log s' = ag_log s @ replicate k (Asked req)
     \<and> (\<forall>m e. a = CallFailed m e \<longrightarrow> m = n + k \<and> 0 < k \<and> (m < 3 \<longrightarrow> \<not> is_transient e)))"
  using assms
proof (induction env req n s arbitrary: a s' rule: complete_retry.induct)
  case (1 env req n s)
  obtain q s1 where q: "await_completion env req s = (q, s1)" by fastforce
  note l = await_completion_log [OF q]
  show ?case
  proof (cases "\<exists>e. q = Some (Inl e) \<and> n + 1 < 3 \<and> is_transient e")
    case True
    then obtain e where t: "q = Some (Inl e)" "n + 1 < 3" "is_transient e" by blast
    with 1(2) q have "complete_retry env req (n + 1) s1 = (a, s')"
      by (subst (asm) complete_retry.simps) simp
    then have "ag_thread s' = ag_thread s1 \<and> (\<exists>k \<le> 3 - (n + 1). ag_log s' = ag_log s1 @ replicate k (Asked req)
       \<and> (\<forall>m e. a = CallFailed m e \<longrightarrow> m = (n + 1) + k \<and> 0 < k \<and> (m < 3 \<longrightarrow> \<not> is_transient e)))"
      by (intro 1(1)) (use q t in auto)
    then obtain k where k: "ag_thread s' = ag_thread s1" "k \<le> 3 - (n + 1)"
      "ag_log s' = ag_log s1 @ replicate k (Asked req)"
      "\<forall>m e. a = CallFailed m e \<longrightarrow> m = (n + 1) + k \<and> 0 < k \<and> (m < 3 \<longrightarrow> \<not> is_transient e)" by blast
    then show ?thesis using t l by (intro conjI exI [of _ "Suc k"]) auto
  next
    case False
    show ?thesis
    proof (cases q)
      case None
      with 1(2) q have "a = CallCancelled" "s' = s1" by (subst (asm) complete_retry.simps; simp)+
      moreover obtain k where "k \<le> 1" "ag_log s1 = ag_log s @ replicate k (Asked req)"
        using l(4) [OF None] by (metis One_nat_def append_Nil2 le_numeral_extra(3,4) replicate_0 replicate_Suc zero_le_one)
      ultimately show ?thesis using l(1) 1(3) by (intro conjI exI [of _ k]) auto
    next
      case (Some x)
      with False 1(2) q have "s' = s1" "\<forall>m e. a = CallFailed m e \<longrightarrow> m = n + 1 \<and> (m < 3 \<longrightarrow> \<not> is_transient e)"
        by (subst (asm) complete_retry.simps; auto split: sum.splits if_splits)+
      then show ?thesis using l(1) l(3) Some 1(3) by (intro conjI exI [of _ 1]) auto
    qed
  qed
qed

text \<open>
  C6. A model call is retried at most twice, and only after transient errors: a call reported as
  failed was attempted between one and three times, with the same request each time, and fewer
  than three attempts mean that the last error was not transient; the thread is untouched.
\<close>

theorem retry_attempts:
  assumes "complete_retry env req 0 s = (CallFailed n e, s')"
  shows "ag_log s' = ag_log s @ replicate n (Asked req) \<and> 1 \<le> n \<and> n \<le> 3
    \<and> (n < 3 \<longrightarrow> \<not> is_transient e) \<and> ag_thread s' = ag_thread s"
  using complete_retry_log [OF assms] by auto

theorem retry_attempts_witness:
  "\<exists>s'. complete_retry ((ex_agent auto_approval_gate registry_new (ex_response ex_call None))
       \<lparr>ae_complete := \<lambda>w req. (Inl (Timeout 30), w)\<rparr>) (completion_request_new ''m'') 0
       (ex_state (thread_new ''x'' 5 2 True)) = (CallFailed 3 (Timeout 30), s')
     \<and> length (ag_log s') = 3"
proof -
  let ?e = "(ex_agent auto_approval_gate registry_new (ex_response ex_call None))
       \<lparr>ae_complete := \<lambda>w req. (Inl (Timeout 30), w)\<rparr>"
  have "\<exists>s'. complete_retry ?e (completion_request_new ''m'') 0
       (ex_state (thread_new ''x'' 5 2 True)) = (CallFailed 3 (Timeout 30), s')"
    by (subst complete_retry.simps, simp add: await_completion_def Let_def,
        subst complete_retry.simps, simp add: await_completion_def Let_def,
        subst complete_retry.simps, simp add: await_completion_def Let_def)
  then obtain s' where e: "complete_retry ?e (completion_request_new ''m'') 0
       (ex_state (thread_new ''x'' 5 2 True)) = (CallFailed 3 (Timeout 30), s')" ..
  from retry_attempts [OF e] e show ?thesis by (auto simp: ex_state_def)
qed

section \<open>Tools in a run\<close>

lemma upload_session_log [simp]: "ag_log (upload_session env s) = ag_log s"
  by (simp add: upload_session_def Let_def)

lemma run_log:
  assumes "run_with_approval_with_system env input system g p s = (r, s')"
  shows "\<exists>e. ag_log s' =
    ag_log (snd (run_with_approval_inner (with_gate g p env) input system s)) @ [Hooked e]"
  using assms by (auto simp: run_with_approval_with_system_def Let_def split: prod.splits sum.splits)

text \<open>
  C1. No tool runs unauthorised, in a whole run of the agent: whatever the model answers, however
  many turns there are and however the batches interleave, each execution in each batch of the
  run comes after a plugin check that was no veto, one that was no denial, a policy that did not
  deny (when the run has one) and an approval by the gate the run was given, all for that very
  call of that batch.
\<close>

theorem run_tools_authorised:
  assumes "ag_log s = []" and "run_with_approval_with_system env input system g p s = (r, s')"
    and "BatchRan calls (pre @ Started i name args # post) \<in> set (ag_log s')"
  shows "i < length calls \<and> GateSaid i Approved \<in> set pre
    \<and> (\<exists>a. VetoCheck i a \<in> set pre \<and> (\<nexists>why. a = PVeto why))
    \<and> (\<exists>a. DenyCheck i a \<in> set pre \<and> (\<nexists>why. a = PDenyRun why))
    \<and> (p = None \<or> PolicySaid i PAllow \<in> set pre \<or> PolicySaid i PromptUser \<in> set pre)"
proof -
  let ?env = "with_gate g p env"
  have "list_all (note_ok (ae_batch ?env)) (ag_log (snd (run_with_approval_inner ?env input system s)))"
    unfolding run_with_approval_inner_def by (rule agent_loop_notes) (simp add: assms(1))
  then have "list_all (note_ok (ae_batch ?env)) (ag_log s')" using run_log [OF assms(2)] by auto
  then have "note_ok (ae_batch ?env) (BatchRan calls (pre @ Started i name args # post))"
    unfolding list_all_iff by (rule bspec) (rule assms(3))
  then have "authorised (ae_batch ?env) i pre" "i < length calls" by (auto simp: started_ok_def)
  then show ?thesis by (simp add: authorised_def cleared_def with_gate_def)
qed

lemma ex_iteration:
  assumes "length input < 100"
  shows "\<exists>s1. agent_iteration (exa ex_call None)
      (run_start (exa ex_call None) input None (ex_state ((thread_new ''x'' 5 2 True)\<lparr>parent_thread_id := parent\<rparr>))) = (Continue, s1)
   \<and> BatchRan [(''1'', ''t'', JNull)]
       ([Emitted (EvToolCall ''t'' JNull), VetoCheck 0 PContinue, DenyCheck 0 PContinue, GateSaid 0 Approved,
         Emitted (Permission ''t'' PermAllow None)] @ Started 0 ''t'' JNull
         # [Emitted (EvToolResult ''t'' ''ok'' False False)]) \<in> set (ag_log s1)"
  using assms div_le_dividend [of "length input" 4]
  apply (simp add: run_start_def ex_state_def thread_new_def ensure_system_def state_defs Let_def add_message_def)
  apply (simp add: agent_iteration_def begin_iteration_def increment_iteration_def state_defs Let_def
      ask_model_def build_request_def complete_retry_answer await_completion_def)
  apply (simp add: ex_response_def settle_def hook_view_def charge_usage_def Let_def state_defs budget_new_def)
  apply (simp add: accept_message_def vet_calls_def Let_def state_defs message_tool_calls_def message_new_def
      ex_call_def note_assistant_text_def add_message_def validate_tool_calls_def call_errors_def extract_text_def)
  apply (simp add: run_batch_def call_tools_def batch_mutates_def Let_def state_defs leave_plan_def is_plan_def
      enter_act_phase_def)
  apply (simp add: ex_batch_simps add_user_message_def start_turn_def turn_new_def add_item_def
      add_assistant_text_def record_result_def state_defs add_message_def)
  apply (simp add: after_batch_def maybe_run_verify_def end_turn_def increment_turn_def Let_def state_defs
      is_doom_loop_def context_add_def context_new_def is_tool_call_def message_signature_def message_error_def
      result_message_def message_new_def)
  apply (simp add: manage_context_def needs_compaction_def state_defs sat_mul_usize_def COMPACTION_RATIO_PCT_def
      estimated_tokens_def tokens_of_def msg_tokens_def extract_text_def message_user_def message_system_def
      message_text_def)
  apply linarith
  done

lemma ex_thread_orphan: "(thread_new ''x'' 5 2 True)\<lparr>parent_thread_id := None\<rparr> = thread_new ''x'' 5 2 True"
  by (simp add: thread_new_def)

lemma agent_iteration_clock:
  assumes "agent_iteration env s = (x, s')"
  shows "iterations (ag_thread s') = iterations (ag_thread s) + 1"
    "max_iterations (ag_thread s') = max_iterations (ag_thread s)"
  using assms
  by (cases rule: iteration_cases;
      auto dest!: iteration_body_evolves simp: evolves_def increment_iteration_def Let_def)+

lemma ex_loop:
  assumes "agent_iteration env s = (Continue, s1)" "iterations (ag_thread s) + 2 = max_iterations (ag_thread s)"
  shows "\<exists>s2. agent_loop env s = (Inr (OutError ''Max iterations reached''), s2) \<and> ag_log s2 = ag_log s1"
proof -
  have "\<not> snd (increment_iteration (ag_thread s1))"
    using agent_iteration_clock [OF assms(1)] assms(2) by (simp add: increment_iteration_def Let_def algebra_simps)
  then have "agent_iteration env s1 = (Return (Inr (OutError ''Max iterations reached'')),
      s1\<lparr>ag_thread := fst (increment_iteration (ag_thread s1))\<rparr>)"
    by (cases s1 rule: begin_iteration_cases [where env = env]) (auto simp: agent_iteration_eq)
  then show ?thesis using assms(1) by (simp add: agent_loop.simps [of env s] agent_loop.simps [of env s1])
qed

theorem run_tools_authorised_witness:
  "\<exists>s' pre post. run_with_approval_with_system (exa ex_call None) ''hi'' None auto_approval_gate None
      (ex_state (thread_new ''x'' 5 2 True)) = (Inr (OutError ''Max iterations reached''), s')
    \<and> BatchRan [(''1'', ''t'', JNull)] (pre @ Started 0 ''t'' JNull # post) \<in> set (ag_log s')
    \<and> GateSaid 0 Approved \<in> set pre"
proof -
  let ?s = "ex_state (thread_new ''x'' 5 2 True)" and ?e = "exa ex_call None"
  obtain s1 pre post where it: "agent_iteration ?e (run_start ?e ''hi'' None ?s) = (Continue, s1)"
    and b: "BatchRan [(''1'', ''t'', JNull)] (pre @ Started 0 ''t'' JNull # post) \<in> set (ag_log s1)"
    using ex_iteration [of "''hi''" None] ex_thread_orphan by fastforce
  have "\<exists>s2. run_with_approval_inner ?e ''hi'' None ?s = (Inr (OutError ''Max iterations reached''), s2)
      \<and> ag_log s2 = ag_log s1"
    unfolding run_with_approval_inner_def by (rule ex_loop [OF it]) (simp add: ex_state_def thread_new_def)
  then obtain s2 where "run_with_approval_inner ?e ''hi'' None ?s = (Inr (OutError ''Max iterations reached''), s2)"
    and l: "ag_log s2 = ag_log s1" by blast
  then obtain s' where r: "run_with_approval_with_system ?e ''hi'' None auto_approval_gate None ?s
      = (Inr (OutError ''Max iterations reached''), s')" and "ag_log s' = ag_log s2 @ [Hooked (HSessionEnded (tid (ag_thread s2)) [])]"
    by (simp add: run_with_approval_with_system_def Let_def)
  with b l have b': "BatchRan [(''1'', ''t'', JNull)] (pre @ Started 0 ''t'' JNull # post) \<in> set (ag_log s')"
    by simp
  have "GateSaid 0 Approved \<in> set pre"
    using run_tools_authorised [OF _ r b'] by (simp add: ex_state_def)
  with r b' show ?thesis by blast
qed

section \<open>The spend cap in a run\<close>

lemma ask_model_log:
  assumes "ask_model env s = (x, s')"
  shows "budget (ag_thread s') = budget (ag_thread s) \<and> (x \<noteq> Continue)
    \<and> (\<forall>r. x = Return r \<longrightarrow> (\<exists>e. r = Inr (OutError e)))
    \<and> (\<exists>l. ag_log s' = ag_log s @ l \<and> asks l \<le> 3 \<and> (\<forall>c tr. BatchRan c tr \<notin> set l))"
proof -
  obtain req s1 where b: "build_request env s = (req, s1)" by fastforce
  then have s1: "ag_thread s1 = ag_thread s" "ag_log s1 = ag_log s"
    by (auto simp: build_request_def Let_def split: prod.splits)
  let ?h = "HBeforeModelRequest (effective_model env) (messages (ctx (ag_thread s1)))"
  let ?s3 = "run_hooks env ?h (dispatch_plugin_event env (BeforeModelRequest (effective_model env) 0) s1)"
  obtain a s4 where c: "complete_retry env (offer_tools env req) 0 ?s3 = (a, s4)" by fastforce
  obtain k where k: "ag_thread s4 = ag_thread s" "k \<le> 3"
      "ag_log s4 = ag_log s @ Hooked ?h # replicate k (Asked (offer_tools env req))"
    using complete_retry_log [OF c] s1 by auto
  have asks: "asks (replicate k (Asked (offer_tools env req))) = k" by (induction k) simp_all
  show ?thesis
  proof (cases a)
    case (CallFailed n e)
    let ?l = "Hooked ?h # replicate k (Asked (offer_tools env req)) @ [Stored (SeError (tid (ag_thread s4))
                (''LLM call failed after '' @ show_nat n @ '' attempt(s): '' @ show_provider_error e))]"
    have "asks ?l \<le> 3" "\<forall>c tr. BatchRan c tr \<notin> set ?l" using asks k(2) by auto
    moreover have "ag_log s' = ag_log s @ ?l" "budget (ag_thread s') = budget (ag_thread s)"
      "x = Return (Inr (OutError (''LLM call failed: '' @ show_provider_error e)))"
      using assms b c k CallFailed by (auto simp: ask_model_def Let_def)
    ultimately show ?thesis by blast
  next
    case (Answer r)
    let ?l = "Hooked ?h # replicate k (Asked (offer_tools env req))"
    have "asks ?l \<le> 3" "\<forall>c tr. BatchRan c tr \<notin> set ?l" using asks k(2) by auto
    moreover have "ag_log s' = ag_log s @ ?l" "budget (ag_thread s') = budget (ag_thread s)" "x = Proceed r"
      using assms b c k Answer by (auto simp: ask_model_def Let_def)
    ultimately show ?thesis by blast
  next
    case CallCancelled
    let ?l = "Hooked ?h # replicate k (Asked (offer_tools env req))"
    have "asks ?l \<le> 3" "\<forall>c tr. BatchRan c tr \<notin> set ?l" using asks k(2) by auto
    moreover have "ag_log s' = ag_log s @ ?l" "budget (ag_thread s') = budget (ag_thread s)"
      "x = Return (Inr (OutError ''Agent cancelled''))"
      using assms b c k CallCancelled by (auto simp: ask_model_def Let_def)
    ultimately show ?thesis by blast
  qed
qed

lemma charge_usage_exhausted:
  "exhausted (budget (ag_thread s)) \<Longrightarrow> exhausted (budget (ag_thread (charge_usage env m u s)))"
  by (simp add: charge_usage_def split: option.splits)

lemma charge_usage_log [simp]: "ag_log (charge_usage env m u s) = ag_log s"
  by (simp add: charge_usage_def split: option.splits)

lemma settle_exhausted:
  assumes "exhausted (budget (ag_thread s))"
  shows "\<exists>s' h. settle env r s = (Return (Inr (Success budget_exhausted_text)), s')
    \<and> ag_log s' = ag_log s @ [Hooked h]"
  using assms by (auto simp: settle_def Let_def charge_usage_exhausted split: prod.splits)

lemma iteration_exhausted:
  assumes "exhausted (budget (ag_thread s))" and "agent_iteration env s = (x, s')"
  shows "\<exists>r l. x = Return r \<and> ag_log s' = ag_log s @ l \<and> asks l \<le> 3 \<and> (\<forall>c tr. BatchRan c tr \<notin> set l)
    \<and> (r = Inr (Success budget_exhausted_text) \<or> (\<exists>e. r = Inr (OutError e)))"
  using assms(2)
proof (cases rule: iteration_cases)
  case (body s1)
  obtain a s2 where a: "ask_model env s1 = (a, s2)" by fastforce
  have b1: "budget (ag_thread s1) = budget (ag_thread s)"
    using body(1) by (simp add: increment_iteration_def Let_def)
  from ask_model_log [OF a] obtain l where l: "budget (ag_thread s2) = budget (ag_thread s1)" "a \<noteq> Continue"
    "\<forall>r. a = Return r \<longrightarrow> (\<exists>e. r = Inr (OutError e))" "ag_log s2 = ag_log s1 @ l" "asks l \<le> 3"
    "\<forall>c tr. BatchRan c tr \<notin> set l" by blast
  show ?thesis
  proof (cases a)
    case (Proceed r)
    obtain h where "x = Return (Inr (Success budget_exhausted_text))"
      "ag_log s' = ag_log s2 @ [Hooked h]"
      using settle_exhausted [of s2 env r] body(2) a Proceed assms(1) b1 l(1) by (auto simp: iteration_body_def)
    then show ?thesis using l body(1)
      by (intro exI [of _ "Inr (Success budget_exhausted_text)"]
          exI [of _ "Hooked (HBeforeTurn (iterations (ag_thread s) + 1)) # l @ [Hooked h]"]) auto
  next
    case (Return r)
    then have "x = Return r" "s' = s2" using body(2) a by (auto simp: iteration_body_def)
    then show ?thesis using l Return body(1)
      by (intro exI [of _ r] exI [of _ "Hooked (HBeforeTurn (iterations (ag_thread s) + 1)) # l"]) auto
  qed (use l in simp)
next
  case cancelled
  then show ?thesis
    by (intro exI [of _ "Inr (OutError ''Agent cancelled'')"]
        exI [of _ "[Hooked (HBeforeTurn (iterations (ag_thread s) + 1))]"]) simp
qed auto

text \<open>
  C4. The spend cap ends a run: a loop entered with an exhausted budget finishes in its first
  iteration. It runs no batch of tools at all; it asks the model at most once more (with its
  retries), because the flag is only looked at after an answer; and it reports the exhaustion as
  a success, or another reason as an error.
\<close>

theorem exhausted_run_stops:
  assumes "exhausted (budget (ag_thread s))" and "agent_loop env s = (r, s')"
  shows "\<exists>l. ag_log s' = ag_log s @ l \<and> asks l \<le> 3 \<and> (\<forall>c tr. BatchRan c tr \<notin> set l)
    \<and> (r = Inr (Success budget_exhausted_text) \<or> (\<exists>e. r = Inr (OutError e)))"
proof -
  obtain x s1 where i: "agent_iteration env s = (x, s1)" by fastforce
  from iteration_exhausted [OF assms(1) this] assms(2) show ?thesis
    by (auto simp: agent_loop.simps [of env s] i)
qed

theorem exhausted_run_stops_witness:
  "\<exists>s' l. agent_loop (exa ex_call None) (ex_state ((thread_new ''x'' 5 5 True)
       \<lparr>budget := (budget_new (Some 1) True)\<lparr>exhausted := True\<rparr>\<rparr>))
     = (Inr (Success budget_exhausted_text), s') \<and> ag_log s' = l \<and> asks l = 1 \<and> (\<forall>c tr. BatchRan c tr \<notin> set l)"
proof -
  let ?s = "ex_state ((thread_new ''x'' 5 5 True)\<lparr>budget := (budget_new (Some 1) True)\<lparr>exhausted := True\<rparr>\<rparr>)"
  have "\<exists>s'. agent_loop (exa ex_call None) ?s = (Inr (Success budget_exhausted_text), s') \<and> asks (ag_log s') = 1"
    by (subst agent_loop.simps, simp add: agent_iteration_def begin_iteration_def increment_iteration_def
        ex_state_def thread_new_def ask_model_def build_request_def complete_retry_answer await_completion_def
        state_defs Let_def, simp add: settle_def ex_response_def charge_usage_def hook_view_def state_defs Let_def)
  then obtain s' where l: "agent_loop (exa ex_call None) ?s = (Inr (Success budget_exhausted_text), s')"
    and a: "asks (ag_log s') = 1" by blast
  have "exhausted (budget (ag_thread ?s))" by (simp add: ex_state_def)
  from exhausted_run_stops [OF this l] have "\<forall>c tr. BatchRan c tr \<notin> set (ag_log s')"
    by (auto simp: ex_state_def)
  with l a show ?thesis by blast
qed

section \<open>The verify-and-fix cycle\<close>

text \<open>What a stretch of a run does to the count of fix cycles: it keeps it within the cap, and once
  the cap is reached there is no verification any more.\<close>

definition capped :: "u32 \<Rightarrow> 'w agent_state \<Rightarrow> 'w agent_state \<Rightarrow> bool" where
  "capped m s s' \<longleftrightarrow>
     (fix_cycles s \<le> m \<longrightarrow> fix_cycles s' \<le> m) \<and>
     (\<exists>l. ag_log s' = ag_log s @ l \<and>
        (m \<le> fix_cycles s \<longrightarrow> fix_cycles s' = fix_cycles s \<and> list_all (\<lambda>n. \<not> is_verified n) l))"

lemma capped_trans:
  assumes "capped m a b" "capped m b c"
  shows "capped m a c"
proof -
  obtain l l' where "ag_log b = ag_log a @ l" "ag_log c = ag_log b @ l'"
    "m \<le> fix_cycles a \<longrightarrow> fix_cycles b = fix_cycles a \<and> list_all (\<lambda>n. \<not> is_verified n) l"
    "m \<le> fix_cycles b \<longrightarrow> fix_cycles c = fix_cycles b \<and> list_all (\<lambda>n. \<not> is_verified n) l'"
    using assms unfolding capped_def by blast
  then show ?thesis using assms unfolding capped_def by (intro conjI exI [of _ "l @ l'"]) auto
qed

lemma extends_capped: "extends benv k s s' \<Longrightarrow> capped m s s'"
  unfolding extends_def capped_def list_all_iff by auto

lemma maybe_run_verify_capped: "maybe_run_verify env rs s = (b, s') \<Longrightarrow> capped (ae_max_fix_cycles env) s s'"
  by (auto simp: maybe_run_verify_def capped_def Let_def inc_le not_le
      split: option.splits if_splits prod.splits verify_outcome.splits)

lemma after_batch_capped:
  assumes "after_batch env rs s = (x, s')"
  shows "capped (ae_max_fix_cycles env) s s'"
proof -
  obtain b s1 where v: "maybe_run_verify env rs s = (b, s1)" by fastforce
  then have "capped (ae_max_fix_cycles env) s s1" by (rule maybe_run_verify_capped)
  moreover have "b \<or> end_turn env s1 = (x, s')" "b \<longrightarrow> s' = s1"
    using assms v by (auto simp: after_batch_def split: bool.splits)
  ultimately show ?thesis using extends_capped [OF end_turn_extends] capped_trans by blast
qed

lemma and_then_capped:
  assumes "and_then p f = (y, s2)" and "\<And>x s1. p = (x, s1) \<Longrightarrow> capped m s s1"
    and "\<And>a s1. f a s1 = (y, s2) \<Longrightarrow> capped m s1 s2"
  shows "capped m s s2"
proof -
  obtain x s1 where p: "p = (x, s1)" by fastforce
  then have "capped m s s1" by (rule assms(2))
  then show ?thesis using assms(1,3) p by (cases x) (auto intro: capped_trans)
qed

lemma agent_iteration_capped:
  assumes "agent_iteration env s = (x, s')"
  shows "capped (ae_max_fix_cycles env) s s'"
  using assms
proof (cases rule: iteration_cases)
  case (body s1)
  have "capped (ae_max_fix_cycles env) s1 s'"
    using body(2) unfolding iteration_body_def
    by (elim and_then_capped; fast intro: extends_capped [OF ask_model_extends] extends_capped [OF settle_extends]
        extends_capped [OF extends_trans [OF accept_message_extends vet_calls_extends]] le_refl
        extends_capped [OF run_batch_extends] after_batch_capped)
  moreover have "capped (ae_max_fix_cycles env) s s1" using body(1) by (auto simp: capped_def)
  ultimately show ?thesis by (rule capped_trans [rotated])
qed (auto simp: capped_def)

lemma agent_loop_capped: "capped (ae_max_fix_cycles env) s (snd (agent_loop env s))"
  by (rule run.loop_invariant [of "capped (ae_max_fix_cycles env) s" s env])
    (auto simp: capped_def [of _ s s] intro: capped_trans agent_iteration_capped)

text \<open>
  The verify-and-fix cycle is bounded: in every run the count of consecutive failed
  verifications stays within the configured maximum (it never wraps); and when the maximum has
  been reached in a loop, no verification command is run any more for the rest of that loop, however many
  further edits there are, so the count is not reset by a later success either.
\<close>

theorem verify_cycle_capped:
  "fix_cycles (snd (run_with_approval_inner env input system s)) \<le> ae_max_fix_cycles env
   \<and> (ae_max_fix_cycles env \<le> fix_cycles s1 \<longrightarrow>
       fix_cycles (snd (agent_loop env s1)) = fix_cycles s1
       \<and> (\<exists>l. ag_log (snd (agent_loop env s1)) = ag_log s1 @ l \<and> (\<forall>cmd. Verified cmd \<notin> set l)))"
proof
  show "fix_cycles (snd (run_with_approval_inner env input system s)) \<le> ae_max_fix_cycles env"
    using agent_loop_capped [of env "run_start env input system s"]
    by (simp add: run_with_approval_inner_def capped_def)
  have "list_all (\<lambda>n. \<not> is_verified n) l \<Longrightarrow> Verified cmd \<notin> set l" for l cmd
    by (auto simp: list_all_iff)
  then show "ae_max_fix_cycles env \<le> fix_cycles s1 \<longrightarrow> fix_cycles (snd (agent_loop env s1)) = fix_cycles s1
       \<and> (\<exists>l. ag_log (snd (agent_loop env s1)) = ag_log s1 @ l \<and> (\<forall>cmd. Verified cmd \<notin> set l))"
    using agent_loop_capped [of env s1] unfolding capped_def by blast
qed

theorem verify_cycle_capped_witness:
  "ae_max_fix_cycles (exa ex_call None) \<le> fix_cycles ((ex_state (thread_new ''x'' 5 5 True))\<lparr>fix_cycles := 3\<rparr>)
   \<and> fix_cycles (snd (agent_loop (exa ex_call None) ((ex_state (thread_new ''x'' 5 5 True))\<lparr>fix_cycles := 3\<rparr>))) = 3"
  using verify_cycle_capped [of "exa ex_call None" "[]" None "ex_state (thread_new ''x'' 5 5 True)"
      "(ex_state (thread_new ''x'' 5 5 True))\<lparr>fix_cycles := 3\<rparr>"]
  by (simp add: ex_agent_def)

section \<open>Answers and their calls\<close>

lemma fold_record_result:
  "ag_thread (fold record_result rs s) = (ag_thread s)
     \<lparr>ctx := (ctx (ag_thread s))\<lparr>messages := messages (ctx (ag_thread s)) @ map result_message rs\<rparr>\<rparr>"
  by (induction rs arbitrary: s) (simp_all add: record_result_def add_message_def context_add_def)

lemma run_batch_thread:
  assumes "run_batch env calls s = (Proceed rs, s')"
  obtains w t u st where "execute_tools_concurrent (ae_batch env) t calls u w = (Results rs, st)"
    "u = leave_plan (ag_thread s)"
    "ag_thread s' = (thr st)\<lparr>ctx := (ctx (thr st))\<lparr>messages := messages (ctx (thr st)) @ map result_message rs\<rparr>\<rparr>"
proof -
  define s2 where "s2 = (let s1 = on_thread leave_plan s in
     if batch_mutates env calls then open_checkpoint env (workspace_dir env (ag_world s1)) s1 else s1)"
  have s2: "ag_thread s2 = leave_plan (ag_thread s)" by (simp add: s2_def Let_def open_checkpoint_def)
  obtain out st where e: "execute_tools_concurrent (ae_batch env) (agent_tool_context env (ag_world s)) calls
      (ag_thread s2) (ag_world s2) = (out, st)" by fastforce
  then have "out = Results rs" using assms
    by (auto simp: run_batch_def Let_def s2_def call_tools_def split: batch_outcome.splits)
  moreover from this e assms have "ag_thread s' = (thr st)
      \<lparr>ctx := (ctx (thr st))\<lparr>messages := messages (ctx (thr st)) @ map result_message rs\<rparr>\<rparr>"
    by (auto simp: run_batch_def Let_def s2_def call_tools_def close_checkpoint_def fold_record_result
        split: if_splits)
  ultimately show thesis using e s2 that by blast
qed



text \<open>
  C5. A malformed or truncated answer runs nothing: when the answer's tool calls do not validate,
  or the output was cut off at the token limit, the iteration starts no tool, changes nothing
  outside, does not count as a turn, and goes back to the model with the answer and one hint
  appended to the window. The calls of that answer stay in the window without a tool message
  that answers them.
\<close>

theorem rejected_answer_runs_nothing:
  assumes "begin_iteration env s = (Proceed (), s0)" "ask_model env s0 = (Proceed r, s1)"
    "settle env r s1 = (Proceed c, s2)" and "calls = message_tool_calls (ch_message c)" "calls \<noteq> []"
    and "validate_tool_calls calls \<noteq> Inr () \<or> ch_finish_reason c = Some ''length''"
  shows "\<exists>s' hint. agent_iteration env s = (Continue, s') \<and> role hint = RUser \<and> \<not> is_tool_call hint
    \<and> messages (ctx (ag_thread s')) = messages (ctx (ag_thread s2)) @ [ch_message c, hint]
    \<and> ag_world s' = ag_world s2 \<and> turn_no (ag_thread s') = turn_no (ag_thread s2)
    \<and> ag_log s' = ag_log s2 @ [Stored (SeAssistantText (tid (ag_thread s2)) (extract_text (ch_message c))),
        Handled (Thinking (extract_text (ch_message c)))]"
proof -
  have hints: "role (malformed_hint e) = RUser" "\<not> is_tool_call (malformed_hint e)"
    "role truncation_hint = RUser" "\<not> is_tool_call truncation_hint" for e
    by (simp_all add: malformed_hint_def truncation_hint_def message_user_def message_text_def is_tool_call_def)
  have "agent_iteration env s = and_then (vet_calls c (accept_message c s2)) (\<lambda>calls s.
     and_then (run_batch env calls s) (\<lambda>rs s. after_batch env rs s))"
    using assms(1-3) by (simp add: agent_iteration_def)
  moreover have "vet_calls c (accept_message c s2) = (Continue, on_thread (add_message
      (case validate_tool_calls calls of Inl e \<Rightarrow> malformed_hint e | Inr _ \<Rightarrow> truncation_hint)) (accept_message c s2))"
    using assms(4-6) by (auto simp: vet_calls_def Let_def split: sum.splits)
  ultimately show ?thesis using hints
    by (auto simp: accept_message_def note_assistant_text_def context_add_def Let_def split: sum.splits)
qed

theorem rejected_answer_runs_nothing_witness:
  "\<exists>s' hint. agent_iteration (exa ex_call (Some ''length'')) (ex_state (thread_new ''x'' 5 5 True)) = (Continue, s')
     \<and> role hint = RUser \<and> messages (ctx (ag_thread s')) = [ex_call, hint]"
proof -
  let ?s = "ex_state (thread_new ''x'' 5 5 True)" and ?e = "exa ex_call (Some ''length'')"
  let ?c = "\<lparr>ch_index = 0, ch_message = ex_call, ch_finish_reason = Some ''length''\<rparr>"
  obtain s0 where 0: "begin_iteration ?e ?s = (Proceed (), s0)" and t0: "messages (ctx (ag_thread s0)) = []"
      "\<not> exhausted (budget (ag_thread s0))"
    by (simp add: begin_iteration_def increment_iteration_def ex_state_def thread_new_def Let_def state_defs
        budget_new_def context_new_def)
  obtain s1 where 1: "ask_model ?e s0 = (Proceed (ex_response ex_call (Some ''length'')), s1)"
    and t1: "ag_thread s1 = ag_thread s0"
    by (simp add: ask_model_def build_request_def complete_retry_answer await_completion_def state_defs Let_def)
  obtain s2 where 2: "settle ?e (ex_response ex_call (Some ''length'')) s1 = (Proceed ?c, s2)"
    and t2: "ag_thread s2 = ag_thread s1"
    using t0 t1 by (simp add: settle_def ex_response_def charge_usage_def hook_view_def state_defs Let_def)
  from rejected_answer_runs_nothing [OF 0 1 2 refl] t0 t1 t2 show ?thesis
    by (auto simp: ex_call_def message_tool_calls_def message_new_def)
qed

end
