(* ===== verification/Streaming.thy ===== *)
theory Streaming
  imports Agent
begin

text \<open>
  The streaming loop: \<open>Agent::run_streaming_with_system\<close> and \<open>run_stream_with_system\<close> of
  \<open>sentinel-core/src/agent.rs\<close>. It shares the batch, the verification and the compaction with
  the loop of \<open>Agent\<close>, but reads the answer from a stream of chunks, has no policy and no
  cancellation, stores no session events and dispatches fewer hooks.
\<close>

section \<open>Collecting a stream\<close>

definition opt_str :: "string option \<Rightarrow> string" where
  "opt_str x = (case x of Some v \<Rightarrow> v | None \<Rightarrow> [])"

definition delta_call :: "(string \<Rightarrow> json option) \<Rightarrow> delta_tool_call \<Rightarrow> tool_call" where
  "delta_call parse tc =
     (let name = opt_str (Option.bind (dtc_function tc) df_name);
          args_str = opt_str (Option.bind (dtc_function tc) df_arguments)
      in (opt_str (dtc_id tc), name, case parse args_str of Some v \<Rightarrow> v | None \<Rightarrow> JNull))"

definition collect_choice ::
    "(string \<Rightarrow> json option) \<Rightarrow> stream_choice \<Rightarrow> string \<times> tool_call list \<Rightarrow> string \<times> tool_call list" where
  "collect_choice parse ch acc =
     (case acc of (txt, calls) \<Rightarrow>
        (txt @ opt_str (d_content (sc_delta ch)),
         calls @ (case d_tool_calls (sc_delta ch) of Some tcs \<Rightarrow> map (delta_call parse) tcs | None \<Rightarrow> [])))"

text \<open>An error in the stream ends the collection; what came before it is kept.\<close>

fun collect_stream ::
    "(string \<Rightarrow> json option) \<Rightarrow> (provider_error + stream_chunk) list \<Rightarrow> string \<times> tool_call list
       \<Rightarrow> string \<times> tool_call list" where
  "collect_stream parse [] acc = acc"
| "collect_stream parse (Inl e # cs) acc = acc"
| "collect_stream parse (Inr c # cs) acc =
     collect_stream parse cs (fold (collect_choice parse) (chunk_choices c) acc)"

section \<open>One iteration\<close>

definition stream_request :: "'w agent_env \<Rightarrow> 'w agent_state \<Rightarrow> completion_request \<times> 'w agent_state" where
  "stream_request env s = (let (req, s1) = build_request env s in (offer_tools env req, s1))"

definition open_stream ::
    "'w agent_env \<Rightarrow> 'w agent_state \<Rightarrow> (string \<times> tool_call list) outcome \<times> 'w agent_state" where
  "open_stream env s =
     (let (t, ok) = increment_iteration (ag_thread s);
          s1 = s\<lparr>ag_thread := t\<rparr>
      in if \<not> ok then (Return (Inr (OutError ''Max iterations reached'')), s1)
         else
           (let (req, s2) = stream_request env s1;
                s3 = logged (AskedStream req) s2
            in case ae_complete_stream env (ag_world s3) req of
                 (Inl e, w) \<Rightarrow>
                   (Return (Inr (OutError (''LLM stream failed: '' @ show_provider_error e))), s3\<lparr>ag_world := w\<rparr>)
               | (Inr chunks, w) \<Rightarrow>
                   (Proceed (collect_stream (ae_parse env) chunks ([], [])), s3\<lparr>ag_world := w\<rparr>)))"

definition stream_message :: "string \<Rightarrow> tool_call list \<Rightarrow> message" where
  "stream_message txt calls =
     message_new RAssistant ((if txt \<noteq> [] then [Text txt] else []) @ map (\<lambda>(i, n, a). ToolCall i n a) calls)"

definition vet_stream ::
    "string \<times> tool_call list \<Rightarrow> 'w agent_state \<Rightarrow> tool_call list outcome \<times> 'w agent_state" where
  "vet_stream x s0 =
     (case x of (txt, calls) \<Rightarrow>
        let s = logged (Handled (Thinking txt)) (on_thread (add_message (stream_message txt calls)) s0) in
        case (if calls = [] then Inr () else validate_tool_calls calls) of
          Inl errs \<Rightarrow> (Continue, on_thread (add_message (malformed_hint errs)) s)
        | Inr _ \<Rightarrow>
            (if calls \<noteq> [] \<and> str_trim txt = []
             then (Continue, on_thread (add_message truncation_hint) s)
             else if calls = []
             then (Return (Inr (Success txt)), logged (Handled (EvCompleted txt)) (set_status Completed s))
             else (Proceed calls, s)))"

text \<open>The batch gets a fresh cancellation token and no policy.\<close>

definition stream_batch_env :: "'w agent_env \<Rightarrow> 'w batch_env" where
  "stream_batch_env env =
     (ae_batch env)\<lparr>be_policy := None, be_cancelled := (\<lambda>_. False), be_interrupt := (\<lambda>_ _. None)\<rparr>"

definition stream_batch ::
    "'w agent_env \<Rightarrow> tool_call list \<Rightarrow> 'w agent_state \<Rightarrow> tool_result list outcome \<times> 'w agent_state" where
  "stream_batch env calls s =
     (let s1 = on_thread leave_plan s;
          tcx = agent_tool_context env (ag_world s1);
          ws = workspace_dir env (ag_world s1);
          mutating = batch_mutates env calls;
          s2 = (if mutating then open_checkpoint env ws s1 else s1)
      in case call_tools (stream_batch_env env) tcx calls s2 of
           (Denied why, s3) \<Rightarrow> (Return (Inl (Generic (''Policy denied: '' @ why))), s3)
         | (Results rs, s3) \<Rightarrow>
             (let s4 = fold (\<lambda>r. on_thread (add_message (result_message r))) rs s3 in
              (Proceed rs, if mutating then close_checkpoint env ws s4 else s4)))"

definition stream_end_turn :: "'w agent_env \<Rightarrow> 'w agent_state \<Rightarrow> unit outcome \<times> 'w agent_state" where
  "stream_end_turn env s =
     (let (t, ok) = increment_turn (ag_thread s);
          s1 = s\<lparr>ag_thread := t\<rparr>
      in if \<not> ok then (Return (Inr (OutError ''Max turns reached'')), s1)
         else
           (let s2 = run_hooks env (HAfterTurn (turn_no t) (iterations t))
                       (logged (Handled (EvTurnEnd (turn_no t) (iterations t))) s1)
            in if is_doom_loop (ae_dbg env) (ag_thread s2)
               then (Return (Inr (OutError ''Doom loop detected'')), s2)
               else (Continue, manage_context env s2)))"

definition after_stream_batch ::
    "'w agent_env \<Rightarrow> tool_result list \<Rightarrow> 'w agent_state \<Rightarrow> unit outcome \<times> 'w agent_state" where
  "after_stream_batch env rs s =
     (case maybe_run_verify env rs s of (True, s') \<Rightarrow> (Continue, s') | (False, s') \<Rightarrow> stream_end_turn env s')"

definition stream_iteration :: "'w agent_env \<Rightarrow> 'w agent_state \<Rightarrow> unit outcome \<times> 'w agent_state" where
  "stream_iteration env s =
     and_then (open_stream env s) (\<lambda>x s.
     and_then (vet_stream x s) (\<lambda>calls s.
     and_then (stream_batch env calls s) (\<lambda>rs s.
     after_stream_batch env rs s)))"

section \<open>The loop\<close>

lemma stream_request_extends: "stream_request env s = (req, s') \<Longrightarrow> extends benv k s s'"
  by (auto simp: stream_request_def split: prod.splits intro: build_request_extends)

lemma vet_stream_extends: "vet_stream x s = (y, s') \<Longrightarrow> extends benv 0 s s'"
  by (auto simp: vet_stream_def Let_def intro!: extends_intros split: prod.splits if_splits sum.splits)

lemma add_results_extends:
  "extends benv 0 s s' \<Longrightarrow> extends benv 0 s (fold (\<lambda>r. on_thread (add_message (result_message r))) rs s')"
  by (induction rs arbitrary: s') (simp_all add: extends_intros)

lemma stream_batch_extends:
  assumes "stream_batch env calls s = (x, s')"
  shows "extends (stream_batch_env env) 0 s s'"
proof -
  define s2 where "s2 = (let s1 = on_thread leave_plan s in
     if batch_mutates env calls then open_checkpoint env (workspace_dir env (ag_world s1)) s1 else s1)"
  have s2: "extends (stream_batch_env env) 0 s s2"
    by (simp add: s2_def Let_def open_checkpoint_def extends_simps extends_intros leave_plan_def)
  obtain out s3 where c: "call_tools (stream_batch_env env) (agent_tool_context env (ag_world s)) calls s2 = (out, s3)"
    by fastforce
  have "extends (stream_batch_env env) 0 s s3" using s2 call_tools_extends [OF c] by (rule extends_trans) simp
  with assms c show ?thesis
    by (auto simp: stream_batch_def Let_def s2_def close_checkpoint_def extends_simps add_results_extends
        split: batch_outcome.splits)
qed

lemma stream_end_turn_extends:
  assumes "stream_end_turn env s = (x, s')"
  shows "extends benv 1 s s'"
proof -
  obtain t ok where t: "increment_turn (ag_thread s) = (t, ok)" by fastforce
  then have te: "t = (ag_thread s)\<lparr>turn_no := turn_no (ag_thread s) + 1\<rparr>"
    by (simp add: increment_turn_def Let_def)
  let ?s2 = "run_hooks env (HAfterTurn (turn_no t) (iterations t))
       (logged (Handled (EvTurnEnd (turn_no t) (iterations t))) (s\<lparr>ag_thread := t\<rparr>))"
  have e: "extends benv 0 s (s\<lparr>ag_thread := t\<rparr>)" by (simp add: te extends_turn extends_refl)
  then have s2: "extends benv 0 s ?s2" by (simp add: extends_intros)
  then have "extends benv 1 s (manage_context env ?s2)" using manage_context_extends by (rule extends_trans) simp
  with assms t e s2 show ?thesis
    by (auto simp: stream_end_turn_def Let_def intro: extends_mono split: if_splits)
qed

lemma after_stream_batch_evolves:
  assumes "after_stream_batch env rs s = (x, s')"
  shows "evolves benv 1 s s'"
proof -
  obtain b s1 where v: "maybe_run_verify env rs s = (b, s1)" by fastforce
  have e: "evolves benv 0 s s1" using v by (rule maybe_run_verify_evolves)
  moreover have "b \<and> s' = s1 \<or> stream_end_turn env s1 = (x, s')"
    using assms v by (auto simp: after_stream_batch_def split: bool.splits)
  ultimately show ?thesis
    using evolves_mono [OF e] evolves_trans [OF e extends_evolves [OF stream_end_turn_extends]] by fastforce
qed

lemma open_stream_evolves:
  assumes "open_stream env s = (x, s')"
  shows "evolves benv 1 (s\<lparr>ag_thread := fst (increment_iteration (ag_thread s))\<rparr>) s'"
    and "\<not> snd (increment_iteration (ag_thread s)) \<Longrightarrow> returns x"
proof -
  let ?s1 = "s\<lparr>ag_thread := fst (increment_iteration (ag_thread s))\<rparr>"
  obtain req s2 where r: "stream_request env ?s1 = (req, s2)" by fastforce
  have "evolves benv 0 ?s1 s2" using extends_evolves [OF stream_request_extends [OF r]] .
  then have "evolves benv 1 ?s1 (logged (AskedStream req) s2\<lparr>ag_world := w\<rparr>)" for w
    by (auto simp: evolves_def)
  then show "evolves benv 1 ?s1 s'" using assms r
    by (auto simp: open_stream_def Let_def evolves_refl split: prod.splits if_splits sum.splits)
  show "\<not> snd (increment_iteration (ag_thread s)) \<Longrightarrow> returns x"
    using assms by (auto simp: open_stream_def Let_def split: prod.splits)
qed

lemma stream_iteration_evolves:
  assumes "stream_iteration env s = (x, s')"
  shows "evolves (stream_batch_env env) 2 (s\<lparr>ag_thread := fst (increment_iteration (ag_thread s))\<rparr>) s'"
  using assms unfolding stream_iteration_def
proof (rule and_then_evolves [where j = 1 and k = 1])
  fix y s1
  assume "and_then (vet_stream y s1) (\<lambda>calls s. and_then (stream_batch env calls s) (after_stream_batch env)) = (x, s')"
  then show "evolves (stream_batch_env env) 1 s1 s'"
  proof (rule and_then_evolves [where j = 0 and k = 1])
    fix calls s2
    assume "and_then (stream_batch env calls s2) (after_stream_batch env) = (x, s')"
    then show "evolves (stream_batch_env env) 1 s2 s'"
      by (rule and_then_evolves [where j = 0 and k = 1])
        (simp_all add: extends_evolves [OF stream_batch_extends] after_stream_batch_evolves del: One_nat_def)
  qed (auto intro: extends_evolves [OF vet_stream_extends])
qed (simp_all add: open_stream_evolves(1) del: One_nat_def)

lemma stream_iteration_left:
  assumes "stream_iteration env s = (x, s')" "\<not> returns x"
  shows "iter_left (ag_thread s') < iter_left (ag_thread s)"
proof -
  obtain y s1 where o: "open_stream env s = (y, s1)" by fastforce
  have "snd (increment_iteration (ag_thread s))"
    using assms open_stream_evolves(2) [OF o] o by (cases y) (auto simp: stream_iteration_def)
  then show ?thesis
    using iter_left_tick evolves_iter_left [OF stream_iteration_evolves [OF assms(1)]] by fastforce
qed

function stream_loop :: "'w agent_env \<Rightarrow> 'w agent_state \<Rightarrow> agent_result \<times> 'w agent_state" where
  "stream_loop env s =
     (case stream_iteration env s of
        (Return r, s') \<Rightarrow> (r, s')
      | (Continue, s') \<Rightarrow> stream_loop env s'
      | (Proceed _, s') \<Rightarrow> stream_loop env s')"
  by pat_completeness auto
termination
  by (relation "measure (\<lambda>(_, s). iter_left (ag_thread s))") (auto dest!: stream_iteration_left [OF sym])

declare stream_loop.simps [simp del]

interpretation streamed: counted_loop "stream_iteration env" "stream_loop env" "\<lambda>s. iter_left (ag_thread s)" for env
proof
  fix s
  show "stream_loop env s =
      (case stream_iteration env s of (Return r, s') \<Rightarrow> (r, s') | (_, s') \<Rightarrow> stream_loop env s')"
    by (subst stream_loop.simps) (auto split: prod.splits outcome.splits)
qed (rule stream_iteration_left)

definition stream_start :: "'w agent_env \<Rightarrow> string \<Rightarrow> string option \<Rightarrow> 'w agent_state \<Rightarrow> 'w agent_state" where
  "stream_start env input system s =
     (on_thread (\<lambda>t. ensure_system env system (add_message (message_user input) (t\<lparr>status := Running\<rparr>))) s)
       \<lparr>fix_cycles := 0\<rparr>"

definition run_streaming_with_system ::
    "'w agent_env \<Rightarrow> string \<Rightarrow> 'w gate \<Rightarrow> string option \<Rightarrow> 'w agent_state \<Rightarrow> agent_result \<times> 'w agent_state" where
  "run_streaming_with_system env input g system s =
     stream_loop (with_gate g None env) (stream_start env input system s)"

definition run_stream_with_system ::
    "'w agent_env \<Rightarrow> string \<Rightarrow> string option \<Rightarrow> 'w agent_state
       \<Rightarrow> (provider_error + (provider_error + stream_chunk) list) \<times> 'w agent_state" where
  "run_stream_with_system env input system s =
     (let s1 = on_thread (\<lambda>t. ensure_system env system (add_message (message_user input) (t\<lparr>status := Running\<rparr>))) s;
          (req, s2) = stream_request env s1;
          s3 = logged (AskedStream req) s2;
          (r, w) = ae_complete_stream env (ag_world s3) req
      in (r, s3\<lparr>ag_world := w\<rparr>))"


section \<open>Properties\<close>

lemma collect_choice_calls: "set (snd acc) \<subseteq> set (snd (collect_choice parse ch acc))"
  by (cases acc) (auto simp: collect_choice_def)

lemma fold_collect_calls: "set (snd acc) \<subseteq> set (snd (fold (collect_choice parse) chs acc))"
  by (induction chs arbitrary: acc) (use collect_choice_calls in fastforce)+

lemma collect_stream_calls: "set (snd acc) \<subseteq> set (snd (collect_stream parse cs acc))"
proof (induction parse cs acc rule: collect_stream.induct)
  case (3 parse c cs acc)
  then show ?case using fold_collect_calls [of acc parse "chunk_choices c"] by auto
qed auto

lemma fold_collect_member:
  assumes "ch \<in> set chs" "d_tool_calls (sc_delta ch) = Some tcs" "tc \<in> set tcs"
  shows "delta_call parse tc \<in> set (snd (fold (collect_choice parse) chs acc))"
proof -
  obtain xs ys where "chs = xs @ ch # ys" using assms(1) by (auto dest: split_list)
  moreover have "delta_call parse tc \<in> set (snd (collect_choice parse ch acc))" for acc
    using assms(2,3) by (cases acc) (auto simp: collect_choice_def)
  ultimately show ?thesis using fold_collect_calls by fastforce
qed

lemma collect_stream_member:
  assumes "c \<in> set cs" "ch \<in> set (chunk_choices c)" "d_tool_calls (sc_delta ch) = Some tcs" "tc \<in> set tcs"
  shows "delta_call parse tc \<in> set (snd (collect_stream parse (map Inr cs) acc))"
  using assms(1)
proof (induction cs arbitrary: acc)
  case (Cons d cs)
  then show ?case
    using fold_collect_member [OF assms(2-4)] collect_stream_calls by fastforce
qed simp

lemma missing_id_invalid:
  assumes "c \<in> set calls" "fst c = []"
  shows "validate_tool_calls calls \<noteq> Inr ()"
proof -
  obtain i where i: "i < length calls" "calls ! i = c" using assms(1) by (auto simp: in_set_conv_nth)
  then have "(i, c) \<in> set (enumerate 0 calls)" by (auto simp: in_set_enumerate_eq)
  moreover have "call_errors i c \<noteq> []" using assms(2) by (cases c) (simp add: call_errors_def)
  ultimately have "concat (map (\<lambda>(i, c). call_errors i c) (enumerate 0 calls)) \<noteq> []" by fastforce
  then show ?thesis by (simp add: validate_tool_calls_def Let_def)
qed

text \<open>
  Pieces of a streamed tool call are not put together: a stream in which some tool-call delta
  carries no id (a continuation of an earlier delta, as the providers send the arguments) is
  collected into a call without an id, so the whole answer is rejected as malformed and no tool
  runs in that iteration.
\<close>

theorem stream_fragments_rejected:
  assumes "c \<in> set chunks" "ch \<in> set (chunk_choices c)" "d_tool_calls (sc_delta ch) = Some tcs"
    and "tc \<in> set tcs" "dtc_id tc = None"
  shows "\<exists>s' errs. vet_stream (collect_stream parse (map Inr chunks) ([], [])) s = (Continue, s')
    \<and> validate_tool_calls (snd (collect_stream parse (map Inr chunks) ([], []))) = Inl errs
    \<and> ag_world s' = ag_world s
    \<and> last (messages (ctx (ag_thread s'))) = malformed_hint errs"
proof -
  obtain u calls where x: "collect_stream parse (map Inr chunks) ([], []) = (u, calls)" by fastforce
  have m: "delta_call parse tc \<in> set calls" using collect_stream_member [OF assms(1-4), of parse "([], [])"] x by simp
  have "fst (delta_call parse tc) = []" using assms(5) by (simp add: delta_call_def opt_str_def Let_def)
  with m have "validate_tool_calls calls \<noteq> Inr ()" by (rule missing_id_invalid)
  then obtain errs where "validate_tool_calls calls = Inl errs" by (cases "validate_tool_calls calls") auto
  moreover have "calls \<noteq> []" using m by auto
  ultimately show ?thesis using x by (simp add: vet_stream_def Let_def context_add_def)
qed

definition ex_delta :: "string option \<Rightarrow> string option \<Rightarrow> string \<Rightarrow> stream_chunk" where
  "ex_delta i n a = \<lparr>chunk_id = ''c'', chunk_model = ''m'', chunk_choices =
     [\<lparr>sc_index = 0, sc_delta = \<lparr>d_role = None, d_content = None, d_tool_calls =
        Some [\<lparr>dtc_index = 0, dtc_id = i, dtc_type = None, dtc_function = Some \<lparr>df_name = n, df_arguments = Some a\<rparr>\<rparr>]\<rparr>,
       sc_finish_reason = None\<rparr>]\<rparr>"

theorem stream_fragments_rejected_witness:
  "\<exists>s' errs. vet_stream (collect_stream (\<lambda>_. None) (map Inr [ex_delta (Some ''1'') (Some ''t'') ''{'', ex_delta None None ''}'']) ([], []))
      (ex_state (thread_new ''x'' 5 5 True)) = (Continue, s') \<and> last (messages (ctx (ag_thread s'))) = malformed_hint errs"
proof -
  let ?d = "ex_delta None None ''}''"
  have "hd (chunk_choices ?d) \<in> set (chunk_choices ?d)" by (simp add: ex_delta_def)
  moreover have "d_tool_calls (sc_delta (hd (chunk_choices ?d))) =
      Some [\<lparr>dtc_index = 0, dtc_id = None, dtc_type = None, dtc_function = Some \<lparr>df_name = None, df_arguments = Some ''}''\<rparr>\<rparr>]"
    by (simp add: ex_delta_def)
  ultimately show ?thesis
    using stream_fragments_rejected [where c = ?d and chunks = "[ex_delta (Some ''1'') (Some ''t'') ''{'', ?d]"
        and parse = "\<lambda>_. None" and s = "ex_state (thread_new ''x'' 5 5 True)"] by fastforce
qed

text \<open>The batches of a log.\<close>

definition batches :: "agent_note list \<Rightarrow> agent_note list" where
  "batches l = filter (\<lambda>n. case n of BatchRan _ _ \<Rightarrow> True | _ \<Rightarrow> False) l"

lemma batches_simps [simp]: "batches [] = []" "batches (l @ l') = batches l @ batches l'"
  "batches (AskedStream r # l) = batches l" "batches (Handled e # l) = batches l"
  by (simp_all add: batches_def)

text \<open>An answer that \<open>vet_stream\<close> does not let through to a batch: it calls nothing, or is blank, or has a
  malformed call.\<close>

definition stream_rejected :: "string \<times> tool_call list \<Rightarrow> bool" where
  "stream_rejected x \<longleftrightarrow> snd x = [] \<or> str_trim (fst x) = [] \<or> validate_tool_calls (snd x) \<noteq> Inr ()"

definition mute :: "'w agent_env \<Rightarrow> bool" where
  "mute env \<longleftrightarrow> (\<forall>w req chunks w'. ae_complete_stream env w req = (Inr chunks, w') \<longrightarrow>
     stream_rejected (collect_stream (ae_parse env) chunks ([], [])))"

lemma mute_iteration:
  assumes "mute env" "stream_iteration env s = (x, s')"
  shows "batches (ag_log s') = batches (ag_log s)"
proof -
  obtain y s1 where o: "open_stream env s = (y, s1)" by fastforce
  then have b: "batches (ag_log s1) = batches (ag_log s)"
    and m: "\<And>p. y = Proceed p \<Longrightarrow> stream_rejected p"
    using assms(1)
    by (auto simp: open_stream_def stream_request_def build_request_def mute_def Let_def
        split: prod.splits if_splits sum.splits)
  show ?thesis
  proof (cases y)
    case (Proceed p)
    obtain z s2 where z: "vet_stream p s1 = (z, s2)" by fastforce
    then have "batches (ag_log s2) = batches (ag_log s1)" "\<And>c. z \<noteq> Proceed c"
      using m [OF Proceed]
      by (auto simp: vet_stream_def stream_rejected_def Let_def split: prod.splits if_splits sum.splits)
    then show ?thesis using assms(2) o Proceed z b by (cases z) (auto simp: stream_iteration_def)
  qed (use assms(2) o b in \<open>auto simp: stream_iteration_def\<close>)
qed

lemma mute_runs_nothing:
  assumes "mute env"
  shows "batches (ag_log (snd (run_streaming_with_system env input g system s))) = batches (ag_log s)"
proof -
  let ?env = "with_gate g None env"
  have m: "mute ?env" using assms by (simp add: mute_def with_gate_def)
  have "batches (ag_log (snd (stream_loop ?env (stream_start env input system s)))) = batches (ag_log s)"
    by (rule streamed.loop_invariant) (use mute_iteration [OF m] in \<open>auto simp: stream_start_def\<close>)
  then show ?thesis by (simp add: run_streaming_with_system_def)
qed

text \<open>
  A streaming model that only calls tools never gets one run: if the text of every streamed
  answer is blank (as models answer that call a tool without a comment), a whole streaming run
  executes no batch of tools, whatever calls the answers contain.
\<close>

theorem stream_blank_text_runs_nothing:
  assumes "\<forall>w req chunks w'. ae_complete_stream env w req = (Inr chunks, w') \<longrightarrow>
     str_trim (fst (collect_stream (ae_parse env) chunks ([], []))) = []"
  shows "batches (ag_log (snd (run_streaming_with_system env input g system s))) = batches (ag_log s)"
  by (rule mute_runs_nothing) (use assms in \<open>auto simp: mute_def stream_rejected_def\<close>)

theorem stream_blank_text_runs_nothing_witness:
  "batches (ag_log (snd (run_streaming_with_system
      ((exa ex_call None)\<lparr>ae_complete_stream := \<lambda>w req. (Inr [Inr (ex_delta (Some ''1'') (Some ''t'') ''{}'')], w),
         ae_parse := \<lambda>_. Some (JObject [])\<rparr>) ''hi'' auto_approval_gate None (ex_state (thread_new ''x'' 5 5 True))))) = []"
proof -
  have "str_trim [] = []" by (simp add: str_trim_def)
  then show ?thesis
    by (subst stream_blank_text_runs_nothing) (auto simp: ex_state_def ex_delta_def collect_choice_def opt_str_def)
qed

end
