(* ===== verification/Memory_File.thy ===== *)
theory Memory_File
  imports Filesystem
begin

text \<open>
  The project memory of finished pipelines: \<open>MemoryFileManager\<close> of
  \<open>sentinel-core/src/memory_file.rs\<close>. The manager keeps its summaries after a flush, as the
  code does.
\<close>

record memory_file =
  mf_path :: string
  mf_summaries :: "string list"

definition memory_file_new :: "string \<Rightarrow> memory_file" where
  "memory_file_new project_root = \<lparr>mf_path = path_join project_root ''PROJECT.md'', mf_summaries = []\<rparr>"

definition record_session :: "string \<Rightarrow> memory_file \<Rightarrow> memory_file" where
  "record_session summary m = m\<lparr>mf_summaries := mf_summaries m @ [summary]\<rparr>"

definition read_memory :: "memory_file \<Rightarrow> fs \<Rightarrow> string + string" where
  "read_memory m f = (if fs_exists f (mf_path m) then read_to_string f (mf_path m) else Inr [])"

definition history_heading :: string where
  "history_heading = ''## Session History''"

definition memory_heading :: string where
  "memory_heading = ''# Project Memory'' @ LF @ LF"

definition kept_memory :: "string \<Rightarrow> string" where
  "kept_memory existing =
     (case str_find existing history_heading of
        Some i \<Rightarrow> take i existing
      | None \<Rightarrow> existing @ (if existing \<noteq> [] \<and> \<not> ends_with existing LF then LF else []))"

definition session_entry :: "nat \<Rightarrow> string \<Rightarrow> string" where
  "session_entry i summary = ''### Session '' @ show_nat (i + 1) @ LF @ summary @ LF @ LF"

definition memory_text :: "string \<Rightarrow> string list \<Rightarrow> string" where
  "memory_text existing summaries =
     memory_heading @ kept_memory existing @ LF @ history_heading @ LF @ LF
       @ concat (map (\<lambda>(i, x). session_entry i x) (enumerate 0 summaries))
       @ ''---'' @ LF @ ''*Auto-generated by Sentinel memory manager*'' @ LF"

definition flush :: "memory_file \<Rightarrow> fs \<Rightarrow> (string + unit) \<times> fs" where
  "flush m f =
     (if mf_summaries m = [] then (Inr (), f)
      else
        case read_memory m f of
          Inl e \<Rightarrow> (Inl e, f)
        | Inr existing \<Rightarrow>
            (case (case path_parent (mf_path m) of
                     Some d \<Rightarrow> fs_create_dir_all f d | None \<Rightarrow> Inr f) of
               Inl e \<Rightarrow> (Inl (show_io_error e), f)
             | Inr f1 \<Rightarrow>
                 (case fs_write f1 (mf_path m) (memory_text existing (mf_summaries m)) of
                    Inl e \<Rightarrow> (Inl (show_io_error e), f1)
                  | Inr f2 \<Rightarrow> (Inr (), f2))))"

section \<open>Lemmas\<close>

lemma str_find_take: "str_find s p = Some i \<Longrightarrow> p \<noteq> [] \<Longrightarrow> \<not> str_contains (take i s) p"
proof (induction s arbitrary: i)
  case (Cons c s)
  show ?case
  proof (cases "starts_with (c # s) p")
    case True
    with Cons.prems have "i = 0" by (simp add: str_find.simps [of "c # s"])
    with Cons.prems show ?thesis by (simp add: str_contains_sublist)
  next
    case False
    with Cons.prems obtain j where j: "i = Suc j" "str_find s p = Some j"
      by (auto simp: str_find.simps [of "c # s"])
    have "\<not> prefix p (c # take j s)"
      using False unfolding starts_with_prefix by (metis take_Suc_Cons take_is_prefix prefix_order.trans)
    moreover have "\<not> sublist p (take j s)" using Cons.IH [OF j(2) Cons.prems(2)] by (simp add: str_contains_sublist)
    ultimately show ?thesis using j(1) by (simp add: str_contains_sublist sublist_Cons_right)
  qed
qed (simp add: str_contains_sublist)

lemma sublist_across: "sublist p (a @ c # b) \<Longrightarrow> c \<notin> set p \<Longrightarrow> sublist p a \<or> sublist p b"
proof -
  assume s: "sublist p (a @ c # b)" and c: "c \<notin> set p"
  have pre: "q = []" if "prefix q (c # b)" "set q \<subseteq> set p" for q
    using that c by (cases q) auto
  from s consider "sublist p a" | "sublist p (c # b)" | q r where "p = q @ r" "suffix q a" "prefix r (c # b)"
    unfolding sublist_append by blast
  then show ?thesis
  proof cases
    case 2
    then have "prefix p (c # b) \<or> sublist p b" by (simp add: sublist_Cons_right)
    then show ?thesis using pre [of p] by auto
  next
    case 3
    then have "r = []" by (intro pre) auto
    with 3 show ?thesis by (simp add: suffix_imp_sublist)
  qed simp
qed

lemma str_find_after:
  "\<not> str_contains a p \<Longrightarrow> c \<notin> set p \<Longrightarrow> p \<noteq> [] \<Longrightarrow> str_find (a @ c # p @ b) p = Some (Suc (length a))"
proof (induction a)
  case Nil
  then have "\<not> starts_with (c # p @ b) p" by (cases p) (auto simp: starts_with_def)
  moreover have "str_find (p @ b) p = Some 0" by (subst str_find.simps) simp
  ultimately show ?case by (simp add: str_find.simps [of "c # p @ b"])
next
  case (Cons x a)
  have "\<not> starts_with (x # a @ c # p @ b) p"
  proof
    assume "starts_with (x # a @ c # p @ b) p"
    then have pre: "prefix p ((x # a) @ c # p @ b)" by (simp add: starts_with_prefix)
    then have "prefix p (x # a) \<or> (\<exists>q. p = (x # a) @ q \<and> prefix q (c # p @ b))" by (subst (asm) prefix_append) auto
    then show False using Cons.prems by (auto simp: str_contains_sublist prefix_imp_sublist prefix_Cons)
  qed
  moreover have "\<not> str_contains a p" using Cons.prems(1) by (simp add: str_contains_sublist sublist_Cons_right)
  ultimately show ?case using Cons by (simp add: str_find.simps [of "x # a @ c # p @ b"])
qed

lemma history_heading_props [simp]: "history_heading \<noteq> []" "CHR 0x0A \<notin> set history_heading"
  by (simp_all add: history_heading_def)

lemma kept_memory_clean: "\<not> str_contains (kept_memory e) history_heading"
proof (cases "str_find e history_heading")
  case None
  then have "\<not> sublist history_heading e" by (simp add: str_contains_sublist [symmetric] str_contains_def)
  then have "\<not> sublist history_heading (e @ [CHR 0x0A])"
    using sublist_across [of history_heading e "CHR 0x0A" "[]"] by auto
  with None \<open>\<not> sublist history_heading e\<close> show ?thesis by (simp add: kept_memory_def str_contains_sublist)
qed (simp add: kept_memory_def str_find_take)

lemma heading_clean: "\<not> str_contains (memory_heading @ kept_memory e) history_heading"
proof
  assume "str_contains (memory_heading @ kept_memory e) history_heading"
  then have "sublist history_heading (''# Project Memory'' @ CHR 0x0A # (CHR 0x0A # kept_memory e))"
    by (simp add: str_contains_sublist memory_heading_def)
  then have "sublist history_heading ''# Project Memory'' \<or> sublist history_heading ([] @ CHR 0x0A # kept_memory e)"
    using sublist_across [OF _ history_heading_props(2)] by simp
  moreover have "\<not> sublist history_heading ''# Project Memory''"
    using sublist_length_le [of history_heading "''# Project Memory''"] by (auto simp: history_heading_def)
  ultimately have "sublist history_heading ([] @ CHR 0x0A # kept_memory e)" by simp
  then have "sublist history_heading [] \<or> sublist history_heading (kept_memory e)"
    by (rule sublist_across) (rule history_heading_props(2))
  then show False using kept_memory_clean [of e] by (simp add: str_contains_sublist)
qed

lemma kept_memory_text: "kept_memory (memory_text e ss) = memory_heading @ kept_memory e @ LF"
proof -
  let ?rest = "LF @ LF @ concat (map (\<lambda>(i, x). session_entry i x) (enumerate 0 ss))
       @ ''---'' @ LF @ ''*Auto-generated by Sentinel memory manager*'' @ LF"
  have t: "memory_text e ss = (memory_heading @ kept_memory e) @ CHR 0x0A # history_heading @ ?rest"
    by (simp add: memory_text_def)
  have "str_find (memory_text e ss) history_heading = Some (Suc (length (memory_heading @ kept_memory e)))"
    unfolding t by (rule str_find_after [OF heading_clean]) simp_all
  then show ?thesis unfolding t by (simp add: kept_memory_def)
qed

lemma create_dir_all_cwd: "fs_create_dir_all f d = Inr f1 \<Longrightarrow> fs_cwd f1 = fs_cwd f"
  by (cases "mk_dirs (fs_root f) (loc f d)") (auto simp: fs_create_dir_all_def)

lemma flush_cases:
  assumes "flush m f = (Inr (), f')" "mf_summaries m \<noteq> []"
  obtains e where "read_memory m f = Inr e" "fs_read f' (mf_path m) = Some (memory_text e (mf_summaries m))"
    "fs_cwd f' = fs_cwd f"
proof -
  obtain e f1 where e: "read_memory m f = Inr e" and c: "fs_cwd f1 = fs_cwd f"
    and w: "fs_write f1 (mf_path m) (memory_text e (mf_summaries m)) = Inr f'"
    using assms by (auto simp: flush_def dest: create_dir_all_cwd split: sum.splits option.splits if_splits)
  from w obtain r where r: "put_file (fs_root f1) (loc f1 (mf_path m)) (memory_text e (mf_summaries m)) = Inr r"
    "f' = f1\<lparr>fs_root := r\<rparr>"
    by (cases "put_file (fs_root f1) (loc f1 (mf_path m)) (memory_text e (mf_summaries m))") (auto simp: fs_write_def)
  then have "fs_read f' (mf_path m) = Some (memory_text e (mf_summaries m))"
    by (simp add: fs_read_def file_at_put_file)
  with e c r(2) show thesis by (intro that) simp_all
qed

lemma read_memory_content:
  assumes "fs_read f (mf_path m) = Some c" "read_memory m f = Inr e"
  shows "e = c"
  using assms by (auto simp: read_memory_def read_to_string_def fs_read_def file_at_def fs_exists_def
      split: option.splits node.splits if_splits)

section \<open>Properties\<close>

text \<open>
  A flush rewrites the memory: after two successful flushes of the same file (two sessions),
  the file holds the heading twice, then what the first flush kept of the text before its
  history, and the history of the second flush only: no session of the first is left.
\<close>

theorem second_flush_forgets_first:
  assumes "flush m f = (Inr (), f1)" "flush m' f1 = (Inr (), f2)" and "mf_path m' = mf_path m"
    and "mf_summaries m \<noteq> []" "mf_summaries m' \<noteq> []"
  shows "\<exists>e. read_memory m f = Inr e \<and> fs_read f1 (mf_path m) = Some (memory_text e (mf_summaries m)) \<and>
    fs_read f2 (mf_path m) = Some (memory_heading @ memory_heading @ kept_memory e @ LF @ LF @ history_heading
      @ LF @ LF @ concat (map (\<lambda>(i, x). session_entry i x) (enumerate 0 (mf_summaries m')))
      @ ''---'' @ LF @ ''*Auto-generated by Sentinel memory manager*'' @ LF)"
proof -
  obtain e where e: "read_memory m f = Inr e" and r1: "fs_read f1 (mf_path m) = Some (memory_text e (mf_summaries m))"
    using flush_cases [OF assms(1,4)] by blast
  obtain e' where e': "read_memory m' f1 = Inr e'" and r2: "fs_read f2 (mf_path m') = Some (memory_text e' (mf_summaries m'))"
    using flush_cases [OF assms(2,5)] by blast
  have "e' = memory_text e (mf_summaries m)"
    using read_memory_content [OF _ e'] r1 assms(3) by simp
  then have "kept_memory e' = memory_heading @ kept_memory e @ LF" by (simp add: kept_memory_text)
  with e r1 r2 assms(3) show ?thesis by (simp add: memory_text_def)
qed

theorem second_flush_forgets_first_witness:
  "\<exists>f1 f2 c. flush (record_session ''a'' (memory_file_new ''/w'')) \<lparr>fs_root = Dir [], fs_cwd = []\<rparr> = (Inr (), f1)
    \<and> flush (record_session ''b'' (memory_file_new ''/w'')) f1 = (Inr (), f2)
    \<and> fs_read f2 ''/w/PROJECT.md'' = Some (memory_heading @ memory_heading @ c)"
proof -
  let ?f = "\<lparr>fs_root = Dir [], fs_cwd = []\<rparr> :: fs"
  let ?m = "record_session ''a'' (memory_file_new ''/w'')" and ?m' = "record_session ''b'' (memory_file_new ''/w'')"
  have 1: "fst (flush ?m ?f) = Inr ()" by code_simp
  have 2: "fst (flush ?m' (snd (flush ?m ?f))) = Inr ()" by code_simp
  have p: "mf_path ?m = ''/w/PROJECT.md''" "mf_path ?m' = ''/w/PROJECT.md''" by code_simp+
  from 1 2 obtain f1 f2 where f: "flush ?m ?f = (Inr (), f1)" "flush ?m' f1 = (Inr (), f2)"
    by (metis prod.collapse)
  have "mf_summaries ?m \<noteq> []" "mf_summaries ?m' \<noteq> []" by (simp_all add: record_session_def)
  from second_flush_forgets_first [OF f _ this] p f show ?thesis by fastforce
qed

end
