(* ===== verification/Pipeline.thy ===== *)
theory Pipeline
  imports Streaming Memory_File
begin

text \<open>
  The staged pipeline: \<open>PipelineAgent\<close> of \<open>sentinel-core/src/pipeline.rs\<close>. Each stage is a loop
  of its own over the shared thread, with the counters of the thread; it uses the agent's
  tools, plugins, compressor and provider, but neither its policy, sandbox, cancellation token
  nor checkpoints. \<open>pc_set_fs\<close> writes a file system back into the world, for the memory file.
\<close>

datatype pipeline_stage = Read | Triage | Draft | QA | Send

fun instruction :: "pipeline_stage \<Rightarrow> string" where
  "instruction Read =
     ''You are in the **READ** stage. Gather context and explore the codebase.'' @ LF @
     ''Use read, glob, grep, and web_search tools to understand the problem.'' @ LF @
     ''Do NOT make any changes yet.'' @ LF @
     ''When you have enough context, produce a summary and the pipeline will advance.''"
| "instruction Triage =
     ''You are in the **TRIAGE** stage. Analyze what you found and plan.'' @ LF @
     ''Identify which files need to change and the approach.'' @ LF @
     ''Do NOT implement yet.'' @ LF @
     ''When the plan is ready, describe it and the pipeline will advance.''"
| "instruction Draft =
     ''You are in the **DRAFT** stage. Implement the solution.'' @ LF @
     ''Write code, edit files, and make the necessary changes.'' @ LF @
     ''When implementation is complete, summarize what was done and the pipeline will advance.''"
| "instruction QA =
     ''You are in the **QA** stage. Review and verify your work.'' @ LF @
     ''Run tests, check for edge cases, and fix any issues found.'' @ LF @
     ''When verification passes, report the results and the pipeline will advance.''"
| "instruction Send =
     ''You are in the **SEND** stage. Finalize and present the solution.'' @ LF @
     ''Provide a complete summary of all changes made and the final result.''"

fun next_stage :: "pipeline_stage \<Rightarrow> pipeline_stage option" where
  "next_stage Read = Some Triage"
| "next_stage Triage = Some Draft"
| "next_stage Draft = Some QA"
| "next_stage QA = Some Send"
| "next_stage Send = None"

definition all_stages :: "pipeline_stage list" where
  "all_stages = [Read, Triage, Draft, QA, Send]"

fun label :: "pipeline_stage \<Rightarrow> string" where
  "label Read = ''READ''"
| "label Triage = ''TRIAGE''"
| "label Draft = ''DRAFT''"
| "label QA = ''QA''"
| "label Send = ''SEND''"

record 'w pipeline_config =
  pc_stages :: "pipeline_stage list"
  pc_save_checkpoints :: bool
  pc_rollback_on_error :: bool
  pc_memory_file :: "memory_file option"
  pc_set_fs :: "fs \<Rightarrow> 'w \<Rightarrow> 'w"

definition default_config :: "(fs \<Rightarrow> 'w \<Rightarrow> 'w) \<Rightarrow> 'w pipeline_config" where
  "default_config setter =
     \<lparr>pc_stages = all_stages, pc_save_checkpoints = True, pc_rollback_on_error = True,
      pc_memory_file = None, pc_set_fs = setter\<rparr>"

definition with_memory_file :: "memory_file \<Rightarrow> 'w pipeline_config \<Rightarrow> 'w pipeline_config" where
  "with_memory_file m cfg = cfg\<lparr>pc_memory_file := Some m\<rparr>"

section \<open>One iteration of a stage\<close>

definition stage_request :: "'w agent_env \<Rightarrow> 'w agent_state \<Rightarrow> completion_request \<times> 'w agent_state" where
  "stage_request env s =
     (let (compressed, w) = ae_compress_conversation env (ag_world s) (messages (ctx (ag_thread s)))
            (ae_default_model env);
          req = completion_request_new (ae_default_model env);
          req1 = (case ae_max_tokens env of Some m \<Rightarrow> req\<lparr>req_max_tokens := Some m\<rparr> | None \<Rightarrow> req)
      in (fold (\<lambda>m r. with_message r m) compressed req1, s\<lparr>ag_world := w\<rparr>))"

definition stage_ask :: "'w agent_env \<Rightarrow> 'w agent_state \<Rightarrow> choice outcome \<times> 'w agent_state" where
  "stage_ask env s =
     (let (t, ok) = increment_iteration (ag_thread s);
          s1 = s\<lparr>ag_thread := t\<rparr>
      in if \<not> ok then (Return (Inr (OutError ''Max iterations reached in stage'')), s1)
         else
           (let (req0, s2) = stage_request env s1;
                req = offer_tools env req0;
                s3 = logged (Asked req) s2
            in case ae_complete env (ag_world s3) req of
                 (Inl e, w) \<Rightarrow>
                   (Return (Inr (OutError (''LLM call failed: '' @ show_provider_error e))), s3\<lparr>ag_world := w\<rparr>)
               | (Inr r, w) \<Rightarrow>
                   (let s4 = charge_usage env (ae_provider_name env) (resp_usage r) (s3\<lparr>ag_world := w\<rparr>) in
                    if exhausted (budget (ag_thread s4))
                    then (Return (Inr (Success budget_exhausted_text)), set_status Completed s4)
                    else case resp_choices r of
                           [] \<Rightarrow> (Return (Inr (OutError ''No response from model'')), s4)
                         | c # _ \<Rightarrow> (Proceed c, s4))))"

definition stage_vet ::
    "pipeline_stage \<Rightarrow> choice \<Rightarrow> 'w agent_state \<Rightarrow> tool_call list outcome \<times> 'w agent_state" where
  "stage_vet stage c s0 =
     (let txt = extract_text (ch_message c);
          s = logged (Handled (Thinking txt))
                (on_thread (\<lambda>t. note_assistant_text txt (add_message (ch_message c) t)) s0);
          calls = message_tool_calls (ch_message c)
      in case (if calls = [] then Inr () else validate_tool_calls calls) of
           Inl errs \<Rightarrow> (Continue, on_thread (add_message (malformed_hint errs)) s)
         | Inr _ \<Rightarrow>
             (if ch_finish_reason c = Some ''length'' \<and> calls \<noteq> []
              then (Continue, on_thread (add_message truncation_hint) s)
              else if calls = []
              then (Return (Inr (Success txt)),
                    if next_stage stage = None then set_status Completed s else s)
              else (Proceed calls, s)))"

definition stage_batch_env :: "'w agent_env \<Rightarrow> 'w batch_env" where
  "stage_batch_env env =
     (ae_batch env)\<lparr>be_policy := None, be_sandbox := None, be_cancelled := (\<lambda>_. False),
                    be_interrupt := (\<lambda>_ _. None)\<rparr>"

definition stage_batch ::
    "'w agent_env \<Rightarrow> tool_call list \<Rightarrow> 'w agent_state \<Rightarrow> unit outcome \<times> 'w agent_state" where
  "stage_batch env calls s =
     (case call_tools (stage_batch_env env) tool_context_new calls (on_thread leave_plan s) of
        (Denied why, s1) \<Rightarrow> (Return (Inl (Generic (''Policy denied: '' @ why))), s1)
      | (Results rs, s1) \<Rightarrow> (Proceed (), fold (\<lambda>r. on_thread (add_message (result_message r))) rs s1))"

definition stage_end_turn :: "'w agent_env \<Rightarrow> 'w agent_state \<Rightarrow> unit outcome \<times> 'w agent_state" where
  "stage_end_turn env s =
     (let (t, ok) = increment_turn (ag_thread s);
          s1 = s\<lparr>ag_thread := t\<rparr>
      in if \<not> ok then (Return (Inr (OutError ''Max turns reached'')), s1)
         else if is_doom_loop (ae_dbg env) (ag_thread s1)
         then (Return (Inr (OutError ''Doom loop detected'')), s1)
         else (Continue, manage_context env s1))"

definition stage_iteration ::
    "'w agent_env \<Rightarrow> pipeline_stage \<Rightarrow> 'w agent_state \<Rightarrow> unit outcome \<times> 'w agent_state" where
  "stage_iteration env stage s =
     and_then (stage_ask env s) (\<lambda>c s.
     and_then (stage_vet stage c s) (\<lambda>calls s.
     and_then (stage_batch env calls s) (\<lambda>_ s.
     stage_end_turn env s)))"

section \<open>The loop of a stage\<close>

lemma stage_request_extends: "stage_request env s = (req, s') \<Longrightarrow> extends benv k s s'"
  by (auto simp: stage_request_def Let_def extends_world extends_refl split: prod.splits)

lemma stage_ask_extends:
  assumes "stage_ask env s = (x, s')"
  shows "extends benv 1 (s\<lparr>ag_thread := fst (increment_iteration (ag_thread s))\<rparr>) s'"
    and "\<not> snd (increment_iteration (ag_thread s)) \<Longrightarrow> returns x"
proof -
  let ?s1 = "s\<lparr>ag_thread := fst (increment_iteration (ag_thread s))\<rparr>"
  obtain req s2 where r: "stage_request env ?s1 = (req, s2)" by fastforce
  have "extends benv 0 ?s1 s2" by (rule stage_request_extends [OF r])
  then have "extends benv 1 ?s1 (logged (Asked (offer_tools env req)) s2)" by (auto simp: extends_def)
  then show "extends benv 1 ?s1 s'" using assms r
    by (auto simp: stage_ask_def Let_def extends_world intro!: extends_intros
        split: prod.splits if_splits sum.splits list.splits)
  show "\<not> snd (increment_iteration (ag_thread s)) \<Longrightarrow> returns x"
    using assms by (auto simp: stage_ask_def Let_def split: prod.splits)
qed

lemma stage_vet_extends: "stage_vet stage c s = (x, s') \<Longrightarrow> extends benv 0 s s'"
  by (auto simp: stage_vet_def Let_def note_assistant_text_def intro!: extends_intros split: if_splits sum.splits)

lemma stage_batch_extends:
  assumes "stage_batch env calls s = (x, s')"
  shows "extends (stage_batch_env env) 0 s s'"
proof -
  obtain out s1 where c: "call_tools (stage_batch_env env) tool_context_new calls (on_thread leave_plan s) = (out, s1)"
    by fastforce
  have "extends (stage_batch_env env) 0 s (on_thread leave_plan s)" by (simp add: extends_intros leave_plan_def)
  then have "extends (stage_batch_env env) 0 s s1" using call_tools_extends [OF c] by (rule extends_trans) simp
  with assms c show ?thesis
    by (auto simp: stage_batch_def add_results_extends split: batch_outcome.splits)
qed

lemma stage_end_turn_extends:
  assumes "stage_end_turn env s = (x, s')"
  shows "extends benv 1 s s'"
proof -
  let ?s1 = "s\<lparr>ag_thread := (ag_thread s)\<lparr>turn_no := turn_no (ag_thread s) + 1\<rparr>\<rparr>"
  have "extends benv 0 s ?s1" by (simp add: extends_turn extends_refl)
  moreover from this have "extends benv 1 s (manage_context env ?s1)"
    using manage_context_extends by (rule extends_trans) simp
  ultimately show ?thesis using assms
    by (auto simp: stage_end_turn_def increment_turn_def Let_def intro: extends_mono split: if_splits)
qed

lemma stage_iteration_evolves:
  assumes "stage_iteration env stage s = (x, s')"
  shows "evolves (stage_batch_env env) 2 (s\<lparr>ag_thread := fst (increment_iteration (ag_thread s))\<rparr>) s'"
  using assms unfolding stage_iteration_def
proof (rule and_then_evolves [where j = 1 and k = 1])
  fix c s1
  assume "and_then (stage_vet stage c s1) (\<lambda>calls s. and_then (stage_batch env calls s) (\<lambda>_. stage_end_turn env)) = (x, s')"
  then show "evolves (stage_batch_env env) 1 s1 s'"
  proof (rule and_then_evolves [where j = 0 and k = 1])
    fix calls s2
    assume "and_then (stage_batch env calls s2) (\<lambda>_. stage_end_turn env) = (x, s')"
    then show "evolves (stage_batch_env env) 1 s2 s'"
      by (rule and_then_evolves [where j = 0 and k = 1])
        (simp_all add: extends_evolves [OF stage_batch_extends] extends_evolves [OF stage_end_turn_extends] del: One_nat_def)
  qed (auto intro: extends_evolves [OF stage_vet_extends])
qed (simp_all add: extends_evolves [OF stage_ask_extends(1)] del: One_nat_def)

lemma stage_iteration_left:
  assumes "stage_iteration env stage s = (x, s')" "\<not> returns x"
  shows "iter_left (ag_thread s') < iter_left (ag_thread s)"
proof -
  obtain y s1 where a: "stage_ask env s = (y, s1)" by fastforce
  have "snd (increment_iteration (ag_thread s))"
    using assms stage_ask_extends(2) [OF a] a by (cases y) (auto simp: stage_iteration_def)
  then show ?thesis
    using iter_left_tick evolves_iter_left [OF stage_iteration_evolves [OF assms(1)]] by fastforce
qed

function run_stage_loop ::
    "'w agent_env \<Rightarrow> pipeline_stage \<Rightarrow> 'w agent_state \<Rightarrow> agent_result \<times> 'w agent_state" where
  "run_stage_loop env stage s =
     (case stage_iteration env stage s of
        (Return r, s') \<Rightarrow> (r, s')
      | (Continue, s') \<Rightarrow> run_stage_loop env stage s'
      | (Proceed _, s') \<Rightarrow> run_stage_loop env stage s')"
  by pat_completeness auto
termination
  by (relation "measure (\<lambda>(_, _, s). iter_left (ag_thread s))") (auto dest!: stage_iteration_left [OF sym])

declare run_stage_loop.simps [simp del]

interpretation staged: counted_loop "stage_iteration env stage" "run_stage_loop env stage"
  "\<lambda>s. iter_left (ag_thread s)" for env stage
proof
  fix s
  show "run_stage_loop env stage s =
      (case stage_iteration env stage s of (Return r, s') \<Rightarrow> (r, s') | (_, s') \<Rightarrow> run_stage_loop env stage s')"
    by (subst run_stage_loop.simps) (auto split: prod.splits outcome.splits)
qed (rule stage_iteration_left)

section \<open>The pipeline\<close>

definition stage_prompt :: "'w agent_env \<Rightarrow> pipeline_stage \<Rightarrow> string" where
  "stage_prompt env stage =
     ae_prompt env @ LF @ LF @ ''---'' @ LF @ ''## Pipeline Stage: '' @ label stage @ LF @ LF @ instruction stage"

text \<open>The messages of a stage are added, then its loop runs.\<close>

definition run_stage ::
    "'w agent_env \<Rightarrow> string \<Rightarrow> string \<Rightarrow> pipeline_stage \<Rightarrow> 'w agent_state \<Rightarrow> agent_result \<times> 'w agent_state" where
  "run_stage env input cumulative stage s =
     (let s1 = (if cumulative = [] then on_thread (add_message (message_user input)) s else s);
          s2 = on_thread (add_message (message_system (stage_prompt env stage))) s1
      in run_stage_loop env stage s2)"

fun run_stages ::
    "'w agent_env \<Rightarrow> 'w pipeline_config \<Rightarrow> string \<Rightarrow> string \<Rightarrow> thread_checkpoint list \<Rightarrow> pipeline_stage list
       \<Rightarrow> 'w agent_state \<Rightarrow> agent_result option \<times> 'w agent_state" where
  "run_stages env cfg input cumulative cps [] s = (None, s)"
| "run_stages env cfg input cumulative cps (stage # stages) s =
     (case run_stage env input cumulative stage s of
        (Inr out, s1) \<Rightarrow>
          (let cps1 = (if pc_save_checkpoints cfg then cps @ [thread_snapshot (ag_thread s1)] else cps) in
           if next_stage stage = None then (Some (Inr out), set_status Completed s1)
           else run_stages env cfg input (cumulative @ text_or_empty out @ LF) cps1 stages s1)
      | (Inl e, s1) \<Rightarrow>
          (Some (Inl e),
           if pc_rollback_on_error cfg \<and> cps \<noteq> [] then on_thread (thread_restore (last cps)) s1 else s1))"

definition flush_memory ::
    "'w agent_env \<Rightarrow> 'w pipeline_config \<Rightarrow> 'w agent_state \<Rightarrow> memory_file option \<times> 'w agent_state" where
  "flush_memory env cfg s =
     (case pc_memory_file cfg of
        None \<Rightarrow> (None, s)
      | Some m \<Rightarrow>
          (let t = ag_thread s;
               m' = record_session (''Pipeline: '' @ show_nat (length (pc_stages cfg))
                      @ '' stages completed across '' @ show_word (turn_no t) @ '' turns, ''
                      @ show_word (iterations t) @ '' iterations'') m;
               (_, f) = flush m' (be_fs (ae_batch env) (ag_world s))
           in (Some m', s\<lparr>ag_world := pc_set_fs cfg f (ag_world s)\<rparr>)))"

definition run_pipeline ::
    "'w agent_env \<Rightarrow> 'w pipeline_config \<Rightarrow> string \<Rightarrow> 'w gate \<Rightarrow> 'w agent_state
       \<Rightarrow> agent_result \<times> memory_file option \<times> 'w agent_state" where
  "run_pipeline env0 cfg input g s =
     (let env = with_gate g None env0;
          s1 = set_status Running (logged (Stored (SeUserMessage (tid (ag_thread s)) input)) s)
      in case run_stages env cfg input [] [] (pc_stages cfg) s1 of
           (Some r, s2) \<Rightarrow> (r, pc_memory_file cfg, s2)
         | (None, s2) \<Rightarrow>
             (let (m, s3) = flush_memory env cfg (set_status Completed s2) in
              (Inr (Success ''Pipeline complete''), m, s3)))"


section \<open>Properties\<close>

lemma run_stages_send:
  "Send \<in> set stages \<Longrightarrow> \<exists>r s'. run_stages env cfg input cum cps stages s = (Some r, s')"
proof (induction stages arbitrary: cum cps s)
  case (Cons stage stages)
  obtain r s1 where r: "run_stage env input cum stage s = (r, s1)" by fastforce
  show ?case
  proof (cases r)
    case (Inr out)
    show ?thesis
    proof (cases "next_stage stage = None")
      case False
      then have "stage \<noteq> Send" by auto
      then have "Send \<in> set stages" using Cons.prems by simp
      then show ?thesis using Cons.IH r Inr False by (simp add: Let_def)
    qed (use r Inr in \<open>simp add: Let_def\<close>)
  qed (use r in simp)
qed simp

text \<open>
  A pipeline with a \<open>Send\<close> stage (the default has one) never writes its memory file: it
  always returns from inside the stages, so no session is recorded and nothing is flushed,
  whatever the outcome of the stages is.
\<close>

theorem send_stage_skips_memory:
  assumes "Send \<in> set (pc_stages cfg)" and "run_pipeline env cfg input g s = (r, m, s')"
  shows "m = pc_memory_file cfg \<and>
    run_stages (with_gate g None env) cfg input [] [] (pc_stages cfg)
      (set_status Running (logged (Stored (SeUserMessage (tid (ag_thread s)) input)) s)) = (Some r, s')"
proof -
  obtain q s2 where "run_stages (with_gate g None env) cfg input [] [] (pc_stages cfg)
      (set_status Running (logged (Stored (SeUserMessage (tid (ag_thread s)) input)) s)) = (Some q, s2)"
    using run_stages_send [OF assms(1)] by blast
  with assms(2) show ?thesis by (simp add: run_pipeline_def Let_def)
qed

theorem send_stage_skips_memory_witness:
  "\<exists>r s'. run_pipeline (exa ex_call None) (with_memory_file (memory_file_new ''/w'') (default_config (\<lambda>f w. w)))
      ''hi'' auto_approval_gate (ex_state (thread_new ''x'' 5 5 True)) = (r, Some (memory_file_new ''/w''), s')"
proof -
  let ?c = "with_memory_file (memory_file_new ''/w'') (default_config (\<lambda>f w. w)) :: unit pipeline_config"
  obtain r m s' where r: "run_pipeline (exa ex_call None) ?c ''hi'' auto_approval_gate
      (ex_state (thread_new ''x'' 5 5 True)) = (r, m, s')" by (metis prod_cases3)
  have "Send \<in> set (pc_stages ?c)" by (simp add: with_memory_file_def default_config_def all_stages_def)
  from send_stage_skips_memory [OF this r] r show ?thesis by (simp add: with_memory_file_def)
qed

lemma run_stages_error:
  assumes "pc_save_checkpoints cfg" "pc_rollback_on_error cfg"
    and "run_stages env cfg input cum cps stages s = (Some (Inl e), s')"
    and "cps \<noteq> [] \<Longrightarrow> last cps = thread_snapshot (ag_thread s)"
  shows "\<exists>pre stage post cum' sa sb. stages = pre @ stage # post \<and> run_stage env input cum' stage sa = (Inl e, sb) \<and>
    (if pre = [] \<and> cps = [] then s' = sb else s' = on_thread (thread_restore (thread_snapshot (ag_thread sa))) sb)"
  using assms(3,4)
proof (induction stages arbitrary: cum cps s)
  case (Cons stage stages)
  obtain r s1 where r: "run_stage env input cum stage s = (r, s1)" by fastforce
  show ?case
  proof (cases r)
    case (Inl d)
    with Cons.prems r assms(2) show ?thesis
      by (intro exI [of _ "[]"] exI [of _ stage] exI [of _ stages] exI [of _ cum] exI [of _ s] exI [of _ s1])
        (auto split: if_splits)
  next
    case (Inr out)
    let ?cum = "cum @ text_or_empty out @ LF" and ?cps = "cps @ [thread_snapshot (ag_thread s1)]"
    from Cons.prems(1) r Inr assms(1)
    have "run_stages env cfg input ?cum ?cps stages s1 = (Some (Inl e), s')"
      by (auto simp: Let_def split: if_splits)
    from Cons.IH [OF this] obtain pre st post cum' sa sb where
      "stages = pre @ st # post" "run_stage env input cum' st sa = (Inl e, sb)"
      "s' = on_thread (thread_restore (thread_snapshot (ag_thread sa))) sb" by auto
    then show ?thesis
      by (intro exI [of _ "stage # pre"] exI [of _ st] exI [of _ post] exI [of _ cum'] exI [of _ sa] exI [of _ sb]) simp
  qed
qed simp

text \<open>
  C40. Rollback of a failed stage: when a pipeline with checkpoints and rollback ends with an
  error, the error is that of one of its stages; if an earlier stage had completed, the message
  window, the phase and the counters are afterwards those in which the failed stage was entered.
  The transcript, the spending and everything outside the thread (the files the stage has
  written) stay as the failed stage left them. A failing first stage is not rolled back at all.
\<close>

theorem failed_stage_rolled_back:
  assumes "pc_save_checkpoints cfg" "pc_rollback_on_error cfg"
    and "run_pipeline env cfg input g s = (Inl e, m, s')"
  shows "\<exists>pre stage post cum sa sb. pc_stages cfg = pre @ stage # post
    \<and> run_stage (with_gate g None env) input cum stage sa = (Inl e, sb)
    \<and> ag_world s' = ag_world sb \<and> budget (ag_thread s') = budget (ag_thread sb)
    \<and> conversation (ag_thread s') = conversation (ag_thread sb)
    \<and> (if pre = [] then s' = sb else thread_snapshot (ag_thread s') = thread_snapshot (ag_thread sa))"
proof -
  let ?s1 = "set_status Running (logged (Stored (SeUserMessage (tid (ag_thread s)) input)) s)"
  have r: "run_stages (with_gate g None env) cfg input [] [] (pc_stages cfg) ?s1 = (Some (Inl e), s')"
    using assms(3) by (auto simp: run_pipeline_def Let_def split: prod.splits option.splits)
  obtain pre stage post cum sa sb where "pc_stages cfg = pre @ stage # post"
    "run_stage (with_gate g None env) input cum stage sa = (Inl e, sb)"
    "if pre = [] then s' = sb else s' = on_thread (thread_restore (thread_snapshot (ag_thread sa))) sb"
    using run_stages_error [OF assms(1,2) r] by auto
  then show ?thesis
    by (intro exI [of _ pre] exI [of _ stage] exI [of _ post] exI [of _ cum] exI [of _ sa] exI [of _ sb])
      (auto simp: thread_snapshot_def thread_restore_def fold_context_add context_clear_def split: if_splits)
qed

text \<open>A model that answers the first stage with text and the second with a call a plugin denies.\<close>

definition ex_pipeline_agent :: "unit agent_env" where
  "ex_pipeline_agent =
     (ex_agent auto_approval_gate \<lparr>reg_plugins = Map.empty, reg_hooks = [(''p'', fn_hook (\<lambda>_. PDenyRun ''no''))]\<rparr>
        (ex_response ex_call None))
     \<lparr>ae_complete := \<lambda>w req. (Inr (if length (req_messages req) \<le> 2 then ex_response (message_assistant ''ok'') None
        else ex_response ex_call None), w)\<rparr>"

lemma ex_pipeline_sel [simp]:
  "ae_complete ex_pipeline_agent w req = (Inr (if length (req_messages req) \<le> 2
     then ex_response (message_assistant ''ok'') None else ex_response ex_call None), w)"
  "ae_batch ex_pipeline_agent = ex_env auto_approval_gate
     \<lparr>reg_plugins = Map.empty, reg_hooks = [(''p'', fn_hook (\<lambda>_. PDenyRun ''no''))]\<rparr>"
  "ae_compress_conversation ex_pipeline_agent w ms m = (ms, w)" "ae_max_tokens ex_pipeline_agent = None"
  "ae_default_model ex_pipeline_agent = ''m''" "with_gate auto_approval_gate None ex_pipeline_agent = ex_pipeline_agent"
  by (simp_all add: ex_pipeline_agent_def with_gate_def ex_agent_def ex_env_def)

lemma ex_stage_ask:
  assumes "snd (increment_iteration (ag_thread s))" "\<not> exhausted (budget (ag_thread s))"
  shows "\<exists>s1. stage_ask ex_pipeline_agent s =
      (Proceed \<lparr>ch_index = 0, ch_message = (if length (messages (ctx (ag_thread s))) \<le> 2
          then message_assistant ''ok'' else ex_call), ch_finish_reason = None\<rparr>, s1)
    \<and> ag_thread s1 = fst (increment_iteration (ag_thread s))"
  using assms
  by (simp add: stage_ask_def increment_iteration_def stage_request_def fold_with_message completion_request_new_def
      offer_tools_def tool_defs_for_model_def with_tools_def Let_def ex_response_def charge_usage_def)

lemma ex_stage_ok:
  assumes "snd (increment_iteration (ag_thread s))" "\<not> exhausted (budget (ag_thread s))"
    and "messages (ctx (ag_thread s)) = []"
  shows "\<exists>s1. run_stage ex_pipeline_agent ''hi'' [] Read s = (Inr (Success ''ok''), s1)
    \<and> \<not> exhausted (budget (ag_thread s1)) \<and> length (messages (ctx (ag_thread s1))) = 3
    \<and> iterations (ag_thread s1) = iterations (ag_thread s) + 1 \<and> max_iterations (ag_thread s1) = max_iterations (ag_thread s)"
proof -
  let ?s = "on_thread (add_message (message_system (stage_prompt ex_pipeline_agent Read)))
     (on_thread (add_message (message_user ''hi'')) s)"
  have t: "snd (increment_iteration (ag_thread ?s))" using assms(1) by (simp add: increment_iteration_def Let_def)
  obtain s1 where a: "stage_ask ex_pipeline_agent ?s =
      (Proceed \<lparr>ch_index = 0, ch_message = message_assistant ''ok'', ch_finish_reason = None\<rparr>, s1)"
    and s1: "ag_thread s1 = fst (increment_iteration (ag_thread ?s))"
    using ex_stage_ask [OF t] assms(2,3) by (auto simp: context_add_def)
  show ?thesis using a s1 assms(2,3)
    by (simp add: run_stage_def Let_def run_stage_loop.simps [of _ _ ?s] stage_iteration_def stage_vet_def
        message_assistant_def message_text_def message_tool_calls_def extract_text_def note_assistant_text_def
        increment_iteration_def context_add_def)
qed

lemma ex_stage_denied:
  assumes "snd (increment_iteration (ag_thread s))" "\<not> exhausted (budget (ag_thread s))"
    and "length (messages (ctx (ag_thread s))) = 3" "cum \<noteq> []"
  shows "\<exists>s1. run_stage ex_pipeline_agent ''hi'' cum Triage s = (Inl (Generic ''Policy denied: no''), s1)"
proof -
  let ?s = "on_thread (add_message (message_system (stage_prompt ex_pipeline_agent Triage))) s"
  have t: "snd (increment_iteration (ag_thread ?s))" using assms(1) by (simp add: increment_iteration_def Let_def)
  obtain s1 where a: "stage_ask ex_pipeline_agent ?s =
      (Proceed \<lparr>ch_index = 0, ch_message = ex_call, ch_finish_reason = None\<rparr>, s1)"
    and s1: "ag_thread s1 = fst (increment_iteration (ag_thread ?s))"
    using ex_stage_ask [OF t] assms(2,3) by (auto simp: context_add_def)
  obtain s2 where v: "stage_vet Triage \<lparr>ch_index = 0, ch_message = ex_call, ch_finish_reason = None\<rparr> s1
      = (Proceed [(''1'', ''t'', JNull)], s2)" and s2: "\<not> exhausted (budget (ag_thread s2))"
    using s1 assms(2) by (simp add: stage_vet_def Let_def ex_call_def message_new_def message_tool_calls_def
        validate_tool_calls_def call_errors_def note_assistant_text_def increment_iteration_def)
  have "\<exists>s3. stage_batch ex_pipeline_agent [(''1'', ''t'', JNull)] s2 = (Return (Inl (Generic ''Policy denied: no'')), s3)"
    using s2 by (simp add: stage_batch_def call_tools_def stage_batch_env_def leave_plan_def ex_batch_simps
        fn_hook_def state_defs is_plan_def enter_act_phase_def)
  with a v assms(4) show ?thesis
    by (auto simp: run_stage_def Let_def run_stage_loop.simps [of _ _ ?s] stage_iteration_def)
qed

theorem failed_stage_rolled_back_witness:
  "\<exists>s' m pre stage post cum sa sb.
     run_pipeline ex_pipeline_agent (default_config (\<lambda>f w. w)) ''hi'' auto_approval_gate
       (ex_state (thread_new ''x'' 5 5 True)) = (Inl (Generic ''Policy denied: no''), m, s')
     \<and> all_stages = pre @ stage # post
     \<and> run_stage ex_pipeline_agent ''hi'' cum stage sa = (Inl (Generic ''Policy denied: no''), sb)"
proof -
  let ?s = "set_status Running (logged (Stored (SeUserMessage ''x'' ''hi'')) (ex_state (thread_new ''x'' 5 5 True)))"
  let ?c = "default_config (\<lambda>f w. w) :: unit pipeline_config"
  have "snd (increment_iteration (ag_thread ?s))" "\<not> exhausted (budget (ag_thread ?s))" "messages (ctx (ag_thread ?s)) = []"
    by (simp_all add: ex_state_def thread_new_def increment_iteration_def Let_def budget_new_def context_new_def)
  from ex_stage_ok [OF this] obtain s1 where s1: "run_stage ex_pipeline_agent ''hi'' [] Read ?s = (Inr (Success ''ok''), s1)"
    "\<not> exhausted (budget (ag_thread s1))" "length (messages (ctx (ag_thread s1))) = 3"
    "iterations (ag_thread s1) = 1" "max_iterations (ag_thread s1) = 5" by (auto simp: ex_state_def thread_new_def)
  then have "snd (increment_iteration (ag_thread s1))" by (simp add: increment_iteration_def Let_def)
  from ex_stage_denied [OF this s1(2,3), of "''ok'' @ LF"] obtain s2 where
    "run_stage ex_pipeline_agent ''hi'' (''ok'' @ LF) Triage s1 = (Inl (Generic ''Policy denied: no''), s2)" by auto
  with s1(1) obtain s' m where r: "run_pipeline ex_pipeline_agent ?c ''hi'' auto_approval_gate
      (ex_state (thread_new ''x'' 5 5 True)) = (Inl (Generic ''Policy denied: no''), m, s')"
    by (auto simp: run_pipeline_def Let_def default_config_def all_stages_def ex_state_def thread_new_def)
  have "pc_save_checkpoints ?c" "pc_rollback_on_error ?c" "pc_stages ?c = all_stages" by (simp_all add: default_config_def)
  with failed_stage_rolled_back [OF _ _ r] r show ?thesis by (simp, blast)
qed

end
