(* ===== verification/Sliding_Window.thy ===== *)
theory Sliding_Window
  imports F64
begin

text \<open>
  The bounded sample window of the circuit breaker (\<open>sentinel-circuit-breaker/src/window.rs\<close>),
  its configuration (\<open>config.rs\<close>) and the retry policies (\<open>retry_policy.rs\<close>, \<open>grpc.rs\<close>).

  An instant is the number of nanoseconds since some origin, a duration a number of
  nanoseconds. \<open>Instant::checked_sub\<close> that fails and one that gives an instant before every
  sample have the same effect, so the cutoff is compared on the natural numbers.
\<close>

type_synonym instant = nat
type_synonym duration = nat

section \<open>The window\<close>

definition MAX_WINDOW_ENTRIES :: nat where
  "MAX_WINDOW_ENTRIES = 10000"

record sliding_window =
  sw_entries :: "(instant \<times> bool) list"
  sw_failures :: nat

definition window_new :: sliding_window where
  "window_new = \<lparr>sw_entries = [], sw_failures = 0\<rparr>"

definition window_push :: "bool \<Rightarrow> instant \<Rightarrow> sliding_window \<Rightarrow> sliding_window" where
  "window_push is_failure ts w =
     (let w1 = (if MAX_WINDOW_ENTRIES \<le> length (sw_entries w) then
                  (case sw_entries w of
                     [] \<Rightarrow> w
                   | (_, was_failure) # es \<Rightarrow>
                       \<lparr>sw_entries = es, sw_failures = (if was_failure then sw_failures w - 1 else sw_failures w)\<rparr>)
                else w)
      in \<lparr>sw_entries = sw_entries w1 @ [(ts, is_failure)],
          sw_failures = (if is_failure then sw_failures w1 + 1 else sw_failures w1)\<rparr>)"

fun evict_before :: "instant \<Rightarrow> (instant \<times> bool) list \<Rightarrow> nat \<Rightarrow> sliding_window" where
  "evict_before cutoff [] n = \<lparr>sw_entries = [], sw_failures = n\<rparr>"
| "evict_before cutoff ((ts, was_failure) # es) n =
     (if ts < cutoff then evict_before cutoff es (if was_failure then n - 1 else n)
      else \<lparr>sw_entries = (ts, was_failure) # es, sw_failures = n\<rparr>)"

definition window_evict :: "duration \<Rightarrow> instant \<Rightarrow> sliding_window \<Rightarrow> sliding_window" where
  "window_evict window now w =
     (if now < window then w else evict_before (now - window) (sw_entries w) (sw_failures w))"

definition window_error_rate :: "sliding_window \<Rightarrow> rat" where
  "window_error_rate w =
     (if sw_entries w = [] then 0
      else f64_div (f64_of_nat (sw_failures w)) (f64_of_nat (length (sw_entries w))))"

definition window_sample_count :: "sliding_window \<Rightarrow> nat" where
  "window_sample_count w = length (sw_entries w)"

definition window_clear :: "sliding_window \<Rightarrow> sliding_window" where
  "window_clear w = \<lparr>sw_entries = [], sw_failures = 0\<rparr>"

section \<open>Configuration\<close>

definition DEFAULT_FAILURE_CODES :: "u16 list" where
  "DEFAULT_FAILURE_CODES = [429, 500, 502, 503, 504]"

record breaker_config =
  window_duration :: duration
  min_samples :: usize
  error_rate_threshold :: rat
  open_duration :: duration
  half_open_max_probes :: usize
  failure_codes :: "u16 set"
  bc_enabled :: bool

definition secs :: "nat \<Rightarrow> duration" where
  "secs n = n * 10 ^ 9"

definition default_failure_codes :: "u16 set" where
  "default_failure_codes = set DEFAULT_FAILURE_CODES"

definition config_server :: breaker_config where
  "config_server =
     \<lparr>window_duration = secs 60, min_samples = 10, error_rate_threshold = f64_lit (1 / 2),
      open_duration = secs 10, half_open_max_probes = 1, failure_codes = default_failure_codes,
      bc_enabled = True\<rparr>"

definition config_client :: breaker_config where
  "config_client =
     \<lparr>window_duration = secs 60, min_samples = 5, error_rate_threshold = f64_lit (1 / 2),
      open_duration = secs 60, half_open_max_probes = 1, failure_codes = {401}, bc_enabled = True\<rparr>"

text \<open>\<open>str::parse\<close> for \<open>bool\<close>; that for \<open>f64\<close> is an argument.\<close>

definition parse_bool :: "string \<Rightarrow> bool option" where
  "parse_bool s = (if s = ''true'' then Some True else if s = ''false'' then Some False else None)"

definition parse_failure_codes :: "string \<Rightarrow> u16 set" where
  "parse_failure_codes s =
     set (List.map_filter (\<lambda>c. map_option of_nat (parse_unsigned 16 (str_trim c))) (split_char CHR '','' s))"

definition lookup_or :: "(string \<Rightarrow> string option) \<Rightarrow> (string \<Rightarrow> 'a option) \<Rightarrow> string \<Rightarrow> 'a \<Rightarrow> 'a" where
  "lookup_or get parse key dflt =
     (case get key of
        Some v \<Rightarrow> (case parse v of Some x \<Rightarrow> x | None \<Rightarrow> dflt)
      | None \<Rightarrow> dflt)"

definition from_lookup_with_prefix ::
    "(string \<Rightarrow> rat option) \<Rightarrow> string \<Rightarrow> (string \<Rightarrow> string option) \<Rightarrow> breaker_config" where
  "from_lookup_with_prefix parse_f64 pre get =
     (let codes = (case get (pre @ ''FAILURE_CODES'') of
                     Some raw \<Rightarrow>
                       (if parse_failure_codes raw = {} then default_failure_codes else parse_failure_codes raw)
                   | None \<Rightarrow> default_failure_codes)
      in \<lparr>window_duration = secs (lookup_or get (parse_unsigned 64) (pre @ ''WINDOW_SECS'') 60),
          min_samples = lookup_or get (map_option of_nat \<circ> parse_unsigned 64) (pre @ ''MIN_SAMPLES'') 10,
          error_rate_threshold = lookup_or get parse_f64 (pre @ ''ERROR_RATE_THRESHOLD'') (f64_lit (1 / 2)),
          open_duration = secs (lookup_or get (parse_unsigned 64) (pre @ ''OPEN_DURATION_SECS'') 10),
          half_open_max_probes =
            max (lookup_or get (map_option of_nat \<circ> parse_unsigned 64) (pre @ ''HALF_OPEN_MAX_PROBES'') 1) 1,
          failure_codes = codes,
          bc_enabled = lookup_or get parse_bool (pre @ ''ENABLED'') True\<rparr>)"

definition is_failure_status :: "breaker_config \<Rightarrow> u16 \<Rightarrow> bool" where
  "is_failure_status c status \<longleftrightarrow> status \<in> failure_codes c"

section \<open>Retry policies\<close>

datatype disposition = Retryable | AuthRefresh | Terminal

record retry_policy =
  rp_retryable :: "u16 list"
  rp_auth_refresh :: "u16 list"
  rp_terminal :: "u16 list"
  rp_default :: disposition

definition rp_classify :: "retry_policy \<Rightarrow> u16 \<Rightarrow> disposition option" where
  "rp_classify p status =
     (if 200 \<le> status \<and> status < 300 then None
      else if status \<in> set (rp_auth_refresh p) then Some AuthRefresh
      else if status \<in> set (rp_terminal p) then Some Terminal
      else if status \<in> set (rp_retryable p) \<or> (500 \<le> status \<and> status < 600) then Some Retryable
      else Some (rp_default p))"

definition should_retry :: "retry_policy \<Rightarrow> u16 \<Rightarrow> bool" where
  "should_retry p status \<longleftrightarrow> rp_classify p status = Some Retryable"

definition rp_server :: retry_policy where
  "rp_server = \<lparr>rp_retryable = [429], rp_auth_refresh = [], rp_terminal = [], rp_default = Terminal\<rparr>"

definition rp_edge_client :: retry_policy where
  "rp_edge_client = \<lparr>rp_retryable = [429], rp_auth_refresh = [], rp_terminal = [525, 526], rp_default = Terminal\<rparr>"

definition rp_client_storage :: retry_policy where
  "rp_client_storage =
     \<lparr>rp_retryable = [], rp_auth_refresh = [401], rp_terminal = [400, 403, 404, 525, 526],
      rp_default = Retryable\<rparr>"

text \<open>The status codes of gRPC.\<close>

datatype grpc_code =
    GOk | GCancelled | GUnknown | GInvalidArgument | GDeadlineExceeded | GNotFound | GAlreadyExists
  | GPermissionDenied | GResourceExhausted | GFailedPrecondition | GAborted | GOutOfRange
  | GUnimplemented | GInternal | GUnavailable | GDataLoss | GUnauthenticated

definition grpc_default :: "grpc_code list" where
  "grpc_default = [GUnavailable, GUnknown]"

definition grpc_permissive :: "grpc_code list" where
  "grpc_permissive = [GUnavailable, GUnknown, GInternal, GDeadlineExceeded]"

definition grpc_is_retryable :: "grpc_code list \<Rightarrow> grpc_code \<Rightarrow> bool" where
  "grpc_is_retryable retryable c \<longleftrightarrow> c \<in> set retryable"

definition grpc_classify :: "grpc_code list \<Rightarrow> grpc_code \<Rightarrow> disposition option" where
  "grpc_classify retryable c =
     (if c = GOk then None else if grpc_is_retryable retryable c then Some Retryable else Some Terminal)"

section \<open>The window as a view of the sample history\<close>

text \<open>The abstract contents: of the last \<open>MAX_WINDOW_ENTRIES\<close> samples those that are not older than
  the window.\<close>

definition recent :: "duration \<Rightarrow> instant \<Rightarrow> (instant \<times> bool) list \<Rightarrow> (instant \<times> bool) list" where
  "recent window now hist =
     filter (\<lambda>(ts, _). now \<le> ts + window) (drop (length hist - MAX_WINDOW_ENTRIES) hist)"

definition fail_count :: "(instant \<times> bool) list \<Rightarrow> nat" where
  "fail_count es = length (filter snd es)"

definition window_record :: "duration \<Rightarrow> bool \<Rightarrow> instant \<Rightarrow> sliding_window \<Rightarrow> sliding_window" where
  "window_record window f now w = window_evict window now (window_push f now w)"

definition chronological :: "(instant \<times> bool) list \<Rightarrow> bool" where
  "chronological es \<longleftrightarrow> sorted (map fst es)"

definition window_inv :: "sliding_window \<Rightarrow> bool" where
  "window_inv w \<longleftrightarrow> sw_failures w = fail_count (sw_entries w) \<and> length (sw_entries w) \<le> MAX_WINDOW_ENTRIES"

lemma fail_count_simps [simp]:
  "fail_count [] = 0" "fail_count ((t, f) # es) = (if f then Suc (fail_count es) else fail_count es)"
  "fail_count (es @ es') = fail_count es + fail_count es'"
  by (simp_all add: fail_count_def)

lemma window_push_inv: "window_inv w \<Longrightarrow> window_inv (window_push f ts w)"
  by (cases "sw_entries w") (auto simp: window_inv_def window_push_def Let_def MAX_WINDOW_ENTRIES_def)

lemma evict_before_inv:
  "n = fail_count es \<Longrightarrow> sw_entries (evict_before c es n) = dropWhile (\<lambda>(ts, _). ts < c) es
    \<and> sw_failures (evict_before c es n) = fail_count (dropWhile (\<lambda>(ts, _). ts < c) es)"
  by (induction c es n rule: evict_before.induct) auto

lemma window_evict_eq:
  assumes "window_inv w"
  shows "sw_entries (window_evict W now w) = dropWhile (\<lambda>(ts, _). ts + W < now) (sw_entries w)"
    and "window_inv (window_evict W now w)"
proof -
  have "now < W \<Longrightarrow> dropWhile (\<lambda>(ts, _). ts + W < now) es = es" for es :: "(nat \<times> bool) list"
    by (cases es) auto
  moreover have "(\<lambda>(ts, _). ts < now - W) = (\<lambda>(ts, _ :: bool). ts + W < now)" by auto
  ultimately show e: "sw_entries (window_evict W now w) = dropWhile (\<lambda>(ts, _). ts + W < now) (sw_entries w)"
    using assms evict_before_inv [of "sw_failures w" "sw_entries w" "now - W"]
    by (simp add: window_evict_def window_inv_def)
  have "length (dropWhile P (sw_entries w)) \<le> MAX_WINDOW_ENTRIES" for P
    using assms length_dropWhile_le [of P "sw_entries w"] by (simp add: window_inv_def)
  then show "window_inv (window_evict W now w)"
    using assms evict_before_inv [of "sw_failures w" "sw_entries w" "now - W"] e
    by (auto simp: window_evict_def window_inv_def)
qed

lemma dropWhile_chronological:
  "chronological es \<Longrightarrow> dropWhile (\<lambda>(ts, _). ts + W < now) es = filter (\<lambda>(ts, _). now \<le> ts + W) es"
proof (induction es)
  case (Cons e es)
  obtain t f where e: "e = (t, f)" by fastforce
  show ?case
  proof (cases "t + W < now")
    case True
    with Cons e show ?thesis by (simp add: chronological_def)
  next
    case False
    with Cons.prems e have "\<forall>(ts, _) \<in> set es. now \<le> ts + W" by (fastforce simp: chronological_def)
    then have "filter (\<lambda>(ts, _). now \<le> ts + W) es = es" by (auto simp: filter_id_conv)
    with False e show ?thesis by simp
  qed
qed simp


lemma recent_snoc:
  assumes "chronological hist" "\<forall>(ts, _) \<in> set hist. ts \<le> now'" "now \<le> now'"
    and es: "es = recent W now hist"
  shows "filter (\<lambda>(ts, _). now' \<le> ts + W)
      ((if MAX_WINDOW_ENTRIES \<le> length es then tl es else es) @ [(now', f)]) = recent W now' (hist @ [(now', f)])"
proof -
  let ?P = "\<lambda>n. \<lambda>(ts, _ :: bool). n \<le> ts + W" and ?M = MAX_WINDOW_ENTRIES
  define d where "d = drop (length hist - ?M) hist"
  have M: "0 < ?M" by (simp add: MAX_WINDOW_ENTRIES_def)
  have ed: "es = filter (?P now) d" using es by (simp add: recent_def d_def)
  have PP: "filter (?P now') (filter (?P now) xs) = filter (?P now') xs" for xs
    using assms(3) by (auto simp: filter_filter intro!: filter_cong)
  have len: "length d = min ?M (length hist)" by (simp add: d_def)
  have new: "recent W now' (hist @ [(now', f)]) =
      filter (?P now') ((if ?M \<le> length hist then tl d else d) @ [(now', f)])"
  proof (cases "?M \<le> length hist")
    case True
    then have "drop (Suc (length hist) - ?M) hist = tl d" by (simp add: d_def Suc_diff_le drop_Suc tl_drop)
    moreover have "Suc 0 - ?M = 0" using M by simp
    ultimately show ?thesis using True by (simp add: recent_def)
  qed (simp add: recent_def d_def)
  show ?thesis
  proof (cases "?M \<le> length es")
    case True
    then have "length d \<le> length (filter (?P now) d)" using ed len by simp
    then have "length (filter (?P now) d) = length d" using length_filter_le [of "?P now" d] by (rule antisym [rotated])
    then have "es = d" using ed by (metis length_filter_less linorder_not_less order_refl filter_id_conv)
    with True len new show ?thesis by simp
  next
    case False
    have "filter (?P now') (if ?M \<le> length hist then tl d else d) = filter (?P now') d"
    proof (cases "?M \<le> length hist")
      case True
      then obtain t g ds where d: "d = (t, g) # ds" using len M by (cases d) auto
      have "\<not> now \<le> t + W"
      proof
        assume "now \<le> t + W"
        moreover have "chronological d" using assms(1) by (simp add: d_def chronological_def drop_map [symmetric] sorted_wrt_drop)
        ultimately have "\<forall>x \<in> set d. ?P now x" using d by (fastforce simp: chronological_def)
        then have "es = d" using ed by (simp add: filter_id_conv)
        with False True len show False by simp
      qed
      then show ?thesis using d assms(3) True by simp
    qed simp
    then show ?thesis using False new ed PP by simp
  qed
qed

section \<open>Properties\<close>

definition tracks :: "duration \<Rightarrow> (instant \<times> bool) list \<Rightarrow> instant \<Rightarrow> sliding_window \<Rightarrow> bool" where
  "tracks W hist now w \<longleftrightarrow> sw_entries w = recent W now hist \<and> sw_failures w = fail_count (recent W now hist)"

lemma tracks_inv: "tracks W hist now w \<Longrightarrow> window_inv w"
  by (auto simp: tracks_def window_inv_def recent_def intro: order_trans [OF length_filter_le])

lemma window_push_entries:
  "window_inv w \<Longrightarrow> sw_entries (window_push f ts w) =
     (if MAX_WINDOW_ENTRIES \<le> length (sw_entries w) then tl (sw_entries w) else sw_entries w) @ [(ts, f)]"
  by (cases "sw_entries w") (auto simp: window_push_def Let_def MAX_WINDOW_ENTRIES_def)

lemma recent_subset: "set (recent W now hist) \<subseteq> set hist"
  by (auto simp: recent_def dest: in_set_dropD)

lemma chronological_recent: "chronological hist \<Longrightarrow> chronological (recent W now hist)"
  unfolding chronological_def recent_def by (metis drop_map sorted_filter sorted_wrt_drop)

lemma chronological_snoc:
  "chronological (es @ [(t, f)]) \<longleftrightarrow> chronological es \<and> (\<forall>(ts, _) \<in> set es. ts \<le> t)"
  by (auto simp: chronological_def sorted_append)

lemma tracks_record:
  assumes "tracks W hist now w" "chronological (hist @ [(now', f)])" "now \<le> now'"
  shows "tracks W (hist @ [(now', f)]) now' (window_record W f now' w)"
proof -
  let ?p = "window_push f now' w"
  have inv: "window_inv w" "window_inv ?p" using tracks_inv [OF assms(1)] window_push_inv by auto
  have c: "chronological hist" "\<forall>(ts, _) \<in> set hist. ts \<le> now'" using assms(2) by (simp_all add: chronological_snoc)
  have es: "sw_entries w = recent W now hist" using assms(1) by (simp add: tracks_def)
  have "chronological (sw_entries ?p)"
  proof -
    have "chronological (sw_entries w)" "\<forall>(ts, _) \<in> set (sw_entries w). ts \<le> now'"
      using chronological_recent [OF c(1)] c(2) recent_subset es by fastforce+
    moreover from this have "chronological (tl (sw_entries w))" "\<forall>(ts, _) \<in> set (tl (sw_entries w)). ts \<le> now'"
      by (cases "sw_entries w"; auto simp: chronological_def)+
    ultimately show ?thesis by (simp add: window_push_entries [OF inv(1)] chronological_snoc)
  qed
  then have "sw_entries (window_record W f now' w) = recent W now' (hist @ [(now', f)])"
    using recent_snoc [OF c assms(3) es, of f] window_evict_eq(1) [OF inv(2)]
    by (simp add: window_record_def dropWhile_chronological window_push_entries [OF inv(1)])
  moreover have "window_inv (window_record W f now' w)"
    using window_evict_eq(2) [OF inv(2)] by (simp add: window_record_def)
  ultimately show ?thesis by (simp add: tracks_def window_inv_def)
qed

text \<open>
  C17. The window refines the sample history: after any chronological sequence of samples, each
  pushed and followed by an eviction as the breaker does, the deque holds exactly the samples
  that are among the last ten thousand and not older than the window, in order, and the failure
  counter, which is only ever adjusted, is the number of failures among them (it never
  underflows).
\<close>

theorem window_refines_history:
  assumes "chronological hist"
  shows "let w = fold (\<lambda>(ts, f). window_record W f ts) hist window_new;
             now = (if hist = [] then 0 else fst (last hist))
         in sw_entries w = recent W now hist \<and> sw_failures w = fail_count (recent W now hist)"
proof -
  have "tracks W hist (if hist = [] then 0 else fst (last hist)) (fold (\<lambda>(ts, f). window_record W f ts) hist window_new)"
    using assms
  proof (induction hist rule: rev_induct)
    case Nil
    then show ?case by (simp add: tracks_def recent_def window_new_def)
  next
    case (snoc x hist)
    obtain t f where x: "x = (t, f)" by fastforce
    have c: "chronological hist" "\<forall>(ts, _) \<in> set hist. ts \<le> t" using snoc.prems x by (auto simp: chronological_snoc)
    have "(if hist = [] then 0 else fst (last hist)) \<le> t" using c(2) by (cases hist rule: rev_cases) auto
    with snoc x c(1) show ?case by (simp add: tracks_record)
  qed
  then show ?thesis by (simp add: tracks_def Let_def)
qed

theorem window_refines_history_witness:
  "let w = fold (\<lambda>(ts, f). window_record 5 f ts) [(0, True), (4, False), (7, True)] window_new
   in sw_entries w = [(4, False), (7, True)] \<and> sw_failures w = 1"
  using window_refines_history [of "[(0, True), (4, False), (7, True)]" 5]
  by (simp add: chronological_def recent_def Let_def MAX_WINDOW_ENTRIES_def)

section \<open>The interface of a sample window\<close>

text \<open>
  What the breaker relies on: recording and clearing keep the window consistent, so that the
  failures never outnumber the samples and the rate it compares is between 0 and 1.
\<close>

locale sample_window =
  fixes ok :: "'w \<Rightarrow> bool" and failures :: "'w \<Rightarrow> nat" and samples :: "'w \<Rightarrow> nat"
    and put :: "bool \<Rightarrow> instant \<Rightarrow> 'w \<Rightarrow> 'w" and evict :: "duration \<Rightarrow> instant \<Rightarrow> 'w \<Rightarrow> 'w"
  assumes ok_put: "ok w \<Longrightarrow> ok (put f ts w)" and ok_evict: "ok w \<Longrightarrow> ok (evict d now w)"
    and failures_le: "ok w \<Longrightarrow> failures w \<le> samples w"
begin

lemma ok_puts: "ok w \<Longrightarrow> ok (fold (\<lambda>(ts, f) w. evict d ts (put f ts w)) xs w)"
  by (induction xs arbitrary: w) (auto simp: ok_put ok_evict)

lemma rate_le_1:
  assumes "ok w" "samples w \<noteq> 0"
  shows "(of_nat (failures w) :: rat) / of_nat (samples w) \<le> 1"
  using failures_le [OF assms(1)] assms(2) by (simp add: divide_le_eq)

end

interpretation deque: sample_window window_inv sw_failures window_sample_count window_push window_evict
proof
  fix w
  assume "window_inv w"
  then show "sw_failures w \<le> window_sample_count w"
    using length_filter_le [of snd "sw_entries w"] by (simp add: window_inv_def window_sample_count_def fail_count_def)
qed (simp_all add: window_push_inv window_evict_eq)

end
