(* ===== verification/Breaker.thy ===== *)
theory Breaker
  imports Sliding_Window
begin

text \<open>
  The circuit breaker: \<open>sentinel-circuit-breaker/src/breaker.rs\<close>, with \<open>state.rs\<close>,
  \<open>observer.rs\<close> and \<open>registry.rs\<close>.

  First the operations as functions on the breaker, each run to its end at one reading of the
  clock. Then \<open>check\<close> and \<open>record\<close> again at the granularity of single accesses to shared state, as a
  step relation over any number of threads: every load, store, exchange and use of the locked window is one step,
  and the steps of the threads interleave freely. Alone, a thread's accesses add up to the operation.
\<close>

section \<open>State\<close>

datatype breaker_state = Closed | Open | HalfOpen

fun from_u8 :: "nat \<Rightarrow> breaker_state" where
  "from_u8 v = (if v = 0 then Closed else if v = 1 then Open else if v = 2 then HalfOpen else Closed)"

datatype sample_outcome = SSuccess | SFailure

datatype observation =
    StateChange breaker_state breaker_state string
  | ProbeAdmission bool
  | OutcomeSeen sample_outcome breaker_state

record breaker =
  br_config :: breaker_config
  br_state :: breaker_state
  baseline :: instant
  opened_at :: u64
  probes :: usize
  claimed_at :: u64
  open_fast :: bool
  br_window :: sliding_window
  br_seen :: "observation list"

definition with_clock :: "breaker_config \<Rightarrow> instant \<Rightarrow> breaker" where
  "with_clock c now =
     \<lparr>br_config = c\<lparr>half_open_max_probes := max (half_open_max_probes c) 1\<rparr>, br_state = Closed,
      baseline = now, opened_at = 0, probes = 0, claimed_at = 0, open_fast = False,
      br_window = window_new, br_seen = []\<rparr>"

definition observe :: "observation \<Rightarrow> breaker \<Rightarrow> breaker" where
  "observe v b = b\<lparr>br_seen := br_seen b @ [v]\<rparr>"

definition millis :: "nat \<Rightarrow> duration" where
  "millis n = n * 10 ^ 6"

definition elapsed_millis :: "instant \<Rightarrow> breaker \<Rightarrow> u64" where
  "elapsed_millis now b = of_nat ((now - baseline b) div 10 ^ 6)"

definition cas_state :: "breaker_state \<Rightarrow> breaker_state \<Rightarrow> breaker \<Rightarrow> bool \<times> breaker" where
  "cas_state from to b = (if br_state b = from then (True, b\<lparr>br_state := to\<rparr>) else (False, b))"

section \<open>Operations\<close>

definition trip :: "breaker_state \<Rightarrow> string \<Rightarrow> instant \<Rightarrow> breaker \<Rightarrow> breaker" where
  "trip prev reason now b =
     (let b1 = b\<lparr>br_state := Open, opened_at := elapsed_millis now b, probes := 0, open_fast := True\<rparr>
      in if prev \<noteq> Open then observe (StateChange prev Open reason) b1 else b1)"

definition close :: "breaker_state \<Rightarrow> string \<Rightarrow> breaker \<Rightarrow> breaker" where
  "close prev reason b =
     (let b1 = b\<lparr>br_state := Closed, br_window := window_clear (br_window b), probes := 0, open_fast := False\<rparr>
      in if prev \<noteq> Closed then observe (StateChange prev Closed reason) b1 else b1)"

definition lease_millis :: "breaker \<Rightarrow> u64" where
  "lease_millis b = of_nat (open_duration (br_config b) div 10 ^ 6)"

definition HALF_OPEN_PROBE_BACKOFF :: duration where
  "HALF_OPEN_PROBE_BACKOFF = millis 50"

definition try_half_open_probe :: "instant \<Rightarrow> breaker \<Rightarrow> (duration + unit) \<times> breaker" where
  "try_half_open_probe t b =
     (let now = elapsed_millis t b;
          prev = probes b;
          b1 = b\<lparr>probes := probes b + 1\<rparr>
      in if prev < half_open_max_probes (br_config b)
         then (Inr (), observe (ProbeAdmission True) (b1\<lparr>claimed_at := now\<rparr>))
         else
           (let b2 = b1\<lparr>probes := probes b1 - 1\<rparr>;
                claimed = claimed_at b2
            in if lease_millis b2 \<le> saturating_sub now claimed
               then (Inr (), observe (ProbeAdmission True) (b2\<lparr>claimed_at := now\<rparr>))
               else (Inl (min HALF_OPEN_PROBE_BACKOFF (open_duration (br_config b2))),
                     observe (ProbeAdmission False) b2)))"

definition check_open :: "instant \<Rightarrow> breaker \<Rightarrow> (duration + unit) \<times> breaker" where
  "check_open t b =
     (let elapsed = millis (unat (saturating_sub (elapsed_millis t b) (opened_at b))) in
      if open_duration (br_config b) \<le> elapsed then
        (case cas_state Open HalfOpen b of
           (True, b1) \<Rightarrow>
             try_half_open_probe t (observe (StateChange Open HalfOpen ''open_elapsed'') (b1\<lparr>open_fast := False\<rparr>))
         | (False, b1) \<Rightarrow>
             (case br_state b1 of
                Closed \<Rightarrow> (Inr (), b1)
              | HalfOpen \<Rightarrow> try_half_open_probe t b1
              | Open \<Rightarrow> (Inl (open_duration (br_config b1)
                           - millis (unat (saturating_sub (elapsed_millis t b1) (opened_at b1)))), b1)))
      else (Inl (open_duration (br_config b) - elapsed), b))"

definition breaker_check :: "instant \<Rightarrow> breaker \<Rightarrow> (duration + unit) \<times> breaker" where
  "breaker_check t b =
     (if \<not> bc_enabled (br_config b) then (Inr (), b)
      else case br_state b of
             Closed \<Rightarrow> (Inr (), b)
           | Open \<Rightarrow> check_open t b
           | HalfOpen \<Rightarrow> try_half_open_probe t b)"

definition should_trip :: "breaker_config \<Rightarrow> sliding_window \<Rightarrow> bool" where
  "should_trip c w \<longleftrightarrow>
     unat (min_samples c) \<le> window_sample_count w \<and> error_rate_threshold c \<le> window_error_rate w"

definition breaker_record :: "sample_outcome \<Rightarrow> instant \<Rightarrow> breaker \<Rightarrow> breaker" where
  "breaker_record x now b =
     (if \<not> bc_enabled (br_config b) then b
      else
        (let is_failure = (x = SFailure);
             prev = br_state b;
             sampled = b\<lparr>br_window := window_evict (window_duration (br_config b)) now
                                        (window_push is_failure now (br_window b))\<rparr>;
             b1 = (case prev of
                     Closed \<Rightarrow>
                       (if should_trip (br_config b) (br_window sampled) then trip prev ''trip'' now sampled
                        else sampled)
                   | HalfOpen \<Rightarrow>
                       (if is_failure then trip prev ''probe_failure'' now b else close prev ''probe_success'' b)
                   | Open \<Rightarrow> sampled)
         in observe (OutcomeSeen x (br_state b1)) b1))"

definition breaker_is_open :: "breaker \<Rightarrow> bool" where
  "breaker_is_open b = open_fast b"

definition breaker_error_rate :: "instant \<Rightarrow> breaker \<Rightarrow> rat \<times> breaker" where
  "breaker_error_rate now b =
     (let w = window_evict (window_duration (br_config b)) now (br_window b) in
      (window_error_rate w, b\<lparr>br_window := w\<rparr>))"

section \<open>The registry\<close>

record breaker_registry =
  breg_config :: breaker_config
  breg_breakers :: "string \<rightharpoonup> breaker"

definition breaker_registry_new :: "breaker_config \<Rightarrow> breaker_registry" where
  "breaker_registry_new c = \<lparr>breg_config = c, breg_breakers = Map.empty\<rparr>"

definition registry_get :: "string \<Rightarrow> instant \<Rightarrow> breaker_registry \<Rightarrow> breaker option \<times> breaker_registry" where
  "registry_get key now reg =
     (if \<not> bc_enabled (breg_config reg) then (None, reg)
      else case breg_breakers reg key of
             Some cb \<Rightarrow> (Some cb, reg)
           | None \<Rightarrow>
               (let cb = with_clock (breg_config reg) now in
                (Some cb, reg\<lparr>breg_breakers := (breg_breakers reg)(key \<mapsto> cb)\<rparr>)))"

section \<open>Runs of operations\<close>

text \<open>The operations a client can call, at non-decreasing times.\<close>

inductive breaker_step :: "instant \<times> breaker \<Rightarrow> instant \<times> breaker \<Rightarrow> bool" where
  checked: "t \<le> t' \<Longrightarrow> breaker_step (t, b) (t', snd (breaker_check t' b))"
| recorded: "t \<le> t' \<Longrightarrow> breaker_step (t, b) (t', breaker_record x t' b)"
| rated: "t \<le> t' \<Longrightarrow> breaker_step (t, b) (t', snd (breaker_error_rate t' b))"

inductive_cases breaker_stepE: "breaker_step (t, b) (t', b')"

inductive_simps breaker_step_simps: "breaker_step s s'"

definition breaker_inv :: "breaker \<Rightarrow> bool" where
  "breaker_inv b \<longleftrightarrow>
     open_fast b = (br_state b = Open) \<and> (br_state b \<noteq> HalfOpen \<longrightarrow> probes b = 0) \<and>
     0 < half_open_max_probes (br_config b) \<and> probes b \<le> half_open_max_probes (br_config b) \<and>
     window_inv (br_window b)"

lemma breaker_inv_new [inv_intros]: "breaker_inv (with_clock c now)"
  by (simp add: breaker_inv_def with_clock_def window_inv_def window_new_def less_max_iff_disj)

lemma breaker_inv_observe [simp]: "breaker_inv (observe v b) = breaker_inv b"
  by (simp add: breaker_inv_def observe_def)

lemma breaker_inv_probe [inv_intros]:
  assumes "breaker_inv b" "br_state b = HalfOpen"
  shows "breaker_inv (snd (try_half_open_probe t b))"
  using assms by (auto simp: try_half_open_probe_def Let_def) (auto simp: breaker_inv_def inc_le)

lemma breaker_inv_trip [inv_intros]: "breaker_inv b \<Longrightarrow> breaker_inv (trip p r t b)"
  by (simp add: trip_def Let_def) (simp add: breaker_inv_def)

lemma breaker_inv_close [inv_intros]: "breaker_inv b \<Longrightarrow> breaker_inv (close p r b)"
  by (simp add: close_def Let_def) (simp add: breaker_inv_def window_inv_def window_clear_def)

lemma breaker_inv_check [inv_intros]:
  assumes "breaker_inv b"
  shows "breaker_inv (snd (breaker_check t b))"
proof -
  have "breaker_inv (b\<lparr>br_state := HalfOpen, open_fast := False\<rparr>)" if "br_state b = Open"
    using assms that by (simp add: breaker_inv_def)
  then have "br_state b = Open \<Longrightarrow> breaker_inv (snd (check_open t b))"
    using assms by (auto simp: check_open_def cas_state_def Let_def observe_def
        intro!: breaker_inv_probe split: breaker_state.splits) (simp_all add: breaker_inv_def)
  then show ?thesis using assms
    by (auto simp: breaker_check_def intro: breaker_inv_probe split: breaker_state.splits)
qed

lemma breaker_inv_sampled: "breaker_inv b \<Longrightarrow>
    breaker_inv (b\<lparr>br_window := window_evict d t (window_push f t (br_window b))\<rparr>)"
  by (simp add: breaker_inv_def deque.ok_put deque.ok_evict)

lemma breaker_inv_record [inv_intros]: "breaker_inv b \<Longrightarrow> breaker_inv (breaker_record x t b)"
  by (auto simp: breaker_record_def Let_def breaker_inv_sampled intro!: inv_intros split: breaker_state.splits)

lemma breaker_inv_rate [inv_intros]: "breaker_inv b \<Longrightarrow> breaker_inv (snd (breaker_error_rate t b))"
  by (simp add: breaker_error_rate_def Let_def breaker_inv_def deque.ok_evict)

lemma breaker_inv_step: "breaker_step (t, b) (t', b') \<Longrightarrow> breaker_inv b \<Longrightarrow> breaker_inv b'"
  by (erule breaker_stepE) (auto intro: inv_intros)

section \<open>Single atomic accesses\<close>

text \<open>
  Where a thread is in \<open>check\<close>, \<open>record\<close> or one of the operations they call. In \<open>check_open\<close>: before the load of the opening time, before
  the compare-and-exchange of the state, before the store to the mirror, and, when the exchange was lost, before the two loads that
  follow. In \<open>try_half_open_probe\<close>: \<open>Fetch\<close> is before the \<open>fetch_add\<close>, \<open>Claim\<close> before the store of the claim
  time, \<open>Undo\<close> before the \<open>fetch_sub\<close>, \<open>TakeLease\<close> before the compare-and-exchange. In \<open>record\<close>: before the
  load of the state, before the window is locked, before each store of \<open>trip\<close> and \<open>close\<close>, before the last load of
  the state. The others are between two calls, with the answer of the last \<open>check\<close>; \<open>Slot\<close> and \<open>Lease\<close> are the two
  ways to be admitted as a probe.
\<close>

datatype pc =
    Ready | Passed | Slot | Lease | Refused duration
  | OpenLoad | OpenSwap | OpenMirror | OpenRetry | OpenReload
  | Fetch u64 | Claim u64 | Undo u64 | LoadClaim u64 | TakeLease u64 u64
  | Recording sample_outcome instant | SampleClosed sample_outcome instant | SampleOpen sample_outcome instant
  | TripState sample_outcome breaker_state string | TripOpened sample_outcome breaker_state string
  | TripProbes sample_outcome breaker_state string | TripFast sample_outcome breaker_state string
  | CloseState sample_outcome breaker_state string | CloseWindow sample_outcome breaker_state string
  | CloseProbes sample_outcome breaker_state string | CloseFast sample_outcome breaker_state string
  | RecordState sample_outcome

fun resting :: "pc \<Rightarrow> bool" where
  "resting Ready = True"
| "resting Passed = True"
| "resting Slot = True"
| "resting Lease = True"
| "resting (Refused _) = True"
| "resting _ = False"

text \<open>The accesses that matter for the accounting: an increment that admits a probe, and a store of zero.\<close>

datatype event = Admit | Reset | Other

inductive probe_access :: "breaker \<times> pc \<Rightarrow> event \<Rightarrow> breaker \<times> pc \<Rightarrow> bool" where
  admit: "probes b < half_open_max_probes (br_config b) \<Longrightarrow>
    probe_access (b, Fetch now) Admit (b\<lparr>probes := probes b + 1\<rparr>, Claim now)"
| full: "\<not> probes b < half_open_max_probes (br_config b) \<Longrightarrow>
    probe_access (b, Fetch now) Other (b\<lparr>probes := probes b + 1\<rparr>, Undo now)"
| claim: "probe_access (b, Claim now) Other (observe (ProbeAdmission True) (b\<lparr>claimed_at := now\<rparr>), Slot)"
| undo: "probe_access (b, Undo now) Other (b\<lparr>probes := probes b - 1\<rparr>, LoadClaim now)"
| load: "probe_access (b, LoadClaim now) Other (b, TakeLease now (claimed_at b))"
| lease: "lease_millis b \<le> saturating_sub now c \<Longrightarrow> claimed_at b = c \<Longrightarrow>
    probe_access (b, TakeLease now c) Other (observe (ProbeAdmission True) (b\<lparr>claimed_at := now\<rparr>), Lease)"
| refuse: "\<not> (lease_millis b \<le> saturating_sub now c \<and> claimed_at b = c) \<Longrightarrow>
    probe_access (b, TakeLease now c) Other
      (observe (ProbeAdmission False) b, Refused (min HALF_OPEN_PROBE_BACKOFF (open_duration (br_config b))))"

inductive open_access :: "breaker \<times> pc \<Rightarrow> event \<Rightarrow> breaker \<times> pc \<Rightarrow> bool" where
  cooling: "elapsed = millis (unat (saturating_sub (elapsed_millis t b) (opened_at b))) \<Longrightarrow> elapsed < open_duration (br_config b) \<Longrightarrow>
    open_access (b, OpenLoad) Other (b, Refused (open_duration (br_config b) - elapsed))"
| cooled: "open_duration (br_config b) \<le> millis (unat (saturating_sub (elapsed_millis t b) (opened_at b))) \<Longrightarrow>
    open_access (b, OpenLoad) Other (b, OpenSwap)"
| won: "br_state b = Open \<Longrightarrow> open_access (b, OpenSwap) Other (b\<lparr>br_state := HalfOpen\<rparr>, OpenMirror)"
| lost: "br_state b \<noteq> Open \<Longrightarrow> open_access (b, OpenSwap) Other (b, OpenRetry)"
| mirror: "open_access (b, OpenMirror) Other
    (observe (StateChange Open HalfOpen ''open_elapsed'') (b\<lparr>open_fast := False\<rparr>), Fetch (elapsed_millis t b))"
| retry_closed: "br_state b = Closed \<Longrightarrow> open_access (b, OpenRetry) Other (b, Passed)"
| retry_half_open: "br_state b = HalfOpen \<Longrightarrow> open_access (b, OpenRetry) Other (b, Fetch (elapsed_millis t b))"
| retry_open: "br_state b = Open \<Longrightarrow> open_access (b, OpenRetry) Other (b, OpenReload)"
| reload: "open_access (b, OpenReload) Other
    (b, Refused (open_duration (br_config b) - millis (unat (saturating_sub (elapsed_millis t b) (opened_at b)))))"

inductive check_access :: "breaker \<times> pc \<Rightarrow> event \<Rightarrow> breaker \<times> pc \<Rightarrow> bool" where
  pass: "resting p \<Longrightarrow> \<not> bc_enabled (br_config b) \<or> br_state b = Closed \<Longrightarrow> check_access (b, p) Other (b, Passed)"
| is_open: "resting p \<Longrightarrow> bc_enabled (br_config b) \<Longrightarrow> br_state b = Open \<Longrightarrow> check_access (b, p) Other (b, OpenLoad)"
| is_half_open: "resting p \<Longrightarrow> bc_enabled (br_config b) \<Longrightarrow> br_state b = HalfOpen \<Longrightarrow>
    check_access (b, p) Other (b, Fetch (elapsed_millis t b))"

inductive trip_access :: "breaker \<times> pc \<Rightarrow> event \<Rightarrow> breaker \<times> pc \<Rightarrow> bool" where
  set_state: "trip_access (b, TripState x prev reason) Other (b\<lparr>br_state := Open\<rparr>, TripOpened x prev reason)"
| set_opened: "trip_access (b, TripOpened x prev reason) Other (b\<lparr>opened_at := elapsed_millis t b\<rparr>, TripProbes x prev reason)"
| set_probes: "trip_access (b, TripProbes x prev reason) Reset (b\<lparr>probes := 0\<rparr>, TripFast x prev reason)"
| set_fast: "b' = b\<lparr>open_fast := True\<rparr> \<Longrightarrow> trip_access (b, TripFast x prev reason) Other
    (if prev \<noteq> Open then observe (StateChange prev Open reason) b' else b', RecordState x)"

inductive close_access :: "breaker \<times> pc \<Rightarrow> event \<Rightarrow> breaker \<times> pc \<Rightarrow> bool" where
  set_state: "close_access (b, CloseState x prev reason) Other (b\<lparr>br_state := Closed\<rparr>, CloseWindow x prev reason)"
| clear: "close_access (b, CloseWindow x prev reason) Other (b\<lparr>br_window := window_clear (br_window b)\<rparr>, CloseProbes x prev reason)"
| set_probes: "close_access (b, CloseProbes x prev reason) Reset (b\<lparr>probes := 0\<rparr>, CloseFast x prev reason)"
| set_fast: "b' = b\<lparr>open_fast := False\<rparr> \<Longrightarrow> close_access (b, CloseFast x prev reason) Other
    (if prev \<noteq> Closed then observe (StateChange prev Closed reason) b' else b', RecordState x)"

definition sampled :: "sample_outcome \<Rightarrow> instant \<Rightarrow> breaker \<Rightarrow> breaker" where
  "sampled x now b = b\<lparr>br_window := window_evict (window_duration (br_config b)) now (window_push (x = SFailure) now (br_window b))\<rparr>"

inductive record_access :: "breaker \<times> pc \<Rightarrow> event \<Rightarrow> breaker \<times> pc \<Rightarrow> bool" where
  start: "resting p \<Longrightarrow> bc_enabled (br_config b) \<Longrightarrow> record_access (b, p) Other (b, Recording x now)"
| on_closed: "br_state b = Closed \<Longrightarrow> record_access (b, Recording x now) Other (b, SampleClosed x now)"
| on_open: "br_state b = Open \<Longrightarrow> record_access (b, Recording x now) Other (b, SampleOpen x now)"
| on_half_open: "br_state b = HalfOpen \<Longrightarrow> record_access (b, Recording x now) Other
    (b, if x = SFailure then TripState x HalfOpen ''probe_failure'' else CloseState x HalfOpen ''probe_success'')"
| sample_closed: "b' = sampled x now b \<Longrightarrow> record_access (b, SampleClosed x now) Other
    (b', if should_trip (br_config b) (br_window b') then TripState x Closed ''trip'' else RecordState x)"
| sample_open: "record_access (b, SampleOpen x now) Other (sampled x now b, RecordState x)"
| report: "record_access (b, RecordState x) Other (observe (OutcomeSeen x (br_state b)) b, Ready)"

definition breaker_access :: "breaker \<times> pc \<Rightarrow> event \<Rightarrow> breaker \<times> pc \<Rightarrow> bool" where
  "breaker_access s e s' \<longleftrightarrow> probe_access s e s' \<or> open_access s e s' \<or> check_access s e s'
     \<or> trip_access s e s' \<or> close_access s e s' \<or> record_access s e s'"

text \<open>Any number of threads, and the accesses they have made.\<close>

inductive accesses :: "breaker \<times> pc list \<Rightarrow> event list \<Rightarrow> breaker \<times> pc list \<Rightarrow> bool" where
  none: "accesses s [] s"
| more: "accesses s es (b, pcs) \<Longrightarrow> i < length pcs \<Longrightarrow> breaker_access (b, pcs ! i) e (b', p') \<Longrightarrow>
    accesses s (es @ [e]) (b', pcs[i := p'])"

text \<open>Threads that have raised the counter and will lower it again.\<close>

fun overdrawn :: "pc \<Rightarrow> bool" where
  "overdrawn (Undo _) = True"
| "overdrawn _ = False"

definition tally :: "(pc \<Rightarrow> bool) \<Rightarrow> pc list \<Rightarrow> nat" where
  "tally P pcs = length (filter P pcs)"

lemma tally_le: "tally P pcs \<le> length pcs"
  by (simp add: tally_def)

lemma tally_update:
  assumes "i < length pcs"
  shows "tally P (pcs[i := p]) + (if P (pcs ! i) then 1 else 0) = tally P pcs + (if P p then 1 else 0)"
proof -
  have app: "tally P (xs @ q # ys) = tally P xs + (if P q then 1 else 0) + tally P ys" for q xs ys
    by (simp add: tally_def)
  have "tally P pcs = tally P (take i pcs @ pcs ! i # drop (Suc i) pcs)"
    using assms by (simp add: id_take_nth_drop [symmetric])
  moreover have "tally P (pcs[i := p]) = tally P (take i pcs @ p # drop (Suc i) pcs)"
    using assms by (simp add: upd_conv_take_nth_drop)
  ultimately show ?thesis by (simp add: app)
qed

text \<open>What one access does to the counter and to the place of its thread.\<close>

lemma access_counter:
  assumes "breaker_access (b, p) e (b', p')"
  obtains (admit) now where "e = Admit" "p = Fetch now" "p' = Claim now" "probes b < half_open_max_probes (br_config b)" "probes b' = probes b + 1"
  | (full) now where "e = Other" "p = Fetch now" "p' = Undo now" "\<not> probes b < half_open_max_probes (br_config b)" "probes b' = probes b + 1"
  | (undo) now where "e = Other" "p = Undo now" "\<not> overdrawn p'" "probes b' = probes b - 1"
  | (reset) "e = Reset" "\<not> overdrawn p" "\<not> overdrawn p'" "probes b' = 0"
  | (other) "e = Other" "\<not> overdrawn p" "\<not> overdrawn p'" "probes b' = probes b"
  using assms unfolding breaker_access_def
proof (elim disjE)
  assume "probe_access (b, p) e (b', p')"
  then show ?thesis by cases (use that in \<open>auto simp: observe_def\<close>)
next
  assume "open_access (b, p) e (b', p')"
  then show ?thesis by cases (rule that(5); simp add: observe_def)+
next
  assume "check_access (b, p) e (b', p')"
  then show ?thesis by cases (rule that(5), auto elim: resting.elims)+
next
  assume "trip_access (b, p) e (b', p')"
  then show ?thesis by cases (use that(4,5) in \<open>auto simp: observe_def split: if_splits\<close>)
next
  assume "close_access (b, p) e (b', p')"
  then show ?thesis by cases (use that(4,5) in \<open>auto simp: observe_def split: if_splits\<close>)
next
  assume "record_access (b, p) e (b', p')"
  then show ?thesis by cases (rule that(5), auto simp: observe_def sampled_def elim: resting.elims)+
qed

lemma access_config: "breaker_access (b, p) e (b', p') \<Longrightarrow> br_config b' = br_config b"
  unfolding breaker_access_def
proof (elim disjE)
  show "probe_access (b, p) e (b', p') \<Longrightarrow> ?thesis" by (erule probe_access.cases) (auto simp: observe_def)
  show "open_access (b, p) e (b', p') \<Longrightarrow> ?thesis" by (erule open_access.cases) (auto simp: observe_def)
  show "check_access (b, p) e (b', p') \<Longrightarrow> ?thesis" by (erule check_access.cases) auto
  show "trip_access (b, p) e (b', p') \<Longrightarrow> ?thesis" by (erule trip_access.cases) (auto simp: observe_def)
  show "close_access (b, p) e (b', p') \<Longrightarrow> ?thesis" by (erule close_access.cases) (auto simp: observe_def)
  show "record_access (b, p) e (b', p') \<Longrightarrow> ?thesis" by (erule record_access.cases) (auto simp: observe_def sampled_def)
qed

text \<open>The counter is the number of probes admitted plus the increments still to be taken back.\<close>

lemma probe_accounting:
  assumes "accesses (b0, pcs0) es (b, pcs)" "Reset \<notin> set es" "unat (probes b0) = tally overdrawn pcs0"
    and "unat m + length pcs0 < 2 ^ 64" "m = half_open_max_probes (br_config b0)"
  shows "half_open_max_probes (br_config b) = m \<and> length pcs = length pcs0 \<and> count_list es Admit \<le> unat m
    \<and> unat (probes b) = count_list es Admit + tally overdrawn pcs"
  using assms(1-3)
proof (induction "(b0, pcs0)" es "(b, pcs)" arbitrary: b pcs rule: accesses.induct)
  case (more es b pcs i e b' p')
  then have ih: "half_open_max_probes (br_config b) = m" "length pcs = length pcs0" "count_list es Admit \<le> unat m"
    "unat (probes b) = count_list es Admit + tally overdrawn pcs" and no: "e \<noteq> Reset" by auto
  note u = tally_update [OF more.hyps(3), of overdrawn p']
  have cfg: "half_open_max_probes (br_config b') = m" using access_config [OF more.hyps(4)] ih(1) by simp
  from more.hyps(4) show ?case
  proof (cases rule: access_counter)
    case (admit now)
    then have less: "unat (probes b) < unat m" using ih(1) by (simp add: word_less_nat_alt)
    moreover have "unat m < 2 ^ LENGTH(64)" by (rule unsigned_less)
    ultimately have "unat (probes b + 1) = Suc (unat (probes b))" by (simp add: unat_word_ariths)
    then show ?thesis using admit less u ih cfg by simp
  next
    case (full now)
    have "tally overdrawn (pcs[i := Undo now]) \<le> length pcs0" using tally_le [of overdrawn "pcs[i := Undo now]"] ih(2) by simp
    then have "unat (probes b) < 2 ^ 64 - 1" using full u ih(3,4) assms(4) by simp
    then have "unat (probes b + 1) = Suc (unat (probes b))" by (simp add: unat_word_ariths)
    then show ?thesis using full u ih cfg by simp
  next
    case (undo now)
    then have "0 < tally overdrawn pcs" using u by simp
    then have "unat (probes b - 1) = unat (probes b) - 1"
      using ih(4) by (metis add_gr_0 less_numeral_extra(3) unat_0 unat_minus_one)
    then show ?thesis using undo u ih cfg by simp
  qed (use no u ih cfg in auto)
qed (use assms(5) in auto)

subsection \<open>A thread alone\<close>

text \<open>Without interference the accesses of a thread add up to the operations above.\<close>

definition solo :: "breaker \<Rightarrow> pc \<Rightarrow> breaker \<Rightarrow> pc \<Rightarrow> bool" where
  "solo b p b' p' \<longleftrightarrow> (\<exists>es. accesses (b, [p]) es (b', [p']))"

lemma solo_refl [intro]: "solo b p b p"
  using accesses.none by (auto simp: solo_def)

lemma solo_step: "breaker_access (b1, p1) e (b2, p2) \<Longrightarrow> solo b p b1 p1 \<Longrightarrow> solo b p b2 p2"
  using accesses.more [of "(b, [p])" _ b1 "[p1]" 0 e b2 p2] by (auto simp: solo_def)

lemma breaker_accessI:
  "probe_access s e s' \<Longrightarrow> breaker_access s e s'" "open_access s e s' \<Longrightarrow> breaker_access s e s'"
  "check_access s e s' \<Longrightarrow> breaker_access s e s'" "trip_access s e s' \<Longrightarrow> breaker_access s e s'"
  "close_access s e s' \<Longrightarrow> breaker_access s e s'" "record_access s e s' \<Longrightarrow> breaker_access s e s'"
  by (simp_all add: breaker_access_def)

lemma solo_trans: "solo b1 p1 b2 p2 \<Longrightarrow> solo b p b1 p1 \<Longrightarrow> solo b p b2 p2"
proof -
  assume "solo b1 p1 b2 p2" "solo b p b1 p1"
  then obtain es where "accesses (b1, [p1]) es (b2, [p2])" by (auto simp: solo_def)
  then show "solo b p b2 p2"
  proof (induction "(b1, [p1])" es "(b2, [p2])" arbitrary: b2 p2 rule: accesses.induct)
    case (more es b' pcs i e b'' p')
    then obtain q where "pcs = [q]" "i = 0" by (cases pcs) (auto split: nat.splits)
    with more show ?case using solo_step by auto
  qed (use \<open>solo b p b1 p1\<close> in simp)
qed

text \<open>The answer of a \<open>check\<close> that ended at a place.\<close>

fun answer :: "pc \<Rightarrow> duration + unit" where
  "answer (Refused d) = Inl d"
| "answer _ = Inr ()"

lemma probe_solo: "\<exists>p'. resting p' \<and> solo b (Fetch (elapsed_millis t b)) (snd (try_half_open_probe t b)) p'
    \<and> answer p' = fst (try_half_open_probe t b)"
proof (cases "probes b < half_open_max_probes (br_config b)")
  case True
  have "solo b (Fetch (elapsed_millis t b)) (snd (try_half_open_probe t b)) Slot"
    using True solo_step [OF breaker_accessI(1) [OF probe_access.claim] solo_step [OF breaker_accessI(1) [OF probe_access.admit [OF True]] solo_refl]]
    by (simp add: try_half_open_probe_def)
  with True show ?thesis by (intro exI [of _ Slot]) (simp add: try_half_open_probe_def)
next
  case False
  let ?t = "elapsed_millis t b"
  let ?b = "b\<lparr>probes := probes b + 1, probes := probes b + 1 - 1\<rparr>"
  have 1: "solo b (Fetch ?t) ?b (TakeLease ?t (claimed_at ?b))"
    using solo_step [OF breaker_accessI(1) [OF probe_access.load] solo_step [OF breaker_accessI(1) [OF probe_access.undo]
      solo_step [OF breaker_accessI(1) [OF probe_access.full [OF False]] solo_refl]]] by simp
  show ?thesis
  proof (cases "lease_millis ?b \<le> saturating_sub ?t (claimed_at ?b)")
    case True
    from solo_step [OF breaker_accessI(1) [OF probe_access.lease [OF True refl]] 1] True False
    show ?thesis by (intro exI [of _ Lease]) (simp add: try_half_open_probe_def)
  next
    case no: False
    then have "\<not> (lease_millis ?b \<le> saturating_sub ?t (claimed_at ?b) \<and> claimed_at ?b = claimed_at ?b)" by simp
    from solo_step [OF breaker_accessI(1) [OF probe_access.refuse [OF this]] 1] no False
    show ?thesis by (intro exI [of _ "Refused (min HALF_OPEN_PROBE_BACKOFF (open_duration (br_config ?b)))"])
        (simp add: try_half_open_probe_def Let_def)
  qed
qed

lemma check_open_solo:
  assumes "br_state b = Open"
  shows "\<exists>p'. resting p' \<and> solo b OpenLoad (snd (check_open t b)) p' \<and> answer p' = fst (check_open t b)"
proof (cases "open_duration (br_config b) \<le> millis (unat (saturating_sub (elapsed_millis t b) (opened_at b)))")
  case True
  let ?b = "observe (StateChange Open HalfOpen ''open_elapsed'') (b\<lparr>br_state := HalfOpen, open_fast := False\<rparr>)"
  have "solo b OpenLoad ?b (Fetch (elapsed_millis t (b\<lparr>br_state := HalfOpen\<rparr>)))"
    using solo_step [OF breaker_accessI(2) [OF open_access.mirror] solo_step [OF breaker_accessI(2) [OF open_access.won [OF assms]]
      solo_step [OF breaker_accessI(2) [OF open_access.cooled [OF True]] solo_refl]]] by simp
  moreover have "elapsed_millis t (b\<lparr>br_state := HalfOpen\<rparr>) = elapsed_millis t ?b" by (simp add: elapsed_millis_def observe_def)
  ultimately have "solo b OpenLoad ?b (Fetch (elapsed_millis t ?b))" by (simp only:)
  with probe_solo [of ?b t] True assms show ?thesis
    using solo_trans by (fastforce simp: check_open_def cas_state_def)
next
  case False
  then show ?thesis
    using solo_step [OF breaker_accessI(2) [OF open_access.cooling [OF refl]] solo_refl, of t b]
    by (intro exI [of _ "Refused (open_duration (br_config b) - millis (unat (saturating_sub (elapsed_millis t b) (opened_at b))))"])
      (simp add: check_open_def not_le)
qed

lemma check_solo:
  assumes "resting p"
  shows "\<exists>p'. resting p' \<and> solo b p (snd (breaker_check t b)) p' \<and> answer p' = fst (breaker_check t b)"
proof -
  consider "\<not> bc_enabled (br_config b) \<or> br_state b = Closed" | "bc_enabled (br_config b)" "br_state b = Open"
    | "bc_enabled (br_config b)" "br_state b = HalfOpen" by (cases "br_state b") auto
  then show ?thesis
  proof cases
    case 1
    from solo_step [OF breaker_accessI(3) [OF check_access.pass [OF assms 1]] solo_refl] 1 show ?thesis
      by (intro exI [of _ Passed]) (auto simp: breaker_check_def)
  next
    case 2
    with solo_trans [OF _ solo_step [OF breaker_accessI(3) [OF check_access.is_open [OF assms 2]] solo_refl]] check_open_solo [OF 2(2), of t]
    show ?thesis by (fastforce simp: breaker_check_def)
  next
    case 3
    with solo_trans [OF _ solo_step [OF breaker_accessI(3) [OF check_access.is_half_open [OF assms 3]] solo_refl]] probe_solo [of b t]
    show ?thesis by (fastforce simp: breaker_check_def)
  qed
qed

lemma trip_solo:
  "solo b (TripState x prev reason) (observe (OutcomeSeen x Open) (trip prev reason t b)) Ready"
proof -
  let ?b1 = "b\<lparr>br_state := Open\<rparr>" let ?b2 = "?b1\<lparr>opened_at := elapsed_millis t ?b1\<rparr>" let ?b3 = "?b2\<lparr>probes := 0\<rparr>"
  note 1 = solo_step [OF breaker_accessI(4) [OF trip_access.set_state] solo_refl, of b x prev reason]
  note 2 = solo_step [OF breaker_accessI(4) [OF trip_access.set_opened] 1, of t]
  note 3 = solo_step [OF breaker_accessI(4) [OF trip_access.set_probes] 2]
  note 4 = solo_step [OF breaker_accessI(4) [OF trip_access.set_fast [OF refl]] 3]
  note 5 = solo_step [OF breaker_accessI(6) [OF record_access.report] 4]
  have "elapsed_millis t ?b1 = elapsed_millis t b" by (simp add: elapsed_millis_def)
  with 5 show ?thesis by (cases "prev = Open") (simp_all add: trip_def observe_def)
qed

lemma close_solo:
  "solo b (CloseState x prev reason) (observe (OutcomeSeen x Closed) (close prev reason b)) Ready"
proof -
  note 1 = solo_step [OF breaker_accessI(5) [OF close_access.set_state] solo_refl, of b x prev reason]
  note 2 = solo_step [OF breaker_accessI(5) [OF close_access.clear] 1]
  note 3 = solo_step [OF breaker_accessI(5) [OF close_access.set_probes] 2]
  note 4 = solo_step [OF breaker_accessI(5) [OF close_access.set_fast [OF refl]] 3]
  note 5 = solo_step [OF breaker_accessI(6) [OF record_access.report] 4]
  then show ?thesis by (cases "prev = Closed") (simp_all add: close_def observe_def)
qed

lemma record_solo:
  assumes "resting p" "bc_enabled (br_config b)"
  shows "solo b p (breaker_record x t b) Ready"
proof (cases "br_state b")
  case Closed
  note 1 = solo_step [OF breaker_accessI(6) [OF record_access.start [OF assms]] solo_refl, of x t]
  note 2 = solo_step [OF breaker_accessI(6) [OF record_access.on_closed [OF Closed]] 1]
  note 3 = solo_step [OF breaker_accessI(6) [OF record_access.sample_closed [OF refl]] 2]
  show ?thesis
  proof (cases "should_trip (br_config b) (br_window (sampled x t b))")
    case True
    with 3 solo_trans [OF trip_solo [of "sampled x t b" x Closed "''trip''" t]] show ?thesis
      using Closed assms(2) by (simp add: breaker_record_def sampled_def trip_def observe_def Let_def)
  next
    case False
    from 3 False solo_step [OF breaker_accessI(6) [OF record_access.report [of "sampled x t b" x]]] show ?thesis
      using Closed assms(2) by (simp add: breaker_record_def sampled_def)
  qed
next
  case Open
  note 1 = solo_step [OF breaker_accessI(6) [OF record_access.start [OF assms]] solo_refl, of x t]
  note 2 = solo_step [OF breaker_accessI(6) [OF record_access.on_open [OF Open]] 1]
  note 3 = solo_step [OF breaker_accessI(6) [OF record_access.sample_open] 2]
  from solo_step [OF breaker_accessI(6) [OF record_access.report] 3] show ?thesis
    using Open assms(2) by (simp add: breaker_record_def sampled_def)
next
  case HalfOpen
  note 1 = solo_step [OF breaker_accessI(6) [OF record_access.start [OF assms]] solo_refl, of x t]
  note 2 = solo_step [OF breaker_accessI(6) [OF record_access.on_half_open [OF HalfOpen]] 1]
  from 2 solo_trans [OF trip_solo [of b x HalfOpen "''probe_failure''" t]] solo_trans [OF close_solo [of b x HalfOpen "''probe_success''"]]
  show ?thesis using HalfOpen assms(2) by (cases x) (simp_all add: breaker_record_def trip_def close_def observe_def)
qed

section \<open>Properties\<close>

lemma reachable_inv: "breaker_step\<^sup>*\<^sup>* s s' \<Longrightarrow> breaker_inv (snd s) \<Longrightarrow> breaker_inv (snd s')"
proof (induction rule: rtranclp_induct)
  case (step y z)
  obtain t b t' b' where "y = (t, b)" "z = (t', b')" by (cases y, cases z) auto
  then show ?case using step breaker_inv_step by auto
qed

text \<open>
  C19. The breaker's invariant: in every state that operations reach from a new breaker, the
  lock-free mirror says open exactly when the state is open, no probe is counted outside the
  half-open state, the counted probes are within the limit (which is at least one), and the
  window's failure counter agrees with its samples.
\<close>

theorem breaker_invariant:
  assumes "breaker_step\<^sup>*\<^sup>* (t0, with_clock c t0) (t, b)"
  shows "breaker_is_open b = (br_state b = Open) \<and> (br_state b \<noteq> HalfOpen \<longrightarrow> probes b = 0)
    \<and> 0 < half_open_max_probes (br_config b) \<and> probes b \<le> half_open_max_probes (br_config b)
    \<and> sw_failures (br_window b) = fail_count (sw_entries (br_window b))"
proof -
  have "breaker_inv b" using reachable_inv [OF assms] by (simp add: breaker_inv_new)
  then show ?thesis by (auto simp: breaker_inv_def breaker_is_open_def window_inv_def)
qed

theorem breaker_invariant_witness:
  "\<exists>b. breaker_step\<^sup>*\<^sup>* (0, with_clock config_server 0) (5, b) \<and> br_state b = Closed \<and> probes b = 0"
proof -
  let ?b = "breaker_record SSuccess 5 (with_clock config_server 0)"
  have r: "breaker_step\<^sup>*\<^sup>* (0, with_clock config_server 0) (5, ?b)"
    by (rule r_into_rtranclp) (rule recorded, simp)
  have "br_state ?b = Closed"
    by (simp add: breaker_record_def with_clock_def config_server_def Let_def should_trip_def window_sample_count_def
        window_new_def window_push_def window_evict_def MAX_WINDOW_ENTRIES_def secs_def observe_def)
  with breaker_invariant [OF r] r show ?thesis by auto
qed

lemma elapsed_since:
  assumes "opened_at b = elapsed_millis t0 b" "baseline b \<le> t0" "t0 \<le> t" "(t - baseline b) div 10 ^ 6 < 2 ^ 64"
  shows "unat (saturating_sub (elapsed_millis t b) (opened_at b))
    = (t - baseline b) div 10 ^ 6 - (t0 - baseline b) div 10 ^ 6"
proof -
  have "(t0 - baseline b) div 10 ^ 6 \<le> (t - baseline b) div 10 ^ 6" using assms(3) by (intro div_le_mono) simp
  then have "(t0 - baseline b) div 10 ^ 6 < 2 ^ 64" using assms(4) by linarith
  moreover have small: "n < 2 ^ 64 \<Longrightarrow> unat (of_nat n :: u64) = n" for n by (simp add: unat_of_nat)
  ultimately show ?thesis
    using assms(1,4) by (simp add: unat_saturating_sub elapsed_millis_def small del: of_nat_diff)
qed

text \<open>
  C20. Shedding and recovery: a breaker that tripped at \<open>t0\<close> refuses every request until the
  cool-down has passed on its millisecond clock, without changing, and tells the remaining time;
  the first request after it is admitted as a probe and makes the breaker half-open; a success
  recorded for the probe closes it with an empty window and a failure opens it again.
\<close>

theorem breaker_sheds_then_recovers:
  assumes inv: "breaker_inv b" "br_state b = Open" "bc_enabled (br_config b)"
    and "opened_at b = elapsed_millis t0 b" "baseline b \<le> t0" "t0 \<le> t" "(t - baseline b) div 10 ^ 6 < 2 ^ 64"
    and el: "el = millis ((t - baseline b) div 10 ^ 6 - (t0 - baseline b) div 10 ^ 6)"
  shows "if el < open_duration (br_config b)
    then breaker_check t b = (Inl (open_duration (br_config b) - el), b)
    else \<exists>b'. breaker_check t b = (Inr (), b') \<and> br_state b' = HalfOpen \<and> probes b' = 1 \<and> \<not> breaker_is_open b'
       \<and> br_state (breaker_record SSuccess t' b') = Closed
       \<and> sw_entries (br_window (breaker_record SSuccess t' b')) = []
       \<and> br_state (breaker_record SFailure t' b') = Open"
proof -
  have e: "millis (unat (saturating_sub (elapsed_millis t b) (opened_at b))) = el"
    using elapsed_since [OF assms(4-7)] el by simp
  have p: "probes b = 0" "0 < half_open_max_probes (br_config b)" using inv by (simp_all add: breaker_inv_def)
  show ?thesis
  proof (cases "el < open_duration (br_config b)")
    case True
    then show ?thesis using inv(2,3) e by (simp add: breaker_check_def check_open_def Let_def)
  next
    case False
    then show ?thesis using inv(2,3) e p
      by (simp add: breaker_check_def check_open_def cas_state_def try_half_open_probe_def observe_def
          breaker_is_open_def breaker_record_def trip_def close_def window_clear_def Let_def)
  qed
qed

definition ex_tripped :: breaker where
  "ex_tripped = trip Closed ''trip'' (secs 1) (with_clock config_server 0)"

theorem breaker_sheds_then_recovers_witness:
  "breaker_check (secs 5) ex_tripped = (Inl (secs 6), ex_tripped)
   \<and> (\<exists>b'. breaker_check (secs 11) ex_tripped = (Inr (), b') \<and> br_state b' = HalfOpen)"
proof -
  have b: "breaker_inv ex_tripped" "br_state ex_tripped = Open" "bc_enabled (br_config ex_tripped)"
    "opened_at ex_tripped = elapsed_millis (secs 1) ex_tripped" "baseline ex_tripped = 0"
    "open_duration (br_config ex_tripped) = secs 10"
    unfolding ex_tripped_def
    by (rule breaker_inv_trip, rule breaker_inv_new)
      (simp_all add: trip_def with_clock_def config_server_def observe_def Let_def elapsed_millis_def)
  show ?thesis
    using breaker_sheds_then_recovers [OF b(1-4), of "secs 5" _ 0] breaker_sheds_then_recovers [OF b(1-4), of "secs 11" _ 0] b(5,6)
    by (auto simp: secs_def millis_def)
qed


definition ex_half_open :: breaker where
  "ex_half_open = (with_clock config_server 0)\<lparr>br_state := HalfOpen\<rparr>"

text \<open>Two threads check a half-open breaker with one slot.\<close>

definition ex_probed :: breaker where
  "ex_probed = ex_half_open\<lparr>probes := 2, claimed_at := 7, br_seen := [ProbeAdmission True]\<rparr>"

lemma ex_half_open_is:
  "half_open_max_probes (br_config ex_half_open) = 1" "probes ex_half_open = 0" "br_state ex_half_open = HalfOpen"
  "bc_enabled (br_config ex_half_open)" "br_seen ex_half_open = []"
  "baseline ex_half_open = 0"
  by (simp_all add: ex_half_open_def with_clock_def config_server_def)

lemma accesses_step:
  "accesses s es (b, pcs) \<Longrightarrow> breaker_access (b, pcs ! i) e (b', p') \<Longrightarrow> i < length pcs \<Longrightarrow> es' = es @ [e] \<Longrightarrow> pcs' = pcs[i := p'] \<Longrightarrow>
    accesses s es' (b', pcs')"
  by (auto intro: accesses.more)

lemma ex_two_probes:
  "accesses (ex_half_open, [Ready, Ready]) [Other, Other, Admit, Other, Other] (ex_probed, [Slot, Undo 8])"
proof -
  let ?b = ex_half_open
  have f: "elapsed_millis (millis k) ?b = of_nat k" for k by (simp add: elapsed_millis_def millis_def ex_half_open_is)
  have "accesses (?b, [Ready, Ready]) [Other] (?b, [Fetch 7, Ready])"
    using check_access.is_half_open [of Ready ?b "millis 7"] f [of 7]
    by (intro accesses_step [OF accesses.none, where i = 0] breaker_accessI(3)) (simp_all add: ex_half_open_is)
  then have "accesses (?b, [Ready, Ready]) [Other, Other] (?b, [Fetch 7, Fetch 8])"
    using check_access.is_half_open [of Ready ?b "millis 8"] f [of 8]
    by (elim accesses_step [where i = 1]) (auto intro: breaker_accessI(3) simp: ex_half_open_is)
  then have "accesses (?b, [Ready, Ready]) [Other, Other, Admit] (?b\<lparr>probes := 1\<rparr>, [Claim 7, Fetch 8])"
    using probe_access.admit [of ?b 7]
    by (elim accesses_step [where i = 0]) (auto intro: breaker_accessI(1) simp: ex_half_open_is)
  then have "accesses (?b, [Ready, Ready]) [Other, Other, Admit, Other] (?b\<lparr>probes := 2\<rparr>, [Claim 7, Undo 8])"
    using probe_access.full [of "?b\<lparr>probes := 1\<rparr>" 8]
    by (elim accesses_step [where i = 1]) (auto intro: breaker_accessI(1) simp: ex_half_open_is)
  then show ?thesis
    using probe_access.claim [of "?b\<lparr>probes := 2\<rparr>" 7]
    by (elim accesses_step [where i = 0]) (auto intro: breaker_accessI(1) simp: ex_half_open_is ex_probed_def observe_def)
qed


text \<open>
  The probe counter can wrap: with one slot, a thread that was refused a probe and has not yet taken its increment back while the owner
  of the slot records a failure and trips the breaker leaves the counter at its largest value.
  Afterwards the breaker, half-open again, refuses every probe and keeps that counter, until the lease of the last claim has expired.
\<close>

definition ex_wrapped :: breaker where
  "ex_wrapped = ex_half_open\<lparr>br_state := Open, opened_at := 9, probes := - 1, claimed_at := 7, open_fast := True,
     br_seen := [ProbeAdmission True, StateChange HalfOpen Open ''probe_failure'', OutcomeSeen SFailure Open]\<rparr>"

lemma ex_wrap_run:
  "accesses (ex_half_open, [Ready, Ready]) [Other, Other, Admit, Other, Other, Other, Other, Other, Other, Reset, Other, Other, Other]
     (ex_wrapped, [Ready, LoadClaim 8])"
proof -
  let ?r = "''probe_failure''" and ?s = "(ex_half_open, [Ready, Ready])"
  let ?b = ex_probed let ?b1 = "?b\<lparr>br_state := Open\<rparr>" let ?b2 = "?b1\<lparr>opened_at := 9\<rparr>" let ?b3 = "?b2\<lparr>probes := 0\<rparr>"
  let ?b4 = "observe (StateChange HalfOpen Open ?r) (?b3\<lparr>open_fast := True\<rparr>)" let ?b5 = "observe (OutcomeSeen SFailure Open) ?b4"
  let ?es = "[Other, Other, Admit, Other, Other]"
  have p: "br_state ?b = HalfOpen" "bc_enabled (br_config ?b)" "baseline ?b = 0" by (simp_all add: ex_probed_def ex_half_open_is)
  have "accesses ?s (?es @ [Other]) (?b, [Recording SFailure 9, Undo 8])"
    using record_access.start [of Slot ?b SFailure 9] p
    by (intro accesses_step [OF ex_two_probes, where i = 0] breaker_accessI(6)) auto
  then have "accesses ?s (?es @ [Other, Other]) (?b, [TripState SFailure HalfOpen ?r, Undo 8])"
    using record_access.on_half_open [of ?b SFailure 9] p
    by (elim accesses_step [where i = 0]) (auto intro: breaker_accessI(6))
  then have "accesses ?s (?es @ [Other, Other, Other]) (?b1, [TripOpened SFailure HalfOpen ?r, Undo 8])"
    using trip_access.set_state [of ?b SFailure HalfOpen ?r]
    by (elim accesses_step [where i = 0]) (auto intro: breaker_accessI(4))
  then have "accesses ?s (?es @ [Other, Other, Other, Other]) (?b2, [TripProbes SFailure HalfOpen ?r, Undo 8])"
    using trip_access.set_opened [of ?b1 SFailure HalfOpen ?r "millis 9"] p(3)
    by (elim accesses_step [where i = 0]) (auto intro: breaker_accessI(4) simp: elapsed_millis_def millis_def)
  then have "accesses ?s (?es @ [Other, Other, Other, Other, Reset]) (?b3, [TripFast SFailure HalfOpen ?r, Undo 8])"
    using trip_access.set_probes [of ?b2 SFailure HalfOpen ?r]
    by (elim accesses_step [where i = 0]) (auto intro: breaker_accessI(4))
  then have "accesses ?s (?es @ [Other, Other, Other, Other, Reset, Other]) (?b4, [RecordState SFailure, Undo 8])"
    using trip_access.set_fast [OF refl, of ?b3 SFailure HalfOpen ?r]
    by (elim accesses_step [where i = 0]) (auto intro: breaker_accessI(4))
  then have "accesses ?s (?es @ [Other, Other, Other, Other, Reset, Other, Other]) (?b5, [Ready, Undo 8])"
    using record_access.report [of ?b4 SFailure]
    by (elim accesses_step [where i = 0]) (auto intro: breaker_accessI(6) simp: observe_def)
  then have "accesses ?s (?es @ [Other, Other, Other, Other, Reset, Other, Other, Other]) (?b5\<lparr>probes := - 1\<rparr>, [Ready, LoadClaim 8])"
    using probe_access.undo [of ?b5 8]
    by (elim accesses_step [where i = 1]) (auto intro: breaker_accessI(1) simp: observe_def)
  moreover have "?b5\<lparr>probes := - 1\<rparr> = ex_wrapped"
    by (simp add: ex_wrapped_def ex_probed_def observe_def ex_half_open_def with_clock_def)
  ultimately show ?thesis by simp
qed

theorem probe_counter_wraps:
  "(\<exists>es. accesses (ex_half_open, [Ready, Ready]) es (ex_wrapped, [Ready, LoadClaim 8]))
   \<and> br_state ex_wrapped = Open \<and> probes ex_wrapped = - 1
   \<and> (\<forall>t. saturating_sub (elapsed_millis t ex_wrapped) (claimed_at ex_wrapped) < lease_millis ex_wrapped \<longrightarrow>
        (\<exists>e b'. try_half_open_probe t (ex_wrapped\<lparr>br_state := HalfOpen\<rparr>) = (Inl e, b') \<and> probes b' = - 1))"
proof (intro conjI allI impI)
  show "br_state ex_wrapped = Open" "probes ex_wrapped = - 1" by (simp_all add: ex_wrapped_def)
  fix t assume "saturating_sub (elapsed_millis t ex_wrapped) (claimed_at ex_wrapped) < lease_millis ex_wrapped"
  moreover have "\<not> (- 1 :: usize) < 1" by simp
  ultimately show "\<exists>e b'. try_half_open_probe t (ex_wrapped\<lparr>br_state := HalfOpen\<rparr>) = (Inl e, b') \<and> probes b' = - 1"
    by (simp add: try_half_open_probe_def Let_def observe_def elapsed_millis_def lease_millis_def not_le ex_wrapped_def ex_half_open_is)
qed (use ex_wrap_run in blast)

theorem probe_counter_wraps_witness:
  "\<exists>e b'. try_half_open_probe 0 (ex_wrapped\<lparr>br_state := HalfOpen\<rparr>) = (Inl e, b') \<and> probes b' = - 1"
proof -
  have "saturating_sub (elapsed_millis 0 ex_wrapped) (claimed_at ex_wrapped) < lease_millis ex_wrapped"
    by (simp add: ex_wrapped_def ex_half_open_def with_clock_def config_server_def elapsed_millis_def lease_millis_def
        saturating_sub_def secs_def)
  with probe_counter_wraps show ?thesis by blast
qed

end
