(* ===== verification/Patch.thy ===== *)
theory Patch
  imports Prelude
begin

text \<open>
  The patch engine behind the \<open>apply_patch\<close> tool, its text side: \<open>sentinel-ai-core/src/apply_patch.rs\<close>.
  A unified diff is parsed into file sections and hunks, every hunk is located in its file with
  tolerance for stale coordinates and white space, and the new text is rendered.

  Line numbers are of type \<open>usize\<close>; they are natural numbers here, and the one sum that can pass
  \<open>2 ^ 64\<close> is written with its wrap-around. The text of a \<open>MalformedDiff\<close> error is represented by
  its format and the values in it.\<close>

section \<open>Strings\<close>

definition trim_start :: "string \<Rightarrow> string" where
  "trim_start s = concat (dropWhile is_ws_char (utf8_chars s))"

definition trim_end_matches :: "char set \<Rightarrow> string \<Rightarrow> string" where
  "trim_end_matches cs s = rev (dropWhile (\<lambda>c. c \<in> cs) (rev s))"

definition trim_start_matches :: "char set \<Rightarrow> string \<Rightarrow> string" where
  "trim_start_matches cs s = dropWhile (\<lambda>c. c \<in> cs) s"

definition line_ends :: "char set" where
  "line_ends = {CHR 0x0D, CHR 0x0A}"

section \<open>Errors and parsed diffs\<close>

datatype malformed =
    NoHunks | HunkBeforeHeader | NoFileSections
  | MissingNewHeader string
  | BadHunkHeader nat string
  | BadDiffHeader string
  | BadLineNumber nat string
  | EmptyTarget string
  | NotSingleFile nat

datatype patch_error =
    PathEscape string
  | MalformedDiff malformed
  | StaleContext nat nat string string
  | FuzzyValidation nat
  | PatchIo string

datatype hunk_line = HContext string | HAdded string | HRemoved string

record hunk =
  orig_start :: nat
  hunk_lines :: "hunk_line list"
  diff_line :: nat

record file_diff =
  old_path :: string
  new_path :: string
  fd_hunks :: "hunk list"

definition classify_line :: "string \<Rightarrow> hunk_line option" where
  "classify_line raw =
     (case strip_prefix raw ''-'' of
        Some rest \<Rightarrow> Some (HRemoved rest)
      | None \<Rightarrow>
          (case strip_prefix raw ''+'' of
             Some rest \<Rightarrow> Some (HAdded rest)
           | None \<Rightarrow>
               (case strip_prefix raw '' '' of
                  Some rest \<Rightarrow> Some (HContext rest)
                | None \<Rightarrow> if raw = [] then Some (HContext []) else None)))"

section \<open>Parsing\<close>

definition parse_hunk_header :: "string \<Rightarrow> nat \<Rightarrow> patch_error + nat" where
  "parse_hunk_header header idx =
     (case Option.bind (strip_prefix header ''@@'') (\<lambda>s. strip_prefix (trim_start s) ''-'') of
        None \<Rightarrow> Inl (MalformedDiff (BadHunkHeader (idx + 1) header))
      | Some after_at \<Rightarrow>
          (let num_str = takeWhile (\<lambda>c. c \<noteq> CHR '','' \<and> c \<noteq> CHR '' '') after_at in
           case parse_unsigned 64 num_str of
             None \<Rightarrow> Inl (MalformedDiff (BadLineNumber (idx + 1) header))
           | Some start \<Rightarrow> Inr start))"

definition push_line :: "string \<Rightarrow> hunk \<Rightarrow> hunk" where
  "push_line raw h =
     (case classify_line raw of Some l \<Rightarrow> h\<lparr>hunk_lines := hunk_lines h @ [l]\<rparr> | None \<Rightarrow> h)"

definition flush :: "'a list \<Rightarrow> 'a option \<Rightarrow> 'a list" where
  "flush xs cur = (case cur of Some x \<Rightarrow> xs @ [x] | None \<Rightarrow> xs)"

fun parse_hunks_loop :: "nat \<Rightarrow> string list \<Rightarrow> hunk list \<Rightarrow> hunk option \<Rightarrow> patch_error + hunk list" where
  "parse_hunks_loop idx [] hunks cur = Inr (flush hunks cur)"
| "parse_hunks_loop idx (raw # ls) hunks cur =
     (if starts_with raw ''@@'' then
        (case parse_hunk_header raw idx of
           Inl e \<Rightarrow> Inl e
         | Inr st \<Rightarrow> parse_hunks_loop (idx + 1) ls (flush hunks cur)
                       (Some \<lparr>orig_start = st, hunk_lines = [], diff_line = idx + 1\<rparr>))
      else if starts_with raw ''---'' \<or> starts_with raw ''+++'' then parse_hunks_loop (idx + 1) ls hunks cur
      else parse_hunks_loop (idx + 1) ls hunks (map_option (push_line raw) cur))"

definition parse_hunks :: "string \<Rightarrow> patch_error + hunk list" where
  "parse_hunks diff =
     (case parse_hunks_loop 0 (str_lines diff) [] None of
        Inl e \<Rightarrow> Inl e
      | Inr hunks \<Rightarrow> if hunks = [] then Inl (MalformedDiff NoHunks) else Inr hunks)"

text \<open>One body line of a file section goes to the last hunk of the section, if it has one.\<close>

definition push_body :: "string \<Rightarrow> file_diff \<Rightarrow> file_diff" where
  "push_body raw f =
     (if fd_hunks f = [] then f
      else f\<lparr>fd_hunks := butlast (fd_hunks f) @ [push_line raw (last (fd_hunks f))]\<rparr>)"

definition set_new_path :: "string \<Rightarrow> file_diff \<Rightarrow> file_diff" where
  "set_new_path new f = (if new_path f = [] then f\<lparr>new_path := str_trim new\<rparr> else f)"

fun parse_files_loop ::
    "nat \<Rightarrow> string list \<Rightarrow> file_diff list \<Rightarrow> file_diff option \<Rightarrow> patch_error + file_diff list" where
  "parse_files_loop idx [] files cur = Inr (flush files cur)"
| "parse_files_loop idx (raw # ls) files cur =
     (case strip_prefix raw ''--- '' of
        Some old \<Rightarrow>
          parse_files_loop (idx + 1) ls (flush files cur)
            (Some \<lparr>old_path = str_trim old, new_path = [], fd_hunks = []\<rparr>)
      | None \<Rightarrow>
          (case strip_prefix raw ''+++ '' of
             Some new \<Rightarrow> parse_files_loop (idx + 1) ls files (map_option (set_new_path new) cur)
           | None \<Rightarrow>
               (if starts_with raw ''@@'' then
                  (case cur of
                     None \<Rightarrow> Inl (MalformedDiff HunkBeforeHeader)
                   | Some f \<Rightarrow>
                       (case parse_hunk_header raw idx of
                          Inl e \<Rightarrow> Inl e
                        | Inr st \<Rightarrow> parse_files_loop (idx + 1) ls files
                            (Some (f\<lparr>fd_hunks := fd_hunks f @
                               [\<lparr>orig_start = st, hunk_lines = [], diff_line = idx + 1\<rparr>]\<rparr>))))
                else parse_files_loop (idx + 1) ls files (map_option (push_body raw) cur))))"

definition parse_files :: "string \<Rightarrow> patch_error + file_diff list" where
  "parse_files diff =
     (case parse_files_loop 0 (str_lines diff) [] None of
        Inl e \<Rightarrow> Inl e
      | Inr files \<Rightarrow>
          (if files = [] then Inl (MalformedDiff NoFileSections)
           else case find (\<lambda>f. new_path f = []) files of
                  Some f \<Rightarrow> Inl (MalformedDiff (MissingNewHeader (old_path f)))
                | None \<Rightarrow>
                    (if list_all (\<lambda>f. fd_hunks f = []) files then Inl (MalformedDiff NoHunks)
                     else Inr files)))"

section \<open>Matching lines\<close>

datatype fuzz_level = Exact | TrimRight | TrimAll

fun level :: "fuzz_level \<Rightarrow> nat" where
  "level Exact = 0"
| "level TrimRight = 1"
| "level TrimAll = 2"

instantiation fuzz_level :: linorder
begin

definition less_eq_fuzz_level :: "fuzz_level \<Rightarrow> fuzz_level \<Rightarrow> bool" where
  "a \<le> b \<longleftrightarrow> level a \<le> level b"

definition less_fuzz_level :: "fuzz_level \<Rightarrow> fuzz_level \<Rightarrow> bool" where
  "a < b \<longleftrightarrow> level a < level b"

instance
proof
  fix a b :: fuzz_level
  assume "a \<le> b" "b \<le> a"
  then show "a = b" by (cases a; cases b) (auto simp: less_eq_fuzz_level_def)
qed (auto simp: less_eq_fuzz_level_def less_fuzz_level_def)

end

text \<open>\<open>FuzzLevel::raise\<close> keeps the larger of the two levels.\<close>

definition raise_fuzz :: "fuzz_level \<Rightarrow> fuzz_level \<Rightarrow> fuzz_level" where
  "raise_fuzz self other = (if self < other then other else self)"

definition strip_ws :: "string \<Rightarrow> string" where
  "strip_ws l = concat (filter (\<lambda>u. \<not> is_ws_char u) (utf8_chars l))"

definition fuzz_compare :: "string \<Rightarrow> string \<Rightarrow> fuzz_level option" where
  "fuzz_compare actual expected =
     (let a = trim_end_matches line_ends actual; e = trim_end_matches line_ends expected in
      if a = e then Some Exact
      else let a' = trim_end_matches {CHR '' '', CHR 0x09} a; e' = trim_end_matches {CHR '' '', CHR 0x09} e in
           if a' = e' then Some TrimRight
           else if strip_ws a' = strip_ws e' then Some TrimAll else None)"

definition line_at :: "string list \<Rightarrow> nat \<Rightarrow> string" where
  "line_at file_lines pos = (if pos < length file_lines then file_lines ! pos else [])"

fun is_added :: "hunk_line \<Rightarrow> bool" where
  "is_added (HAdded _) = True"
| "is_added _ = False"

definition hunk_anchor_len :: "hunk \<Rightarrow> nat" where
  "hunk_anchor_len h = length (filter (\<lambda>l. \<not> is_added l) (hunk_lines h))"

fun anchors_level :: "string list \<Rightarrow> hunk_line list \<Rightarrow> nat \<Rightarrow> fuzz_level \<Rightarrow> fuzz_level option" where
  "anchors_level file_lines [] pos worst = Some worst"
| "anchors_level file_lines (HAdded _ # ls) pos worst = anchors_level file_lines ls pos worst"
| "anchors_level file_lines (HContext c # ls) pos worst =
     (case fuzz_compare (line_at file_lines pos) c of
        Some lvl \<Rightarrow> anchors_level file_lines ls (pos + 1) (raise_fuzz worst lvl)
      | None \<Rightarrow> None)"
| "anchors_level file_lines (HRemoved c # ls) pos worst =
     (case fuzz_compare (line_at file_lines pos) c of
        Some lvl \<Rightarrow> anchors_level file_lines ls (pos + 1) (raise_fuzz worst lvl)
      | None \<Rightarrow> None)"

definition hunk_anchors_level :: "string list \<Rightarrow> hunk \<Rightarrow> nat \<Rightarrow> fuzz_level option" where
  "hunk_anchors_level file_lines h start = anchors_level file_lines (hunk_lines h) start Exact"

definition try_at :: "string list \<Rightarrow> hunk \<Rightarrow> nat \<Rightarrow> (nat \<times> fuzz_level) option" where
  "try_at file_lines h cand = map_option (Pair cand) (hunk_anchors_level file_lines h cand)"

definition locate_hunk :: "string list \<Rightarrow> hunk \<Rightarrow> nat \<Rightarrow> (nat \<times> fuzz_level) option" where
  "locate_hunk file_lines h min_pos =
     (let anchors = hunk_anchor_len h;
          recorded = orig_start h - 1
      in if anchors = 0 then Some (min (max recorded min_pos) (length file_lines), Exact)
         else
           (let max_start = length file_lines - anchors;
                exact = (if min_pos \<le> recorded \<and> recorded \<le> max_start
                         then try_at file_lines h recorded else None);
                low = (if min_pos \<le> recorded \<and> 2 < recorded then recorded - 2 else min_pos);
                high = min ((recorded + 2) mod 2 ^ 64) max_start;
                start = (if min_pos \<le> recorded then recorded + 1 else min_pos)
            in case exact of
                 Some found \<Rightarrow> Some found
               | None \<Rightarrow>
                   (case find_map (\<lambda>cand. if cand \<noteq> recorded then try_at file_lines h cand else None)
                            [low ..< high + 1] of
                      Some found \<Rightarrow> Some found
                    | None \<Rightarrow> find_map (try_at file_lines h) [start ..< max_start + 1])))"

fun stale_at :: "string list \<Rightarrow> nat \<Rightarrow> nat \<Rightarrow> hunk_line list \<Rightarrow> nat \<Rightarrow> patch_error" where
  "stale_at file_lines dl os [] pos = StaleContext dl os [] []"
| "stale_at file_lines dl os (HAdded _ # ls) pos = stale_at file_lines dl os ls pos"
| "stale_at file_lines dl os (HContext c # ls) pos =
     (let actual = trim_end_matches line_ends (line_at file_lines pos) in
      if actual \<noteq> c then StaleContext dl (pos + 1) c actual else stale_at file_lines dl os ls (pos + 1))"
| "stale_at file_lines dl os (HRemoved c # ls) pos =
     (let actual = trim_end_matches line_ends (line_at file_lines pos) in
      if actual \<noteq> c then StaleContext dl (pos + 1) c actual else stale_at file_lines dl os ls (pos + 1))"

definition stale_context_error :: "string list \<Rightarrow> hunk \<Rightarrow> patch_error" where
  "stale_context_error file_lines h =
     stale_at file_lines (diff_line h) (orig_start h) (hunk_lines h) (orig_start h - 1)"

section \<open>Applying hunks\<close>

fun apply_lines ::
    "string list \<Rightarrow> nat \<Rightarrow> hunk_line list \<Rightarrow> nat \<Rightarrow> string list \<Rightarrow> fuzz_level
       \<Rightarrow> patch_error + nat \<times> string list \<times> fuzz_level" where
  "apply_lines file_lines dl [] pos out fuzz = Inr (pos, out, fuzz)"
| "apply_lines file_lines dl (HAdded c # ls) pos out fuzz = apply_lines file_lines dl ls pos (out @ [c @ LF]) fuzz"
| "apply_lines file_lines dl (HContext c # ls) pos out fuzz =
     (let actual = line_at file_lines pos in
      case fuzz_compare actual c of
        Some lvl \<Rightarrow> apply_lines file_lines dl ls (pos + 1) (out @ [actual]) (raise_fuzz fuzz lvl)
      | None \<Rightarrow> Inl (StaleContext dl (pos + 1) c (trim_end_matches line_ends actual)))"
| "apply_lines file_lines dl (HRemoved c # ls) pos out fuzz =
     (let actual = line_at file_lines pos in
      case fuzz_compare actual c of
        Some lvl \<Rightarrow> apply_lines file_lines dl ls (pos + 1) out (raise_fuzz fuzz lvl)
      | None \<Rightarrow> Inl (StaleContext dl (pos + 1) c (trim_end_matches line_ends actual)))"

text \<open>The lines before a located hunk are copied; a hunk located before the current position
  copies nothing and is applied at the current position.\<close>

fun apply_hunks_loop ::
    "string list \<Rightarrow> hunk list \<Rightarrow> nat \<Rightarrow> string list \<Rightarrow> fuzz_level \<Rightarrow> patch_error + string \<times> fuzz_level" where
  "apply_hunks_loop file_lines [] pos out fuzz = Inr (concat (out @ drop pos file_lines), fuzz)"
| "apply_hunks_loop file_lines (h # hs) pos out fuzz =
     (case locate_hunk file_lines h pos of
        None \<Rightarrow> Inl (stale_context_error file_lines h)
      | Some (hunk_start, hunk_fuzz) \<Rightarrow>
          (let pos1 = max pos (min hunk_start (length file_lines));
               out1 = out @ take (pos1 - pos) (drop pos file_lines)
           in case apply_lines file_lines (diff_line h) (hunk_lines h) pos1 out1 (raise_fuzz fuzz hunk_fuzz) of
                Inl e \<Rightarrow> Inl e
              | Inr (pos2, out2, fuzz2) \<Rightarrow> apply_hunks_loop file_lines hs pos2 out2 fuzz2))"

definition apply_hunks :: "string list \<Rightarrow> hunk list \<Rightarrow> fuzz_level \<Rightarrow> patch_error + string \<times> fuzz_level" where
  "apply_hunks file_lines hunks fuzz = apply_hunks_loop file_lines hunks 0 [] fuzz"

function split_lines_keep_endings :: "string \<Rightarrow> string list" where
  "split_lines_keep_endings s =
     (let l = takeWhile (\<lambda>c. c \<noteq> CHR 0x0A) s; r = dropWhile (\<lambda>c. c \<noteq> CHR 0x0A) s in
      if r = [] then (if l = [] then [] else [l]) else (l @ LF) # split_lines_keep_endings (tl r))"
  by pat_completeness auto
termination by (relation "measure length") (simp_all add: tl_dropWhile_less del: length_tl)

declare split_lines_keep_endings.simps [simp del]

definition get_updated_file :: "string \<Rightarrow> hunk list \<Rightarrow> patch_error + string \<times> fuzz_level" where
  "get_updated_file source hunks = apply_hunks (split_lines_keep_endings source) hunks Exact"

definition single_file_hunks :: "string \<Rightarrow> patch_error + hunk list" where
  "single_file_hunks patch =
     (case parse_files patch of
        Inr files \<Rightarrow> (if length files \<noteq> 1 then Inl (MalformedDiff (NotSingleFile (length files)))
                       else Inr (fd_hunks (hd files)))
      | Inl e \<Rightarrow> if str_contains patch ''@@'' then parse_hunks patch else Inl e)"

section \<open>What applying hunks means\<close>

text \<open>The old lines a hunk consumes and the lines it puts in their place, at a fuzz level.\<close>

inductive hunk_applies :: "fuzz_level \<Rightarrow> hunk_line list \<Rightarrow> string list \<Rightarrow> string list \<Rightarrow> bool" for f where
  end_of_hunk: "hunk_applies f [] [] []"
| added: "hunk_applies f ls old new \<Longrightarrow> hunk_applies f (HAdded c # ls) old ((c @ LF) # new)"
| kept: "fuzz_compare a c = Some l \<Longrightarrow> l \<le> f \<Longrightarrow> hunk_applies f ls old new \<Longrightarrow>
    hunk_applies f (HContext c # ls) (a # old) (a # new)"
| removed: "fuzz_compare a c = Some l \<Longrightarrow> l \<le> f \<Longrightarrow> hunk_applies f ls old new \<Longrightarrow>
    hunk_applies f (HRemoved c # ls) (a # old) new"

text \<open>The hunks replace disjoint stretches of the file, in order; the rest is copied.\<close>

inductive patched :: "fuzz_level \<Rightarrow> hunk list \<Rightarrow> string list \<Rightarrow> string list \<Rightarrow> bool" for f where
  rest: "patched f [] ls ls"
| stretch: "hunk_applies f (hunk_lines h) old new \<Longrightarrow> patched f hs ls out \<Longrightarrow>
    patched f (h # hs) (skip @ old @ ls) (skip @ new @ out)"

inductive_simps hunk_applies_simps [simp]:
  "hunk_applies f [] old new"
  "hunk_applies f (HAdded c # ls) old new"
  "hunk_applies f (HContext c # ls) old new"
  "hunk_applies f (HRemoved c # ls) old new"

lemma raise_fuzz_max: "raise_fuzz a b = max a b"
  by (auto simp: raise_fuzz_def max_def)

lemma hunk_applies_mono: "hunk_applies f ls old new \<Longrightarrow> f \<le> g \<Longrightarrow> hunk_applies g ls old new"
  by (induction rule: hunk_applies.induct) (auto intro: order_trans)

lemma patched_mono: "patched f hs ls out \<Longrightarrow> f \<le> g \<Longrightarrow> patched g hs ls out"
  by (induction rule: patched.induct) (auto intro: patched.intros hunk_applies_mono)

lemma apply_lines_spec:
  assumes "apply_lines fl dl hl pos out f0 = Inr (pos', out', f)"
  shows "\<exists>new. f0 \<le> f \<and> pos \<le> pos' \<and> out' = out @ new \<and> hunk_applies f hl (map (line_at fl) [pos..<pos']) new"
  using assms
proof (induction fl dl hl pos out f0 rule: apply_lines.induct)
  case (3 fl dl c ls pos out fuzz)
  then obtain l where l: "fuzz_compare (line_at fl pos) c = Some l" by (auto simp: Let_def split: option.splits)
  from 3 l obtain new where "max fuzz l \<le> f" "Suc pos \<le> pos'" "out' = out @ line_at fl pos # new"
    "hunk_applies f ls (map (line_at fl) [Suc pos..<pos']) new"
    by (fastforce simp: raise_fuzz_max Let_def)
  with l show ?case by (auto simp: upt_conv_Cons)
next
  case (4 fl dl c ls pos out fuzz)
  then obtain l where l: "fuzz_compare (line_at fl pos) c = Some l" by (auto simp: Let_def split: option.splits)
  from 4 l obtain new where "max fuzz l \<le> f" "Suc pos \<le> pos'" "out' = out @ new"
    "hunk_applies f ls (map (line_at fl) [Suc pos..<pos']) new"
    by (fastforce simp: raise_fuzz_max Let_def)
  with l show ?case by (auto simp: upt_conv_Cons)
qed fastforce+

text \<open>Lines past the end of a file read as empty.\<close>

definition padded :: "string list \<Rightarrow> nat \<Rightarrow> string list" where
  "padded fl k = fl @ replicate k []"

lemma drop_padded:
  assumes "pos \<le> pos'" "pos' \<le> length fl + k"
  shows "drop pos (padded fl k) = map (line_at fl) [pos..<pos'] @ drop pos' (padded fl k)"
proof -
  have "padded fl k = map (line_at fl) [0..<length fl + k]"
    by (rule nth_equalityI) (auto simp: padded_def line_at_def nth_append)
  moreover have "[pos..<length fl + k] = [pos..<pos'] @ [pos'..<length fl + k]"
    using upt_add_eq_append [OF assms(1), of "length fl + k - pos'"] assms(2) by (simp del: upt_Suc)
  moreover have "drop pos (map (line_at fl) [0..<length fl + k]) = map (line_at fl) [pos..<length fl + k]"
    "drop pos' (map (line_at fl) [0..<length fl + k]) = map (line_at fl) [pos'..<length fl + k]"
    by (simp_all add: drop_map)
  ultimately show ?thesis by (simp only: map_append)
qed

lemma map_line_at: "pos' \<le> max pos (length fl) \<Longrightarrow> map (line_at fl) [pos..<pos'] = take (pos' - pos) (drop pos fl)"
  by (rule nth_equalityI) (auto simp: line_at_def max_def split: if_splits)

lemma apply_hunks_loop_spec:
  assumes "apply_hunks_loop fl hs pos out f0 = Inr (t, f)"
  shows "f0 \<le> f \<and> (\<exists>K. \<forall>k \<ge> K. \<exists>ls'. patched f hs (drop pos (padded fl k)) ls' \<and> t = concat (out @ ls'))"
  using assms
proof (induction fl hs pos out f0 rule: apply_hunks_loop.induct)
  case (1 fl pos out fuzz)
  have "concat (drop pos (padded fl k)) = concat (drop pos fl)" for k
    by (simp add: padded_def)
  with 1 show ?case by (auto intro!: exI [of _ "drop pos (padded fl _)"] patched.intros)
next
  case (2 fl h hs pos out fuzz)
  from "2.prems" obtain st hf where loc: "locate_hunk fl h pos = Some (st, hf)"
    by (auto split: option.splits)
  define pos1 where "pos1 = max pos (min st (length fl))"
  define out1 where "out1 = out @ take (pos1 - pos) (drop pos fl)"
  obtain pos2 out2 f2 where al: "apply_lines fl (diff_line h) (hunk_lines h) pos1 out1 (raise_fuzz fuzz hf) = Inr (pos2, out2, f2)"
    and rest: "apply_hunks_loop fl hs pos2 out2 f2 = Inr (t, f)"
    using "2.prems" loc by (auto simp: Let_def pos1_def [symmetric] out1_def [symmetric] split: sum.splits)
  from apply_lines_spec [OF al] obtain new where new: "max fuzz hf \<le> f2" "pos1 \<le> pos2" "out2 = out1 @ new"
    "hunk_applies f2 (hunk_lines h) (map (line_at fl) [pos1..<pos2]) new" by (auto simp: raise_fuzz_max)
  from "2.IH" [OF loc refl pos1_def out1_def al refl refl rest] obtain K where
    ff: "f2 \<le> f" and K: "\<And>k. k \<ge> K \<Longrightarrow> \<exists>ls'. patched f hs (drop pos2 (padded fl k)) ls' \<and> t = concat (out2 @ ls')" by auto
  have ha: "hunk_applies f (hunk_lines h) (map (line_at fl) [pos1..<pos2]) new"
    using new(4) ff by (rule hunk_applies_mono)
  have "\<exists>ls'. patched f (h # hs) (drop pos (padded fl k)) ls' \<and> t = concat (out @ ls')" if "k \<ge> max K pos2" for k
  proof -
    from that K obtain ls' where ls': "patched f hs (drop pos2 (padded fl k)) ls'" "t = concat (out2 @ ls')" by force
    have skip: "map (line_at fl) [pos..<pos1] = take (pos1 - pos) (drop pos fl)"
      by (rule map_line_at) (simp add: pos1_def)
    have "drop pos (padded fl k) = map (line_at fl) [pos..<pos1] @ drop pos1 (padded fl k)"
      by (rule drop_padded) (use that new(2) in \<open>auto simp: pos1_def\<close>)
    also have "drop pos1 (padded fl k) = map (line_at fl) [pos1..<pos2] @ drop pos2 (padded fl k)"
      by (rule drop_padded) (use that new(2) in auto)
    finally have "patched f (h # hs) (drop pos (padded fl k)) (map (line_at fl) [pos..<pos1] @ new @ ls')"
      using patched.stretch [OF ha ls'(1)] by simp
    with ls'(2) new(3) show ?thesis by (auto simp: out1_def skip intro!: exI)
  qed
  with new(1) ff show ?case by (metis max.bounded_iff order_trans)
qed

section \<open>Hunks at their recorded place\<close>

lemma le_Exact [simp]: "l \<le> Exact \<longleftrightarrow> l = Exact"
  by (cases l) (simp_all add: less_eq_fuzz_level_def)

lemma raise_Exact [simp]: "raise_fuzz f Exact = f" "raise_fuzz Exact f = f"
  by (cases f; simp add: raise_fuzz_def less_fuzz_level_def)+

lemma line_at_append [simp]: "line_at (pre @ a # ls) (length pre) = a"
  by (simp add: line_at_def)

lemma hunk_applies_anchors:
  "hunk_applies f ls old new \<Longrightarrow> length (filter (\<lambda>l. \<not> is_added l) ls) = length old"
  by (induction rule: hunk_applies.induct) simp_all

lemma anchors_level_exact:
  "hunk_applies Exact ls old new \<Longrightarrow> anchors_level (pre @ old @ rest) ls (length pre) Exact = Some Exact"
proof (induction arbitrary: pre rule: hunk_applies.induct)
  case (kept a c l ls old new)
  from kept.IH [of "pre @ [a]"] kept.hyps show ?case by simp
next
  case (removed a c l ls old new)
  from removed.IH [of "pre @ [a]"] removed.hyps show ?case by simp
qed simp_all

lemma apply_lines_exact:
  "hunk_applies Exact ls old new \<Longrightarrow>
    apply_lines (pre @ old @ rest) dl ls (length pre) out Exact = Inr (length pre + length old, out @ new, Exact)"
proof (induction arbitrary: pre out rule: hunk_applies.induct)
  case (kept a c l ls old new)
  from kept.IH [of "pre @ [a]" "out @ [a]"] kept.hyps show ?case by simp
next
  case (removed a c l ls old new)
  from removed.IH [of "pre @ [a]" out] removed.hyps show ?case by simp
qed simp_all

lemma locate_hunk_recorded:
  assumes "hunk_applies Exact (hunk_lines h) old new" "orig_start h - 1 = length pre + length skip"
  shows "locate_hunk (pre @ skip @ old @ rest) h (length pre) = Some (length pre + length skip, Exact)"
proof -
  have n: "hunk_anchor_len h = length old"
    using hunk_applies_anchors [OF assms(1)] by (simp add: hunk_anchor_len_def)
  have "hunk_anchors_level (pre @ skip @ old @ rest) h (length pre + length skip) = Some Exact"
    using anchors_level_exact [OF assms(1), of "pre @ skip" rest] by (simp add: hunk_anchors_level_def)
  with n assms(2) show ?thesis by (auto simp: locate_hunk_def Let_def try_at_def)
qed

text \<open>Hunks whose lines match exactly at the recorded positions; \<open>p\<close> lines have been passed.\<close>

inductive placed :: "nat \<Rightarrow> hunk list \<Rightarrow> string list \<Rightarrow> string list \<Rightarrow> bool" where
  rest: "placed p [] ls ls"
| stretch: "hunk_applies Exact (hunk_lines h) old new \<Longrightarrow> orig_start h - 1 = p + length skip \<Longrightarrow>
    placed (p + length skip + length old) hs ls out \<Longrightarrow> placed p (h # hs) (skip @ old @ ls) (skip @ new @ out)"

lemma apply_hunks_placed_loop:
  "placed p hs ls out \<Longrightarrow> p = length pre \<Longrightarrow>
    apply_hunks_loop (pre @ ls) hs p acc Exact = Inr (concat (acc @ out), Exact)"
proof (induction arbitrary: pre acc rule: placed.induct)
  case (stretch h old new p skip hs ls out)
  have "locate_hunk (pre @ skip @ old @ ls) h p = Some (p + length skip, Exact)"
    using locate_hunk_recorded [OF stretch.hyps(1)] stretch.hyps(2) stretch.prems by simp
  moreover have "apply_lines (pre @ skip @ old @ ls) (diff_line h) (hunk_lines h) (p + length skip)
      (acc @ skip) Exact = Inr (p + length skip + length old, acc @ skip @ new, Exact)"
    using apply_lines_exact [OF stretch.hyps(1), of "pre @ skip" ls "diff_line h" "acc @ skip"] stretch.prems
    by simp
  moreover have "apply_hunks_loop (pre @ skip @ old @ ls) hs (p + length skip + length old) (acc @ skip @ new) Exact
      = Inr (concat ((acc @ skip @ new) @ out), Exact)"
    using stretch.IH [of "pre @ skip @ old" "acc @ skip @ new"] stretch.prems by simp
  ultimately show ?case using stretch.prems by simp
qed simp

lemma apply_hunks_placed: "placed 0 hs ls out \<Longrightarrow> apply_hunks ls hs Exact = Inr (concat out, Exact)"
  using apply_hunks_placed_loop [of 0 hs ls out "[]" "[]"] by (simp add: apply_hunks_def)

text \<open>C11. A successful application replaces disjoint stretches of the file in order: every context and
  removed line of a hunk matched a line of the file at no more than the reported fuzz level, context
  lines keep the file's own text, and everything between the hunks is copied. Lines past the end of
  the file read as empty.\<close>

theorem apply_hunks_sound:
  assumes "apply_hunks fl hs Exact = Inr (t, f)"
  shows "\<exists>k out. patched f hs (fl @ replicate k []) out \<and> t = concat out"
  using apply_hunks_loop_spec [OF assms [unfolded apply_hunks_def]] unfolding padded_def by force

definition ex_hunk :: hunk where
  "ex_hunk = \<lparr>orig_start = 1, hunk_lines = [HContext ''a'', HRemoved ''b'', HAdded ''c''], diff_line = 1\<rparr>"

lemmas match_defs = fuzz_compare_def trim_end_matches_def line_ends_def line_at_def raise_fuzz_def less_fuzz_level_def

theorem apply_hunks_sound_witness:
  "\<exists>k out. patched TrimRight [ex_hunk] ([''a '' @ LF, ''b'' @ LF] @ replicate k []) out
     \<and> ''a '' @ LF @ ''c'' @ LF = concat out"
proof -
  have "apply_hunks [''a '' @ LF, ''b'' @ LF] [ex_hunk] Exact = Inr (''a '' @ LF @ ''c'' @ LF, TrimRight)"
    by (simp add: apply_hunks_def ex_hunk_def locate_hunk_def hunk_anchor_len_def try_at_def hunk_anchors_level_def
        match_defs)
  from apply_hunks_sound [OF this] show ?thesis .
qed

lemmas text_defs = strip_prefix_def starts_with_def str_trim_def trim_start_def is_ws_char_def is_cont_byte_def
  trim_start_matches_def

text \<open>A hunk can be located before the lines that are still available: the search window around the
  recorded position is not cut at \<open>min_pos\<close>.\<close>

lemma locate_before_min_pos:
  "locate_hunk [''a'', ''b'', ''c'', ''d'', ''e'', ''f''] \<lparr>orig_start = 5, hunk_lines = [HContext ''c''], diff_line = 1\<rparr> 4
     = Some (2, Exact)"
  by (simp add: locate_hunk_def hunk_anchor_len_def try_at_def hunk_anchors_level_def match_defs strip_ws_def
      is_ws_char_def is_cont_byte_def upt_rec Let_def)

end
