(* ===== verification/Unified_Diff.thy ===== *)
theory Unified_Diff
  imports Patch
begin

text \<open>
  Unified diffs as text and as structure: \<open>sentinel-ai-core/src/diff.rs\<close>. The first part parses a
  diff for display and cuts replaced lines into segments; the second renders it in two columns; the
  third generates the diff of two texts from a longest common subsequence of their lines.
  Line numbers are natural numbers; the table of the alignment has cells of type \<open>u32\<close> as in the code.
  The syntax highlighter is not modelled.
\<close>

section \<open>The structured diff\<close>

datatype line_kind = Context | Addition | Removal

datatype segment_kind = SSame | SInserted | SRemoved

record diff_segment =
  seg_text :: string
  seg_kind :: segment_kind

record diff_line =
  dl_kind :: line_kind
  dl_content :: string
  dl_segments :: "diff_segment list"

record diff_hunk =
  old_start :: nat
  old_lines :: nat
  new_start :: nat
  new_lines :: nat
  dh_lines :: "diff_line list"

record diff_file =
  df_old_path :: string
  df_new_path :: string
  df_hunks :: "diff_hunk list"

definition change_count :: "diff_file list \<Rightarrow> nat" where
  "change_count files =
     length (filter (\<lambda>l. dl_kind l \<noteq> Context) (concat (map dh_lines (concat (map df_hunks files)))))"

definition strip_filename_prefix :: "string \<Rightarrow> string" where
  "strip_filename_prefix path =
     (case strip_prefix path ''a/'' of
        Some s \<Rightarrow> s
      | None \<Rightarrow> (case strip_prefix path ''b/'' of Some s \<Rightarrow> s | None \<Rightarrow> path))"

definition classify_diff_line :: "string \<Rightarrow> (line_kind \<times> string) option" where
  "classify_diff_line raw =
     (case strip_prefix raw ''-'' of
        Some rest \<Rightarrow> Some (Removal, rest)
      | None \<Rightarrow>
          (case strip_prefix raw ''+'' of
             Some rest \<Rightarrow> Some (Addition, rest)
           | None \<Rightarrow>
               (case strip_prefix raw '' '' of
                  Some rest \<Rightarrow> Some (Context, rest)
                | None \<Rightarrow> if raw = [] then Some (Context, []) else None)))"

text \<open>\<open>str::split("@@").next()\<close>, \<open>split_whitespace\<close> and \<open>split_once(',')\<close>.\<close>

definition before_str :: "string \<Rightarrow> string \<Rightarrow> string" where
  "before_str s p = (case str_find s p of Some n \<Rightarrow> take n s | None \<Rightarrow> s)"

function ws_words :: "string list \<Rightarrow> string list" where
  "ws_words us =
     (let r = dropWhile is_ws_char us in
      if r = [] then []
      else concat (takeWhile (\<lambda>u. \<not> is_ws_char u) r) # ws_words (dropWhile (\<lambda>u. \<not> is_ws_char u) r))"
  by pat_completeness auto
termination
proof (relation "measure length", simp, goal_cases)
  case (1 us x)
  then have "x \<noteq> []" "\<not> is_ws_char (hd x)" using hd_dropWhile [of is_ws_char us] by auto
  then obtain y ys where x: "x = y # ys" "\<not> is_ws_char y" by (cases x) auto
  then have "length (dropWhile (\<lambda>u. \<not> is_ws_char u) x) < length x"
    using length_dropWhile_le [of "\<lambda>u. \<not> is_ws_char u" ys] by simp
  also have "length x \<le> length us" using 1 length_dropWhile_le [of is_ws_char us] by simp
  finally show ?case by simp
qed

declare ws_words.simps [simp del]

definition split_whitespace :: "string \<Rightarrow> string list" where
  "split_whitespace s = ws_words (utf8_chars s)"

definition parse_range :: "string \<Rightarrow> (nat \<times> nat) option" where
  "parse_range tok =
     Option.bind (case strip_prefix tok ''-'' of Some r \<Rightarrow> Some r | None \<Rightarrow> strip_prefix tok ''+'') (\<lambda>after.
       case str_find after '','' of
         Some n \<Rightarrow> Option.bind (parse_unsigned 64 (take n after)) (\<lambda>start.
                    map_option (Pair start) (parse_unsigned 64 (drop (n + 1) after)))
       | None \<Rightarrow> map_option (\<lambda>start. (start, 1)) (parse_unsigned 64 after))"

definition parse_diff_header :: "string \<Rightarrow> (nat \<times> nat \<times> nat \<times> nat) option" where
  "parse_diff_header header =
     Option.bind (strip_prefix header ''@@'') (\<lambda>rest.
       let tokens = split_whitespace (before_str rest ''@@'') in
       if length tokens < 2 then None
       else Option.bind (parse_range (tokens ! 0)) (\<lambda>(os, ol).
              map_option (\<lambda>(ns, nl). (os, ol, ns, nl)) (parse_range (tokens ! 1))))"

definition push_diff_line :: "string \<Rightarrow> diff_file \<Rightarrow> diff_file" where
  "push_diff_line raw f =
     (if df_hunks f = [] then f
      else case classify_diff_line raw of
             None \<Rightarrow> f
           | Some (kind, text) \<Rightarrow>
               (let h = last (df_hunks f) in
                f\<lparr>df_hunks := butlast (df_hunks f) @
                   [h\<lparr>dh_lines := dh_lines h @ [\<lparr>dl_kind = kind, dl_content = text, dl_segments = []\<rparr>]\<rparr>]\<rparr>))"

fun parse_diff_loop :: "string list \<Rightarrow> diff_file list \<Rightarrow> diff_file option \<Rightarrow> patch_error + diff_file list" where
  "parse_diff_loop [] files cur = Inr (flush files cur)"
| "parse_diff_loop (raw # ls) files cur =
     (case strip_prefix raw ''--- '' of
        Some old \<Rightarrow>
          parse_diff_loop ls (flush files cur)
            (Some \<lparr>df_old_path = strip_filename_prefix (str_trim old), df_new_path = [], df_hunks = []\<rparr>)
      | None \<Rightarrow>
          (case strip_prefix raw ''+++ '' of
             Some new \<Rightarrow>
               parse_diff_loop ls files
                 (map_option (\<lambda>f. if df_new_path f = []
                    then f\<lparr>df_new_path := strip_filename_prefix (str_trim new)\<rparr> else f) cur)
           | None \<Rightarrow>
               (if starts_with raw ''@@'' then
                  (case cur of
                     None \<Rightarrow> Inl (MalformedDiff HunkBeforeHeader)
                   | Some f \<Rightarrow>
                       (case parse_diff_header raw of
                          None \<Rightarrow> Inl (MalformedDiff (BadDiffHeader raw))
                        | Some (os, ol, ns, nl) \<Rightarrow>
                            parse_diff_loop ls files (Some (f\<lparr>df_hunks := df_hunks f @
                              [\<lparr>old_start = os, old_lines = ol, new_start = ns, new_lines = nl, dh_lines = []\<rparr>]\<rparr>))))
                else parse_diff_loop ls files (map_option (push_diff_line raw) cur))))"

section \<open>Segments inside a line\<close>

definition seg_same :: "string list \<Rightarrow> diff_segment" where
  "seg_same us = \<lparr>seg_text = concat us, seg_kind = SSame\<rparr>"

fun common_prefix_len :: "'a list \<Rightarrow> 'a list \<Rightarrow> nat" where
  "common_prefix_len (x # xs) (y # ys) = (if x = y then Suc (common_prefix_len xs ys) else 0)"
| "common_prefix_len _ _ = 0"

definition common_suffix_len :: "'a list \<Rightarrow> 'a list \<Rightarrow> nat \<Rightarrow> nat" where
  "common_suffix_len a b prefix_len =
     (let m = min (length a - prefix_len) (length b - prefix_len) in
      common_prefix_len (take m (rev a)) (take m (rev b)))"

definition split_pair :: "string \<Rightarrow> string \<Rightarrow> diff_segment list \<times> diff_segment list" where
  "split_pair removed added =
     (let rem = utf8_chars removed; add = utf8_chars added;
          prefix_len = common_prefix_len rem add;
          suffix_len = common_suffix_len rem add prefix_len;
          rem_mid_hi = length rem - suffix_len;
          add_mid_hi = length add - suffix_len;
          head = (if 0 < prefix_len then [seg_same (take prefix_len rem)] else []);
          ahead = (if 0 < prefix_len then [seg_same (take prefix_len add)] else []);
          rem_mid = (if prefix_len < rem_mid_hi
            then [\<lparr>seg_text = concat (drop prefix_len (take rem_mid_hi rem)), seg_kind = SRemoved\<rparr>] else []);
          add_mid = (if prefix_len < add_mid_hi
            then [\<lparr>seg_text = concat (drop prefix_len (take add_mid_hi add)), seg_kind = SInserted\<rparr>] else []);
          rem_tail = (if 0 < suffix_len then [seg_same (drop (length rem - suffix_len) rem)] else []);
          add_tail = (if 0 < suffix_len then [seg_same (drop (length add - suffix_len) add)] else []);
          rem_segs = head @ rem_mid @ rem_tail;
          add_segs = ahead @ add_mid @ add_tail
      in if rem_segs = [] then (rem_segs @ [seg_same rem], add_segs @ [seg_same add])
         else (rem_segs, add_segs))"

definition whole_segment :: "diff_line \<Rightarrow> diff_segment list" where
  "whole_segment l =
     [\<lparr>seg_text = dl_content l,
       seg_kind = (case dl_kind l of Removal \<Rightarrow> SRemoved | Addition \<Rightarrow> SInserted | Context \<Rightarrow> SSame)\<rparr>]"

text \<open>A run of removed lines and the run of added lines behind it.\<close>

definition segment_run :: "diff_line list \<Rightarrow> diff_line list \<Rightarrow> diff_line list" where
  "segment_run rs as =
     (if length rs = length as then
        (let ps = map (\<lambda>(r, a). split_pair (dl_content r) (dl_content a)) (zip rs as) in
         map (\<lambda>(r, p). r\<lparr>dl_segments := fst p\<rparr>) (zip rs ps) @ map (\<lambda>(a, p). a\<lparr>dl_segments := snd p\<rparr>) (zip as ps))
      else map (\<lambda>l. l\<lparr>dl_segments := whole_segment l\<rparr>) (rs @ as))"

function split_intraline :: "diff_line list \<Rightarrow> diff_line list" where
  "split_intraline [] = []"
| "split_intraline (l # ls) =
     (if dl_kind l \<noteq> Removal then l # split_intraline ls
      else
        let rs = l # takeWhile (\<lambda>l. dl_kind l = Removal) ls;
            r1 = dropWhile (\<lambda>l. dl_kind l = Removal) ls;
            as = takeWhile (\<lambda>l. dl_kind l = Addition) r1;
            r2 = dropWhile (\<lambda>l. dl_kind l = Addition) r1
        in segment_run rs as @ split_intraline r2)"
  by pat_completeness auto
termination
proof (relation "measure length", simp, simp, goal_cases)
  case (1 l ls x xa xb xc)
  with length_dropWhile_le [of "\<lambda>l. dl_kind l = Addition" xa] length_dropWhile_le [of "\<lambda>l. dl_kind l = Removal" ls]
  show ?case by simp
qed

definition fill_segments :: "diff_line \<Rightarrow> diff_line" where
  "fill_segments l = (if dl_segments l = [] then l\<lparr>dl_segments := whole_segment l\<rparr> else l)"

definition annotate :: "diff_hunk \<Rightarrow> diff_hunk" where
  "annotate h = h\<lparr>dh_lines := map fill_segments (split_intraline (dh_lines h))\<rparr>"

definition parse_unified_diff :: "string \<Rightarrow> patch_error + diff_file list" where
  "parse_unified_diff diff =
     (case parse_diff_loop (str_lines diff) [] None of
        Inl e \<Rightarrow> Inl e
      | Inr files \<Rightarrow>
          (if files = [] then Inl (MalformedDiff NoFileSections)
           else case find (\<lambda>f. df_new_path f = []) files of
                  Some f \<Rightarrow> Inl (MalformedDiff (MissingNewHeader (df_old_path f)))
                | None \<Rightarrow> Inr (map (\<lambda>f. f\<lparr>df_hunks := map annotate (df_hunks f)\<rparr>) files)))"

section \<open>Two columns\<close>

definition ESC :: string where "ESC = [CHR 0x1B]"

definition ansi :: "string \<Rightarrow> string \<Rightarrow> bool \<Rightarrow> string" where
  "ansi s code enabled = (if enabled then ESC @ ''['' @ code @ ''m'' @ s @ ESC @ ''[0m'' else s)"

definition render_cell :: "diff_segment list \<Rightarrow> bool \<Rightarrow> string" where
  "render_cell segs color =
     concat (map (\<lambda>s. case seg_kind s of
                        SSame \<Rightarrow> seg_text s
                      | SRemoved \<Rightarrow> ansi (seg_text s) ''1;31'' color
                      | SInserted \<Rightarrow> ansi (seg_text s) ''1;32'' color) segs)"

fun visible_from :: "bool \<Rightarrow> string list \<Rightarrow> nat" where
  "visible_from esc [] = 0"
| "visible_from True (u # us) = visible_from (u \<noteq> ''m'') us"
| "visible_from False (u # us) = (if u = ESC then visible_from True us else Suc (visible_from False us))"

definition visible_len :: "string \<Rightarrow> nat" where
  "visible_len s = visible_from False (utf8_chars s)"

definition pad_cell :: "string \<Rightarrow> nat \<Rightarrow> string" where
  "pad_cell t width =
     (if width \<le> visible_len t then t else t @ replicate (width - visible_len t) CHR '' '')"

definition hunk_row :: "nat \<Rightarrow> bool \<Rightarrow> diff_line \<Rightarrow> string" where
  "hunk_row width color line =
     (let col_width = (width - 3) div 2;
          marker = (case dl_kind line of
                      Context \<Rightarrow> ''  '' | Removal \<Rightarrow> ansi ''- '' ''31'' color | Addition \<Rightarrow> ansi ''+ '' ''32'' color);
          cell = marker @ render_cell (dl_segments line) color;
          (left, right) = (case dl_kind line of
                             Context \<Rightarrow> (cell, cell) | Removal \<Rightarrow> (cell, []) | Addition \<Rightarrow> ([], cell))
      in pad_cell left col_width @ '' | '' @ pad_cell right col_width)"

definition range_part :: "string \<Rightarrow> nat \<Rightarrow> nat \<Rightarrow> string" where
  "range_part sign start n =
     (if n = 0 then sign @ ''0,0'' else sign @ show_nat start @ '','' @ show_nat n)"

definition hunk_header_line :: "diff_hunk \<Rightarrow> bool \<Rightarrow> string" where
  "hunk_header_line h color =
     ansi (''@@ '' @ range_part ''-'' (old_start h) (old_lines h) @ '' ''
             @ range_part ''+'' (new_start h) (new_lines h) @ '' @@'') ''35'' color"

definition render_side_by_side :: "diff_file list \<Rightarrow> nat \<Rightarrow> bool \<Rightarrow> string" where
  "render_side_by_side files width color =
     (let w = (if width < 40 then 120 else width) in
      concat (map (\<lambda>h. hunk_header_line h color @ LF
                         @ concat (map (\<lambda>l. hunk_row w color l @ LF) (dh_lines h)))
                (concat (map df_hunks files))))"

section \<open>Generation\<close>

datatype align = Same | Remove | Insert

text \<open>One row of the table from the row below it, and the whole table; the first cell of a row is the
  column of the argument.\<close>

fun dp_row :: "string \<Rightarrow> string list \<Rightarrow> u32 list \<Rightarrow> u32 list" where
  "dp_row x [] below = [0]"
| "dp_row x (y # ys) below =
     (let right = dp_row x ys (tl below) in
      (if x = y then hd (tl below) + 1 else max (hd below) (hd right)) # right)"

fun dp_table :: "string list \<Rightarrow> string list \<Rightarrow> u32 list list" where
  "dp_table [] b = [replicate (length b + 1) 0]"
| "dp_table (x # xs) b = (let t = dp_table xs b in dp_row x b (hd t) # t)"

function align_walk :: "string list \<Rightarrow> string list \<Rightarrow> u32 list list \<Rightarrow> nat \<Rightarrow> nat \<Rightarrow> align list" where
  "align_walk a b dp i j =
     (if i < length a \<and> j < length b then
        (if a ! i = b ! j then Same # align_walk a b dp (i + 1) (j + 1)
         else if dp ! i ! (j + 1) \<le> dp ! (i + 1) ! j then Remove # align_walk a b dp (i + 1) j
         else Insert # align_walk a b dp i (j + 1))
      else replicate (length a - i) Remove @ replicate (length b - j) Insert)"
  by pat_completeness auto
termination by (relation "measure (\<lambda>(a, b, _, i, j). (length a - i) + (length b - j))") auto

declare align_walk.simps [simp del]

definition align_lines :: "string list \<Rightarrow> string list \<Rightarrow> align list" where
  "align_lines a b = align_walk a b (dp_table a b) 0 0"

record change_block =
  cb_a0 :: nat
  cb_a1 :: nat
  cb_b0 :: nat
  cb_b1 :: nat

definition open_block :: "change_block option \<Rightarrow> nat \<Rightarrow> nat \<Rightarrow> change_block" where
  "open_block cur i j = (case cur of Some c \<Rightarrow> c | None \<Rightarrow> \<lparr>cb_a0 = i, cb_a1 = i, cb_b0 = j, cb_b1 = j\<rparr>)"

fun blocks_loop :: "align list \<Rightarrow> nat \<Rightarrow> nat \<Rightarrow> change_block option \<Rightarrow> change_block list \<Rightarrow> change_block list" where
  "blocks_loop [] i j cur blocks = flush blocks cur"
| "blocks_loop (Same # ss) i j cur blocks = blocks_loop ss (i + 1) (j + 1) None (flush blocks cur)"
| "blocks_loop (Remove # ss) i j cur blocks =
     blocks_loop ss (i + 1) j (Some ((open_block cur i j)\<lparr>cb_a1 := i + 1, cb_b1 := j\<rparr>)) blocks"
| "blocks_loop (Insert # ss) i j cur blocks =
     blocks_loop ss i (j + 1) (Some ((open_block cur i j)\<lparr>cb_a1 := i, cb_b1 := j + 1\<rparr>)) blocks"

definition change_blocks :: "align list \<Rightarrow> change_block list" where
  "change_blocks steps = blocks_loop steps 0 0 None []"

definition CTX :: nat where "CTX = 3"

definition widen :: "nat \<Rightarrow> nat \<Rightarrow> change_block \<Rightarrow> change_block" where
  "widen na nb c =
     \<lparr>cb_a0 = cb_a0 c - CTX, cb_a1 = min (cb_a1 c + CTX) na, cb_b0 = cb_b0 c - CTX, cb_b1 = min (cb_b1 c + CTX) nb\<rparr>"

fun build_loop :: "nat \<Rightarrow> nat \<Rightarrow> change_block list \<Rightarrow> change_block list \<Rightarrow> change_block list" where
  "build_loop na nb [] hunks = hunks"
| "build_loop na nb (c # cs) hunks =
     (let w = widen na nb c in
      if hunks \<noteq> [] \<and> cb_a0 w - cb_a1 (last hunks) < 2 * CTX \<and> cb_b0 w - cb_b1 (last hunks) < 2 * CTX
      then build_loop na nb cs (butlast hunks @
             [(last hunks)\<lparr>cb_a1 := max (cb_a1 (last hunks)) (cb_a1 w), cb_b1 := max (cb_b1 (last hunks)) (cb_b1 w)\<rparr>])
      else build_loop na nb cs (hunks @ [w]))"

definition build_hunks :: "change_block list \<Rightarrow> nat \<Rightarrow> nat \<Rightarrow> change_block list" where
  "build_hunks changes na nb = build_loop na nb changes []"

fun mark_loop :: "align list \<Rightarrow> nat \<Rightarrow> nat \<Rightarrow> bool list \<Rightarrow> bool list \<Rightarrow> bool list \<times> bool list" where
  "mark_loop [] i j removed inserted = (removed, inserted)"
| "mark_loop (Same # ss) i j removed inserted = mark_loop ss (i + 1) (j + 1) removed inserted"
| "mark_loop (Remove # ss) i j removed inserted = mark_loop ss (i + 1) j (removed[i := True]) inserted"
| "mark_loop (Insert # ss) i j removed inserted = mark_loop ss i (j + 1) removed (inserted[j := True])"

function render_body ::
    "string list \<Rightarrow> string list \<Rightarrow> bool list \<Rightarrow> bool list \<Rightarrow> change_block \<Rightarrow> nat \<Rightarrow> nat \<Rightarrow> string" where
  "render_body a b removed inserted h i j =
     (if i < cb_a1 h \<and> j < cb_b1 h then
        (if \<not> removed ! i \<and> \<not> inserted ! j
         then '' '' @ a ! i @ LF @ render_body a b removed inserted h (i + 1) (j + 1)
         else if removed ! i then ''-'' @ a ! i @ LF @ render_body a b removed inserted h (i + 1) j
         else ''+'' @ b ! j @ LF @ render_body a b removed inserted h i (j + 1))
      else concat (map (\<lambda>k. ''-'' @ a ! k @ LF) [i ..< cb_a1 h]) @ concat (map (\<lambda>k. ''+'' @ b ! k @ LF) [j ..< cb_b1 h]))"
  by pat_completeness auto
termination by (relation "measure (\<lambda>(_, _, _, _, h, i, j). (cb_a1 h - i) + (cb_b1 h - j))") auto

declare render_body.simps [simp del]

definition render_hunk_text :: "string list \<Rightarrow> string list \<Rightarrow> align list \<Rightarrow> change_block \<Rightarrow> string" where
  "render_hunk_text a b steps h =
     (let (removed, inserted) = mark_loop steps 0 0 (replicate (length a) False) (replicate (length b) False)
      in ''@@ '' @ range_part ''-'' (cb_a0 h + 1) (cb_a1 h - cb_a0 h) @ '' ''
           @ range_part ''+'' (cb_b0 h + 1) (cb_b1 h - cb_b0 h) @ '' @@'' @ LF
           @ render_body a b removed inserted h (cb_a0 h) (cb_b0 h))"

definition generate_unified_diff_file :: "string \<Rightarrow> string \<Rightarrow> string \<Rightarrow> string \<Rightarrow> string" where
  "generate_unified_diff_file old_name new_name original modified =
     (if original = modified then []
      else
        let a = str_lines original; b = str_lines modified in
        if a = [] \<and> b = [] then []
        else
          let steps = align_lines a b;
              hunks = build_hunks (change_blocks steps) (length a) (length b);
              old_hdr = (if original = [] then ''/dev/null'' else if old_name = [] then ''a/'' else old_name);
              new_hdr = (if modified = [] then ''/dev/null'' else if new_name = [] then ''b/'' else new_name)
          in ''--- '' @ old_hdr @ LF @ ''+++ '' @ new_hdr @ LF
               @ concat (map (render_hunk_text a b steps) hunks)
               @ (if hunks = []
                  then render_hunk_text a b steps \<lparr>cb_a0 = 0, cb_a1 = length a, cb_b0 = 0, cb_b1 = length b\<rparr>
                  else []))"

definition generate_unified_diff :: "string \<Rightarrow> string \<Rightarrow> string" where
  "generate_unified_diff original modified = generate_unified_diff_file [] [] original modified"

section \<open>The alignment is a longest common subsequence\<close>

fun lcs :: "'a list \<Rightarrow> 'a list \<Rightarrow> nat" where
  "lcs [] ys = 0"
| "lcs xs [] = 0"
| "lcs (x # xs) (y # ys) = (if x = y then Suc (lcs xs ys) else max (lcs xs (y # ys)) (lcs (x # xs) ys))"

lemma lcs_Nil [simp]: "lcs xs [] = 0"
  by (cases xs) auto

lemma lcs_le: "lcs xs ys \<le> length xs" "lcs xs ys \<le> length ys"
  by (induction xs ys rule: lcs.induct) auto

lemma common_subseq_le: "subseq zs xs \<Longrightarrow> subseq zs ys \<Longrightarrow> length zs \<le> lcs xs ys"
proof (induction xs ys arbitrary: zs rule: lcs.induct)
  case (3 x xs y ys)
  show ?case
  proof (cases zs)
    case (Cons z zs')
    show ?thesis
    proof (cases "x = y")
      case True
      have "subseq (if z = x then zs' else zs) xs" "subseq (if z = y then zs' else zs) ys"
        using "3.prems" Cons by auto
      with True have "length zs' \<le> lcs xs ys"
        using "3.IH"(1) [OF True, of zs'] Cons by (auto split: if_splits dest: subseq_Cons')
      with True Cons show ?thesis by simp
    next
      case False
      then have "subseq zs xs \<or> subseq zs ys" using "3.prems" Cons by (auto split: if_splits)
      with "3.IH"(2,3) [OF False] "3.prems" False show ?thesis by (auto simp: max.coboundedI1 max.coboundedI2)
    qed
  qed simp
qed (auto dest: list_emb_length)

text \<open>The cells of the table, as long as a row cannot pass the width of a cell.\<close>

lemma dp_row_length [simp]: "length (dp_row x b below) = length b + 1"
  by (induction x b below rule: dp_row.induct) (auto simp: Let_def)

lemma of_nat_max_u32:
  "m < 2 ^ 32 \<Longrightarrow> n < 2 ^ 32 \<Longrightarrow> max (of_nat m :: u32) (of_nat n) = of_nat (max m n)"
  by (auto simp: max_def word_le_nat_alt unat_of_nat)

lemma dp_row_cells:
  "length b < 2 ^ 32 \<Longrightarrow> below = map (\<lambda>j. of_nat (lcs xs (drop j b))) [0..<Suc (length b)] \<Longrightarrow>
    dp_row x b below = map (\<lambda>j. of_nat (lcs (x # xs) (drop j b))) [0..<Suc (length b)]"
proof (induction b arbitrary: below)
  case (Cons y ys)
  let ?f = "\<lambda>zs b. map (\<lambda>j. of_nat (lcs zs (drop j b)) :: u32) [0..<Suc (length b)]"
  have shift: "?f zs (y # ys) = of_nat (lcs zs (y # ys)) # ?f zs ys" for zs
    by (simp add: upt_conv_Cons map_Suc_upt [symmetric] del: upt_Suc)
  have hdf: "hd (?f zs ys) = of_nat (lcs zs ys)" for zs by (simp add: hd_map del: upt_Suc)
  have b: "below = of_nat (lcs xs (y # ys)) # ?f xs ys" using Cons.prems(2) shift by simp
  have r: "dp_row x ys (tl below) = ?f (x # xs) ys" using Cons b by simp
  have small: "lcs zs (y # ys) < 2 ^ 32" "lcs zs ys < 2 ^ 32" for zs
    using lcs_le(2) [of zs "y # ys"] lcs_le(2) [of zs ys] Cons.prems(1) by auto
  have "dp_row x (y # ys) below = (if x = y then hd (tl below) + 1 else max (hd below) (hd (dp_row x ys (tl below))))
      # dp_row x ys (tl below)" by (simp add: Let_def)
  also have "\<dots> = of_nat (lcs (x # xs) (y # ys)) # ?f (x # xs) ys"
    using of_nat_max_u32 [OF small(1) small(2)] unfolding r hdf by (simp add: b hdf add.commute del: upt_Suc)
  finally show ?case by (simp only: shift)
qed simp

lemma dp_table_cells:
  assumes "length b < 2 ^ 32"
  shows "dp_table a b = map (\<lambda>i. map (\<lambda>j. of_nat (lcs (drop i a) (drop j b))) [0..<Suc (length b)]) [0..<Suc (length a)]"
proof (induction a)
  case Nil
  show ?case by (simp add: map_replicate_const del: upt_Suc)
next
  case (Cons x xs)
  let ?t = "\<lambda>a. map (\<lambda>i. map (\<lambda>j. of_nat (lcs (drop i a) (drop j b)) :: u32) [0..<Suc (length b)]) [0..<Suc (length a)]"
  have hdt: "hd (?t xs) = map (\<lambda>j. of_nat (lcs xs (drop j b))) [0..<Suc (length b)]"
    by (simp add: hd_map del: upt_Suc)
  have "?t (x # xs) = map (\<lambda>j. of_nat (lcs (x # xs) (drop j b))) [0..<Suc (length b)] # ?t xs"
    by (simp add: upt_conv_Cons map_Suc_upt [symmetric] del: upt_Suc)
  moreover have "dp_table (x # xs) b = dp_row x b (hd (?t xs)) # ?t xs" by (simp add: Cons Let_def del: upt_Suc)
  ultimately show ?case using dp_row_cells [OF assms hdt] by (simp del: upt_Suc)
qed

lemma dp_table_nth:
  assumes "length b < 2 ^ 32" "i \<le> length a" "j \<le> length b"
  shows "dp_table a b ! i ! j = of_nat (lcs (drop i a) (drop j b))"
proof -
  have "dp_table a b ! i = map (\<lambda>j. of_nat (lcs (drop i a) (drop j b))) [0..<Suc (length b)]"
    unfolding dp_table_cells [OF assms(1)] using assms(2) by (subst nth_map) (simp_all del: upt_Suc)
  then show ?thesis using assms(3) by (simp del: upt_Suc)
qed

text \<open>An alignment of two lists: equal lines stay, the others go or come.\<close>

fun aligned :: "align list \<Rightarrow> 'a list \<Rightarrow> 'a list \<Rightarrow> bool" where
  "aligned [] xs ys \<longleftrightarrow> xs = [] \<and> ys = []"
| "aligned (Same # ss) xs ys \<longleftrightarrow> (case (xs, ys) of (x # xs', y # ys') \<Rightarrow> x = y \<and> aligned ss xs' ys' | _ \<Rightarrow> False)"
| "aligned (Remove # ss) xs ys \<longleftrightarrow> (case xs of x # xs' \<Rightarrow> aligned ss xs' ys | [] \<Rightarrow> False)"
| "aligned (Insert # ss) xs ys \<longleftrightarrow> (case ys of y # ys' \<Rightarrow> aligned ss xs ys' | [] \<Rightarrow> False)"

lemma aligned_tail: "aligned (replicate n Remove @ replicate m Insert) xs ys \<longleftrightarrow> n = length xs \<and> m = length ys"
proof (induction n arbitrary: xs)
  case 0
  show ?case by (induction m arbitrary: ys) (auto split: list.splits)
next
  case (Suc n)
  then show ?case by (auto split: list.splits)
qed

lemma align_walk_aligned: "i \<le> length a \<Longrightarrow> j \<le> length b \<Longrightarrow> aligned (align_walk a b dp i j) (drop i a) (drop j b)"
proof (induction a b dp i j rule: align_walk.induct)
  case (1 a b dp i j)
  show ?case
  proof (cases "i < length a \<and> j < length b")
    case True
    then have "drop i a = a ! i # drop (Suc i) a" "drop j b = b ! j # drop (Suc j) b"
      by (simp_all add: Cons_nth_drop_Suc)
    with True 1 show ?thesis by (subst align_walk.simps) auto
  next
    case False
    with 1 show ?thesis by (subst align_walk.simps) (auto simp: aligned_tail)
  qed
qed

lemma aligned_align_lines: "aligned (align_lines a b) a b"
  using align_walk_aligned [of 0 a 0 b] by (simp add: align_lines_def)

lemma align_walk_same_count:
  assumes "length b < 2 ^ 32"
  shows "i \<le> length a \<Longrightarrow> j \<le> length b \<Longrightarrow>
    length (filter (\<lambda>s. s = Same) (align_walk a b (dp_table a b) i j)) = lcs (drop i a) (drop j b)"
proof (induction "(length a - i) + (length b - j)" arbitrary: i j rule: less_induct)
  case less
  show ?case
  proof (cases "i < length a \<and> j < length b")
    case True
    have d: "drop i a = a ! i # drop (Suc i) a" "drop j b = b ! j # drop (Suc j) b"
      using True by (simp_all add: Cons_nth_drop_Suc)
    have small: "lcs xs (drop k b) < 2 ^ 32" for xs and k
      using lcs_le(2) [of xs "drop k b"] assms unfolding length_drop by linarith
    have cmp: "(dp_table a b ! i ! Suc j \<le> dp_table a b ! Suc i ! j)
        = (lcs (drop i a) (drop (Suc j) b) \<le> lcs (drop (Suc i) a) (drop j b))"
      using True small by (simp add: dp_table_nth [OF assms] word_le_nat_alt unat_of_nat)
    show ?thesis
      using True less by (subst align_walk.simps) (auto simp: cmp d max_def)
  next
    case False
    with less.prems show ?thesis by (subst align_walk.simps) auto
  qed
qed

fun kept_lines :: "align list \<Rightarrow> 'a list \<Rightarrow> 'a list" where
  "kept_lines [] xs = []"
| "kept_lines (Same # ss) xs = hd xs # kept_lines ss (tl xs)"
| "kept_lines (Remove # ss) xs = kept_lines ss (tl xs)"
| "kept_lines (Insert # ss) xs = kept_lines ss xs"

lemma kept_lines_subseq: "aligned ss xs ys \<Longrightarrow> subseq (kept_lines ss xs) xs \<and> subseq (kept_lines ss xs) ys"
  by (induction ss xs ys rule: aligned.induct) (auto split: list.splits)

lemma length_kept_lines: "length (kept_lines ss xs) = length (filter (\<lambda>s. s = Same) ss)"
  by (induction ss xs rule: kept_lines.induct) auto

text \<open>The alignment behind a generated diff turns the old lines into the new ones and keeps a longest
  common subsequence of them, as long as the new text has fewer than \<open>2 ^ 32\<close> lines.\<close>

theorem align_lines_optimal:
  assumes "length b < 2 ^ 32"
  shows "aligned (align_lines a b) a b \<and> subseq (kept_lines (align_lines a b) a) a \<and> subseq (kept_lines (align_lines a b) a) b
    \<and> (\<forall>zs. subseq zs a \<and> subseq zs b \<longrightarrow> length zs \<le> length (kept_lines (align_lines a b) a))"
  using aligned_align_lines [of a b] kept_lines_subseq [OF aligned_align_lines, of a b]
    align_walk_same_count [OF assms, of 0 a 0] common_subseq_le
  by (auto simp: length_kept_lines align_lines_def)

theorem align_lines_optimal_witness:
  "{zs. subseq zs [''a'', ''b'', ''c''] \<and> subseq zs [''b'', ''c'', ''a''] \<and> 2 < length zs} = {}"
proof -
  have "align_lines [''a'', ''b'', ''c''] [''b'', ''c'', ''a''] = [Remove, Same, Same, Insert]"
    by (simp add: align_lines_def align_walk.simps Let_def)
  with align_lines_optimal [of "[''b'', ''c'', ''a'']" "[''a'', ''b'', ''c'']"]
  have "\<forall>zs. subseq zs [''a'', ''b'', ''c''] \<and> subseq zs [''b'', ''c'', ''a''] \<longrightarrow> length zs \<le> Suc (Suc 0)" by simp
  then show ?thesis by (force simp: numeral_2_eq_2)
qed

section \<open>Segments\<close>

definition segs_text :: "diff_segment list \<Rightarrow> string" where
  "segs_text ss = concat (map seg_text ss)"

lemma segs_text_simps [simp]: "segs_text [] = []" "segs_text (s # ss) = seg_text s @ segs_text ss"
  "segs_text (xs @ ys) = segs_text xs @ segs_text ys"
  by (simp_all add: segs_text_def)

lemma common_prefix_len_le: "common_prefix_len xs ys \<le> length xs" "common_prefix_len xs ys \<le> length ys"
  by (induction xs ys rule: common_prefix_len.induct) auto

lemma common_suffix_len_le:
  "common_suffix_len a b p \<le> length a - p" "common_suffix_len a b p \<le> length b - p"
  using common_prefix_len_le [of "take (min (length a - p) (length b - p)) (rev a)" "take (min (length a - p) (length b - p)) (rev b)"]
  by (simp_all add: common_suffix_len_def Let_def)

text \<open>Head, middle and tail of a line, each left out when it is empty, make up the line.\<close>

lemma three_parts:
  assumes "p + s \<le> length xs"
  shows "concat (take p xs) @ concat (drop p (take (length xs - s) xs)) @ concat (drop (length xs - s) xs) = concat xs"
proof -
  have "take p xs = take p (take (length xs - s) xs)" using assms by (simp add: min_def)
  then have "take p xs @ drop p (take (length xs - s) xs) @ drop (length xs - s) xs = xs"
    by (metis append.assoc append_take_drop_id)
  from arg_cong [OF this, of concat] show ?thesis by simp
qed

lemma split_pair_texts:
  "segs_text (fst (split_pair r a)) = r"
  "segs_text (snd (split_pair r a)) = (if r = [] then a @ a else a)"
proof -
  let ?R = "utf8_chars r" and ?A = "utf8_chars a"
  define p where "p = common_prefix_len ?R ?A"
  define s where "s = common_suffix_len ?R ?A p"
  have le: "p + s \<le> length ?R" "p + s \<le> length ?A"
    using common_suffix_len_le [of ?R ?A p] common_prefix_len_le [of ?R ?A] unfolding s_def p_def by auto
  have nil: "utf8_chars x = [] \<longleftrightarrow> x = []" for x by (cases x) auto
  have parts: "segs_text ((if 0 < p then [seg_same (take p xs)] else [])
      @ (if p < length xs - s then [\<lparr>seg_text = concat (drop p (take (length xs - s) xs)), seg_kind = k\<rparr>] else [])
      @ (if 0 < s then [seg_same (drop (length xs - s) xs)] else [])) = concat xs" if "p + s \<le> length xs" for xs k
    using three_parts [OF that] that by (auto simp: seg_same_def)
  have e: "r = [] \<Longrightarrow> p = 0 \<and> s = 0" using le by auto
  have sp: "split_pair r a = (let
      rs = (if 0 < p then [seg_same (take p ?R)] else [])
        @ (if p < length ?R - s then [\<lparr>seg_text = concat (drop p (take (length ?R - s) ?R)), seg_kind = SRemoved\<rparr>] else [])
        @ (if 0 < s then [seg_same (drop (length ?R - s) ?R)] else []);
      as = (if 0 < p then [seg_same (take p ?A)] else [])
        @ (if p < length ?A - s then [\<lparr>seg_text = concat (drop p (take (length ?A - s) ?A)), seg_kind = SInserted\<rparr>] else [])
        @ (if 0 < s then [seg_same (drop (length ?A - s) ?A)] else [])
      in if rs = [] then (rs @ [seg_same ?R], as @ [seg_same ?A]) else (rs, as))"
    by (simp only: split_pair_def Let_def p_def s_def)
  show "segs_text (fst (split_pair r a)) = r" "segs_text (snd (split_pair r a)) = (if r = [] then a @ a else a)"
    unfolding sp Let_def using parts [OF le(1), of SRemoved] parts [OF le(2), of SInserted] e le
    by (auto simp: seg_same_def nil split: if_splits)
qed

text \<open>A line with its segments: they spell its text, or, for an added line, its text twice.\<close>

definition spelled :: "diff_line \<Rightarrow> bool" where
  "spelled l \<longleftrightarrow> dl_segments l = [] \<or> segs_text (dl_segments l) = dl_content l
     \<or> (dl_kind l = Addition \<and> segs_text (dl_segments l) = dl_content l @ dl_content l)"

lemma whole_segment_text [simp]: "segs_text (whole_segment l) = dl_content l"
  by (simp add: whole_segment_def)

lemma segment_run_spelled:
  assumes "\<forall>l \<in> set as. dl_kind l = Addition"
  shows "list_all spelled (segment_run rs as)"
proof (cases "length rs = length as")
  case True
  have old: "spelled (r\<lparr>dl_segments := p\<rparr>)" if "split_pair (dl_content r) x = (p, q)" for r x p q
    using split_pair_texts(1) [of "dl_content r" x] that by (simp add: spelled_def)
  have new: "spelled (l\<lparr>dl_segments := q\<rparr>)" if "l \<in> set as" "split_pair x (dl_content l) = (p, q)" for l x p q
    using split_pair_texts(2) [of x "dl_content l"] that assms by (simp add: spelled_def split: if_splits)
  show ?thesis unfolding list_all_iff
  proof
    fix y assume "y \<in> set (segment_run rs as)"
    then obtain i where i: "i < length as" and y: "y = (rs ! i)\<lparr>dl_segments := fst (split_pair (dl_content (rs ! i)) (dl_content (as ! i)))\<rparr>
        \<or> y = (as ! i)\<lparr>dl_segments := snd (split_pair (dl_content (rs ! i)) (dl_content (as ! i)))\<rparr>"
      using True by (fastforce simp: segment_run_def in_set_zip Let_def)
    then show "spelled y" using old new nth_mem [OF i] by (metis prod.collapse)
  qed
next
  case False
  then show ?thesis by (auto simp: segment_run_def list_all_iff spelled_def)
qed

lemma split_intraline_spelled: "list_all spelled ls \<Longrightarrow> list_all spelled (split_intraline ls)"
proof (induction ls rule: split_intraline.induct)
  case (2 l ls)
  show ?case
  proof (cases "dl_kind l = Removal")
    case True
    let ?r1 = "dropWhile (\<lambda>l. dl_kind l = Removal) ls"
    let ?as = "takeWhile (\<lambda>l. dl_kind l = Addition) ?r1" and ?r2 = "dropWhile (\<lambda>l. dl_kind l = Addition) ?r1"
    have "set ?r2 \<subseteq> set ls" by (auto dest: set_dropWhileD)
    then have "list_all spelled ?r2" using "2.prems" by (auto simp: list_all_iff)
    then have "list_all spelled (split_intraline ?r2)"
      using "2.IH"(2) [OF _ refl refl refl refl] True by blast
    moreover have "\<forall>l \<in> set ?as. dl_kind l = Addition" by (auto dest: set_takeWhileD)
    from segment_run_spelled [OF this] have "list_all spelled (segment_run (l # takeWhile (\<lambda>l. dl_kind l = Removal) ls) ?as)" .
    moreover have "split_intraline (l # ls) = segment_run (l # takeWhile (\<lambda>l. dl_kind l = Removal) ls) ?as @ split_intraline ?r2"
      using True by (simp only: split_intraline.simps Let_def) simp
    ultimately show ?thesis by (simp only: list_all_append)
  qed (use 2 in simp)
qed simp

definition fresh_file :: "diff_file \<Rightarrow> bool" where
  "fresh_file f \<longleftrightarrow> (\<forall>h \<in> set (df_hunks f). \<forall>l \<in> set (dh_lines h). dl_segments l = [])"

lemma fresh_file_no_hunks [simp]: "df_hunks f = [] \<Longrightarrow> fresh_file f"
  by (simp add: fresh_file_def)

lemma push_diff_line_fresh: "fresh_file f \<Longrightarrow> fresh_file (push_diff_line raw f)"
proof -
  assume f: "fresh_file f"
  show ?thesis
  proof (cases "df_hunks f" rule: rev_cases)
    case Nil
    with f show ?thesis by (simp add: push_diff_line_def)
  next
    case (snoc hs h)
    with f show ?thesis by (auto simp: push_diff_line_def fresh_file_def Let_def split: option.splits)
  qed
qed

lemma parse_diff_loop_fresh:
  "parse_diff_loop ls files cur = Inr out \<Longrightarrow> list_all fresh_file files \<Longrightarrow> pred_option fresh_file cur \<Longrightarrow>
    list_all fresh_file out"
proof (induction ls files cur rule: parse_diff_loop.induct)
  case (1 files cur)
  then show ?case by (cases cur) (auto simp: flush_def)
next
  case (2 raw ls files cur)
  have fl: "list_all fresh_file (flush files cur)" using "2.prems" by (cases cur) (simp_all add: flush_def)
  have new: "pred_option fresh_file (map_option g cur)" if "\<And>f. fresh_file f \<Longrightarrow> fresh_file (g f)" for g
    using that "2.prems"(3) by (cases cur) simp_all
  have np: "fresh_file f \<Longrightarrow> fresh_file (if df_new_path f = [] then f\<lparr>df_new_path := p\<rparr> else f)" for f p
    by (simp add: fresh_file_def)
  show ?case
  proof (cases "strip_prefix raw ''--- ''")
    case (Some old)
    then show ?thesis using "2.IH"(4) [OF Some] "2.prems"(1) fl by simp
  next
    case None
    show ?thesis
    proof (cases "strip_prefix raw ''+++ ''")
      case (Some new')
      then show ?thesis using "2.IH"(3) [OF None Some] "2.prems" new [OF np] None by simp
    next
      case 2: None
      show ?thesis
      proof (cases "starts_with raw ''@@''")
        case True
        then obtain f os ol ns nl where f: "cur = Some f" "parse_diff_header raw = Some (os, ol, ns, nl)"
          using "2.prems"(1) None 2 by (auto split: option.splits)
        moreover have "fresh_file (f\<lparr>df_hunks := df_hunks f @
            [\<lparr>old_start = os, old_lines = ol, new_start = ns, new_lines = nl, dh_lines = []\<rparr>]\<rparr>)"
          using f(1) "2.prems"(3) by (auto simp: fresh_file_def)
        ultimately show ?thesis
          using "2.IH"(1) [OF None 2 True f(1) f(2) refl refl refl] "2.prems"(1,2) None 2 True by simp
      next
        case False
        then show ?thesis
          using "2.IH"(2) [OF None 2 False] "2.prems"(1,2) None 2 new [OF push_diff_line_fresh] by simp
      qed
    qed
  qed
qed

text \<open>In a parsed diff the segments of a line spell its text, so that highlighting loses nothing; only an
  added line that replaces an empty one is spelled twice.\<close>

theorem segments_spell_lines:
  assumes "parse_unified_diff diff = Inr files" "f \<in> set files" "h \<in> set (df_hunks f)" "l \<in> set (dh_lines h)"
  shows "concat (map seg_text (dl_segments l)) = dl_content l
    \<or> dl_kind l = Addition \<and> concat (map seg_text (dl_segments l)) = dl_content l @ dl_content l"
proof -
  obtain raw where p: "parse_diff_loop (str_lines diff) [] None = Inr raw"
    and files: "files = map (\<lambda>f. f\<lparr>df_hunks := map annotate (df_hunks f)\<rparr>) raw"
    using assms(1) by (auto simp: parse_unified_diff_def split: sum.splits if_splits option.splits)
  have "list_all fresh_file raw" using parse_diff_loop_fresh [OF p] by simp
  obtain fa h0 where fa: "fa \<in> set raw" "h0 \<in> set (df_hunks fa)" and "h = annotate h0"
    using assms(2,3) files by auto
  then have "l \<in> set (map fill_segments (split_intraline (dh_lines h0)))"
    using assms(4) by (simp add: annotate_def)
  moreover have fresh: "\<forall>l \<in> set (dh_lines h0). dl_segments l = []"
    using \<open>list_all fresh_file raw\<close> fa by (simp add: list_all_iff fresh_file_def)
  ultimately obtain l0 where l: "l = fill_segments l0" "l0 \<in> set (split_intraline (dh_lines h0))"
    by (auto simp only: set_map image_iff)
  have "list_all spelled (split_intraline (dh_lines h0))"
    using fresh by (intro split_intraline_spelled) (simp add: list_all_iff spelled_def)
  with l(2) have "spelled l0" by (simp add: list_all_iff)
  then show ?thesis by (auto simp: l(1) fill_segments_def spelled_def segs_text_def [symmetric] split: if_splits)
qed

theorem segments_spell_lines_witness:
  "\<exists>files f h l. parse_unified_diff (''--- a/p'' @ LF @ ''+++ b/p'' @ LF @ ''@@ -1 +1 @@'' @ LF @ ''-one'' @ LF @ ''+two'' @ LF) = Inr files
     \<and> f \<in> set files \<and> h \<in> set (df_hunks f) \<and> l \<in> set (dh_lines h)
     \<and> (concat (map seg_text (dl_segments l)) = dl_content l
        \<or> dl_kind l = Addition \<and> concat (map seg_text (dl_segments l)) = dl_content l @ dl_content l)"
proof -
  let ?d = "''--- a/p'' @ LF @ ''+++ b/p'' @ LF @ ''@@ -1 +1 @@'' @ LF @ ''-one'' @ LF @ ''+two'' @ LF"
  let ?ps = "split_pair ''one'' ''two''"
  let ?l = "\<lparr>dl_kind = Removal, dl_content = ''one'', dl_segments = fst ?ps\<rparr>"
  let ?h = "\<lparr>old_start = 1, old_lines = 1, new_start = 1, new_lines = 1,
    dh_lines = [?l, \<lparr>dl_kind = Addition, dl_content = ''two'', dl_segments = snd ?ps\<rparr>]\<rparr>"
  let ?f = "\<lparr>df_old_path = ''p'', df_new_path = ''p'', df_hunks = [?h]\<rparr>"
  have l: "str_lines ?d = [''--- a/p'', ''+++ b/p'', ''@@ -1 +1 @@'', ''-one'', ''+two'']"
    by (simp add: str_lines_def split_lf.simps strip_cr_def Let_def)
  have "parse_diff_header ''@@ -1 +1 @@'' = Some (1, 1, 1, 1)"
    by (simp add: parse_diff_header_def text_defs before_str_def str_find.simps split_whitespace_def ws_words.simps
        parse_range_def parse_unsigned_def digit_val_def Let_def)
  then have "parse_unified_diff ?d = Inr [?f]"
    unfolding parse_unified_diff_def l
    by (simp add: text_defs strip_filename_prefix_def flush_def push_diff_line_def classify_diff_line_def annotate_def
        segment_run_def fill_segments_def split_pair_def common_suffix_len_def Let_def)
  with segments_spell_lines [OF this, of ?f ?h ?l] show ?thesis by (intro exI [of _ "[?f]"] exI [of _ ?f] exI [of _ ?h] exI [of _ ?l]) simp
qed

lemma blank_replacement_doubled:
  "map seg_text (snd (split_pair [] ''new'')) = [''new'', ''new'']"
  by (simp add: split_pair_def common_suffix_len_def seg_same_def is_cont_byte_def Let_def)

end
