(* ===== verification/Diff_Roundtrip.thy ===== *)
theory Diff_Roundtrip
  imports Unified_Diff
begin

text \<open>
  Generated diffs as patches: the text that \<open>diff.rs\<close> prints is read back by the parser of
  \<open>apply_patch.rs\<close> and applied to the original. A text is seen as its lines with marks for the removed
  and the inserted ones; the blocks and the hunks are shown to cover the marks, the printed body of
  a hunk to parse into its classified lines, and the hunks to stand where they say.
\<close>

section \<open>Blocks and hunks cover the change\<close>

text \<open>A text as its lines, each with the mark of a removed or inserted line.\<close>

type_synonym marked = "(string \<times> bool) list"

definition kept :: "marked \<Rightarrow> string list" where
  "kept xs = map fst (filter (\<lambda>x. \<not> snd x) xs)"

definition unmarked :: "marked \<Rightarrow> bool" where
  "unmarked xs \<longleftrightarrow> (\<forall>x \<in> set xs. \<not> snd x)"

lemma kept_simps [simp]: "kept [] = []" "kept ((l, m) # xs) = (if m then kept xs else l # kept xs)"
  "kept (xs @ ys) = kept xs @ kept ys"
  by (simp_all add: kept_def)

lemma unmarked_simps [simp]: "unmarked []" "unmarked ((l, m) # xs) \<longleftrightarrow> \<not> m \<and> unmarked xs"
  "unmarked (xs @ ys) \<longleftrightarrow> unmarked xs \<and> unmarked ys"
  by (auto simp: unmarked_def)

lemma unmarked_take_drop: "unmarked xs \<Longrightarrow> unmarked (take n xs)" "unmarked xs \<Longrightarrow> unmarked (drop n xs)"
  by (auto simp: unmarked_def dest: in_set_takeD in_set_dropD)

fun flags_a :: "align list \<Rightarrow> bool list" where
  "flags_a [] = []"
| "flags_a (Same # ss) = False # flags_a ss"
| "flags_a (Remove # ss) = True # flags_a ss"
| "flags_a (Insert # ss) = flags_a ss"

fun flags_b :: "align list \<Rightarrow> bool list" where
  "flags_b [] = []"
| "flags_b (Same # ss) = False # flags_b ss"
| "flags_b (Remove # ss) = flags_b ss"
| "flags_b (Insert # ss) = True # flags_b ss"

lemma mark_loop_flags:
  "mark_loop ss (length p) (length q) (p @ replicate (length (flags_a ss)) False) (q @ replicate (length (flags_b ss)) False)
     = (p @ flags_a ss, q @ flags_b ss)"
proof (induction ss arbitrary: p q)
  case (Cons s ss)
  from Cons [of "p @ [False]" "q @ [False]"] Cons [of "p @ [True]" q] Cons [of p "q @ [True]"] show ?case
    by (cases s) (simp_all add: list_update_append)
qed simp

lemma aligned_lengths: "aligned ss xs ys \<Longrightarrow> length (flags_a ss) = length xs \<and> length (flags_b ss) = length ys"
  by (induction ss xs ys rule: aligned.induct) (auto split: list.splits)

text \<open>Two marked texts from the positions \<open>i\<close> and \<open>j\<close> on: equal unmarked stretches, and between them the
  blocks, inside which the unmarked lines agree.\<close>

inductive regions :: "marked \<Rightarrow> marked \<Rightarrow> nat \<Rightarrow> nat \<Rightarrow> change_block list \<Rightarrow> bool" where
  tail: "unmarked g \<Longrightarrow> regions g g i j []"
| block: "unmarked g \<Longrightarrow> kept x = kept y \<Longrightarrow>
    regions A B (i + length g + length x) (j + length g + length y) cs \<Longrightarrow>
    regions (g @ x @ A) (g @ y @ B) i j
      (\<lparr>cb_a0 = i + length g, cb_a1 = i + length g + length x,
        cb_b0 = j + length g, cb_b1 = j + length g + length y\<rparr> # cs)"

lemma regions_Cons:
  assumes "regions A B (Suc i) (Suc j) cs"
  shows "regions ((l, False) # A) ((l, False) # B) i j cs"
  using assms
proof cases
  case tail
  then show ?thesis using regions.tail [of "(l, False) # A"] by simp
next
  case (block g x y A' B' cs')
  then show ?thesis using regions.block [of "(l, False) # g" x y A' B' i j cs'] by simp
qed

lemma blocks_loop_acc: "blocks_loop ss i j cur bs = bs @ blocks_loop ss i j cur []"
proof (induction ss arbitrary: i j cur bs)
  case Nil
  show ?case by (simp add: flush_def split: option.splits)
next
  case (Cons s ss)
  show ?case
  proof (cases s)
    case Same
    then show ?thesis using Cons [of "i + 1" "j + 1" None "flush bs cur"] Cons [of "i + 1" "j + 1" None "flush [] cur"]
      by (simp add: flush_def split: option.splits)
  qed (simp_all add: Cons [of _ _ _ bs])
qed

text \<open>An open block \<open>d\<close> at the positions takes in the marked lines that follow.\<close>

definition grows :: "marked \<Rightarrow> marked \<Rightarrow> nat \<Rightarrow> nat \<Rightarrow> change_block \<Rightarrow> change_block list \<Rightarrow> bool" where
  "grows A B i j d bs \<longleftrightarrow>
     (\<exists>x y A' B' cs. A = x @ A' \<and> B = y @ B' \<and> kept x = [] \<and> kept y = []
        \<and> bs = d\<lparr>cb_a1 := i + length x, cb_b1 := j + length y\<rparr> # cs
        \<and> regions A' B' (i + length x) (j + length y) cs)"

lemma grows_close: "regions A B i j cs \<Longrightarrow> cb_a1 d = i \<Longrightarrow> cb_b1 d = j \<Longrightarrow> grows A B i j d (d # cs)"
  unfolding grows_def
  by (rule exI [of _ "[]"], rule exI [of _ "[]"], rule exI [of _ A], rule exI [of _ B], rule exI [of _ cs]) auto

lemma grows_remove:
  assumes "grows A B (Suc i) j (d\<lparr>cb_a1 := Suc i, cb_b1 := j\<rparr>) bs"
  shows "grows ((l, True) # A) B i j d bs"
proof -
  from assms obtain x y A' B' cs where "A = x @ A'" "B = y @ B'" "kept x = []" "kept y = []"
    "bs = d\<lparr>cb_a1 := Suc i + length x, cb_b1 := j + length y\<rparr> # cs" "regions A' B' (Suc i + length x) (j + length y) cs"
    by (auto simp: grows_def)
  then show ?thesis unfolding grows_def
    by (intro exI [of _ "(l, True) # x"] exI [of _ y] exI [of _ A'] exI [of _ B'] exI [of _ cs]) simp
qed

lemma grows_insert:
  assumes "grows A B i (Suc j) (d\<lparr>cb_a1 := i, cb_b1 := Suc j\<rparr>) bs"
  shows "grows A ((l, True) # B) i j d bs"
proof -
  from assms obtain x y A' B' cs where "A = x @ A'" "B = y @ B'" "kept x = []" "kept y = []"
    "bs = d\<lparr>cb_a1 := i + length x, cb_b1 := Suc j + length y\<rparr> # cs" "regions A' B' (i + length x) (Suc j + length y) cs"
    by (auto simp: grows_def)
  then show ?thesis unfolding grows_def
    by (intro exI [of _ x] exI [of _ "(l, True) # y"] exI [of _ A'] exI [of _ B'] exI [of _ cs]) simp
qed

lemma grows_regions:
  assumes "grows A B i j \<lparr>cb_a0 = i, cb_a1 = i, cb_b0 = j, cb_b1 = j\<rparr> bs"
  shows "regions A B i j bs"
proof -
  from assms obtain x y A' B' cs where "A = x @ A'" "B = y @ B'" "kept x = []" "kept y = []"
    "bs = \<lparr>cb_a0 = i, cb_a1 = i + length x, cb_b0 = j, cb_b1 = j + length y\<rparr> # cs"
    "regions A' B' (i + length x) (j + length y) cs" by (auto simp: grows_def)
  then show ?thesis using regions.block [of "[]" x y A' B' i j cs] by simp
qed

lemma blocks_loop_regions:
  "aligned ss xs ys \<Longrightarrow>
    regions (zip xs (flags_a ss)) (zip ys (flags_b ss)) i j (blocks_loop ss i j None [])
    \<and> (\<forall>d. cb_a1 d = i \<longrightarrow> cb_b1 d = j \<longrightarrow> grows (zip xs (flags_a ss)) (zip ys (flags_b ss)) i j d (blocks_loop ss i j (Some d) []))"
proof (induction ss arbitrary: xs ys i j)
  case Nil
  then show ?case using grows_close [OF regions.tail [of "[]"]] by (auto simp: flush_def intro: regions.tail)
next
  case (Cons s ss)
  show ?case
  proof (cases s)
    case Same
    with Cons.prems obtain l xs' ys' where e: "xs = l # xs'" "ys = l # ys'" "aligned ss xs' ys'"
      by (auto split: list.splits)
    have r: "regions (zip xs (flags_a (s # ss))) (zip ys (flags_b (s # ss))) i j (blocks_loop ss (Suc i) (Suc j) None [])"
      using Cons.IH [OF e(3), of "Suc i" "Suc j"] by (simp add: e(1,2) Same regions_Cons)
    moreover have "blocks_loop (s # ss) i j (Some d) [] = d # blocks_loop ss (Suc i) (Suc j) None []" for d
      using blocks_loop_acc [of ss "Suc i" "Suc j" None "[d]"] by (simp add: Same flush_def)
    ultimately show ?thesis using grows_close by (simp add: Same flush_def)
  next
    case Remove
    with Cons.prems obtain l xs' where e: "xs = l # xs'" "aligned ss xs' ys" by (auto split: list.splits)
    have "grows (zip xs (flags_a (s # ss))) (zip ys (flags_b (s # ss))) i j d
        (blocks_loop ss (Suc i) j (Some (d\<lparr>cb_a1 := Suc i, cb_b1 := j\<rparr>)) [])" for d
      using Cons.IH [OF e(2), of "Suc i" j] by (simp add: e(1) Remove grows_remove)
    from this [of "\<lparr>cb_a0 = i, cb_a1 = i, cb_b0 = j, cb_b1 = j\<rparr>"] this show ?thesis
      by (auto simp: Remove open_block_def dest!: grows_regions)
  next
    case Insert
    with Cons.prems obtain l ys' where e: "ys = l # ys'" "aligned ss xs ys'" by (auto split: list.splits)
    have "grows (zip xs (flags_a (s # ss))) (zip ys (flags_b (s # ss))) i j d
        (blocks_loop ss i (Suc j) (Some (d\<lparr>cb_a1 := i, cb_b1 := Suc j\<rparr>)) [])" for d
      using Cons.IH [OF e(2), of i "Suc j"] by (simp add: e(1) Insert grows_insert)
    from this [of "\<lparr>cb_a0 = i, cb_a1 = i, cb_b0 = j, cb_b1 = j\<rparr>"] this show ?thesis
      by (auto simp: Insert open_block_def dest!: grows_regions)
  qed
qed

lemma change_blocks_regions:
  "aligned ss a b \<Longrightarrow> regions (zip a (flags_a ss)) (zip b (flags_b ss)) 0 0 (change_blocks ss)"
  using blocks_loop_regions [of ss a b 0 0] by (simp add: change_blocks_def)

text \<open>The same for hunks; a hunk without old lines can only stand at the start.\<close>

inductive hunks_ok :: "marked \<Rightarrow> marked \<Rightarrow> nat \<Rightarrow> nat \<Rightarrow> change_block list \<Rightarrow> bool" where
  tail: "unmarked g \<Longrightarrow> hunks_ok g g i j []"
| hunk: "unmarked g \<Longrightarrow> kept x = kept y \<Longrightarrow> (x = [] \<longrightarrow> i + length g = 0) \<Longrightarrow>
    hunks_ok A B (i + length g + length x) (j + length g + length y) cs \<Longrightarrow>
    hunks_ok (g @ x @ A) (g @ y @ B) i j
      (\<lparr>cb_a0 = i + length g, cb_a1 = i + length g + length x,
        cb_b0 = j + length g, cb_b1 = j + length g + length y\<rparr> # cs)"

lemma hunks_ok_prepend:
  assumes "hunks_ok A B (i + length u) (j + length u) cs" "unmarked u"
  shows "hunks_ok (u @ A) (u @ B) i j cs"
  using assms(1)
proof cases
  case tail
  with assms(2) show ?thesis using hunks_ok.tail [of "u @ A"] by simp
next
  case (hunk g x y A' B' cs')
  with assms(2) show ?thesis using hunks_ok.hunk [of "u @ g" x y i A' B' j cs'] by (simp add: add.assoc)
qed

text \<open>The last hunk of \<open>build_hunks\<close> while it may still grow: its contents \<open>X\<close> and \<open>Y\<close> reach to the
  positions, and its ends stand three lines further or at the end of the text.\<close>

lemma build_open:
  assumes "regions A B i j cs"
    and "na = i + length A" "nb = j + length B" "kept X = kept Y"
    and "i = a0 + length X" "j = b0 + length Y" "X = [] \<longrightarrow> a0 = 0"
  shows "\<exists>hs'. build_loop na nb cs (hs @ [\<lparr>cb_a0 = a0, cb_a1 = min (i + CTX) na, cb_b0 = b0, cb_b1 = min (j + CTX) nb\<rparr>])
      = hs @ hs' \<and> hunks_ok (X @ A) (Y @ B) a0 b0 hs'"
  using assms
proof (induction arbitrary: hs X Y a0 b0 rule: regions.induct)
  case (tail g i j)
  have "unmarked (drop 3 g)" "kept (X @ take 3 g) = kept (Y @ take 3 g)"
    using tail by (simp_all add: unmarked_take_drop)
  moreover have "min (i + CTX) na = a0 + length (X @ take 3 g)" "min (j + CTX) nb = b0 + length (Y @ take 3 g)"
    using tail by (simp_all add: CTX_def min_def)
  ultimately show ?case
    using hunks_ok.hunk [OF _ _ _ hunks_ok.tail, of "[]" "X @ take 3 g" "Y @ take 3 g" a0 "drop 3 g" b0] tail
    by (simp del: length_append)
next
  case (block g x y A B i j cs)
  let ?h = "\<lparr>cb_a0 = a0, cb_a1 = min (i + CTX) na, cb_b0 = b0, cb_b1 = min (j + CTX) nb\<rparr>"
  let ?c = "\<lparr>cb_a0 = i + length g, cb_a1 = i + length g + length x, cb_b0 = j + length g, cb_b1 = j + length g + length y\<rparr>"
  have gap: "cb_a0 (widen na nb ?c) - cb_a1 ?h = length g - 6" "cb_b0 (widen na nb ?c) - cb_b1 ?h = length g - 6"
    using block.prems by (auto simp: widen_def CTX_def)
  show ?case
  proof (cases "length g < 12")
    case True
    have "max (min (i + CTX) na) (min (i + length g + length x + CTX) na) = min (i + length g + length x + CTX) na"
      "max (min (j + CTX) nb) (min (j + length g + length y + CTX) nb) = min (j + length g + length y + CTX) nb"
      by (auto simp: max_def min_def)
    moreover have "length g - 6 < 6" using True by linarith
    ultimately have "build_loop na nb (?c # cs) (hs @ [?h]) = build_loop na nb cs (hs @
        [\<lparr>cb_a0 = a0, cb_a1 = min (i + length g + length x + CTX) na, cb_b0 = b0, cb_b1 = min (j + length g + length y + CTX) nb\<rparr>])"
      using gap by (simp add: Let_def CTX_def) (simp add: widen_def CTX_def)
    with block.IH [of "X @ g @ x" "Y @ g @ y" a0 b0 hs] block.prems block.hyps show ?thesis by (auto simp: add.assoc)
  next
    case False
    let ?u = "take (length g - 6) (drop 3 g)" and ?v = "drop (length g - 3) g"
    have "\<not> length g - 6 < 6" using False by linarith
    have v: "?v = drop (length g - 6) (drop 3 g)" using False by simp
    have g: "drop 3 g = ?u @ ?v" "length ?u = length g - 6" "length ?v = 3" "unmarked ?u"
      using False block.hyps(1) by (simp_all only: v append_take_drop_id) (simp_all add: unmarked_take_drop)
    have tg: "take 3 g @ drop 3 g @ z = g @ z" for z by (metis append_assoc append_take_drop_id)
    have q: "i + length g - 3 = i + 3 + length ?u" "j + length g - 3 = j + 3 + length ?u"
      using False g(2) by simp_all
    have p: "na = i + length g + length x + length A" "nb = j + length g + length y + length B"
      "kept (?v @ x) = kept (?v @ y)" "i + length g + length x = i + length g - 3 + length (?v @ x)"
      "j + length g + length y = j + length g - 3 + length (?v @ y)" "?v @ x = [] \<longrightarrow> i + length g - 3 = 0"
      using block.prems block.hyps(2) False g(3) by auto
    have "build_loop na nb (?c # cs) (hs @ [?h]) = build_loop na nb cs ((hs @ [?h]) @
        [\<lparr>cb_a0 = i + length g - 3, cb_a1 = min (i + length g + length x + CTX) na,
          cb_b0 = j + length g - 3, cb_b1 = min (j + length g + length y + CTX) nb\<rparr>])"
      using gap \<open>\<not> length g - 6 < 6\<close> by (simp add: Let_def CTX_def) (simp add: widen_def CTX_def)
    moreover obtain hs' where hs': "build_loop na nb cs ((hs @ [?h]) @
        [\<lparr>cb_a0 = i + length g - 3, cb_a1 = min (i + length g + length x + CTX) na,
          cb_b0 = j + length g - 3, cb_b1 = min (j + length g + length y + CTX) nb\<rparr>]) = (hs @ [?h]) @ hs'"
      "hunks_ok ((?v @ x) @ A) ((?v @ y) @ B) (i + length g - 3) (j + length g - 3) hs'"
      using block.IH [OF p] by blast
    moreover have "hunks_ok (drop 3 g @ x @ A) (drop 3 g @ y @ B) (i + 3) (j + 3) hs'"
      using hunks_ok_prepend [OF hs'(2) [unfolded q] g(4)] g(1) by (metis append_assoc)
    then have "hunks_ok (X @ g @ x @ A) (Y @ g @ y @ B) a0 b0 (?h # hs')"
      using hunks_ok.hunk [of "[]" "X @ take 3 g" "Y @ take 3 g" a0 "drop 3 g @ x @ A" "drop 3 g @ y @ B" b0 hs']
        block.prems False tg by (simp add: CTX_def add.assoc)
    ultimately show ?thesis by auto
  qed
qed

lemma build_hunks_ok:
  assumes "regions A B 0 0 cs"
  shows "hunks_ok A B 0 0 (build_hunks cs (length A) (length B))"
  using assms
proof cases
  case tail
  then show ?thesis by (simp add: build_hunks_def hunks_ok.tail)
next
  case (block g x y A' B' cs')
  let ?v = "drop (length g - 3) g"
  have g: "g = take (length g - 3) g @ ?v" "unmarked (take (length g - 3) g)" using block by (simp_all add: unmarked_take_drop)
  have "?v @ x = [] \<longrightarrow> length g - 3 = 0" by auto
  then obtain hs' where hs': "build_loop (length A) (length B) cs' ([] @
      [\<lparr>cb_a0 = length g - 3, cb_a1 = min (length g + length x + CTX) (length A),
        cb_b0 = length g - 3, cb_b1 = min (length g + length y + CTX) (length B)\<rparr>]) = [] @ hs'"
    "hunks_ok ((?v @ x) @ A') ((?v @ y) @ B') (length g - 3) (length g - 3) hs'"
    using build_open [OF block(6), of "length A" "length B" "?v @ x" "?v @ y" "length g - 3" "length g - 3" "[]"] block
    by auto
  have "build_hunks cs (length A) (length B) = hs'"
    using hs'(1) block by (simp add: build_hunks_def widen_def CTX_def Let_def)
  moreover have "hunks_ok A B 0 0 hs'"
    using hunks_ok_prepend [OF _ g(2), of "?v @ x @ A'" "?v @ y @ B'" 0 0 hs'] hs'(2) block g(1) by (simp flip: append_assoc)
  ultimately show ?thesis by simp
qed

section \<open>From hunks to text and back\<close>

text \<open>The body of a hunk as classified lines.\<close>

fun body :: "marked \<Rightarrow> marked \<Rightarrow> hunk_line list" where
  "body [] B = map (\<lambda>x. HAdded (fst x)) B"
| "body A [] = map (\<lambda>x. HRemoved (fst x)) A"
| "body ((x, m) # A) ((y, n) # B) =
     (if m then HRemoved x # body A ((y, n) # B)
      else if n then HAdded y # body ((x, m) # A) B
      else HContext x # body A B)"

lemma body_Nil [simp]: "body A [] = map (\<lambda>x. HRemoved (fst x)) A"
  by (cases A) auto

fun raw_line :: "hunk_line \<Rightarrow> string" where
  "raw_line (HContext x) = CHR '' '' # x"
| "raw_line (HRemoved x) = CHR ''-'' # x"
| "raw_line (HAdded x) = CHR ''+'' # x"

definition unlines :: "string list \<Rightarrow> string" where
  "unlines ls = concat (map (\<lambda>l. l @ LF) ls)"

lemma unlines_simps [simp]: "unlines [] = []" "unlines (l # ls) = l @ LF @ unlines ls"
  "unlines (ls @ ms) = unlines ls @ unlines ms"
  by (simp_all add: unlines_def)

lemma trim_end_LF [simp]: "trim_end_matches line_ends (x @ LF) = trim_end_matches line_ends x"
  by (simp add: trim_end_matches_def line_ends_def)

lemma fuzz_compare_LF [simp]: "fuzz_compare (x @ LF) x = Some Exact"
  by (simp add: fuzz_compare_def)

definition with_lf :: "marked \<Rightarrow> string list" where
  "with_lf A = map (\<lambda>x. fst x @ LF) A"

lemma hunk_applies_all:
  "hunk_applies Exact (map (\<lambda>x. HRemoved (fst x)) A) (with_lf A) []"
  "hunk_applies Exact (map (\<lambda>x. HAdded (fst x)) A) [] (with_lf A)"
  by (induction A) (simp_all add: with_lf_def)

lemma body_applies: "kept A = kept B \<Longrightarrow> hunk_applies Exact (body A B) (with_lf A) (with_lf B)"
proof (induction A B rule: body.induct)
  case (1 B)
  then show ?case using hunk_applies_all(2) [of B] by (simp add: with_lf_def)
next
  case (2 x A)
  then show ?case using hunk_applies_all(1) [of "x # A"] by (simp add: with_lf_def)
next
  case (3 x m A y n B)
  then show ?case by (cases m; cases n) (simp_all add: with_lf_def)
qed

definition slice :: "nat \<Rightarrow> nat \<Rightarrow> 'a list \<Rightarrow> 'a list" where
  "slice i k xs = take (k - i) (drop i xs)"

lemma slice_Cons: "i < k \<Longrightarrow> k \<le> length xs \<Longrightarrow> slice i k xs = xs ! i # slice (Suc i) k xs"
  by (simp add: slice_def Cons_nth_drop_Suc [symmetric] take_Cons' Suc_diff_Suc [symmetric])

lemma slice_Nil [simp]: "k \<le> i \<Longrightarrow> slice i k xs = []"
  by (simp add: slice_def)

lemma render_tail:
  assumes "k \<le> length A"
  shows "concat (map (\<lambda>j. c # map fst A ! j @ LF) [i..<k]) = unlines (map (\<lambda>x. c # fst x) (slice i k A))"
proof -
  have "map (\<lambda>j. map fst A ! j) [i..<k] = map fst (slice i k A)"
    using assms by (intro nth_equalityI) (auto simp: slice_def)
  then have "map (\<lambda>j. c # map fst A ! j @ LF) [i..<k] = map (\<lambda>x. c # x @ LF) (map fst (slice i k A))"
    by (metis (no_types, lifting) map_map comp_apply map_eq_conv)
  then show ?thesis by (simp add: unlines_def comp_def)
qed

lemma render_body_text:
  "cb_a1 h \<le> length A \<Longrightarrow> cb_b1 h \<le> length B \<Longrightarrow>
    render_body (map fst A) (map fst B) (map snd A) (map snd B) h i j
    = unlines (map raw_line (body (slice i (cb_a1 h) A) (slice j (cb_b1 h) B)))"
proof (induction "(cb_a1 h - i) + (cb_b1 h - j)" arbitrary: i j rule: less_induct)
  case less
  note h = less.prems
  show ?case
  proof (cases "i < cb_a1 h \<and> j < cb_b1 h")
    case True
    obtain x m y n where e: "A ! i = (x, m)" "B ! j = (y, n)" by fastforce
    have s: "slice i (cb_a1 h) A = (x, m) # slice (Suc i) (cb_a1 h) A" "slice j (cb_b1 h) B = (y, n) # slice (Suc j) (cb_b1 h) B"
      using True h e by (simp_all add: slice_Cons)
    have f: "map fst A ! i = x" "map snd A ! i = m" "map fst B ! j = y" "map snd B ! j = n"
      using True h e by simp_all
    show ?thesis
      using True less.hyps [OF _ h, of "Suc i" "Suc j"] less.hyps [OF _ h, of "Suc i" j] less.hyps [OF _ h, of i "Suc j"]
      by (subst render_body.simps) (auto simp: f s)
  next
    case False
    then have "slice i (cb_a1 h) A = [] \<or> slice j (cb_b1 h) B = []" by (auto simp: not_less)
    with False render_tail [OF h(1), of "CHR ''-''" i] render_tail [OF h(2), of "CHR ''+''" j] show ?thesis
      by (subst render_body.simps) (auto simp: comp_def unlines_def)
  qed
qed

text \<open>A parsed hunk that stands for a planned one.\<close>

definition hunk_of :: "marked \<Rightarrow> marked \<Rightarrow> change_block \<Rightarrow> nat \<Rightarrow> hunk" where
  "hunk_of A B c d =
     \<lparr>orig_start = (if cb_a1 c - cb_a0 c = 0 then 0 else cb_a0 c + 1),
      hunk_lines = body (slice (cb_a0 c) (cb_a1 c) A) (slice (cb_b0 c) (cb_b1 c) B), diff_line = d\<rparr>"

lemma hunks_placed:
  "hunks_ok A B i j cs \<Longrightarrow> i = length PA \<Longrightarrow> j = length PB \<Longrightarrow> length ds = length cs \<Longrightarrow>
    placed i (map2 (hunk_of (PA @ A) (PB @ B)) cs ds) (with_lf A) (with_lf B)"
proof (induction arbitrary: PA PB ds rule: hunks_ok.induct)
  case (hunk g x y i A B j cs)
  then obtain d ds' where ds: "ds = d # ds'" "length ds' = length cs" by (cases ds) auto
  let ?A = "PA @ g @ x @ A" and ?B = "PB @ g @ y @ B"
  let ?c = "\<lparr>cb_a0 = i + length g, cb_a1 = i + length g + length x, cb_b0 = j + length g, cb_b1 = j + length g + length y\<rparr>"
  have "hunk_lines (hunk_of ?A ?B ?c d) = body x y"
    using hunk.prems by (simp add: hunk_of_def slice_def)
  then have ap: "hunk_applies Exact (hunk_lines (hunk_of ?A ?B ?c d)) (with_lf x) (with_lf y)"
    using body_applies [OF hunk.hyps(2)] by simp
  have st: "orig_start (hunk_of ?A ?B ?c d) - 1 = i + length (with_lf g)"
    using hunk.hyps(3) by (auto simp: hunk_of_def with_lf_def)
  have "placed (i + length g + length x) (map2 (hunk_of ?A ?B) cs ds') (with_lf A) (with_lf B)"
    using hunk.IH [of "PA @ g @ x" "PB @ g @ y" ds'] hunk.prems ds by simp
  from placed.stretch [OF ap st] this ds show ?case by (simp add: with_lf_def)
qed (simp add: placed.rest)

definition clean_line :: "string \<Rightarrow> bool" where
  "clean_line l \<longleftrightarrow> CHR 0x0A \<notin> set l \<and> (l \<noteq> [] \<longrightarrow> last l \<noteq> CHR 0x0D)"

lemma take_drop_line:
  assumes "CHR 0x0A \<notin> set l"
  shows "takeWhile (\<lambda>c. c \<noteq> CHR 0x0A) (l @ CHR 0x0A # s) = l" "dropWhile (\<lambda>c. c \<noteq> CHR 0x0A) (l @ CHR 0x0A # s) = CHR 0x0A # s"
proof -
  have "\<forall>c \<in> set l. c \<noteq> CHR 0x0A" using assms by auto
  then show "takeWhile (\<lambda>c. c \<noteq> CHR 0x0A) (l @ CHR 0x0A # s) = l" "dropWhile (\<lambda>c. c \<noteq> CHR 0x0A) (l @ CHR 0x0A # s) = CHR 0x0A # s"
    by (simp_all add: takeWhile_append2 dropWhile_append2)
qed

lemma split_lf_unlines: "\<forall>l \<in> set ls. CHR 0x0A \<notin> set l \<Longrightarrow> split_lf (unlines ls) = ls @ [[]]"
proof (induction ls)
  case Nil
  show ?case by (simp add: split_lf.simps)
next
  case (Cons l ls)
  then show ?case by (subst split_lf.simps) (simp add: take_drop_line Let_def)
qed

lemma str_lines_unlines: "list_all clean_line ls \<Longrightarrow> str_lines (unlines ls) = ls"
proof -
  assume c: "list_all clean_line ls"
  then have "map strip_cr ls = ls" by (intro map_idI) (auto simp: list_all_iff clean_line_def strip_cr_def)
  moreover have "split_lf (unlines ls) = ls @ [[]]" using c by (intro split_lf_unlines) (auto simp: list_all_iff clean_line_def)
  ultimately show ?thesis by (simp add: str_lines_def)
qed

lemma split_keep_unlines: "list_all clean_line ls \<Longrightarrow> split_lines_keep_endings (unlines ls) = map (\<lambda>l. l @ LF) ls"
proof (induction ls)
  case Nil
  show ?case by (simp add: split_lines_keep_endings.simps)
next
  case (Cons l ls)
  then show ?case by (subst split_lines_keep_endings.simps) (simp add: take_drop_line clean_line_def Let_def)
qed

text \<open>The hunk header.\<close>

definition header_text :: "change_block \<Rightarrow> string" where
  "header_text h = ''@@ '' @ range_part ''-'' (cb_a0 h + 1) (cb_a1 h - cb_a0 h) @ '' ''
     @ range_part ''+'' (cb_b0 h + 1) (cb_b1 h - cb_b0 h) @ '' @@''"

lemma show_nat_plain: "CHR '','' \<notin> set (show_nat n)" "CHR '' '' \<notin> set (show_nat n)" "CHR 0x0A \<notin> set (show_nat n)"
  using show_nat_digits [of _ n] by force+

lemma trim_start_minus: "trim_start (CHR '' '' # CHR ''-'' # s) = CHR ''-'' # s"
proof -
  have u: "utf8_chars (CHR '' '' # CHR ''-'' # s) = '' '' # utf8_chars (CHR ''-'' # s)" by (simp add: is_cont_byte_def)
  have w: "is_ws_char '' ''" by (simp add: is_ws_char_def)
  have "\<not> is_ws_char (CHR ''-'' # t)" for t by (cases t) (simp_all add: is_ws_char_def)
  then have "dropWhile is_ws_char (utf8_chars (CHR ''-'' # s)) = utf8_chars (CHR ''-'' # s)" by simp
  then show ?thesis unfolding trim_start_def u using w concat_utf8_chars [of "CHR ''-'' # s"] by simp
qed

lemma parse_header_text:
  assumes "cb_a0 h + 1 < 2 ^ 64"
  shows "parse_hunk_header (header_text h) idx = Inr (if cb_a1 h - cb_a0 h = 0 then 0 else cb_a0 h + 1)"
proof -
  define num where "num = show_nat (if cb_a1 h - cb_a0 h = 0 then 0 else cb_a0 h + 1)"
  have "show_nat 0 = ''0''" by code_simp
  then have "\<exists>r. header_text h = ''@@ -'' @ num @ CHR '','' # r"
    by (cases "cb_a1 h - cb_a0 h = 0") (simp_all add: header_text_def range_part_def num_def)
  then obtain r where r: "header_text h = ''@@ -'' @ num @ CHR '','' # r" ..
  have "takeWhile (\<lambda>c. c \<noteq> CHR '','' \<and> c \<noteq> CHR '' '') (num @ CHR '','' # r) = num"
    using show_nat_plain by (subst takeWhile_append2) (auto simp: num_def)
  moreover have "parse_unsigned 64 num = Some (if cb_a1 h - cb_a0 h = 0 then 0 else cb_a0 h + 1)"
    using assms unfolding num_def by (intro parse_show_nat) simp
  ultimately show ?thesis
    by (simp add: parse_hunk_header_def r strip_prefix_def starts_with_def trim_start_minus Let_def)
qed

text \<open>A body line is not taken for a file header.\<close>

fun safe_line :: "hunk_line \<Rightarrow> bool" where
  "safe_line (HRemoved x) \<longleftrightarrow> \<not> starts_with x ''-- ''"
| "safe_line (HAdded x) \<longleftrightarrow> \<not> starts_with x ''++ ''"
| "safe_line (HContext x) \<longleftrightarrow> True"

lemma classify_raw [simp]: "classify_line (raw_line l) = Some l"
  by (cases l) (simp_all add: classify_line_def strip_prefix_def starts_with_def)

lemma raw_line_not_header:
  "safe_line l \<Longrightarrow> strip_prefix (raw_line l) ''--- '' = None \<and> strip_prefix (raw_line l) ''+++ '' = None
     \<and> \<not> starts_with (raw_line l) ''@@''"
  by (cases l) (simp_all add: strip_prefix_def starts_with_def)

lemma parse_body:
  "list_all safe_line ls \<Longrightarrow>
    parse_files_loop idx (map raw_line ls @ rest) files (Some (f\<lparr>fd_hunks := hs @ [h]\<rparr>))
    = parse_files_loop (idx + length ls) rest files (Some (f\<lparr>fd_hunks := hs @ [h\<lparr>hunk_lines := hunk_lines h @ ls\<rparr>]\<rparr>))"
proof (induction ls arbitrary: idx h)
  case (Cons l ls)
  then show ?case using raw_line_not_header [of l] by (simp add: push_body_def push_line_def)
qed simp

lemma header_not_file: "strip_prefix (header_text h) ''--- '' = None" "strip_prefix (header_text h) ''+++ '' = None"
  "starts_with (header_text h) ''@@''"
  by (simp_all add: header_text_def strip_prefix_def starts_with_def)

definition hunk_text :: "marked \<Rightarrow> marked \<Rightarrow> change_block \<Rightarrow> string list" where
  "hunk_text A B c = header_text c # map raw_line (hunk_lines (hunk_of A B c 0))"

lemma parse_hunk_texts:
  "\<forall>c \<in> set cs. cb_a0 c + 1 < 2 ^ 64 \<and> list_all safe_line (hunk_lines (hunk_of A B c 0)) \<Longrightarrow>
    \<exists>ds. length ds = length cs \<and>
      parse_files_loop idx (concat (map (hunk_text A B) cs)) files (Some (f\<lparr>fd_hunks := hs\<rparr>))
      = Inr (files @ [f\<lparr>fd_hunks := hs @ map2 (hunk_of A B) cs ds\<rparr>])"
proof (induction cs arbitrary: idx hs)
  case Nil
  show ?case by (simp add: flush_def)
next
  case (Cons c cs)
  let ?h = "hunk_of A B c (idx + 1)"
  have h: "?h\<lparr>hunk_lines := []\<rparr> = \<lparr>orig_start = (if cb_a1 c - cb_a0 c = 0 then 0 else cb_a0 c + 1), hunk_lines = [], diff_line = idx + 1\<rparr>"
    "hunk_lines (hunk_of A B c 0) = hunk_lines ?h" "?h\<lparr>hunk_lines := hunk_lines ?h\<rparr> = ?h"
    by (simp_all add: hunk_of_def)
  have "parse_files_loop idx (concat (map (hunk_text A B) (c # cs))) files (Some (f\<lparr>fd_hunks := hs\<rparr>))
      = parse_files_loop (idx + 1) (map raw_line (hunk_lines ?h) @ concat (map (hunk_text A B) cs)) files
          (Some (f\<lparr>fd_hunks := hs @ [?h\<lparr>hunk_lines := []\<rparr>]\<rparr>))"
    using Cons.prems by (simp add: hunk_text_def header_not_file parse_header_text h(2)) (simp add: hunk_of_def)
  also have "\<dots> = parse_files_loop (idx + 1 + length (hunk_lines ?h)) (concat (map (hunk_text A B) cs)) files
      (Some (f\<lparr>fd_hunks := hs @ [?h]\<rparr>))"
    using Cons.prems by (subst parse_body) (simp_all add: h)
  finally have step: "parse_files_loop idx (concat (map (hunk_text A B) (c # cs))) files (Some (f\<lparr>fd_hunks := hs\<rparr>)) = \<dots>" .
  from Cons.IH [of "idx + 1 + length (hunk_lines ?h)" "hs @ [?h]"] Cons.prems obtain ds where
    "length ds = length cs" "parse_files_loop (idx + 1 + length (hunk_lines ?h)) (concat (map (hunk_text A B) cs)) files
      (Some (f\<lparr>fd_hunks := hs @ [?h]\<rparr>)) = Inr (files @ [f\<lparr>fd_hunks := (hs @ [?h]) @ map2 (hunk_of A B) cs ds\<rparr>])" by auto
  with step show ?case by (intro exI [of _ "(idx + 1) # ds"]) simp
qed

lemma hunks_ok_bounds:
  "hunks_ok A B i j cs \<Longrightarrow> c \<in> set cs \<Longrightarrow>
    cb_a0 c \<le> cb_a1 c \<and> cb_a1 c \<le> i + length A \<and> cb_b0 c \<le> cb_b1 c \<and> cb_b1 c \<le> j + length B"
  by (induction rule: hunks_ok.induct) auto

lemma hunks_ok_equal: "hunks_ok A B i j [] \<Longrightarrow> A = B"
  by (erule hunks_ok.cases) auto

lemma body_lines: "l \<in> set (body A B) \<Longrightarrow>
    (\<exists>x \<in> set A. l = HContext (fst x) \<or> l = HRemoved (fst x)) \<or> (\<exists>y \<in> set B. l = HAdded (fst y))"
  by (induction A B rule: body.induct) (auto split: if_splits)

text \<open>Texts whose every line ends in a line feed, without carriage returns before it; the lines must
  not make a removed or added line look like a file header.\<close>

definition diffable :: "string list \<Rightarrow> string list \<Rightarrow> bool" where
  "diffable a b \<longleftrightarrow> list_all clean_line a \<and> list_all clean_line b \<and> length a < 2 ^ 63
     \<and> list_all (\<lambda>l. \<not> starts_with l ''-- '') a \<and> list_all (\<lambda>l. \<not> starts_with l ''++ '') b"

definition header_name :: "string \<Rightarrow> bool" where
  "header_name p \<longleftrightarrow> clean_line p \<and> (p = [] \<or> str_trim p \<noteq> [])"

text \<open>The hunks of a generated diff on the marked texts.\<close>


lemma render_hunk_text_unlines:
  assumes "aligned ss a b" "A = zip a (flags_a ss)" "B = zip b (flags_b ss)" "cb_a1 c \<le> length a" "cb_b1 c \<le> length b"
  shows "render_hunk_text a b ss c = unlines (hunk_text A B c)"
proof -
  have len: "length (flags_a ss) = length a" "length (flags_b ss) = length b" using aligned_lengths [OF assms(1)] by auto
  have "mark_loop ss 0 0 (replicate (length a) False) (replicate (length b) False) = (flags_a ss, flags_b ss)"
    using mark_loop_flags [of ss "[]" "[]"] by (simp add: len)
  moreover have "render_body a b (flags_a ss) (flags_b ss) c i j
      = unlines (map raw_line (body (slice i (cb_a1 c) A) (slice j (cb_b1 c) B)))" for i j
    using render_body_text [of c A B i j] assms len by simp
  ultimately show ?thesis
    by (simp add: render_hunk_text_def hunk_text_def header_text_def hunk_of_def)
qed

lemma clean_Cons: "clean_line (c # l) \<longleftrightarrow> c \<noteq> CHR 0x0A \<and> clean_line l \<and> (l = [] \<longrightarrow> c \<noteq> CHR 0x0D)"
  by (auto simp: clean_line_def)

lemma clean_header: "clean_line (header_text c)"
  using show_nat_plain by (auto simp: clean_line_def header_text_def range_part_def)

lemma body_clean_safe:
  assumes "list_all clean_line a" "list_all clean_line b" "list_all (\<lambda>l. \<not> starts_with l ''-- '') a"
    "list_all (\<lambda>l. \<not> starts_with l ''++ '') b" "fst ` set A \<subseteq> set a" "fst ` set B \<subseteq> set b"
  shows "list_all (\<lambda>l. clean_line (raw_line l) \<and> safe_line l) (body A B)"
  unfolding list_all_iff
proof
  fix l
  assume "l \<in> set (body A B)"
  from body_lines [OF this] assms(5,6) consider x where "x \<in> set a" "l = HContext x \<or> l = HRemoved x"
    | y where "y \<in> set b" "l = HAdded y" by blast
  then show "clean_line (raw_line l) \<and> safe_line l"
    using assms(1-4) by cases (auto simp: clean_Cons list_all_iff)
qed

lemma unlines_concat: "unlines (concat xss) = concat (map unlines xss)"
  by (induction xss) simp_all

lemma std_names: "clean_line ''/dev/null''" "clean_line ''a/''" "clean_line ''b/''" "str_trim ''/dev/null'' \<noteq> []" "str_trim ''b/'' \<noteq> []"
  by (simp_all add: clean_line_def str_trim_def is_ws_char_def is_cont_byte_def)

definition marked_old :: "string list \<Rightarrow> string list \<Rightarrow> marked" where
  "marked_old a b = zip a (flags_a (align_lines a b))"

definition marked_new :: "string list \<Rightarrow> string list \<Rightarrow> marked" where
  "marked_new a b = zip b (flags_b (align_lines a b))"

definition planned_hunks :: "string list \<Rightarrow> string list \<Rightarrow> change_block list" where
  "planned_hunks a b = build_hunks (change_blocks (align_lines a b)) (length a) (length b)"

lemma marked_lines [simp]: "map fst (marked_old a b) = a" "map fst (marked_new a b) = b"
  using aligned_lengths [OF aligned_align_lines, of a b] by (simp_all add: marked_old_def marked_new_def)

lemma marked_lengths [simp]: "length (marked_old a b) = length a" "length (marked_new a b) = length b"
  using marked_lines [of a b] by (metis length_map)+

lemma planned_ok: "hunks_ok (marked_old a b) (marked_new a b) 0 0 (planned_hunks a b)"
  using build_hunks_ok [OF change_blocks_regions [OF aligned_align_lines, of a b]] marked_lengths [of a b]
  by (simp add: planned_hunks_def marked_old_def marked_new_def)

lemma planned_nonempty: "a \<noteq> b \<Longrightarrow> planned_hunks a b \<noteq> []"
  using planned_ok [of a b] hunks_ok_equal marked_lines by metis

lemma planned_lines:
  assumes "diffable a b" "c \<in> set (planned_hunks a b)"
  shows "cb_a1 c \<le> length a" "cb_b1 c \<le> length b" "cb_a0 c + 1 < 2 ^ 64"
    "list_all (\<lambda>l. clean_line (raw_line l) \<and> safe_line l) (hunk_lines (hunk_of (marked_old a b) (marked_new a b) c 0))"
proof -
  from hunks_ok_bounds [OF planned_ok assms(2)] assms(1)
  show "cb_a1 c \<le> length a" "cb_b1 c \<le> length b" "cb_a0 c + 1 < 2 ^ 64" by (simp_all add: diffable_def)
  have "set (slice i k xs) \<subseteq> set xs" for i k and xs :: marked
    by (auto simp: slice_def dest: in_set_takeD in_set_dropD)
  then have "fst ` set (slice i k (marked_old a b)) \<subseteq> set a" "fst ` set (slice i k (marked_new a b)) \<subseteq> set b" for i k
    by (metis image_mono list.set_map marked_lines)+
  then show "list_all (\<lambda>l. clean_line (raw_line l) \<and> safe_line l) (hunk_lines (hunk_of (marked_old a b) (marked_new a b) c 0))"
    using assms(1) body_clean_safe [of a b] by (simp add: hunk_of_def diffable_def)
qed

text \<open>The text of a diff: two header lines and the hunks.\<close>

definition diff_lines :: "string \<Rightarrow> string \<Rightarrow> string list \<Rightarrow> string list \<Rightarrow> string list" where
  "diff_lines oh nh a b = [''--- '' @ oh, ''+++ '' @ nh]
     @ concat (map (hunk_text (marked_old a b) (marked_new a b)) (planned_hunks a b))"

lemma generated_lines:
  assumes "diffable a b" "a \<noteq> b" "header_name old" "header_name new"
  obtains oh nh where "clean_line oh" "clean_line nh" "str_trim nh \<noteq> []"
    "generate_unified_diff_file old new (unlines a) (unlines b) = unlines (diff_lines oh nh a b)"
proof
  let ?oh = "if unlines a = [] then ''/dev/null'' else if old = [] then ''a/'' else old"
  let ?nh = "if unlines b = [] then ''/dev/null'' else if new = [] then ''b/'' else new"
  show "clean_line ?oh" "clean_line ?nh" "str_trim ?nh \<noteq> []" using assms(3,4) std_names by (auto simp: header_name_def)
  have sl: "str_lines (unlines a) = a" "str_lines (unlines b) = b"
    using assms(1) by (simp_all add: diffable_def str_lines_unlines)
  then have "unlines a \<noteq> unlines b" using assms(2) by metis
  moreover have "concat (map (render_hunk_text a b (align_lines a b)) (planned_hunks a b))
      = unlines (concat (map (hunk_text (marked_old a b) (marked_new a b)) (planned_hunks a b)))"
    using render_hunk_text_unlines [OF aligned_align_lines marked_old_def marked_new_def] planned_lines [OF assms(1)]
    by (simp add: unlines_concat comp_def cong: map_cong)
  ultimately show "generate_unified_diff_file old new (unlines a) (unlines b) = unlines (diff_lines ?oh ?nh a b)"
    using planned_nonempty [OF assms(2)] assms(2)
    by (auto simp: generate_unified_diff_file_def sl Let_def diff_lines_def simp flip: planned_hunks_def)
qed

lemma parse_generated:
  assumes "diffable a b" "a \<noteq> b" "clean_line oh" "clean_line nh" "str_trim nh \<noteq> []"
  obtains ds where "length ds = length (planned_hunks a b)"
    "single_file_hunks (unlines (diff_lines oh nh a b))
      = Inr (map2 (hunk_of (marked_old a b) (marked_new a b)) (planned_hunks a b) ds)"
proof -
  let ?cs = "planned_hunks a b" and ?h = "hunk_of (marked_old a b) (marked_new a b)"
  let ?f = "\<lparr>old_path = str_trim oh, new_path = str_trim nh, fd_hunks = []\<rparr>"
  have lines: "str_lines (unlines (diff_lines oh nh a b)) = diff_lines oh nh a b"
    by (rule str_lines_unlines) (use assms(3,4) planned_lines(4) [OF assms(1)] in
        \<open>auto simp: diff_lines_def hunk_text_def clean_header list_all_iff clean_Cons\<close>)
  have "\<forall>c \<in> set ?cs. cb_a0 c + 1 < 2 ^ 64 \<and> list_all safe_line (hunk_lines (?h c 0))"
    using planned_lines [OF assms(1)] by (auto simp: list_all_iff)
  from parse_hunk_texts [OF this, where idx = 2 and files = "[]" and f = ?f and hs = "[]"] obtain ds where
    ds: "length ds = length ?cs"
    "parse_files_loop 2 (concat (map (hunk_text (marked_old a b) (marked_new a b)) ?cs)) [] (Some ?f)
      = Inr [?f\<lparr>fd_hunks := map2 ?h ?cs ds\<rparr>]" by auto
  have loop: "parse_files_loop 0 (diff_lines oh nh a b) [] None = Inr [?f\<lparr>fd_hunks := map2 ?h ?cs ds\<rparr>]"
    using ds(2) by (simp add: diff_lines_def strip_prefix_def starts_with_def flush_def set_new_path_def numeral_2_eq_2)
  have "map2 ?h ?cs ds \<noteq> []" using ds(1) planned_nonempty [OF assms(2)] by (cases ?cs; cases ds) simp_all
  then have "parse_files (unlines (diff_lines oh nh a b)) = Inr [?f\<lparr>fd_hunks := map2 ?h ?cs ds\<rparr>]"
    unfolding parse_files_def lines loop using assms(5) by simp
  then show thesis using that ds(1) by (simp add: single_file_hunks_def)
qed

lemma with_lf_fst: "with_lf A = map (\<lambda>l. l @ LF) (map fst A)"
  by (simp add: with_lf_def)

text \<open>C14. A generated diff is a patch that does what it shows: parsing it back and applying it to the
  original gives the modified text, at every line by an exact match, for texts whose lines all end in a
  line feed, with no carriage return before it, and in which no line of the original starts with two
  dashes and a blank and no line of the modified one with two pluses and a blank.\<close>

theorem diff_patch_roundtrip:
  assumes "diffable a b" "a \<noteq> b" "header_name old" "header_name new"
  shows "\<exists>hunks. single_file_hunks (generate_unified_diff_file old new (unlines a) (unlines b)) = Inr hunks
    \<and> get_updated_file (unlines a) hunks = Inr (unlines b, Exact)"
proof -
  let ?A = "marked_old a b" and ?B = "marked_new a b"
  obtain oh nh where g: "clean_line oh" "clean_line nh" "str_trim nh \<noteq> []"
    "generate_unified_diff_file old new (unlines a) (unlines b) = unlines (diff_lines oh nh a b)"
    using generated_lines [OF assms] .
  obtain ds where ds: "length ds = length (planned_hunks a b)"
    "single_file_hunks (unlines (diff_lines oh nh a b)) = Inr (map2 (hunk_of ?A ?B) (planned_hunks a b) ds)"
    using parse_generated [OF assms(1,2) g(1-3)] .
  have "placed 0 (map2 (hunk_of ?A ?B) (planned_hunks a b) ds) (with_lf ?A) (with_lf ?B)"
    using hunks_placed [OF planned_ok, of "[]" "[]" ds] ds(1) by simp
  then have "apply_hunks (with_lf ?A) (map2 (hunk_of ?A ?B) (planned_hunks a b) ds) Exact = Inr (concat (with_lf ?B), Exact)"
    by (rule apply_hunks_placed)
  moreover have "with_lf ?A = map (\<lambda>l. l @ LF) a" "with_lf ?B = map (\<lambda>l. l @ LF) b"
    by (simp_all add: with_lf_fst del: map_map)
  moreover have "split_lines_keep_endings (unlines a) = map (\<lambda>l. l @ LF) a"
    using assms(1) by (simp add: diffable_def split_keep_unlines)
  ultimately show ?thesis using g(4) ds(2) by (simp add: get_updated_file_def unlines_def)
qed

theorem diff_patch_roundtrip_witness:
  "\<exists>hunks. single_file_hunks (generate_unified_diff_file ''f'' ''f'' (''x'' @ LF @ ''y'' @ LF) (''x'' @ LF @ ''z'' @ LF)) = Inr hunks
    \<and> get_updated_file (''x'' @ LF @ ''y'' @ LF) hunks = Inr (''x'' @ LF @ ''z'' @ LF, Exact)"
proof -
  have "diffable [''x'', ''y''] [''x'', ''z'']" "header_name ''f''"
    by (simp_all add: diffable_def clean_line_def header_name_def starts_with_def str_trim_def is_ws_char_def is_cont_byte_def)
  from diff_patch_roundtrip [OF this(1) _ this(2,2)] show ?thesis by simp
qed

section \<open>Where the round trip fails\<close>

text \<open>Without a final line feed an added line is glued to the last line of the file.\<close>

lemma missing_final_newline:
  "get_updated_file ''a'' [hunk_of [(''a'', False)] [(''a'', False), (''b'', True)]
       \<lparr>cb_a0 = 0, cb_a1 = 1, cb_b0 = 0, cb_b1 = 2\<rparr> 3] = Inr (''ab'' @ LF, Exact)"
  by (simp add: get_updated_file_def hunk_of_def slice_def split_lines_keep_endings.simps apply_hunks_def locate_hunk_def
      hunk_anchor_len_def try_at_def hunk_anchors_level_def match_defs Let_def)

text \<open>A removed line that starts with two dashes and a blank is printed like a file header; applying the
  generated diff then adds the new line and leaves the old one in place, and reports an exact match.\<close>

theorem removed_dashes_survive:
  "single_file_hunks (generate_unified_diff_file ''f'' ''f'' (''-- x'' @ LF) (''y'' @ LF))
     = Inr [\<lparr>orig_start = 1, hunk_lines = [HAdded ''y''], diff_line = 3\<rparr>]
   \<and> get_updated_file (''-- x'' @ LF) [\<lparr>orig_start = 1, hunk_lines = [HAdded ''y''], diff_line = 3\<rparr>]
     = Inr (''y'' @ LF @ ''-- x'' @ LF, Exact)"
proof
  have one: "show_nat (Suc 0) = ''1''" by code_simp
  have sl: "str_lines (''-- x'' @ LF) = [''-- x'']" "str_lines (''y'' @ LF) = [''y'']"
    by (simp_all add: str_lines_def split_lf.simps strip_cr_def Let_def)
  have ss: "align_lines [''-- x''] [''y''] = [Remove, Insert]"
    by (simp add: align_lines_def align_walk.simps Let_def)
  have g: "generate_unified_diff_file ''f'' ''f'' (''-- x'' @ LF) (''y'' @ LF)
      = ''--- f'' @ LF @ ''+++ f'' @ LF @ ''@@ -1,1 +1,1 @@'' @ LF @ ''--- x'' @ LF @ ''+y'' @ LF"
    unfolding generate_unified_diff_file_def sl ss
    by (simp add: ss change_blocks_def open_block_def flush_def build_hunks_def widen_def CTX_def
        render_hunk_text_def range_part_def one render_body.simps Let_def)
  have l: "str_lines (''--- f'' @ LF @ ''+++ f'' @ LF @ ''@@ -1,1 +1,1 @@'' @ LF @ ''--- x'' @ LF @ ''+y'' @ LF)
      = [''--- f'', ''+++ f'', ''@@ -1,1 +1,1 @@'', ''--- x'', ''+y'']"
    by (simp add: str_lines_def split_lf.simps strip_cr_def Let_def)
  have "str_contains (''--- f'' @ LF @ ''+++ f'' @ LF @ ''@@ -1,1 +1,1 @@'' @ LF @ ''--- x'' @ LF @ ''+y'' @ LF) ''@@''"
    by (simp add: str_contains_def str_find.simps starts_with_def)
  then show "single_file_hunks (generate_unified_diff_file ''f'' ''f'' (''-- x'' @ LF) (''y'' @ LF))
     = Inr [\<lparr>orig_start = 1, hunk_lines = [HAdded ''y''], diff_line = 3\<rparr>]"
    unfolding g single_file_hunks_def parse_files_def parse_hunks_def l
    by (simp add: text_defs flush_def set_new_path_def push_body_def push_line_def classify_line_def parse_hunk_header_def
        parse_unsigned_def digit_val_def Let_def)
  show "get_updated_file (''-- x'' @ LF) [\<lparr>orig_start = 1, hunk_lines = [HAdded ''y''], diff_line = 3\<rparr>]
     = Inr (''y'' @ LF @ ''-- x'' @ LF, Exact)"
    by (simp add: get_updated_file_def split_lines_keep_endings.simps apply_hunks_def locate_hunk_def
        hunk_anchor_len_def match_defs Let_def)
qed

end
