(* ===== verification/File_Filter.thy ===== *)
theory File_Filter
  imports Directory_Walk Patch Tools
begin

text \<open>
  Which files the search tools see: \<open>sentinel-tools/src/filter.rs\<close> (the matcher for \<open>.gitignore\<close>
  rules and for hidden files) and the \<open>grep\<close> tool of \<open>builtin.rs\<close> with its directory walk.
  A name is a string of bytes; the matcher works on its characters. The regular expressions of the
  \<open>regex\<close> crate are a parameter.
\<close>

section \<open>Rules\<close>

definition ALWAYS_IGNORED_DIRS :: "string list" where
  "ALWAYS_IGNORED_DIRS = [''.git'', ''node_modules'', ''target'', ''.venv'', ''__pycache__'']"

definition GITIGNORE_SEARCH_DEPTH :: nat where
  "GITIGNORE_SEARCH_DEPTH = 8"

record rule =
  rl_negated :: bool
  rl_anchored :: bool
  rl_dir_only :: bool
  rl_components :: "string list"

definition parse_rule :: "string \<Rightarrow> rule option" where
  "parse_rule line0 =
     (let line = str_trim line0 in
      if line = [] \<or> starts_with line ''#'' then None
      else
        let neg = starts_with line ''!'';
            line1 = (if neg then trim_start_matches {CHR ''!''} line else line);
            dir_only = ends_with line1 ''/'';
            line2 = (if dir_only then trim_end_matches {CHR ''/''} line1 else line1)
        in if line2 = [] then None
           else Some \<lparr>rl_negated = neg,
                      rl_anchored = starts_with line2 ''/'' \<or> str_contains line2 ''/'',
                      rl_dir_only = dir_only,
                      rl_components = split_char CHR ''/'' (trim_start_matches {CHR ''/''} line2)\<rparr>)"

text \<open>The table of the matcher row by row: a row is indexed by the length of a prefix of the text, and
  is computed from the row of the pattern without its last character.\<close>

fun glob_cells :: "string \<Rightarrow> string list \<Rightarrow> bool list \<Rightarrow> bool \<Rightarrow> bool list" where
  "glob_cells p [] prev left = []"
| "glob_cells p (t # ts) prev left =
     (let c = (if p = ''*'' then hd (tl prev) \<or> left
               else if p = ''?'' then hd prev
               else hd prev \<and> p = t)
      in c # glob_cells p ts (tl prev) c)"

definition glob_row :: "string list \<Rightarrow> bool list \<Rightarrow> string \<Rightarrow> bool list" where
  "glob_row ts prev p =
     (let c0 = (p = ''*'' \<and> hd prev) in c0 # glob_cells p ts prev c0)"

definition glob_comp :: "string \<Rightarrow> string \<Rightarrow> bool" where
  "glob_comp pat t =
     (let pa = utf8_chars pat; ta = utf8_chars t in
      foldl (glob_row ta) (True # replicate (length ta) False) pa ! length ta)"

fun glob_segments :: "string list \<Rightarrow> string list \<Rightarrow> bool" where
  "glob_segments [] segs = (segs = [])"
| "glob_segments (c # cs) segs =
     (if c = ''**'' then list_ex (\<lambda>k. glob_segments cs (drop k segs)) [0 ..< Suc (length segs)]
      else case segs of [] \<Rightarrow> False | s # ss \<Rightarrow> glob_comp c s \<and> glob_segments cs ss)"

definition segments_prefix_match :: "string list \<Rightarrow> string list \<Rightarrow> bool" where
  "segments_prefix_match cs segs =
     (if length segs < length cs then False else list_all (\<lambda>(c, s). glob_comp c s) (zip cs segs))"

definition rule_matches :: "rule \<Rightarrow> string list \<Rightarrow> bool" where
  "rule_matches r segs =
     (if rl_dir_only r then segments_prefix_match (rl_components r) segs
      else if ''**'' \<in> set (rl_components r) then glob_segments (rl_components r) segs
      else if rl_anchored r \<or> 1 < length (rl_components r) then segments_prefix_match (rl_components r) segs
      else list_ex (glob_comp (hd (rl_components r))) segs)"

type_synonym gitignore = "rule list"

text \<open>The loop of at most \<open>GITIGNORE_SEARCH_DEPTH\<close> rounds.\<close>

fun load_loop :: "fs \<Rightarrow> nat \<Rightarrow> string option \<Rightarrow> gitignore" where
  "load_loop f 0 dir = []"
| "load_loop f (Suc n) None = []"
| "load_loop f (Suc n) (Some d) =
     (let candidate = path_join d ''.gitignore'' in
      case (if fs_read f candidate \<noteq> None then read_to_string f candidate else Inl []) of
        Inr body \<Rightarrow> List.map_filter parse_rule (str_lines body)
      | Inl _ \<Rightarrow> load_loop f n (path_parent d))"

definition load_for :: "fs \<Rightarrow> string \<Rightarrow> gitignore" where
  "load_for f base = load_loop f GITIGNORE_SEARCH_DEPTH (Some base)"

definition is_ignored :: "gitignore \<Rightarrow> string list \<Rightarrow> bool" where
  "is_ignored rules segs =
     (if segs = [] then False
      else foldl (\<lambda>ignored r. if rule_matches r segs then \<not> rl_negated r else ignored) False rules)"

section \<open>Paths\<close>

text \<open>\<open>Path::components\<close>: the root, a leading dot, and the names; \<open>rel_segments\<close> keeps the names.\<close>

datatype path_part = RootDir | CurDir | ParentDir | Normal string

definition path_parts :: "string \<Rightarrow> path_part list" where
  "path_parts p =
     (let cs = split_char CHR ''/'' p in
      (if is_absolute p then [RootDir] else if hd cs = ''.'' then [CurDir] else [])
      @ map (\<lambda>c. if c = ''..'' then ParentDir else Normal c) (filter (\<lambda>c. c \<noteq> [] \<and> c \<noteq> ''.'') cs))"

fun part_name :: "path_part \<Rightarrow> string option" where
  "part_name (Normal n) = Some n"
| "part_name _ = None"

definition rel_segments :: "path_part list \<Rightarrow> string list" where
  "rel_segments ps = List.map_filter part_name ps"

definition path_strip_prefix :: "string \<Rightarrow> string \<Rightarrow> path_part list option" where
  "path_strip_prefix p base =
     (if prefix (path_parts base) (path_parts p) then Some (drop (length (path_parts base)) (path_parts p)) else None)"

section \<open>The filter\<close>

record file_filter =
  ff_dot_files :: bool
  ff_base :: string
  ff_gitignore :: gitignore

definition file_filter_new :: "fs \<Rightarrow> string \<Rightarrow> bool \<Rightarrow> file_filter" where
  "file_filter_new f base dot = \<lparr>ff_dot_files = dot, ff_base = base, ff_gitignore = load_for f base\<rparr>"

definition should_skip :: "file_filter \<Rightarrow> string \<Rightarrow> bool" where
  "should_skip flt path =
     (case path_strip_prefix path (ff_base flt) of
        None \<Rightarrow> False
      | Some rel \<Rightarrow>
          (let segs = rel_segments rel in
           if segs = [] then False
           else if list_ex (\<lambda>s. s \<in> set ALWAYS_IGNORED_DIRS) segs then True
           else if \<not> ff_dot_files flt \<and> list_ex (\<lambda>s. starts_with s ''.'') segs then True
           else is_ignored (ff_gitignore flt) segs))"

section \<open>Grep\<close>

definition walk_filtered :: "fs \<Rightarrow> string \<Rightarrow> file_filter \<Rightarrow> string list" where
  "walk_filtered f dir flt =
     (case (if dir = [] then None else node_at (fs_root f) (loc f dir)) of
        None \<Rightarrow> []
      | Some n \<Rightarrow> tree_walk (\<lambda>d name. \<not> should_skip flt (path_join d name))
                    (\<lambda>p. if should_skip flt p then None else Some p) [(dir, n)])"

definition match_include :: "string \<Rightarrow> string \<Rightarrow> bool" where
  "match_include name incl =
     (let inc = str_trim incl in
      if inc = [] then True
      else if str_contains inc ''*'' \<or> str_contains inc ''?'' then glob_comp inc name
      else name = inc)"

definition line_hit :: "(string \<Rightarrow> (string \<Rightarrow> bool) option) \<Rightarrow> string \<Rightarrow> string \<Rightarrow> bool" where
  "line_hit regex pattern line =
     (case regex pattern of Some is_match \<Rightarrow> is_match line | None \<Rightarrow> str_contains line pattern)"

definition grep_file :: "(string \<Rightarrow> (string \<Rightarrow> bool) option) \<Rightarrow> fs \<Rightarrow> string \<Rightarrow> string option \<Rightarrow> string \<Rightarrow> string list" where
  "grep_file regex f pattern incl path =
     (if (case incl of Some inc \<Rightarrow> \<not> match_include (case file_name path of Some n \<Rightarrow> n | None \<Rightarrow> []) inc | None \<Rightarrow> False)
      then []
      else case read_to_string f path of
             Inl _ \<Rightarrow> []
           | Inr body \<Rightarrow>
               map (\<lambda>(i, line). path @ '':'' @ show_nat (i + 1) @ '': '' @ line)
                 (filter (\<lambda>(i, line). line_hit regex pattern line) (enumerate 0 (str_lines body))))"

definition grep_execute :: "(string \<Rightarrow> (string \<Rightarrow> bool) option) \<Rightarrow> fs \<Rightarrow> json \<Rightarrow> tool_output" where
  "grep_execute regex f args =
     (let pattern = (case as_str (json_get args ''pattern'') of Some p \<Rightarrow> p | None \<Rightarrow> []) in
      if pattern = [] then output_err ''pattern is required''
      else
        let path = (case as_str (json_get args ''path'') of Some p \<Rightarrow> p | None \<Rightarrow> ''.'');
            incl = as_str (json_get args ''include'');
            flt = file_filter_new f path False
        in output_ok (join LF (concat (map (grep_file regex f pattern incl) (walk_filtered f path flt)))))"

section \<open>The matcher and its language\<close>

text \<open>The words of a pattern: one word for each of its symbols, one after the other.\<close>

definition conc :: "'a list set \<Rightarrow> 'a list set \<Rightarrow> 'a list set" where
  "conc A B = {u @ v | u v. u \<in> A \<and> v \<in> B}"

fun pattern_words :: "('p \<Rightarrow> 'a list set) \<Rightarrow> 'p list \<Rightarrow> 'a list set" where
  "pattern_words L [] = {[]}"
| "pattern_words L (p # ps) = conc (L p) (pattern_words L ps)"

definition glob_words :: "string \<Rightarrow> string list set" where
  "glob_words p = (if p = ''*'' then UNIV else if p = ''?'' then {w. length w = 1} else {[p]})"

lemma in_conc: "w \<in> conc A B \<longleftrightarrow> (\<exists>u v. w = u @ v \<and> u \<in> A \<and> v \<in> B)"
  by (auto simp: conc_def)

lemma concI: "u \<in> A \<Longrightarrow> v \<in> B \<Longrightarrow> u @ v \<in> conc A B"
  by (auto simp: conc_def)

lemma conc_assoc: "conc (conc A B) C = conc A (conc B C)"
proof (intro equalityI subsetI)
  fix w assume "w \<in> conc (conc A B) C"
  then obtain a b c where "w = (a @ b) @ c" "a \<in> A" "b \<in> B" "c \<in> C" unfolding in_conc by blast
  then show "w \<in> conc A (conc B C)" by (simp add: concI)
next
  fix w assume "w \<in> conc A (conc B C)"
  then obtain a b c where w: "w = a @ (b @ c)" "a \<in> A" "b \<in> B" "c \<in> C" unfolding in_conc by blast
  then have "(a @ b) @ c \<in> conc (conc A B) C" by (intro concI)
  with w(1) show "w \<in> conc (conc A B) C" by simp
qed

lemma conc_Nil [simp]: "conc {[]} A = A" "conc A {[]} = A"
  by (auto simp: conc_def)

lemma pattern_words_snoc: "pattern_words L (ps @ [p]) = conc (pattern_words L ps) (L p)"
  by (induction ps) (simp_all add: conc_assoc)

lemma length_glob_cells [simp]: "length (glob_cells p ts prev left) = length ts"
  by (induction ts arbitrary: prev left) (simp_all add: Let_def)

lemma glob_cells_nth:
  assumes "length prev = Suc (length ts)" "j < length ts"
  shows "glob_cells p ts prev left ! j =
    (if p = ''*'' then prev ! Suc j \<or> (left # glob_cells p ts prev left) ! j
     else if p = ''?'' then prev ! j else prev ! j \<and> p = ts ! j)"
  using assms
proof (induction ts arbitrary: prev left j)
  case (Cons t ts)
  then obtain a b ds where prev: "prev = a # b # ds" by (cases prev; cases "tl prev") auto
  show ?case
  proof (cases j)
    case 0
    then show ?thesis by (simp add: prev Let_def)
  next
    case (Suc i)
    then show ?thesis using Cons.IH [of "b # ds" i] Cons.prems prev by (simp add: Let_def nth_Cons split: nat.split)
  qed
qed simp

lemma length_glob_row [simp]: "length (glob_row ts prev p) = Suc (length ts)"
  by (simp add: glob_row_def Let_def)

lemma glob_row_nth:
  assumes "length prev = Suc (length ts)"
  shows "glob_row ts prev p ! 0 = (p = ''*'' \<and> prev ! 0)"
    "j < length ts \<Longrightarrow> glob_row ts prev p ! Suc j =
      (if p = ''*'' then prev ! Suc j \<or> glob_row ts prev p ! j
       else if p = ''?'' then prev ! j else prev ! j \<and> p = ts ! j)"
  using assms length_0_conv [of prev] glob_cells_nth [OF assms, of j p "p = ''*'' \<and> hd prev"]
  by (cases prev; simp add: glob_row_def Let_def)+

lemma snoc_split: "xs @ [x] = u @ v \<longleftrightarrow> (\<exists>v'. v = v' @ [x] \<and> xs = u @ v') \<or> (v = [] \<and> u = xs @ [x])"
  by (cases v rule: rev_cases) auto

text \<open>Growing a row means growing the pattern by a symbol.\<close>

lemma glob_row_words:
  assumes "length prev = Suc (length ts)" "\<And>j. j \<le> length ts \<Longrightarrow> prev ! j \<longleftrightarrow> take j ts \<in> W"
  shows "j \<le> length ts \<Longrightarrow> glob_row ts prev p ! j \<longleftrightarrow> take j ts \<in> conc W (glob_words p)"
proof (induction j)
  case 0
  then show ?case using assms(2) [of 0] by (auto simp: glob_row_nth [OF assms(1)] glob_words_def in_conc)
next
  case (Suc j)
  then have j: "take (Suc j) ts = take j ts @ [ts ! j]" by (simp add: take_Suc_conv_app_nth)
  consider "p = ''*''" | "p = ''?''" | "p \<noteq> ''*''" "p \<noteq> ''?''" by blast
  then show ?case
  proof cases
    case 1
    have "(\<exists>u v. take j ts @ [ts ! j] = u @ v \<and> u \<in> W) \<longleftrightarrow>
        take j ts @ [ts ! j] \<in> W \<or> (\<exists>u v. take j ts = u @ v \<and> u \<in> W)"
      unfolding snoc_split by blast
    with 1 Suc assms(2) [of "Suc j"] j show ?thesis by (simp add: glob_row_nth(2) [OF assms(1)] glob_words_def in_conc)
  next
    case 2
    with Suc assms(2) [of j] j show ?thesis
      by (auto simp: glob_row_nth(2) [OF assms(1)] glob_words_def in_conc length_Suc_conv)
  next
    case 3
    with Suc assms(2) [of j] j show ?thesis by (auto simp: glob_row_nth(2) [OF assms(1)] glob_words_def in_conc)
  qed
qed

lemma glob_table:
  assumes "row = foldl (glob_row ts) (True # replicate (length ts) False) ps"
  shows "length row = Suc (length ts) \<and> (\<forall>j \<le> length ts. row ! j \<longleftrightarrow> take j ts \<in> pattern_words glob_words ps)"
  using assms
proof (induction ps arbitrary: row rule: rev_induct)
  case Nil
  then show ?case by (auto simp: nth_Cons split: nat.splits)
next
  case (snoc p ps)
  from snoc.IH [OF refl] glob_row_words [of "foldl (glob_row ts) (True # replicate (length ts) False) ps" ts
      "pattern_words glob_words ps" _ p]
  show ?case using snoc.prems by (simp add: pattern_words_snoc)
qed

text \<open>C38. The table-driven matcher of file names is the textbook matcher: a name matches a pattern exactly when it is
  spelled by the words of the pattern's characters, any word for an asterisk, any one character for a
  question mark and itself for every other character.\<close>

theorem glob_comp_language: "glob_comp pat t \<longleftrightarrow> utf8_chars t \<in> pattern_words glob_words (utf8_chars pat)"
  using glob_table [OF refl, of "utf8_chars t" "utf8_chars pat"] by (simp add: glob_comp_def Let_def)

text \<open>The same for paths: two asterisks stand for any number of names.\<close>

definition segment_words :: "string \<Rightarrow> string list set" where
  "segment_words c = (if c = ''**'' then UNIV else {[s] | s. glob_comp c s})"

lemma in_conc_single: "segs \<in> conc {[s] | s. P s} B \<longleftrightarrow> (\<exists>s ss. segs = s # ss \<and> P s \<and> ss \<in> B)"
proof
  show "segs \<in> conc {[s] | s. P s} B \<Longrightarrow> \<exists>s ss. segs = s # ss \<and> P s \<and> ss \<in> B" unfolding in_conc by auto
next
  assume "\<exists>s ss. segs = s # ss \<and> P s \<and> ss \<in> B"
  then obtain s ss where "segs = [s] @ ss" "P s" "ss \<in> B" by auto
  then show "segs \<in> conc {[s] | s. P s} B" by (simp only:) (rule concI, auto)
qed

lemma glob_segments_language: "glob_segments cs segs \<longleftrightarrow> segs \<in> pattern_words segment_words cs"
proof (induction cs arbitrary: segs)
  case (Cons c cs)
  have "(\<exists>k. k \<le> length segs \<and> drop k segs \<in> P) \<longleftrightarrow> (\<exists>u v. segs = u @ v \<and> v \<in> P)" for P
  proof
    assume "\<exists>k. k \<le> length segs \<and> drop k segs \<in> P"
    then obtain k where "drop k segs \<in> P" by blast
    then show "\<exists>u v. segs = u @ v \<and> v \<in> P"
      by (intro exI [of _ "take k segs"] exI [of _ "drop k segs"]) simp
  next
    assume "\<exists>u v. segs = u @ v \<and> v \<in> P"
    then obtain u v where "segs = u @ v" "v \<in> P" by blast
    then show "\<exists>k. k \<le> length segs \<and> drop k segs \<in> P" by (intro exI [of _ "length u"]) simp
  qed
  then have any: "list_ex (\<lambda>k. glob_segments cs (drop k segs)) [0 ..< Suc (length segs)]
      \<longleftrightarrow> (\<exists>u v. segs = u @ v \<and> v \<in> pattern_words segment_words cs)"
    unfolding Cons.IH list_ex_iff set_upt by (simp add: Bex_def less_Suc_eq_le)
  show ?case
  proof (cases "c = ''**''")
    case True
    have "segment_words ''**'' = UNIV" by (simp add: segment_words_def)
    with True any show ?thesis by (simp add: in_conc del: upt_Suc)
  next
    case False
    then have "segment_words c = {[s] | s. glob_comp c s}" by (simp add: segment_words_def)
    with False show ?thesis by (cases segs) (auto simp: in_conc_single Cons.IH)
  qed
qed simp

section \<open>The last matching rule\<close>

lemma foldl_last_match:
  "foldl (\<lambda>b r. if P r then Q r else b) b rs =
     (case filter P rs of [] \<Rightarrow> b | _ \<Rightarrow> Q (last (filter P rs)))"
  by (induction rs rule: rev_induct) (auto split: list.splits)

lemma is_ignored_last:
  "is_ignored rules segs \<longleftrightarrow>
     segs \<noteq> [] \<and> filter (\<lambda>r. rule_matches r segs) rules \<noteq> [] \<and> \<not> rl_negated (last (filter (\<lambda>r. rule_matches r segs) rules))"
  by (auto simp: is_ignored_def foldl_last_match split: list.splits)

section \<open>What the search tools see\<close>

text \<open>The decision on the names of a path below the base.\<close>

definition excluded :: "file_filter \<Rightarrow> string list \<Rightarrow> bool" where
  "excluded flt segs \<longleftrightarrow>
     set segs \<inter> set ALWAYS_IGNORED_DIRS \<noteq> {}
     \<or> \<not> ff_dot_files flt \<and> (\<exists>s \<in> set segs. starts_with s ''.'')
     \<or> is_ignored (ff_gitignore flt) segs"

definition visible :: "file_filter \<Rightarrow> string list \<Rightarrow> bool" where
  "visible flt segs \<longleftrightarrow> (\<forall>i. 0 < i \<and> i \<le> length segs \<longrightarrow> \<not> excluded flt (take i segs))"

lemma path_join_cases:
  assumes "plain_name c"
  shows "path_join d c = (if d = [] then c else if ends_with d ''/'' then d @ c else d @ ''/'' @ c)"
  using assms by (cases c) (auto simp: path_join_def is_absolute_def starts_with_def plain_name_def)

lemma path_parts_join:
  assumes "plain_name c" "d \<noteq> []"
  shows "path_parts (path_join d c) = path_parts d @ [Normal c]"
proof -
  have sp: "split_char CHR ''/'' c = [c]" using assms(1) by (simp add: plain_name_def split_char_no_sep)
  have ab: "is_absolute (path_join d c) = is_absolute d"
    using assms by (cases d) (auto simp: path_join_cases is_absolute_def starts_with_def)
  obtain e where e: "split_char CHR ''/'' (path_join d c) = split_char CHR ''/'' e @ [c]"
    "d = e \<or> d = e @ ''/''"
  proof (cases "ends_with d ''/''")
    case True
    then obtain e where "d = e @ ''/''" by (auto simp: ends_with_suffix suffix_def)
    with that [of e] True assms sp show ?thesis by (simp add: path_join_cases split_char_append_sep)
  next
    case False
    with that [of d] assms sp show ?thesis by (simp add: path_join_cases split_char_append_sep)
  qed
  have "split_char CHR ''/'' d = split_char CHR ''/'' e \<or> split_char CHR ''/'' d = split_char CHR ''/'' e @ [[]]"
    using e(2) by (auto simp: split_char_append_sep)
  then show ?thesis
    using assms(1) ab by (auto simp: path_parts_def e(1) Let_def hd_append plain_name_def)
qed

lemma path_under_nonempty: "d \<noteq> [] \<Longrightarrow> \<forall>c \<in> set cs. plain_name c \<Longrightarrow> path_under d cs \<noteq> []"
  by (induction cs arbitrary: d) (auto simp: path_join_cases)

lemma path_parts_under:
  "d \<noteq> [] \<Longrightarrow> \<forall>c \<in> set cs. plain_name c \<Longrightarrow> path_parts (path_under d cs) = path_parts d @ map Normal cs"
proof (induction cs rule: rev_induct)
  case (snoc c cs)
  then show ?case using path_under_nonempty [of d cs] by (simp add: path_parts_join)
qed simp

lemma should_skip_under:
  assumes "ff_base flt \<noteq> []" "\<forall>c \<in> set cs. plain_name c" "cs \<noteq> []"
  shows "should_skip flt (path_under (ff_base flt) cs) \<longleftrightarrow> excluded flt cs"
proof -
  have "rel_segments (map Normal xs) = xs" for xs by (induction xs) (simp_all add: rel_segments_def)
  then show ?thesis
    using assms by (auto simp: should_skip_def path_strip_prefix_def path_parts_under excluded_def list_ex_iff Let_def)
qed

lemma kept_visible:
  assumes "ff_base flt \<noteq> []" "\<forall>c \<in> set (ps @ cs). plain_name c"
  shows "kept (\<lambda>d name. \<not> should_skip flt (path_join d name)) (path_under (ff_base flt) ps) cs
    \<longleftrightarrow> (\<forall>i. length ps < i \<and> i \<le> length (ps @ cs) \<longrightarrow> \<not> excluded flt (take i (ps @ cs)))"
  using assms(2)
proof (induction cs arbitrary: ps)
  case (Cons c cs)
  have "should_skip flt (path_join (path_under (ff_base flt) ps) c) \<longleftrightarrow> excluded flt (ps @ [c])"
    using should_skip_under [OF assms(1), of "ps @ [c]"] Cons.prems by simp
  moreover have "(\<forall>i. length ps < i \<and> i \<le> length (ps @ c # cs) \<longrightarrow> Q i) \<longleftrightarrow>
      Q (Suc (length ps)) \<and> (\<forall>i. length (ps @ [c]) < i \<and> i \<le> length (ps @ c # cs) \<longrightarrow> Q i)" for Q
    by (auto simp: Suc_le_eq) (metis Suc_lessI)
  ultimately show ?case using Cons.IH [of "ps @ [c]"] Cons.prems by simp
qed auto

lemma visible_butlast:
  assumes "cs \<noteq> []"
  shows "visible flt cs \<longleftrightarrow> visible flt (butlast cs) \<and> \<not> excluded flt cs"
proof -
  obtain xs x where cs: "cs = xs @ [x]" using assms by (cases cs rule: rev_cases) auto
  have "0 < i \<and> i \<le> length cs \<longleftrightarrow> 0 < i \<and> i \<le> length xs \<or> i = length cs" for i by (auto simp: cs)
  then show ?thesis unfolding visible_def by (auto simp: cs)
qed

lemma walk_filtered_visible:
  assumes "wf_node (fs_root f)" "ff_base flt \<noteq> []"
  shows "set (walk_filtered f (ff_base flt) flt) =
    {path_under (ff_base flt) cs | cs. cs \<noteq> [] \<and> fs_files f (loc f (ff_base flt) @ cs) \<noteq> None \<and> visible flt cs}"
proof (cases "node_at (fs_root f) (loc f (ff_base flt))")
  case None
  then show ?thesis using assms(2) by (simp add: walk_filtered_def fs_files_def file_at_def node_at_append)
next
  case (Some n)
  note wf = wf_node_at [OF assms(1) Some]
  have at: "file_at n cs = fs_files f (loc f (ff_base flt) @ cs)" for cs
    by (simp add: fs_files_def file_at_def node_at_append Some)
  have vis: "kept (\<lambda>d name. \<not> should_skip flt (path_join d name)) (ff_base flt) (butlast cs)
      \<and> \<not> should_skip flt (path_under (ff_base flt) cs) \<longleftrightarrow> visible flt cs"
    if "cs \<noteq> []" "file_at n cs \<noteq> None" for cs
  proof -
    have pl: "\<forall>c \<in> set cs. plain_name c"
      using wf wf_node_at [of n cs] that(2) by (auto simp: file_at_def split: option.splits)
    then have "\<forall>c \<in> set ([] @ butlast cs). plain_name c" by (auto dest: in_set_butlastD)
    from kept_visible [OF assms(2) this] should_skip_under [OF assms(2) pl that(1)] that(1) show ?thesis
      by (simp add: visible_butlast) (simp add: visible_def)
  qed
  have "set (walk_filtered f (ff_base flt) flt) =
      {path_under (ff_base flt) cs | cs. cs \<noteq> [] \<and> file_at n cs \<noteq> None
        \<and> kept (\<lambda>d name. \<not> should_skip flt (path_join d name)) (ff_base flt) (butlast cs)
        \<and> \<not> should_skip flt (path_under (ff_base flt) cs)}"
    using wf assms(2) by (auto simp: walk_filtered_def Some set_tree_walk reached_def split: if_splits)
  with vis at show ?thesis by auto
qed

definition hit_line :: "string \<Rightarrow> nat \<Rightarrow> string \<Rightarrow> string" where
  "hit_line path n line = path @ '':'' @ show_nat n @ '': '' @ line"

definition included :: "string option \<Rightarrow> string \<Rightarrow> bool" where
  "included incl name \<longleftrightarrow> (case incl of Some inc \<Rightarrow> match_include name inc | None \<Rightarrow> True)"

lemma file_name_under:
  assumes "\<forall>c \<in> set cs. plain_name c" "cs \<noteq> []" "d \<noteq> []"
  shows "file_name (path_under d cs) = Some (last cs)"
proof -
  obtain xs x where cs: "cs = xs @ [x]" using assms(2) by (cases cs rule: rev_cases) auto
  have pl: "plain_name x" using assms(1) cs by simp
  then have sp: "split_char CHR ''/'' x = [x]" by (simp add: plain_name_def split_char_no_sep)
  let ?d = "path_under d xs"
  have ne: "?d \<noteq> []" using path_under_nonempty [OF assms(3)] assms(1) cs by simp
  have "\<exists>e. split_char CHR ''/'' (path_join ?d x) = e @ [x]"
  proof (cases "ends_with ?d ''/''")
    case True
    then obtain e where "?d = e @ ''/''" by (auto simp: ends_with_suffix suffix_def)
    with True ne pl sp show ?thesis by (simp add: path_join_cases split_char_append_sep)
  next
    case False
    with ne pl sp show ?thesis by (simp add: path_join_cases split_char_append_sep)
  qed
  with pl show ?thesis by (auto simp: cs file_name_def plain_name_def)
qed

lemma set_grep_file:
  assumes "fs_files f (loc f path) = Some body" "file_name path = Some name"
  shows "set (grep_file regex f pattern incl path) =
    {hit_line path (i + 1) (str_lines body ! i) | i.
       included incl name \<and> valid_utf8 body \<and> i < length (str_lines body) \<and> line_hit regex pattern (str_lines body ! i)}"
proof -
  have "node_at (fs_root f) (loc f path) = Some (File body)"
    using assms(1) by (auto simp: fs_files_def file_at_def split: option.splits node.splits)
  then show ?thesis using assms(2)
    by (auto simp: grep_file_def read_to_string_def hit_line_def included_def in_set_enumerate_eq image_iff split: option.splits)
qed

text \<open>C39. The \<open>grep\<close> tool reports exactly the matching lines of the files it may see: below the directory it is
  given, a line is reported with its path and its number when it matches, its file is text and passes the
  \<open>include\<close> filter, and neither the file nor a directory on its path is a build directory, hidden or
  ignored by the last matching rule. Nothing in a hidden or ignored place is shown.\<close>

theorem grep_reports_visible:
  assumes "wf_node (fs_root f)" "base \<noteq> []" "pattern \<noteq> []"
    and "as_str (json_get args ''pattern'') = Some pattern" "as_str (json_get args ''path'') = Some base"
    and "as_str (json_get args ''include'') = incl"
  shows "\<exists>rs. grep_execute regex f args = output_ok (join LF rs) \<and> set rs =
    {hit_line (path_under base cs) (i + 1) (str_lines body ! i) | cs body i.
       cs \<noteq> [] \<and> fs_files f (loc f base @ cs) = Some body \<and> visible (file_filter_new f base False) cs
       \<and> included incl (last cs) \<and> valid_utf8 body \<and> i < length (str_lines body)
       \<and> line_hit regex pattern (str_lines body ! i)}"
proof -
  let ?flt = "file_filter_new f base False" and ?grep = "grep_file regex f pattern incl"
  let ?rs = "concat (map ?grep (walk_filtered f base ?flt))"
  have base: "ff_base ?flt = base" by (simp add: file_filter_new_def)
  have one: "set (?grep (path_under base cs)) = {hit_line (path_under base cs) (i + 1) (str_lines body ! i) | i.
       included incl (last cs) \<and> valid_utf8 body \<and> i < length (str_lines body) \<and> line_hit regex pattern (str_lines body ! i)}"
    if "cs \<noteq> []" "fs_files f (loc f base @ cs) = Some body" for cs body
  proof -
    have pl: "\<forall>c \<in> set cs. plain_name c"
      using wf_node_at [OF assms(1), of "loc f base @ cs"] that(2) by (auto simp: fs_files_def file_at_def split: option.splits)
    show ?thesis
      using set_grep_file [of f "path_under base cs" body] file_name_under [OF pl that(1) assms(2)] that(2)
      by (simp add: os_path_under [OF pl])
  qed
  have "set ?rs = (\<Union>cs \<in> {cs. cs \<noteq> [] \<and> fs_files f (loc f base @ cs) \<noteq> None \<and> visible ?flt cs}. set (?grep (path_under base cs)))"
    using walk_filtered_visible [OF assms(1), of ?flt] assms(2) unfolding base by auto
  also have "\<dots> = {hit_line (path_under base cs) (i + 1) (str_lines body ! i) | cs body i.
       cs \<noteq> [] \<and> fs_files f (loc f base @ cs) = Some body \<and> visible ?flt cs
       \<and> included incl (last cs) \<and> valid_utf8 body \<and> i < length (str_lines body)
       \<and> line_hit regex pattern (str_lines body ! i)}" (is "_ = ?R")
  proof (intro equalityI subsetI)
    fix x assume "x \<in> (\<Union>cs \<in> {cs. cs \<noteq> [] \<and> fs_files f (loc f base @ cs) \<noteq> None \<and> visible ?flt cs}. set (?grep (path_under base cs)))"
    then obtain cs body where "cs \<noteq> []" "fs_files f (loc f base @ cs) = Some body" "visible ?flt cs"
      "x \<in> set (?grep (path_under base cs))" by blast
    with one [of cs body] show "x \<in> ?R" by blast
  next
    fix x assume "x \<in> ?R"
    then obtain cs body i where cs: "cs \<noteq> []" "fs_files f (loc f base @ cs) = Some body" "visible ?flt cs"
      and x: "x = hit_line (path_under base cs) (i + 1) (str_lines body ! i)" "included incl (last cs)" "valid_utf8 body"
        "i < length (str_lines body)" "line_hit regex pattern (str_lines body ! i)" by blast
    from x have "x \<in> set (?grep (path_under base cs))" unfolding one [OF cs(1,2)] by blast
    with cs show "x \<in> (\<Union>cs \<in> {cs. cs \<noteq> [] \<and> fs_files f (loc f base @ cs) \<noteq> None \<and> visible ?flt cs}. set (?grep (path_under base cs)))"
      by blast
  qed
  finally show ?thesis using assms(3-6) by (intro exI [of _ ?rs] conjI) (simp_all add: grep_execute_def Let_def)
qed


definition ex_grep_fs :: fs where
  "ex_grep_fs = \<lparr>fs_root = Dir [(''r'', Dir [(''.gitignore'', File (''*.log'' @ LF)), (''a'', File (''key'' @ LF)),
     (''b.log'', File ''key''), (''.env'', File ''key''), (''target'', Dir [(''t'', File ''key'')])])], fs_cwd = []\<rparr>"

theorem grep_reports_visible_witness:
  "\<exists>rs. grep_execute (\<lambda>_. None) ex_grep_fs (JObject [(''pattern'', JString ''key''), (''path'', JString ''/r'')]) = output_ok (join LF rs)
     \<and> set rs = {hit_line (path_under ''/r'' cs) (i + 1) (str_lines body ! i) | cs body i.
       cs \<noteq> [] \<and> fs_files ex_grep_fs (loc ex_grep_fs ''/r'' @ cs) = Some body \<and> visible (file_filter_new ex_grep_fs ''/r'' False) cs
       \<and> included None (last cs) \<and> valid_utf8 body \<and> i < length (str_lines body)
       \<and> line_hit (\<lambda>_. None) ''key'' (str_lines body ! i)}"
proof -
  have "wf_node (fs_root ex_grep_fs)" by (simp add: ex_grep_fs_def plain_name_def)
  from grep_reports_visible [OF this, of "''/r''" "''key''"] show ?thesis by (simp add: json_get_def)
qed

text \<open>On that tree only one line is shown.\<close>

lemma ex_grep_result:
  "grep_execute (\<lambda>_. None) ex_grep_fs (JObject [(''pattern'', JString ''key''), (''path'', JString ''/r'')]) = output_ok ''/r/a:1: key''"
proof -
  have one: "show_nat (Suc 0) = ''1''" by code_simp
  show ?thesis
    by (simp add: grep_execute_def ex_grep_fs_def json_get_def file_filter_new_def load_for_def GITIGNORE_SEARCH_DEPTH_def
        numeral_eq_Suc path_join_def is_absolute_def text_defs ends_with_def os_path_def os_step_def fs_read_def file_at_def
        read_to_string_def valid_utf8_def str_lines_def split_lf.simps strip_cr_def parse_rule_def str_contains_def str_find.simps
        walk_filtered_def should_skip_def path_strip_prefix_def path_parts_def rel_segments_def ALWAYS_IGNORED_DIRS_def
        is_ignored_def rule_matches_def glob_comp_def glob_row_def grep_file_def line_hit_def one Let_def)
qed

section \<open>Where the filter and its comments part\<close>

text \<open>Character classes are not supported.\<close>

lemma no_character_classes: "\<not> glob_comp ''[ab].c'' ''a.c''"
  by (simp add: glob_comp_def glob_row_def is_cont_byte_def Let_def)

text \<open>A relative base is not searched upward: above \<open>.\<close> only the current directory is looked at.\<close>

lemma relative_base_not_walked_up:
  assumes "fs_read f ''./.gitignore'' = None" "fs_read f ''.gitignore'' = None"
  shows "load_for f ''.'' = []"
  using assms
  by (simp add: load_for_def GITIGNORE_SEARCH_DEPTH_def numeral_eq_Suc path_join_def is_absolute_def starts_with_def ends_with_def
      path_parent_def trim_slashes_def Let_def)

text \<open>An anchored rule of a \<open>.gitignore\<close> above the base is applied to the paths below the base.\<close>

lemma anchored_at_the_base:
  assumes "fs_read f ''/r/s/.gitignore'' = None" "fs_read f ''/r/.gitignore'' = Some ''/build''" "fs_cwd f = c"
  shows "should_skip (file_filter_new f ''/r/s'' False) ''/r/s/build''"
proof -
  have "read_to_string f ''/r/.gitignore'' = Inr ''/build''"
    using assms(2) by (auto simp: fs_read_def file_at_def read_to_string_def valid_utf8_def split: option.splits node.splits)
  then show ?thesis using assms(1,2)
    by (simp add: file_filter_new_def load_for_def GITIGNORE_SEARCH_DEPTH_def
        numeral_eq_Suc path_join_def is_absolute_def text_defs ends_with_def path_parent_def trim_slashes_def
        str_lines_def split_lf.simps strip_cr_def parse_rule_def str_contains_def str_find.simps
        should_skip_def path_strip_prefix_def path_parts_def rel_segments_def ALWAYS_IGNORED_DIRS_def
        is_ignored_def rule_matches_def segments_prefix_match_def glob_comp_def glob_row_def Let_def)
qed

end
