(* ===== verification/Task_Manager.thy ===== *)
theory Task_Manager
  imports Tools
begin

text \<open>
  Background commands: \<open>sentinel-tools/src/task.rs\<close>. The manager holds a table of records; every spawned
  command has a runner, an asynchronous job that polls the child process, the kill channel and its deadline until one of
  them settles the outcome, then awaits the end of the child and of its output, and reports once. Each of these
  is a step of its own, since a kill can arrive at any of the awaits between them; within a round of the polls the only
  access to shared state is that of the channel. The state is the table, the counter and the runners, numbered in the order of their
  spawning; the steps of the manager and of the runners interleave freely. What the operating system
  answers (whether the child exited, its output, the clock) is an argument of each step. Clocks count
  milliseconds and are natural numbers. The pretty printer of \<open>serde_json\<close> is a parameter.
\<close>

section \<open>Records\<close>

definition TASK_RUNNING :: string where "TASK_RUNNING = ''running''"
definition TASK_COMPLETED :: string where "TASK_COMPLETED = ''completed''"
definition TASK_FAILED :: string where "TASK_FAILED = ''failed''"
definition TASK_CANCELLED :: string where "TASK_CANCELLED = ''cancelled''"

lemmas status_defs = TASK_RUNNING_def TASK_COMPLETED_def TASK_FAILED_def TASK_CANCELLED_def

definition is_terminal :: "string \<Rightarrow> bool" where
  "is_terminal status \<longleftrightarrow> status = TASK_COMPLETED \<or> status = TASK_FAILED \<or> status = TASK_CANCELLED"

type_synonym i32 = "32 word"

text \<open>The sender of a kill channel is the number of the runner that holds its receiver.\<close>

record task_record =
  tr_id :: string
  tr_command :: string
  tr_workdir :: string
  tr_status :: string
  tr_output :: string
  tr_exit_code :: "i32 option"
  tr_started_at_ms :: u64
  tr_finished_at_ms :: "u64 option"
  tr_kill_tx :: "nat option"

datatype task_end = Exited "i32 option" | Killed | TimedOut

text \<open>A runner starts its command, polls it until the outcome is settled (\<open>Inl\<close> when the command could not be
  started), winds up, and has reported.\<close>

datatype phase = Starting | Polling "nat option" | Ending "string + task_end" | Ended

record runner =
  rn_task :: string
  rn_timeout_ms :: "u64 option"
  rn_phase :: phase
  rn_signal :: bool

record task_manager =
  tm_tasks :: "string \<rightharpoonup> task_record"
  tm_next_id :: u64
  tm_runners :: "runner list"

definition task_manager_new :: task_manager where
  "task_manager_new = \<lparr>tm_tasks = Map.empty, tm_next_id = 1, tm_runners = []\<rparr>"

definition fetch_next_id :: "task_manager \<Rightarrow> string \<times> task_manager" where
  "fetch_next_id m = (''task-'' @ show_word (tm_next_id m), m\<lparr>tm_next_id := tm_next_id m + 1\<rparr>)"

definition spawn :: "u64 \<Rightarrow> string \<Rightarrow> string \<Rightarrow> u64 option \<Rightarrow> task_manager \<Rightarrow> string \<times> task_manager" where
  "spawn now_ms command workdir timeout_ms m =
     (let (tid, m1) = fetch_next_id m;
          r = \<lparr>tr_id = tid, tr_command = command, tr_workdir = workdir, tr_status = TASK_RUNNING, tr_output = [],
               tr_exit_code = None, tr_started_at_ms = now_ms, tr_finished_at_ms = None,
               tr_kill_tx = Some (length (tm_runners m1))\<rparr>
      in (tid, m1\<lparr>tm_tasks := (tm_tasks m1)(tid \<mapsto> r),
                 tm_runners := tm_runners m1 @
                   [\<lparr>rn_task = tid, rn_timeout_ms = timeout_ms, rn_phase = Starting, rn_signal = False\<rparr>]\<rparr>))"

definition kill :: "string \<Rightarrow> task_manager \<Rightarrow> (string + unit) \<times> task_manager" where
  "kill tid m =
     (case tm_tasks m tid of
        None \<Rightarrow> (Inl (''no such task: '' @ tid), m)
      | Some r \<Rightarrow>
          (if is_terminal (tr_status r) then (Inr (), m)
           else case tr_kill_tx r of
                  Some tx \<Rightarrow>
                    (Inr (), m\<lparr>tm_tasks := (tm_tasks m)(tid \<mapsto> r\<lparr>tr_kill_tx := None\<rparr>),
                               tm_runners := (tm_runners m)[tx := (tm_runners m ! tx)\<lparr>rn_signal := True\<rparr>]\<rparr>)
                | None \<Rightarrow> (Inl ''task has no kill switch'', m)))"

definition finish :: "u64 \<Rightarrow> string \<Rightarrow> string \<Rightarrow> string \<Rightarrow> i32 option \<Rightarrow> task_manager \<Rightarrow> task_manager" where
  "finish now_ms tid status output exit_code m =
     (case tm_tasks m tid of
        None \<Rightarrow> m
      | Some r \<Rightarrow>
          m\<lparr>tm_tasks := (tm_tasks m)(tid \<mapsto> r\<lparr>tr_status := status, tr_output := output, tr_exit_code := exit_code,
                                            tr_finished_at_ms := Some now_ms, tr_kill_tx := None\<rparr>)\<rparr>)"

section \<open>Runners\<close>

datatype try_recv = Received | Disconnected | Empty

definition kill_rx_try_recv :: "task_manager \<Rightarrow> nat \<Rightarrow> try_recv" where
  "kill_rx_try_recv m i =
     (let rn = tm_runners m ! i in
      if rn_signal rn then Received
      else case tm_tasks m (rn_task rn) of
             Some r \<Rightarrow> if tr_kill_tx r = Some i then Empty else Disconnected
           | None \<Rightarrow> Disconnected)"

text \<open>One round of the loop of \<open>run_to_terminal\<close>: the child first, then the channel, then the deadline.\<close>

definition poll_outcome :: "i32 option option \<Rightarrow> try_recv \<Rightarrow> nat option \<Rightarrow> nat \<Rightarrow> task_end option" where
  "poll_outcome try_wait rx deadline now =
     (case try_wait of
        Some code \<Rightarrow> Some (Exited code)
      | None \<Rightarrow>
          (if rx \<noteq> Empty then Some Killed
           else case deadline of
                  Some d \<Rightarrow> if d \<le> now then Some TimedOut else None
                | None \<Rightarrow> None))"

fun terminal_report :: "task_end \<Rightarrow> string \<Rightarrow> string \<Rightarrow> string \<times> string \<times> i32 option" where
  "terminal_report (Exited code) out err =
     ((if (\<exists>c. code = Some c \<and> c \<noteq> 0) \<or> code = None then TASK_FAILED else TASK_COMPLETED),
      (if err = [] then out else if out = [] then err else out @ LF @ err), code)"
| "terminal_report Killed out err = (TASK_CANCELLED, [], None)"
| "terminal_report TimedOut out err = (''timed_out'', [], None)"

definition set_phase :: "nat \<Rightarrow> phase \<Rightarrow> task_manager \<Rightarrow> task_manager" where
  "set_phase i ph m = m\<lparr>tm_runners := (tm_runners m)[i := (tm_runners m ! i)\<lparr>rn_phase := ph\<rparr>]\<rparr>"

text \<open>What the spawned job hands to \<open>finish\<close>.\<close>

fun job_report :: "string + task_end \<Rightarrow> string \<Rightarrow> string \<Rightarrow> string \<times> string \<times> i32 option" where
  "job_report (Inl e) out err = (TASK_FAILED, ''spawn failed: '' @ e, None)"
| "job_report (Inr e) out err = terminal_report e out err"

text \<open>The spawned job: the child is started, or the task has failed; then the polls, up to the one that leaves the loop;
  then, when the child is gone and its output is read, the report.\<close>

definition runner_start :: "nat \<Rightarrow> string + unit \<Rightarrow> nat \<Rightarrow> task_manager \<Rightarrow> task_manager" where
  "runner_start now spawned i m =
     (let rn = tm_runners m ! i in
      case spawned of
        Inr _ \<Rightarrow> set_phase i (Polling (map_option (\<lambda>ms. now + unat ms) (rn_timeout_ms rn))) m
      | Inl e \<Rightarrow> set_phase i (Ending (Inl e)) m)"

definition runner_poll :: "nat \<Rightarrow> i32 option option \<Rightarrow> nat \<Rightarrow> nat option \<Rightarrow> task_manager \<Rightarrow> task_manager" where
  "runner_poll now try_wait i deadline m =
     (case poll_outcome try_wait (kill_rx_try_recv m i) deadline now of
        None \<Rightarrow> m
      | Some e \<Rightarrow> set_phase i (Ending (Inr e)) m)"

definition runner_finish :: "u64 \<Rightarrow> string \<Rightarrow> string \<Rightarrow> nat \<Rightarrow> string + task_end \<Rightarrow> task_manager \<Rightarrow> task_manager" where
  "runner_finish now_ms out err i outcome m =
     (let (status, output, code) = job_report outcome out err in
      set_phase i Ended (finish now_ms (rn_task (tm_runners m ! i)) status output code m))"

inductive task_step :: "task_manager \<Rightarrow> task_manager \<Rightarrow> bool" where
  spawn: "task_step m (snd (spawn now_ms command workdir timeout_ms m))"
| kill: "task_step m (snd (kill tid m))"
| start: "i < length (tm_runners m) \<Longrightarrow> rn_phase (tm_runners m ! i) = Starting \<Longrightarrow>
    task_step m (runner_start now spawned i m)"
| poll: "i < length (tm_runners m) \<Longrightarrow> rn_phase (tm_runners m ! i) = Polling d \<Longrightarrow>
    task_step m (runner_poll now try_wait i d m)"
| report: "i < length (tm_runners m) \<Longrightarrow> rn_phase (tm_runners m ! i) = Ending outcome \<Longrightarrow>
    task_step m (runner_finish now_ms out err i outcome m)"

section \<open>Records as JSON, and waiting\<close>

definition json_opt :: "('a \<Rightarrow> json) \<Rightarrow> 'a option \<Rightarrow> json" where
  "json_opt g x = (case x of None \<Rightarrow> JNull | Some y \<Rightarrow> g y)"

definition json_u64 :: "u64 \<Rightarrow> json" where
  "json_u64 n = JNumber (PosInt n)"

definition json_i32 :: "i32 \<Rightarrow> json" where
  "json_i32 c = JNumber (if 0 \<le> sint c then PosInt (signed c) else NegInt (signed c))"

definition record_to_json :: "u64 \<Rightarrow> task_record \<Rightarrow> json" where
  "record_to_json now_ms r =
     (let until = (case tr_finished_at_ms r of
                     Some t \<Rightarrow> t
                   | None \<Rightarrow> if tr_status r = TASK_RUNNING then now_ms else tr_started_at_ms r)
      in JObject [(''task_id'', JString (tr_id r)), (''command'', JString (tr_command r)),
           (''workdir'', JString (tr_workdir r)), (''status'', JString (tr_status r)),
           (''output'', JString (tr_output r)), (''exit_code'', json_opt json_i32 (tr_exit_code r)),
           (''started_at_ms'', json_u64 (tr_started_at_ms r)),
           (''finished_at_ms'', json_opt json_u64 (tr_finished_at_ms r)),
           (''elapsed_ms'', json_u64 (saturating_sub until (tr_started_at_ms r)))])"

definition record_json :: "u64 \<Rightarrow> string \<Rightarrow> task_manager \<Rightarrow> json option" where
  "record_json now_ms tid m = map_option (record_to_json now_ms) (tm_tasks m tid)"

text \<open>The records in the iteration order of the hash map.\<close>

definition list_json :: "u64 \<Rightarrow> string list \<Rightarrow> task_manager \<Rightarrow> json" where
  "list_json now_ms order m = JObject [(''tasks'', JArray (List.map_filter (\<lambda>tid. record_json now_ms tid m) order))]"

text \<open>The polls of \<open>wait\<close>: the \<open>k\<close>-th sees the manager \<open>fst (obs k)\<close> at the time \<open>snd (obs k)\<close> of the
  monotonic clock.\<close>

partial_function (option) wait_loop ::
    "(nat \<Rightarrow> task_manager \<times> nat) \<Rightarrow> (nat \<Rightarrow> u64) \<Rightarrow> string \<Rightarrow> nat \<Rightarrow> nat \<Rightarrow> (string + json) option" where
  "wait_loop obs wall tid deadline k =
     (case record_json (wall k) tid (fst (obs k)) of
        None \<Rightarrow> Some (Inl (''no such task: '' @ tid))
      | Some snapshot \<Rightarrow>
          (let status = (case as_str (json_get snapshot ''status'') of Some s \<Rightarrow> s | None \<Rightarrow> []) in
           if is_terminal status \<or> deadline \<le> snd (obs k) then Some (Inr snapshot)
           else wait_loop obs wall tid deadline (k + 1)))"

definition wait :: "(nat \<Rightarrow> task_manager \<times> nat) \<Rightarrow> (nat \<Rightarrow> u64) \<Rightarrow> nat \<Rightarrow> string \<Rightarrow> u64 option \<Rightarrow> (string + json) option" where
  "wait obs wall start tid timeout_ms =
     wait_loop obs wall tid (case timeout_ms of Some ms \<Rightarrow> start + unat ms | None \<Rightarrow> start + 60 * 1000) 0"

section \<open>The tool\<close>

definition arg_str :: "json \<Rightarrow> string \<Rightarrow> string" where
  "arg_str args k = (case as_str (json_get args k) of Some s \<Rightarrow> s | None \<Rightarrow> [])"

definition first_some :: "'a option list \<Rightarrow> 'a \<Rightarrow> 'a" where
  "first_some xs d = (case List.map_filter id xs of [] \<Rightarrow> d | x # _ \<Rightarrow> x)"

text \<open>The answer of the tool: at once, or when a wait is over.\<close>

datatype task_answer = Now tool_output | Waiting string "u64 option"

definition task_execute ::
    "(json \<Rightarrow> string) \<Rightarrow> string list \<Rightarrow> u64 \<Rightarrow> tool_context \<Rightarrow> json \<Rightarrow> task_manager \<Rightarrow> task_answer \<times> task_manager" where
  "task_execute pretty order now_ms tc args m =
     (let action = arg_str args ''action''; tid = arg_str args ''task_id''; timeout_ms = as_u64 (json_get args ''timeout_ms'') in
      if action = ''spawn'' then
        (let command = arg_str args ''command'' in
         if command = [] then (Now (output_err ''task spawn: command is required''), m)
         else
           let workdir = first_some [as_str (json_get args ''workdir''), tc_sandbox_dir tc, tc_workspace_dir tc] ''.'';
               (tid, m1) = spawn now_ms command workdir timeout_ms m
           in (Now (output_ok (pretty (JObject [(''task_id'', JString tid), (''status'', JString TASK_RUNNING),
                 (''message'', JString ''task spawned in the background; poll with task status or wait'')]))), m1))
      else if action = ''status'' then
        (if tid = [] then (Now (output_err ''task status: task_id is required''), m)
         else case record_json now_ms tid m of
                Some v \<Rightarrow> (Now (output_ok (pretty v)), m)
              | None \<Rightarrow> (Now (output_err (''no such task: '' @ tid)), m))
      else if action = ''list'' then (Now (output_ok (pretty (list_json now_ms order m))), m)
      else if action = ''wait'' then
        (if tid = [] then (Now (output_err ''task wait: task_id is required''), m)
         else (Waiting tid timeout_ms, m))
      else if action = ''kill'' then
        (if tid = [] then (Now (output_err ''task kill: task_id is required''), m)
         else case kill tid m of
                (Inr _, m1) \<Rightarrow>
                  (Now (output_ok (pretty (JObject [(''task_id'', JString tid), (''status'', JString TASK_CANCELLED),
                     (''message'', JString ''kill signal sent'')]))), m1)
              | (Inl e, m1) \<Rightarrow> (Now (output_err e), m1))
      else (Now (output_err (''unknown task action '' @ [CHR 0x27] @ action @ [CHR 0x27]
              @ '' (expected one of spawn, status, list, wait, kill)'')), m))"

section \<open>One runner for every task\<close>

definition task_name :: "nat \<Rightarrow> string" where
  "task_name i = ''task-'' @ show_nat (Suc i)"

definition finished :: "task_record \<Rightarrow> bool" where
  "finished r \<longleftrightarrow> tr_finished_at_ms r \<noteq> None \<and> tr_kill_tx r = None \<and>
     (tr_status r = TASK_COMPLETED \<and> tr_exit_code r = Some 0
      \<or> tr_status r = TASK_FAILED \<and> tr_exit_code r \<noteq> Some 0
      \<or> tr_status r \<in> {TASK_CANCELLED, ''timed_out''} \<and> tr_exit_code r = None \<and> tr_output r = [])"

text \<open>A running task can be killed, or has been told to stop.\<close>

definition running :: "nat \<Rightarrow> bool \<Rightarrow> task_record \<Rightarrow> bool" where
  "running i signal r \<longleftrightarrow> tr_status r = TASK_RUNNING \<and> tr_finished_at_ms r = None \<and> tr_exit_code r = None \<and>
     tr_output r = [] \<and> tr_kill_tx r = (if signal then None else Some i)"

definition runner_ok :: "task_manager \<Rightarrow> nat \<Rightarrow> bool" where
  "runner_ok m i \<longleftrightarrow>
     (let rn = tm_runners m ! i in
      rn_task rn = task_name i \<and>
      (\<exists>r. tm_tasks m (task_name i) = Some r \<and> tr_id r = task_name i \<and>
         (if rn_phase rn = Ended then finished r else running i (rn_signal rn) r)))"

definition manager_ok :: "task_manager \<Rightarrow> bool" where
  "manager_ok m \<longleftrightarrow>
     tm_next_id m = of_nat (Suc (length (tm_runners m))) \<and>
     dom (tm_tasks m) = task_name ` {..<length (tm_runners m)} \<and>
     (\<forall>i < length (tm_runners m). runner_ok m i)"

text \<open>Fewer than \<open>2 ^ 64 - 1\<close> commands have been spawned, so that no identifier came back.\<close>

definition ids_left :: "task_manager \<Rightarrow> bool" where
  "ids_left m \<longleftrightarrow> Suc (length (tm_runners m)) < 2 ^ 64"

lemma show_nat_inject: "show_nat a = show_nat b \<longleftrightarrow> a = b"
  by (metis digits_val_show option.inject)

lemma task_name_inject [simp]: "task_name i = task_name j \<longleftrightarrow> i = j"
  by (simp add: task_name_def show_nat_inject)

lemma length_tm_runners [simp]:
  "length (tm_runners (finish now_ms tid st out code m)) = length (tm_runners m)"
  "length (tm_runners (set_phase i ph m)) = length (tm_runners m)"
  "length (tm_runners (runner_start now sp i m)) = length (tm_runners m)"
  "length (tm_runners (runner_poll now tw i d m)) = length (tm_runners m)"
  "length (tm_runners (runner_finish now_ms out err i oc m)) = length (tm_runners m)"
  "length (tm_runners (snd (kill tid m))) = length (tm_runners m)"
  "length (tm_runners (snd (spawn now_ms c w t m))) = Suc (length (tm_runners m))"
  by (simp_all add: finish_def set_phase_def runner_start_def runner_poll_def runner_finish_def kill_def spawn_def
      fetch_next_id_def Let_def
      split: option.splits sum.splits prod.splits)

lemma task_step_runners_mono: "task_step m m' \<Longrightarrow> length (tm_runners m) \<le> length (tm_runners m')"
  by (induction rule: task_step.induct) simp_all

lemma task_steps_runners_mono: "task_step\<^sup>*\<^sup>* m m' \<Longrightarrow> length (tm_runners m) \<le> length (tm_runners m')"
  by (induction rule: rtranclp_induct) (auto dest: task_step_runners_mono)

lemma manager_ok_new: "manager_ok task_manager_new"
  by (simp add: manager_ok_def task_manager_new_def)

lemma manager_ok_name:
  assumes "manager_ok m" "ids_left m"
  shows "''task-'' @ show_word (tm_next_id m) = task_name (length (tm_runners m))"
proof -
  have "unat (of_nat (Suc (length (tm_runners m))) :: u64) = Suc (length (tm_runners m))"
    using assms(2) by (simp add: ids_left_def unsigned_of_nat take_bit_nat_eq_self del: of_nat_Suc)
  with assms(1) show ?thesis by (simp add: manager_ok_def task_name_def del: of_nat_Suc)
qed

lemma spawn_ok:
  assumes "manager_ok m" "ids_left m"
  shows "manager_ok (snd (spawn now_ms c w t m))" "fst (spawn now_ms c w t m) = task_name (length (tm_runners m))"
proof -
  show "fst (spawn now_ms c w t m) = task_name (length (tm_runners m))"
    by (simp add: spawn_def fetch_next_id_def manager_ok_name [OF assms, simplified])
  let ?n = "length (tm_runners m)"
  let ?r = "\<lparr>tr_id = task_name ?n, tr_command = c, tr_workdir = w, tr_status = TASK_RUNNING, tr_output = [],
    tr_exit_code = None, tr_started_at_ms = now_ms, tr_finished_at_ms = None, tr_kill_tx = Some ?n\<rparr>"
  let ?m = "m\<lparr>tm_next_id := tm_next_id m + 1, tm_tasks := (tm_tasks m)(task_name ?n \<mapsto> ?r),
    tm_runners := tm_runners m @ [\<lparr>rn_task = task_name ?n, rn_timeout_ms = t, rn_phase = Starting, rn_signal = False\<rparr>]\<rparr>"
  have m: "snd (spawn now_ms c w t m) = ?m"
    by (simp add: spawn_def fetch_next_id_def manager_ok_name [OF assms, simplified])
  have "runner_ok ?m i" if "i < Suc ?n" for i
    using that assms(1) by (cases "i = ?n") (auto simp: runner_ok_def running_def manager_ok_def nth_append Let_def)
  then show "manager_ok (snd (spawn now_ms c w t m))"
    unfolding m using assms(1) by (simp add: manager_ok_def lessThan_Suc)
qed

text \<open>A step of one runner or of a kill touches one task.\<close>

lemma local_step_ok:
  assumes "manager_ok m" "i < length (tm_runners m)"
    and "tm_next_id m' = tm_next_id m" "tm_tasks m' = (tm_tasks m)(task_name i \<mapsto> r)" "tr_id r = task_name i"
    and "tm_runners m' = (tm_runners m)[i := rn]" "rn_task rn = task_name i"
    and "if rn_phase rn = Ended then finished r else running i (rn_signal rn) r"
  shows "manager_ok m'"
proof -
  have "runner_ok m' j" if "j < length (tm_runners m)" for j
    using assms that by (cases "j = i") (auto simp: manager_ok_def runner_ok_def Let_def)
  with assms show ?thesis by (auto simp: manager_ok_def)
qed

lemma manager_ok_task:
  assumes "manager_ok m" "i < length (tm_runners m)"
  obtains r where "tm_tasks m (task_name i) = Some r" "tr_id r = task_name i" "rn_task (tm_runners m ! i) = task_name i"
    "if rn_phase (tm_runners m ! i) = Ended then finished r else running i (rn_signal (tm_runners m ! i)) r"
  using assms by (auto simp: manager_ok_def runner_ok_def Let_def)

lemma kill_ok:
  assumes "manager_ok m"
  shows "manager_ok (snd (kill tid m))"
proof (cases "\<exists>r tx. tm_tasks m tid = Some r \<and> \<not> is_terminal (tr_status r) \<and> tr_kill_tx r = Some tx")
  case False
  then have "snd (kill tid m) = m" by (auto simp: kill_def split: option.splits)
  with assms show ?thesis by simp
next
  case True
  then obtain r tx where r: "tm_tasks m tid = Some r" "\<not> is_terminal (tr_status r)" "tr_kill_tx r = Some tx" by blast
  then obtain i where i: "i < length (tm_runners m)" "tid = task_name i"
    using assms by (auto simp: manager_ok_def dom_def)
  obtain r' where r': "tm_tasks m (task_name i) = Some r'" "tr_id r' = task_name i" "rn_task (tm_runners m ! i) = task_name i"
    "if rn_phase (tm_runners m ! i) = Ended then finished r' else running i (rn_signal (tm_runners m ! i)) r'"
    using manager_ok_task [OF assms i(1)] .
  then have run: "rn_phase (tm_runners m ! i) \<noteq> Ended" "tx = i" "running i False r"
    using r i(2) by (auto simp: finished_def running_def split: if_splits)
  show ?thesis
    using r r' i run
    by (intro local_step_ok [OF assms i(1), of _ "r\<lparr>tr_kill_tx := None\<rparr>" "(tm_runners m ! i)\<lparr>rn_signal := True\<rparr>"])
      (auto simp: kill_def running_def)
qed

lemma end_ok:
  assumes "manager_ok m" "i < length (tm_runners m)"
    and "st = TASK_COMPLETED \<and> code = Some 0 \<or> st = TASK_FAILED \<and> code \<noteq> Some 0
      \<or> st \<in> {TASK_CANCELLED, ''timed_out''} \<and> code = None \<and> out = []"
  shows "manager_ok (set_phase i Ended (finish now_ms (rn_task (tm_runners m ! i)) st out code m))"
proof -
  obtain r where r: "tm_tasks m (task_name i) = Some r" "tr_id r = task_name i" "rn_task (tm_runners m ! i) = task_name i"
    using manager_ok_task [OF assms(1,2)] by metis
  show ?thesis
    using r assms(3)
    by (intro local_step_ok [OF assms(1,2), of _ "r\<lparr>tr_status := st, tr_output := out, tr_exit_code := code,
          tr_finished_at_ms := Some now_ms, tr_kill_tx := None\<rparr>" "(tm_runners m ! i)\<lparr>rn_phase := Ended\<rparr>"])
      (auto simp: set_phase_def finish_def finished_def)
qed

lemma job_report_ok:
  "job_report oc out err = (st, output, code) \<Longrightarrow>
    st = TASK_COMPLETED \<and> code = Some 0 \<or> st = TASK_FAILED \<and> code \<noteq> Some 0
      \<or> st \<in> {TASK_CANCELLED, ''timed_out''} \<and> code = None \<and> output = []"
  by (cases "(oc, out, err)" rule: job_report.cases; cases "projr oc") (auto split: if_splits)

text \<open>A runner that goes on without reporting leaves the table as it is.\<close>

lemma phase_ok:
  assumes "manager_ok m" "i < length (tm_runners m)" "rn_phase (tm_runners m ! i) \<noteq> Ended" "ph \<noteq> Ended"
  shows "manager_ok (set_phase i ph m)"
proof -
  obtain r where r: "tm_tasks m (task_name i) = Some r" "tr_id r = task_name i" "rn_task (tm_runners m ! i) = task_name i"
    "running i (rn_signal (tm_runners m ! i)) r"
    using manager_ok_task [OF assms(1,2)] assms(3) by metis
  with assms(4) show ?thesis
    by (intro local_step_ok [OF assms(1,2), of _ r "(tm_runners m ! i)\<lparr>rn_phase := ph\<rparr>"])
      (auto simp: set_phase_def fun_upd_idem)
qed

lemma start_ok:
  "manager_ok m \<Longrightarrow> i < length (tm_runners m) \<Longrightarrow> rn_phase (tm_runners m ! i) = Starting \<Longrightarrow> manager_ok (runner_start now sp i m)"
  by (cases sp) (simp_all add: runner_start_def phase_ok Let_def)

lemma poll_ok:
  "manager_ok m \<Longrightarrow> i < length (tm_runners m) \<Longrightarrow> rn_phase (tm_runners m ! i) = Polling d \<Longrightarrow> manager_ok (runner_poll now tw i d m)"
  by (simp add: runner_poll_def phase_ok split: option.splits)

lemma report_ok:
  "manager_ok m \<Longrightarrow> i < length (tm_runners m) \<Longrightarrow> manager_ok (runner_finish now_ms out err i oc m)"
  using end_ok job_report_ok [of oc out err] by (auto simp: runner_finish_def split: prod.splits)

lemma task_step_ok: "task_step m m' \<Longrightarrow> manager_ok m \<Longrightarrow> ids_left m' \<Longrightarrow> manager_ok m'"
  by (induction rule: task_step.induct)
    (simp_all add: spawn_ok(1) kill_ok start_ok poll_ok report_ok ids_left_def)

interpretation pool: guarded_system task_step manager_ok ids_left
  by unfold_locales (auto simp: ids_left_def dest: task_step_ok task_step_runners_mono intro: task_step_ok)

section \<open>What holds in every run\<close>

text \<open>C21. However spawns, kills and polls interleave, every task of the table is running, with a runner that will report, or
  is over with a status that fits its exit code: completed means exit code zero, failed means any other, and a cancelled
  or timed out task has no exit code and no output (as long as no identifier comes back).\<close>

theorem task_table_consistent:
  assumes "task_step\<^sup>*\<^sup>* task_manager_new m" "ids_left m" "tm_tasks m tid = Some r"
  shows "tr_id r = tid \<and> (\<exists>i < length (tm_runners m). rn_task (tm_runners m ! i) = tid \<and>
      (if rn_phase (tm_runners m ! i) = Ended then finished r else running i (rn_signal (tm_runners m ! i)) r))"
proof -
  have ok: "manager_ok m" using pool.steps_ok [OF assms(1) manager_ok_new assms(2)] .
  then obtain i where i: "i < length (tm_runners m)" "tid = task_name i"
    using assms(3) by (auto simp: manager_ok_def dom_def)
  from manager_ok_task [OF ok i(1)] show ?thesis
    using i assms(3) by (metis option.inject)
qed

text \<open>A record that is over is not touched by any step.\<close>

lemma other_task_kept:
  "tid \<noteq> tid' \<Longrightarrow> tm_tasks (finish now_ms tid' st out code m) tid = tm_tasks m tid"
  "tid \<noteq> tid' \<Longrightarrow> tm_tasks (snd (kill tid' m)) tid = tm_tasks m tid"
  "tm_tasks (set_phase i ph m) = tm_tasks m"
  by (auto simp: finish_def kill_def set_phase_def split: option.splits)

lemma runner_tasks:
  "tm_tasks (runner_start now sp i m) = tm_tasks m"
  "tm_tasks (runner_poll now tw i d m) = tm_tasks m"
  "tid \<noteq> rn_task (tm_runners m ! i) \<Longrightarrow> tm_tasks (runner_finish now_ms out err i oc m) tid = tm_tasks m tid"
  by (auto simp: runner_start_def runner_poll_def runner_finish_def other_task_kept Let_def
      split: sum.splits option.splits prod.splits)

lemma over_task_kept:
  assumes "task_step m m'" "manager_ok m" "ids_left m'" "tm_tasks m tid = Some r" "tr_finished_at_ms r \<noteq> None"
  shows "tm_tasks m' tid = Some r"
proof -
  obtain j where j: "j < length (tm_runners m)" "tid = task_name j"
    using assms(2,4) by (auto simp: manager_ok_def dom_def)
  obtain r' where "tm_tasks m tid = Some r'" "rn_task (tm_runners m ! j) = tid"
    "if rn_phase (tm_runners m ! j) = Ended then finished r' else running j (rn_signal (tm_runners m ! j)) r'"
    using manager_ok_task [OF assms(2) j(1)] j(2) by metis
  then have ended: "rn_phase (tm_runners m ! j) = Ended" "tr_kill_tx r = None" "rn_task (tm_runners m ! j) = tid"
    using assms(4,5) by (simp_all add: running_def finished_def split: if_splits)
  have other: "tid \<noteq> rn_task (tm_runners m ! i)" if "i < length (tm_runners m)" "rn_phase (tm_runners m ! i) \<noteq> Ended" for i
    using that ended(1) manager_ok_task [OF assms(2) that(1)] j(2) by (metis task_name_inject)
  from assms(1) show ?thesis
  proof cases
    case (spawn now_ms command workdir timeout_ms)
    have "ids_left m" using assms(3) spawn by (simp add: ids_left_def)
    from spawn_ok(2) [OF assms(2) this] have "tid \<noteq> fst (spawn now_ms command workdir timeout_ms m)" using j by simp
    with assms(4) spawn show ?thesis by (auto simp: spawn_def Let_def fetch_next_id_def)
  next
    case (kill tid')
    then show ?thesis using assms(4) ended(2) other_task_kept(2) [of tid tid' m]
      by (cases "tid = tid'") (auto simp: kill_def)
  next
    case (start i now spawned)
    then show ?thesis using runner_tasks(1) assms(4) by simp
  next
    case (poll i d now try_wait)
    then show ?thesis using runner_tasks(2) assms(4) by simp
  next
    case (report i outcome now_ms out err)
    then show ?thesis using other [of i] runner_tasks(3) assms(4) by simp
  qed
qed

text \<open>The result of a task is final: once a task is over, its record stays as it is through every later step.\<close>

theorem task_result_final:
  assumes "task_step\<^sup>*\<^sup>* task_manager_new m" "task_step\<^sup>*\<^sup>* m m'" "ids_left m'"
    and "tm_tasks m tid = Some r" "tr_status r \<noteq> TASK_RUNNING"
  shows "tm_tasks m' tid = Some r"
proof -
  have ok: "manager_ok m" using pool.steps_ok [OF assms(1) manager_ok_new] pool.guard_steps [OF assms(2,3)] .
  obtain i where "i < length (tm_runners m)" "tid = task_name i" using ok assms(4) by (auto simp: manager_ok_def dom_def)
  with manager_ok_task [OF ok] assms(4,5) have over: "tr_finished_at_ms r \<noteq> None"
    by (metis finished_def option.inject running_def)
  show ?thesis
    using pool.steps_stable [OF assms(2) ok assms(3), of "\<lambda>m. tm_tasks m tid = Some r"] assms(4) over_task_kept over by blast
qed

section \<open>What a kill does\<close>

text \<open>A runner that has left its loop with an outcome will report it, or has done so.\<close>

definition reports_as :: "task_manager \<Rightarrow> nat \<Rightarrow> string + task_end \<Rightarrow> bool" where
  "reports_as m i outcome \<longleftrightarrow>
     (let rn = tm_runners m ! i in
      rn_phase rn = Ending outcome \<or>
      rn_phase rn = Ended \<and> (\<exists>r out err. tm_tasks m (rn_task rn) = Some r \<and>
        (tr_status r, tr_output r, tr_exit_code r) = job_report outcome out err))"

definition undecided :: "task_manager \<Rightarrow> nat \<Rightarrow> bool" where
  "undecided m i \<longleftrightarrow> rn_phase (tm_runners m ! i) = Starting \<or> (\<exists>d. rn_phase (tm_runners m ! i) = Polling d)"

lemma signal_update:
  "rn_phase (xs[k := (xs ! k)\<lparr>rn_signal := True\<rparr>] ! j) = rn_phase (xs ! j)"
  "rn_task (xs[k := (xs ! k)\<lparr>rn_signal := True\<rparr>] ! j) = rn_task (xs ! j)"
  "rn_signal (xs ! j) \<Longrightarrow> rn_signal (xs[k := (xs ! k)\<lparr>rn_signal := True\<rparr>] ! j)"
  by (cases "k = j"; cases "j < length xs"; simp add: list_update_beyond)+

text \<open>What one step does to one runner.\<close>

lemma runner_stays:
  assumes "task_step m m'" "j < length (tm_runners m)"
  obtains
    "rn_phase (tm_runners m' ! j) = rn_phase (tm_runners m ! j)" "rn_task (tm_runners m' ! j) = rn_task (tm_runners m ! j)"
      "rn_signal (tm_runners m ! j) \<Longrightarrow> rn_signal (tm_runners m' ! j)"
  | now sp where "rn_phase (tm_runners m ! j) = Starting" "m' = runner_start now sp j m"
  | now tw d where "rn_phase (tm_runners m ! j) = Polling d" "m' = runner_poll now tw j d m"
  | now_ms out err oc where "rn_phase (tm_runners m ! j) = Ending oc" "m' = runner_finish now_ms out err j oc m"
  using assms(1)
proof cases
  case (kill tid)
  show ?thesis
    by (rule that(1))
      (use kill assms(2) in \<open>auto simp: kill_def signal_update split: option.splits\<close>)
next
  case (start i now sp)
  then show ?thesis using that(1,2) assms(2)
    by (cases "i = j") (auto simp: runner_start_def set_phase_def Let_def split: sum.splits)
next
  case (poll i d now tw)
  then show ?thesis using that(1,3) assms(2)
    by (cases "i = j") (auto simp: runner_poll_def set_phase_def split: option.splits)
next
  case (report i oc now_ms out err)
  then show ?thesis using that(1,4) assms(2)
    by (cases "i = j") (auto simp: runner_finish_def set_phase_def finish_def split: option.splits prod.splits)
qed (use that(1) assms(2) in \<open>auto simp: spawn_def fetch_next_id_def nth_append Let_def\<close>)

lemma signal_kept:
  assumes "task_step m m'" "i < length (tm_runners m)" "rn_signal (tm_runners m ! i)"
  shows "rn_signal (tm_runners m' ! i)"
  using runner_stays [OF assms(1,2)]
proof cases
  case 1
  then show ?thesis using assms(3) by blast
qed (use assms(2,3) in \<open>auto simp: runner_start_def runner_poll_def runner_finish_def set_phase_def finish_def Let_def
  split: sum.splits option.splits prod.splits\<close>)

lemma reports_as_kept:
  assumes "task_step m m'" "manager_ok m" "ids_left m'" "i < length (tm_runners m)" "reports_as m i oc"
  shows "reports_as m' i oc"
  using runner_stays [OF assms(1,4)]
proof cases
  case 1
  obtain r where r: "tm_tasks m (rn_task (tm_runners m ! i)) = Some r"
    "rn_phase (tm_runners m ! i) = Ended \<Longrightarrow> finished r"
    using manager_ok_task [OF assms(2,4)] by metis
  show ?thesis
  proof (cases "rn_phase (tm_runners m ! i) = Ended")
    case True
    with r have "tr_finished_at_ms r \<noteq> None" by (simp add: finished_def)
    with over_task_kept [OF assms(1-3) r(1)] 1 r(1) assms(5) show ?thesis by (simp add: reports_as_def Let_def)
  next
    case False
    with 1 assms(5) show ?thesis by (simp add: reports_as_def Let_def)
  qed
next
  case (4 now_ms out err oc')
  obtain r where r: "tm_tasks m (rn_task (tm_runners m ! i)) = Some r"
    using manager_ok_task [OF assms(2,4)] by metis
  obtain st o1 code where j: "job_report oc out err = (st, o1, code)" by (cases "job_report oc out err") auto
  from 4 assms(5) have "oc' = oc" by (simp add: reports_as_def Let_def)
  with 4(2) r j assms(4) show ?thesis
    unfolding reports_as_def Let_def
    by (intro disjI2) (auto simp: runner_finish_def set_phase_def finish_def intro: j [symmetric])
qed (use assms(5) in \<open>auto simp: reports_as_def Let_def\<close>)

text \<open>A runner that has the signal before it has decided does not decide for the deadline.\<close>

definition heeds_kill :: "task_manager \<Rightarrow> nat \<Rightarrow> bool" where
  "heeds_kill m i \<longleftrightarrow> rn_signal (tm_runners m ! i) \<and> (undecided m i \<or> (\<exists>oc. oc \<noteq> Inr TimedOut \<and> reports_as m i oc))"

lemma heeds_kill_step:
  assumes "task_step m m'" "manager_ok m" "ids_left m'" "i < length (tm_runners m)" "heeds_kill m i"
  shows "heeds_kill m' i"
proof -
  have sig: "rn_signal (tm_runners m ! i)" "rn_signal (tm_runners m' ! i)"
    using assms(5) signal_kept [OF assms(1,4)] by (simp_all add: heeds_kill_def)
  show ?thesis
  proof (cases "undecided m i")
    case False
    then show ?thesis using assms(5) reports_as_kept [OF assms(1-4)] sig(2) by (auto simp: heeds_kill_def)
  next
    case True
    have "undecided m' i \<or> (\<exists>oc. oc \<noteq> Inr TimedOut \<and> reports_as m' i oc)"
      using runner_stays [OF assms(1,4)]
    proof cases
      case 1
      then show ?thesis using True by (simp add: undecided_def)
    next
      case (2 now sp)
      then show ?thesis using assms(4)
        by (cases sp) (auto simp: undecided_def reports_as_def runner_start_def set_phase_def Let_def)
    next
      case (3 now tw d)
      then show ?thesis using assms(4) sig(1)
        by (cases tw) (auto simp: undecided_def reports_as_def runner_poll_def poll_outcome_def kill_rx_try_recv_def
            set_phase_def Let_def)
    qed (use True in \<open>simp add: undecided_def\<close>)
    then show ?thesis using sig(2) by (simp add: heeds_kill_def)
  qed
qed

text \<open>An accepted kill reaches the runner of the task.\<close>

lemma kill_signals:
  assumes "manager_ok m" "i < length (tm_runners m)" "kill (task_name i) m = (Inr (), m1)"
    and "tm_tasks m (task_name i) = Some r" "tr_status r = TASK_RUNNING"
  shows "rn_signal (tm_runners m1 ! i) \<and> rn_phase (tm_runners m1 ! i) = rn_phase (tm_runners m ! i)"
proof -
  have "\<not> is_terminal TASK_RUNNING" by (simp add: is_terminal_def status_defs)
  with assms(3-5) obtain tx where tx: "tr_kill_tx r = Some tx"
      "m1 = m\<lparr>tm_tasks := (tm_tasks m)(task_name i \<mapsto> r\<lparr>tr_kill_tx := None\<rparr>),
        tm_runners := (tm_runners m)[tx := (tm_runners m ! tx)\<lparr>rn_signal := True\<rparr>]\<rparr>"
    by (auto simp: kill_def split: option.splits)
  have "tx = i" using manager_ok_task [OF assms(1,2)] tx(1) assms(4)
    by (metis finished_def option.distinct(1) option.inject running_def)
  with tx(2) assms(2) show ?thesis by simp
qed

text \<open>C22. What an accepted kill of a running task does depends on whether its runner has left the polling loop. If it has not,
  the next poll of the runner, whenever it comes, ends the loop, as killed or, when the command has exited by then, with
  the exit code of the command, and what is reported in the end is never a time-out. If it has, the kill changes nothing:
  the outcome settled before is the one that is reported, be it a time-out.\<close>

theorem kill_takes_effect:
  assumes "task_step\<^sup>*\<^sup>* task_manager_new m" "kill tid m = (Inr (), m1)" "tm_tasks m tid = Some r" "tr_status r = TASK_RUNNING"
    and "task_step\<^sup>*\<^sup>* m1 m2" "ids_left m2"
    and "i < length (tm_runners m)" "rn_task (tm_runners m ! i) = tid"
  shows "case rn_phase (tm_runners m ! i) of
      Ended \<Rightarrow> False
    | Ending outcome \<Rightarrow> reports_as m2 i outcome
    | _ \<Rightarrow> (undecided m2 i \<or> (\<exists>outcome. outcome \<noteq> Inr TimedOut \<and> reports_as m2 i outcome)) \<and>
        (\<forall>d now try_wait. rn_phase (tm_runners m2 ! i) = Polling d \<longrightarrow>
           runner_poll now try_wait i d m2 =
             set_phase i (Ending (Inr (case try_wait of None \<Rightarrow> Killed | Some code \<Rightarrow> Exited code))) m2)"
proof -
  have s1: "task_step m m1" using task_step.kill [of m tid] assms(2) by simp
  have left: "ids_left m1" using pool.guard_steps [OF assms(5,6)] .
  then have "ids_left m" using pool.guard_back [OF s1] by blast
  then have ok: "manager_ok m" using pool.steps_ok [OF assms(1) manager_ok_new] by blast
  have ok1: "manager_ok m1" using task_step_ok [OF s1 ok left] .
  from manager_ok_task [OF ok assms(7)] assms(8) have tid: "tid = task_name i" by metis
  have run: "rn_phase (tm_runners m ! i) \<noteq> Ended"
  proof
    assume "rn_phase (tm_runners m ! i) = Ended"
    with manager_ok_task [OF ok assms(7)] tid assms(3) have "finished r" by (metis option.inject)
    with assms(4) show False by (simp add: finished_def status_defs)
  qed
  have k: "rn_signal (tm_runners m1 ! i)" "rn_phase (tm_runners m1 ! i) = rn_phase (tm_runners m ! i)"
    using kill_signals [OF ok assms(7)] assms(2-4) tid by simp_all
  have i1: "i < length (tm_runners m1)" using assms(7) task_step_runners_mono [OF s1] by simp
  have kept: "i < length (tm_runners m2) \<and> P m2"
    if "P m1" "\<And>a b. task_step a b \<Longrightarrow> manager_ok a \<Longrightarrow> ids_left b \<Longrightarrow> i < length (tm_runners a) \<Longrightarrow> P a \<Longrightarrow> P b" for P
    using pool.steps_stable [OF assms(5) ok1 assms(6), of "\<lambda>m. i < length (tm_runners m) \<and> P m"] i1 that task_step_runners_mono
    by (meson order_less_le_trans)
  show ?thesis
  proof (cases "undecided m i")
    case True
    with k have "heeds_kill m1 i" by (simp add: heeds_kill_def undecided_def)
    then have h: "heeds_kill m2 i" using kept [of "\<lambda>m. heeds_kill m i"] heeds_kill_step by blast
    then have "runner_poll now try_wait i d m2 =
        set_phase i (Ending (Inr (case try_wait of None \<Rightarrow> Killed | Some code \<Rightarrow> Exited code))) m2" for now try_wait d
      by (cases try_wait) (simp_all add: heeds_kill_def runner_poll_def poll_outcome_def kill_rx_try_recv_def Let_def)
    with h True show ?thesis by (auto simp: heeds_kill_def undecided_def)
  next
    case False
    with run obtain oc where oc: "rn_phase (tm_runners m ! i) = Ending oc"
      by (cases "rn_phase (tm_runners m ! i)") (auto simp: undecided_def)
    with k have "reports_as m1 i oc" by (simp add: reports_as_def)
    then have "reports_as m2 i oc" using kept [of "\<lambda>m. reports_as m i oc"] reports_as_kept by blast
    with oc show ?thesis by simp
  qed
qed

section \<open>Waiting\<close>

text \<open>When a poll of \<open>wait\<close> is the last one.\<close>

definition wait_over :: "(nat \<Rightarrow> task_manager \<times> nat) \<Rightarrow> string \<Rightarrow> nat \<Rightarrow> nat \<Rightarrow> bool" where
  "wait_over obs tid deadline k \<longleftrightarrow>
     (case tm_tasks (fst (obs k)) tid of
        None \<Rightarrow> True
      | Some r \<Rightarrow> is_terminal (tr_status r) \<or> deadline \<le> snd (obs k))"

definition wait_answer :: "(nat \<Rightarrow> task_manager \<times> nat) \<Rightarrow> (nat \<Rightarrow> u64) \<Rightarrow> string \<Rightarrow> nat \<Rightarrow> string + json" where
  "wait_answer obs wall tid k =
     (case tm_tasks (fst (obs k)) tid of
        None \<Rightarrow> Inl (''no such task: '' @ tid)
      | Some r \<Rightarrow> Inr (record_to_json (wall k) r))"

lemma record_to_json_status: "json_get (record_to_json now_ms r) ''status'' = JString (tr_status r)"
  by (simp add: record_to_json_def json_get_def Let_def)

lemma wait_loop_unfold:
  "wait_loop obs wall tid deadline k =
     (if wait_over obs tid deadline k then Some (wait_answer obs wall tid k) else wait_loop obs wall tid deadline (k + 1))"
  by (subst wait_loop.simps)
    (auto simp: wait_over_def wait_answer_def record_json_def record_to_json_status Let_def split: option.splits)

lemma wait_loop_first:
  assumes "wait_over obs tid deadline (k + n)" "\<And>j. k \<le> j \<Longrightarrow> j < k + n \<Longrightarrow> \<not> wait_over obs tid deadline j"
  shows "wait_loop obs wall tid deadline k = Some (wait_answer obs wall tid (k + n))"
  using assms
proof (induction n arbitrary: k)
  case 0
  then show ?case by (subst wait_loop_unfold) simp
next
  case (Suc n)
  have "\<not> wait_over obs tid deadline k" using Suc.prems(2) [of k] by simp
  moreover have "wait_loop obs wall tid deadline (k + 1) = Some (wait_answer obs wall tid (k + 1 + n))"
    using Suc.prems by (intro Suc.IH) auto
  ultimately show ?case by (subst wait_loop_unfold) simp
qed

text \<open>\<open>wait\<close> returns whenever its clock passes the deadline, and answers with the first poll at which the task is gone,
  has a terminal status or the deadline has passed.\<close>

theorem wait_returns:
  assumes "deadline = (case timeout_ms of Some ms \<Rightarrow> start + unat ms | None \<Rightarrow> start + 60000)" "deadline \<le> snd (obs n)"
  shows "\<exists>k \<le> n. wait obs wall start tid timeout_ms = Some (wait_answer obs wall tid k)
    \<and> wait_over obs tid deadline k \<and> (\<forall>j < k. \<not> wait_over obs tid deadline j)"
proof -
  have "wait_over obs tid deadline n" using assms(2) by (simp add: wait_over_def split: option.splits)
  then obtain k where k: "wait_over obs tid deadline k" "\<forall>j < k. \<not> wait_over obs tid deadline j" "k \<le> n"
    by (metis exists_least_iff linorder_not_less)
  then show ?thesis using wait_loop_first [of obs tid deadline 0 k wall] assms(1)
    by (auto simp: wait_def split: option.splits)
qed

text \<open>The status of a task that ran into its own time limit is not among the terminal ones: a wait for such a task goes
  on to its own deadline although the task is over, and a kill of it is an error.\<close>

theorem timed_out_not_terminal:
  assumes "task_step\<^sup>*\<^sup>* task_manager_new m" "ids_left m" "tm_tasks m tid = Some r" "tr_status r = ''timed_out''"
  shows "kill tid m = (Inl ''task has no kill switch'', m)
    \<and> (\<forall>obs deadline k. tm_tasks (fst (obs k)) tid = Some r \<longrightarrow> (wait_over obs tid deadline k \<longleftrightarrow> deadline \<le> snd (obs k)))"
proof -
  have ok: "manager_ok m" using pool.steps_ok [OF assms(1) manager_ok_new assms(2)] .
  obtain i where "i < length (tm_runners m)" "tid = task_name i" using ok assms(3) by (auto simp: manager_ok_def dom_def)
  from manager_ok_task [OF ok this(1)] this(2) obtain b where "finished r \<or> running i b r"
    using assms(3) by (metis option.inject)
  then have "tr_kill_tx r = None" using assms(4) by (auto simp: finished_def running_def status_defs)
  moreover have "\<not> is_terminal ''timed_out''" by (simp add: is_terminal_def status_defs)
  ultimately show ?thesis using assms(3,4) by (auto simp: kill_def wait_over_def)
qed

section \<open>A run\<close>

definition ex_spawned :: task_manager where
  "ex_spawned = snd (spawn 5 ''make'' ''.'' (Some 10) task_manager_new)"

definition ex_started :: task_manager where
  "ex_started = runner_start 100 (Inr ()) 0 ex_spawned"

lemma ex_run: "task_step\<^sup>*\<^sup>* task_manager_new ex_spawned" "task_step\<^sup>*\<^sup>* task_manager_new ex_started"
  and ex_polling: "length (tm_runners ex_started) = 1" "rn_phase (tm_runners ex_started ! 0) = Polling (Some 110)"
proof -
  show s: "task_step\<^sup>*\<^sup>* task_manager_new ex_spawned" unfolding ex_spawned_def by (intro r_into_rtranclp task_step.spawn)
  have one: "show_nat (Suc 0) = ''1''" by code_simp
  have "task_step ex_spawned ex_started" unfolding ex_started_def
    by (rule task_step.start) (simp_all add: ex_spawned_def spawn_def fetch_next_id_def task_manager_new_def)
  with s show "task_step\<^sup>*\<^sup>* task_manager_new ex_started" by (rule rtranclp.rtrancl_into_rtrancl)
  show "length (tm_runners ex_started) = 1" "rn_phase (tm_runners ex_started ! 0) = Polling (Some 110)"
    by (simp_all add: ex_started_def ex_spawned_def runner_start_def set_phase_def spawn_def fetch_next_id_def task_manager_new_def)
qed

lemma ex_name: "show_nat (Suc 0) = ''1''"
  by code_simp

lemmas ex_defs = ex_started_def ex_spawned_def runner_start_def set_phase_def spawn_def fetch_next_id_def task_manager_new_def

definition ex_record :: task_record where
  "ex_record = \<lparr>tr_id = ''task-1'', tr_command = ''make'', tr_workdir = ''.'', tr_status = TASK_RUNNING, tr_output = [],
     tr_exit_code = None, tr_started_at_ms = 5, tr_finished_at_ms = None, tr_kill_tx = Some 0\<rparr>"

lemma ex_task: "tm_tasks ex_started ''task-1'' = Some ex_record" "rn_task (tm_runners ex_started ! 0) = ''task-1''"
  by (simp_all add: ex_defs ex_record_def ex_name)

theorem task_table_consistent_witness:
  "tr_id ex_record = ''task-1'' \<and> (\<exists>i < length (tm_runners ex_started). rn_task (tm_runners ex_started ! i) = ''task-1'' \<and>
      (if rn_phase (tm_runners ex_started ! i) = Ended then finished ex_record
       else running i (rn_signal (tm_runners ex_started ! i)) ex_record))"
  using task_table_consistent [OF ex_run(2) _ ex_task(1)] ex_polling(1) by (simp add: ids_left_def)

text \<open>The command has exited, or has run into its time limit; then the report.\<close>

definition ex_ending :: "i32 option option \<Rightarrow> nat \<Rightarrow> task_manager" where
  "ex_ending tw now = runner_poll now tw 0 (Some 110) ex_started"

definition ex_over :: "i32 option option \<Rightarrow> nat \<Rightarrow> task_end \<Rightarrow> task_manager" where
  "ex_over tw now e = runner_finish 6 ''ok'' [] 0 (Inr e) (ex_ending tw now)"

lemma ex_quiet: "kill_rx_try_recv ex_started 0 = Empty"
  using ex_task by (simp add: kill_rx_try_recv_def ex_record_def) (simp add: ex_defs)

lemma ex_ending_is:
  "ex_ending (Some (Some 0)) 101 = set_phase 0 (Ending (Inr (Exited (Some 0)))) ex_started"
  "ex_ending None 200 = set_phase 0 (Ending (Inr TimedOut)) ex_started"
  by (simp_all add: ex_ending_def runner_poll_def poll_outcome_def ex_quiet)

lemma ex_ending_run: "task_step\<^sup>*\<^sup>* task_manager_new (ex_ending tw now)" "length (tm_runners (ex_ending tw now)) = 1"
proof -
  have "task_step ex_started (ex_ending tw now)"
    unfolding ex_ending_def by (rule task_step.poll) (simp_all add: ex_polling)
  with ex_run(2) show "task_step\<^sup>*\<^sup>* task_manager_new (ex_ending tw now)" by (rule rtranclp.rtrancl_into_rtrancl)
  show "length (tm_runners (ex_ending tw now)) = 1" by (simp add: ex_ending_def ex_polling)
qed

lemma ex_over_run:
  assumes "rn_phase (tm_runners (ex_ending tw now) ! 0) = Ending (Inr e)"
  shows "task_step\<^sup>*\<^sup>* task_manager_new (ex_over tw now e)" "length (tm_runners (ex_over tw now e)) = 1"
proof -
  have "task_step (ex_ending tw now) (ex_over tw now e)"
    unfolding ex_over_def by (rule task_step.report) (simp_all add: ex_ending_run(2) assms)
  with ex_ending_run(1) show "task_step\<^sup>*\<^sup>* task_manager_new (ex_over tw now e)" by (rule rtranclp.rtrancl_into_rtrancl)
  show "length (tm_runners (ex_over tw now e)) = 1" by (simp add: ex_over_def ex_ending_run(2))
qed

lemma ex_set_phase [simp]:
  "rn_phase (tm_runners (set_phase 0 ph ex_started) ! 0) = ph" "rn_task (tm_runners (set_phase 0 ph ex_started) ! 0) = ''task-1''"
  "tm_tasks (set_phase 0 ph ex_started) ''task-1'' = Some ex_record"
  using ex_polling(1) ex_task by (simp_all add: set_phase_def)

theorem task_result_final_witness:
  "tm_tasks (snd (spawn 7 ''ls'' ''.'' None (ex_over (Some (Some 0)) 101 (Exited (Some 0))))) ''task-1'' =
     Some (ex_record\<lparr>tr_status := TASK_COMPLETED, tr_output := ''ok'', tr_exit_code := Some 0, tr_finished_at_ms := Some 6, tr_kill_tx := None\<rparr>)"
proof -
  let ?m = "ex_over (Some (Some 0)) 101 (Exited (Some 0))"
  have t: "tm_tasks ?m ''task-1'' = Some (ex_record\<lparr>tr_status := TASK_COMPLETED, tr_output := ''ok'', tr_exit_code := Some 0,
      tr_finished_at_ms := Some 6, tr_kill_tx := None\<rparr>)"
    by (simp add: ex_over_def runner_finish_def ex_ending_is finish_def other_task_kept(3) ex_task)
  have e: "rn_phase (tm_runners (ex_ending (Some (Some 0)) 101) ! 0) = Ending (Inr (Exited (Some 0)))"
    by (simp add: ex_ending_is)
  have "task_step\<^sup>*\<^sup>* ?m (snd (spawn 7 ''ls'' ''.'' None ?m))" by (intro r_into_rtranclp task_step.spawn)
  from task_result_final [OF ex_over_run(1) [OF e] this _ t] show ?thesis
    by (simp add: ids_left_def ex_over_run(2) [OF e] status_defs)
qed

text \<open>A kill while the command runs ends the loop, and a kill after the time limit was noticed is accepted in vain.\<close>

lemma ex_kill:
  "tm_tasks m ''task-1'' = Some ex_record \<Longrightarrow>
    kill ''task-1'' m = (Inr (), m\<lparr>tm_tasks := (tm_tasks m)(''task-1'' \<mapsto> ex_record\<lparr>tr_kill_tx := None\<rparr>),
      tm_runners := (tm_runners m)[0 := (tm_runners m ! 0)\<lparr>rn_signal := True\<rparr>]\<rparr>)"
  by (simp add: kill_def ex_record_def is_terminal_def status_defs)

theorem kill_takes_effect_witness:
  "\<exists>m1. kill ''task-1'' ex_started = (Inr (), m1) \<and> runner_poll 200 None 0 (Some 110) m1 = set_phase 0 (Ending (Inr Killed)) m1"
proof -
  obtain m1 where m1: "kill ''task-1'' ex_started = (Inr (), m1)" "length (tm_runners m1) = 1"
    "rn_phase (tm_runners m1 ! 0) = Polling (Some 110)"
    using ex_kill [OF ex_task(1)] ex_polling by simp
  have "tr_status ex_record = TASK_RUNNING" by (simp add: ex_record_def)
  from kill_takes_effect [OF ex_run(2) m1(1) ex_task(1) this rtranclp.rtrancl_refl, of 0] m1 ex_polling ex_task(2)
  have "runner_poll 200 None 0 (Some 110) m1 = set_phase 0 (Ending (Inr Killed)) m1"
    by (auto simp: ids_left_def dest: spec [of _ 200] spec [of _ None])
  with m1(1) show ?thesis by blast
qed

text \<open>A task can end as timed out although its kill was accepted: the kill came while the runner was winding the
  command up.\<close>

theorem late_kill_times_out:
  "\<exists>m m1 m2 r. task_step\<^sup>*\<^sup>* task_manager_new m \<and> kill ''task-1'' m = (Inr (), m1) \<and>
     tm_tasks m ''task-1'' = Some ex_record \<and> task_step m1 m2 \<and> tm_tasks m2 ''task-1'' = Some r \<and> tr_status r = ''timed_out''"
proof -
  let ?m = "ex_ending None 200"
  have t: "tm_tasks ?m ''task-1'' = Some ex_record" and l: "tm_runners ?m \<noteq> []"
    using ex_ending_run(2) [of None 200] by (simp add: ex_ending_is, fastforce)
  define m1 where "m1 = snd (kill ''task-1'' ?m)"
  have m1: "kill ''task-1'' ?m = (Inr (), m1)" "length (tm_runners m1) = 1" "rn_phase (tm_runners m1 ! 0) = Ending (Inr TimedOut)"
    "rn_task (tm_runners m1 ! 0) = ''task-1''" "\<exists>r. tm_tasks m1 ''task-1'' = Some r"
    using ex_kill [OF t] ex_ending_run(2) [of None 200] l by (auto simp: m1_def ex_ending_is)
  have "task_step m1 (runner_finish 9 [] [] 0 (Inr TimedOut) m1)" by (rule task_step.report) (simp_all add: m1)
  moreover have "\<exists>r. tm_tasks (runner_finish 9 [] [] 0 (Inr TimedOut) m1) ''task-1'' = Some r \<and> tr_status r = ''timed_out''"
    using m1(4,5) by (auto simp: runner_finish_def finish_def other_task_kept(3) ex_task)
  ultimately show ?thesis using ex_ending_run(1) [of None 200] m1(1) t by blast
qed

theorem wait_returns_witness:
  "\<exists>k \<le> 1. wait (\<lambda>k. (ex_started, 40000 * k)) (\<lambda>_. 0) 0 ''task-1'' (Some 30000) = Some (wait_answer (\<lambda>k. (ex_started, 40000 * k)) (\<lambda>_. 0) ''task-1'' k)
    \<and> wait_over (\<lambda>k. (ex_started, 40000 * k)) ''task-1'' 30000 k \<and> filter (wait_over (\<lambda>k. (ex_started, 40000 * k)) ''task-1'' 30000) [0..<k] = []"
  using wait_returns [of 30000 0 "Some 30000" "\<lambda>k. (ex_started, 40000 * k)" 1 "\<lambda>_. 0" "''task-1''"]
  by (simp add: filter_empty_conv Ball_def)

theorem timed_out_not_terminal_witness:
  "\<exists>r. tm_tasks (ex_over None 200 TimedOut) ''task-1'' = Some r \<and> tr_status r = ''timed_out''
    \<and> kill ''task-1'' (ex_over None 200 TimedOut) = (Inl ''task has no kill switch'', ex_over None 200 TimedOut)"
proof -
  have e: "rn_phase (tm_runners (ex_ending None 200) ! 0) = Ending (Inr TimedOut)" by (simp add: ex_ending_is)
  obtain r where "tm_tasks (ex_over None 200 TimedOut) ''task-1'' = Some r" "tr_status r = ''timed_out''"
    by (simp add: ex_over_def runner_finish_def ex_ending_is finish_def other_task_kept(3) ex_task)
  with timed_out_not_terminal [OF ex_over_run(1) [OF e] _ this] show ?thesis by (simp add: ids_left_def ex_over_run(2) [OF e])
qed

text \<open>A second kill before the runner has reacted is an error as well.\<close>

lemma second_kill_fails:
  "tm_tasks m tid = Some r \<Longrightarrow> tr_status r = TASK_RUNNING \<Longrightarrow> tr_kill_tx r \<noteq> None \<Longrightarrow>
    fst (kill tid (snd (kill tid m))) = Inl ''task has no kill switch''"
  by (auto simp: kill_def is_terminal_def status_defs)

end
