(* ===== verification/Links.thy ===== *)
theory Links
  imports Filesystem
begin

text \<open>
  A disk with symbolic links, as far as the patch engine can tell: the tree of \<open>Filesystem\<close> and a table of links, each with its
  place and the text it holds. A path is resolved component by component, a link by the components of its text, as
  the system does it, and at most forty links are followed. What \<open>std::fs\<close> does with a last component that is a link depends on the call:
  \<open>exists\<close>, \<open>read_to_string\<close>, \<open>File::create\<close> and \<open>canonicalize\<close> follow it, \<open>rename\<close> and \<open>remove_file\<close> act on the link itself, and
  \<open>create_dir_all\<close> fails on one that leads nowhere.
\<close>

section \<open>Path strings of places\<close>

definition path_string :: "bool \<Rightarrow> string list \<Rightarrow> string" where
  "path_string ab cs = (if ab then ''/'' else []) @ join ''/'' cs"

lemma split_char_no_sep_elem: "x \<in> set (split_char c s) \<Longrightarrow> c \<notin> set x"
  by (induction s arbitrary: x) (auto split: if_splits list.splits)

lemma os_step_plain: "list_all plain_name acc \<Longrightarrow> CHR ''/'' \<notin> set c \<Longrightarrow> list_all plain_name (os_step acc c)"
  by (auto simp: os_step_def plain_name_def list_all_iff dest: in_set_butlastD)

lemma foldl_os_step_plain:
  "list_all plain_name acc \<Longrightarrow> \<forall>c \<in> set cs. CHR ''/'' \<notin> set c \<Longrightarrow> list_all plain_name (foldl os_step acc cs)"
  by (induction cs arbitrary: acc) (simp_all add: os_step_plain)

lemma os_path_plain: "list_all plain_name cwd \<or> is_absolute p \<Longrightarrow> list_all plain_name (os_path cwd p)"
  unfolding os_path_def by (rule foldl_os_step_plain) (auto dest: split_char_no_sep_elem)

lemma split_join: "list_all plain_name cs \<Longrightarrow> cs \<noteq> [] \<Longrightarrow> split_char CHR ''/'' (join ''/'' cs) = cs"
proof (induction "''/''" cs rule: join.induct)
  case (3 x y ys)
  then show ?case using split_char_append_sep [of "CHR ''/''" x]
    by (simp add: plain_name_def split_char_no_sep)
qed (simp_all add: plain_name_def split_char_no_sep)

lemma foldl_os_step_id: "list_all plain_name cs \<Longrightarrow> foldl os_step acc cs = acc @ cs"
  by (induction cs arbitrary: acc) (simp_all add: os_step_def plain_name_def)

lemma split_path_string: "list_all plain_name cs \<Longrightarrow>
    split_char CHR ''/'' (path_string True cs) = [] # (if cs = [] then [[]] else cs)"
  by (simp add: path_string_def split_join)

lemma is_absolute_path_string [simp]: "is_absolute (path_string True cs)"
  by (simp add: path_string_def)

lemma os_path_string [simp]: "list_all plain_name cs \<Longrightarrow> os_path cwd (path_string True cs) = cs"
  by (simp add: os_path_def split_path_string foldl_os_step_id) (simp add: os_step_def foldl_os_step_id)

lemma join_snoc: "join ''/'' (xs @ [y]) = (if xs = [] then y else join ''/'' xs @ ''/'' @ y)"
  by (induction "''/''" xs rule: join.induct) auto

lemma path_string_append: "cs \<noteq> [] \<Longrightarrow> path_string True (cs @ [c]) = path_string True cs @ ''/'' @ c"
  by (simp add: path_string_def join_snoc)

lemma path_string_last:
  assumes "plain_name d"
  shows "\<exists>ys y. path_string True (ds @ [d]) = ys @ [y] \<and> y \<noteq> CHR ''/''"
proof -
  from assms obtain d' z where "d = d' @ [z]" "z \<noteq> CHR ''/''"
    by (cases d rule: rev_cases) (auto simp: plain_name_def)
  then show ?thesis by (cases "ds = []") (auto simp: path_string_def join_snoc)
qed

lemma path_string_snoc:
  assumes "list_all plain_name (cs @ [c])"
  shows "path_string True (cs @ [c]) = path_join (path_string True cs) c"
proof -
  have c: "\<not> is_absolute c" using assms by (cases c) (auto simp: plain_name_def)
  show ?thesis
  proof (cases cs rule: rev_cases)
    case Nil
    with c show ?thesis by (simp add: path_string_def path_join_def ends_with_def)
  next
    case (snoc ds d)
    with assms path_string_last [of d ds] have "\<not> ends_with (path_string True cs) ''/''" "path_string True cs \<noteq> []"
      by (auto simp: ends_with_suffix suffix_def)
    with snoc c show ?thesis using path_string_append [of cs c] by (simp add: path_join_def)
  qed
qed

lemma path_parent_string:
  assumes "list_all plain_name (cs @ [c])"
  shows "path_parent (path_string True (cs @ [c])) = Some (path_string True cs)"
proof -
  have ns: "CHR ''/'' \<notin> set c" "c \<noteq> []" using assms by (auto simp: plain_name_def)
  then have t: "trim_slashes (e @ c) = e @ c" for e
    by (cases c rule: rev_cases) (auto simp flip: append_assoc)
  have dw: "dropWhile (\<lambda>x. x \<noteq> CHR ''/'') (rev c @ ys) = dropWhile (\<lambda>x. x \<noteq> CHR ''/'') ys" for ys
    using ns by (intro dropWhile_append2) auto
  show ?thesis
  proof (cases cs rule: rev_cases)
    case Nil
    then show ?thesis using ns t [of "''/''"] dw [of "''/''"] by (simp add: path_string_def path_parent_def trim_slashes_def)
  next
    case (snoc ds x)
    then have "path_string True (cs @ [c]) = path_string True cs @ ''/'' @ c" using path_string_append [of cs c] by simp
    moreover obtain ys y where "path_string True cs = ys @ [y]" "y \<noteq> CHR ''/''"
      using path_string_last [of x ds] assms snoc by auto
    ultimately show ?thesis using ns t [of "ys @ [y] @ ''/''"] dw [of "CHR ''/'' # y # rev ys"]
      by (simp add: path_parent_def Let_def trim_slashes_def)
  qed
qed

section \<open>Following links\<close>

type_synonym links = "(string list \<times> string) list"

record linked_disk =
  ld_fs :: fs
  ld_links :: links

text \<open>From a place with the components of a path still to come; \<open>follow\<close> says whether a link in the last component is
  followed, \<open>n\<close> is the number of links that may still be followed.\<close>

definition link_at :: "links \<Rightarrow> bool \<Rightarrow> string list \<Rightarrow> string \<Rightarrow> string list \<Rightarrow> string option" where
  "link_at lk follow here c cs =
     (if c \<notin> {[], ''.'', ''..''} \<and> (follow \<or> cs \<noteq> []) then map_of lk (here @ [c]) else None)"

function resolve_from :: "links \<Rightarrow> bool \<Rightarrow> nat \<Rightarrow> string list \<Rightarrow> string list \<Rightarrow> string list option" where
  "resolve_from lk follow n here [] = Some here"
| "resolve_from lk follow n here (c # cs) =
     (case link_at lk follow here c cs of
        None \<Rightarrow> resolve_from lk follow n (os_step here c) cs
      | Some t \<Rightarrow>
          (if n = 0 then None
           else resolve_from lk follow (n - 1) (if is_absolute t then [] else here) (split_char CHR ''/'' t @ cs)))"
  by pat_completeness auto
termination by (relation "measures [\<lambda>(_, _, n, _, _). n, \<lambda>(_, _, _, _, cs). length cs]") auto

definition resolved :: "bool \<Rightarrow> linked_disk \<Rightarrow> string \<Rightarrow> string list option" where
  "resolved follow d p =
     resolve_from (ld_links d) follow 40 (if is_absolute p then [] else fs_cwd (ld_fs d)) (split_char CHR ''/'' p)"

section \<open>Operations\<close>

datatype disk_error = OsError io_error | FilesystemLoop | AlreadyExists

fun show_disk_error :: "disk_error \<Rightarrow> string" where
  "show_disk_error (OsError e) = show_io_error e"
| "show_disk_error FilesystemLoop = ''Too many levels of symbolic links (os error 40)''"
| "show_disk_error AlreadyExists = ''File exists (os error 17)''"

abbreviation tree :: "linked_disk \<Rightarrow> node" where
  "tree d \<equiv> fs_root (ld_fs d)"

definition with_tree :: "linked_disk \<Rightarrow> node \<Rightarrow> linked_disk" where
  "with_tree d r = d\<lparr>ld_fs := (ld_fs d)\<lparr>fs_root := r\<rparr>\<rparr>"

text \<open>The empty path names nothing.\<close>

definition at_place :: "bool \<Rightarrow> linked_disk \<Rightarrow> string \<Rightarrow> disk_error + string list" where
  "at_place follow d p =
     (if p = [] then Inl (OsError ENotFound)
      else case resolved follow d p of None \<Rightarrow> Inl FilesystemLoop | Some q \<Rightarrow> Inr q)"

definition path_exists :: "linked_disk \<Rightarrow> string \<Rightarrow> bool" where
  "path_exists d p \<longleftrightarrow> (case at_place True d p of Inl e \<Rightarrow> False | Inr q \<Rightarrow> node_at (tree d) q \<noteq> None)"

definition canonicalize :: "linked_disk \<Rightarrow> string \<Rightarrow> disk_error + string" where
  "canonicalize d p =
     (case at_place True d p of
        Inl e \<Rightarrow> Inl e
      | Inr q \<Rightarrow> if node_at (tree d) q \<noteq> None then Inr (path_string True q) else Inl (OsError ENotFound))"

definition read_text :: "linked_disk \<Rightarrow> string \<Rightarrow> string + string" where
  "read_text d p =
     (case at_place True d p of
        Inl e \<Rightarrow> Inl (show_disk_error e)
      | Inr q \<Rightarrow>
          (case node_at (tree d) q of
             None \<Rightarrow> Inl (show_io_error ENotFound)
           | Some (Dir _) \<Rightarrow> Inl (show_io_error EIsADirectory)
           | Some (File s) \<Rightarrow> if valid_utf8 s then Inr s else Inl ''stream did not contain valid UTF-8''))"

definition create_file :: "linked_disk \<Rightarrow> string \<Rightarrow> string \<Rightarrow> disk_error + linked_disk" where
  "create_file d p s =
     (case at_place True d p of
        Inl e \<Rightarrow> Inl e
      | Inr q \<Rightarrow> map_sum OsError (with_tree d) (put_file (tree d) q s))"

text \<open>A link on the way that leads nowhere.\<close>

definition dangling :: "linked_disk \<Rightarrow> string \<Rightarrow> bool" where
  "dangling d p \<longleftrightarrow>
     (let cs = split_char CHR ''/'' p; start = (if is_absolute p then [] else fs_cwd (ld_fs d)) in
      list_ex (\<lambda>k. case resolve_from (ld_links d) False 40 start (take k cs) of
                     None \<Rightarrow> False
                   | Some q \<Rightarrow> q \<in> fst ` set (ld_links d) \<and>
                       (case resolve_from (ld_links d) True 40 start (take k cs) of
                          None \<Rightarrow> True
                        | Some q' \<Rightarrow> node_at (tree d) q' = None))
        [1 ..< Suc (length cs)])"

definition create_dir_all :: "linked_disk \<Rightarrow> string \<Rightarrow> disk_error + linked_disk" where
  "create_dir_all d p =
     (if dangling d p then Inl AlreadyExists
      else case resolved True d p of
             None \<Rightarrow> Inl FilesystemLoop
           | Some q \<Rightarrow> map_sum OsError (with_tree d) (mk_dirs (tree d) q))"

definition drop_link :: "string list \<Rightarrow> links \<Rightarrow> links" where
  "drop_link q lk = filter (\<lambda>l. fst l \<noteq> q) lk"

definition remove_file :: "linked_disk \<Rightarrow> string \<Rightarrow> disk_error + linked_disk" where
  "remove_file d p =
     (case at_place False d p of
        Inl e \<Rightarrow> Inl e
      | Inr q \<Rightarrow>
          (if q \<in> fst ` set (ld_links d) then Inr (d\<lparr>ld_links := drop_link q (ld_links d)\<rparr>)
           else map_sum OsError (with_tree d) (rm_file (tree d) q)))"

text \<open>Renaming a file, or a link: what is at the new place, other than a directory, is replaced.\<close>

definition rename_file :: "node \<Rightarrow> string list \<Rightarrow> string list \<Rightarrow> io_error + node" where
  "rename_file r x y =
     (case file_at r x of
        None \<Rightarrow> Inl ENotFound
      | Some s \<Rightarrow>
          (if x = y then Inr r
           else case put_file r y s of Inl e \<Rightarrow> Inl e | Inr r1 \<Rightarrow> rm_file r1 x))"

definition rename :: "linked_disk \<Rightarrow> string \<Rightarrow> string \<Rightarrow> disk_error + linked_disk" where
  "rename d a b =
     (case at_place False d a of
        Inl e \<Rightarrow> Inl e
      | Inr x \<Rightarrow>
          (case at_place False d b of
             Inl e \<Rightarrow> Inl e
           | Inr y \<Rightarrow>
               (case map_of (ld_links d) x of
                  Some t \<Rightarrow>
                    (if x = y then Inr d
                     else if dir_at (tree d) y then Inl (OsError EIsADirectory)
                     else Inr (d\<lparr>ld_fs := (ld_fs d)\<lparr>fs_root := (case rm_file (tree d) y of Inr r \<Rightarrow> r | Inl _ \<Rightarrow> tree d)\<rparr>,
                                 ld_links := (y, t) # drop_link x (drop_link y (ld_links d))\<rparr>))
                | None \<Rightarrow>
                    map_sum OsError (\<lambda>r. (with_tree d r)\<lparr>ld_links := drop_link y (ld_links d)\<rparr>)
                      (rename_file (tree d) x y))))"

lemma canonicalize_InrD:
  "canonicalize d p = Inr c \<Longrightarrow> \<exists>q. resolved True d p = Some q \<and> c = path_string True q \<and> node_at (tree d) q \<noteq> None"
  by (auto simp: canonicalize_def at_place_def split: sum.splits option.splits if_splits)

section \<open>A disk without links\<close>

definition plain :: "fs \<Rightarrow> linked_disk" where
  "plain f = \<lparr>ld_fs = f, ld_links = []\<rparr>"

lemma plain_sel [simp]: "ld_fs (plain f) = f" "ld_links (plain f) = []"
  by (simp_all add: plain_def)

lemma plain_inject [simp]: "plain f = plain g \<longleftrightarrow> f = g"
  by (simp add: plain_def)

lemma walk_plain [simp]: "resolve_from [] follow n here cs = Some (foldl os_step here cs)"
  by (induction cs arbitrary: here) (simp_all add: link_at_def)

lemma resolved_plain [simp]: "resolved follow (plain f) p = Some (loc f p)"
  by (simp add: resolved_def os_path_def)

lemma at_place_plain [simp]: "at_place follow (plain f) p = (if p = [] then Inl (OsError ENotFound) else Inr (loc f p))"
  by (simp add: at_place_def)

lemma with_tree_plain [simp]: "with_tree (plain f) = (\<lambda>r. plain (f\<lparr>fs_root := r\<rparr>))"
  by (simp add: with_tree_def plain_def fun_eq_iff)

lemma plain_no_links [simp]: "(plain f)\<lparr>ld_links := []\<rparr> = plain f"
  by (simp add: plain_def)

lemma path_exists_plain: "path_exists (plain f) p \<longleftrightarrow> p \<noteq> [] \<and> fs_exists f p"
  by (simp add: path_exists_def fs_exists_def)

lemma canonicalize_plain:
  "canonicalize (plain f) p = (if path_exists (plain f) p then Inr (path_string True (loc f p)) else Inl (OsError ENotFound))"
  by (auto simp: canonicalize_def path_exists_def)

lemma read_text_plain: "p \<noteq> [] \<Longrightarrow> read_text (plain f) p = read_to_string f p"
  by (simp add: read_text_def read_to_string_def)

lemma map_sum_comp: "map_sum f g (map_sum h k x) = map_sum (f \<circ> h) (g \<circ> k) x"
  by (cases x) auto

lemma create_file_plain:
  "create_file (plain f) p s = (if p = [] then Inl (OsError ENotFound) else map_sum OsError plain (fs_write f p s))"
  by (simp add: create_file_def fs_write_def map_sum_comp comp_def id_def)

lemma dangling_plain [simp]: "\<not> dangling (plain f) p"
  by (simp add: dangling_def list_ex_iff)

lemma create_dir_all_plain: "create_dir_all (plain f) p = map_sum OsError plain (fs_create_dir_all f p)"
  by (simp add: create_dir_all_def fs_create_dir_all_def map_sum_comp comp_def id_def)

lemma remove_file_plain:
  "remove_file (plain f) p = (if p = [] then Inl (OsError ENotFound) else map_sum OsError plain (fs_remove_file f p))"
  by (simp add: remove_file_def fs_remove_file_def map_sum_comp comp_def id_def)

lemma rename_plain:
  "a \<noteq> [] \<Longrightarrow> b \<noteq> [] \<Longrightarrow> rename (plain f) a b = map_sum OsError plain (fs_rename f a b)"
  by (cases "file_at (fs_root f) (loc f a)"; cases "put_file (fs_root f) (loc f b) (the (file_at (fs_root f) (loc f a)))")
    (auto simp: rename_def rename_file_def fs_rename_def fs_read_def fs_write_def fs_remove_file_def drop_link_def map_sum_comp comp_def id_def)

lemmas plain_ops = path_exists_plain canonicalize_plain read_text_plain create_file_plain create_dir_all_plain remove_file_plain rename_plain

section \<open>Links that stay below a directory\<close>

text \<open>No link on the way to a place.\<close>

definition link_free_path :: "links \<Rightarrow> string list \<Rightarrow> bool" where
  "link_free_path lk cs \<longleftrightarrow> (\<forall>(x, t) \<in> set lk. x \<noteq> [] \<longrightarrow> \<not> prefix x cs)"

text \<open>No link on the way to a directory, and below it only links with a relative text that climbs, at its beginning, not above
  the directory: \<open>../lib/x\<close> is fine in a subdirectory.\<close>

definition stays_below :: "string list \<Rightarrow> string list \<Rightarrow> string list \<Rightarrow> bool" where
  "stays_below rt here cs \<longleftrightarrow> prefix rt here \<and> ''..'' \<notin> set (dropWhile (\<lambda>c. c = ''..'') cs)
     \<and> length rt + length (takeWhile (\<lambda>c. c = ''..'') cs) \<le> length here"

definition links_stay :: "links \<Rightarrow> string list \<Rightarrow> bool" where
  "links_stay lk rt \<longleftrightarrow> link_free_path lk rt \<and>
     (\<forall>(x, t) \<in> set lk. prefix rt x \<longrightarrow> \<not> is_absolute t \<and> stays_below rt (butlast x) (split_char CHR ''/'' t))"

lemma links_stay_Nil [simp]: "links_stay [] rt"
  by (simp add: links_stay_def link_free_path_def)

lemma link_at_SomeD: "link_at lk follow here c cs = Some t \<Longrightarrow> (here @ [c], t) \<in> set lk"
  by (auto simp: link_at_def dest: map_of_SomeD split: if_splits)

lemma stays_below_noclimb: "''..'' \<notin> set cs \<Longrightarrow> stays_below rt here cs \<longleftrightarrow> prefix rt here"
  by (cases cs) (auto simp: stays_below_def prefix_length_le)

lemma climb_append:
  "''..'' \<notin> set ds \<Longrightarrow> takeWhile (\<lambda>c. c = ''..'') (cs @ ds) = takeWhile (\<lambda>c. c = ''..'') cs \<and>
    dropWhile (\<lambda>c. c = ''..'') (cs @ ds) = dropWhile (\<lambda>c. c = ''..'') cs @ ds"
  by (induction cs) (cases ds; auto)+

lemma stays_below_append: "stays_below rt here cs \<Longrightarrow> ''..'' \<notin> set ds \<Longrightarrow> stays_below rt here (cs @ ds)"
  by (simp add: stays_below_def climb_append)

lemma stays_below_step: "stays_below rt here (c # cs) \<Longrightarrow> stays_below rt (os_step here c) cs"
proof (cases "c = ''..''")
  case True
  assume s: "stays_below rt here (c # cs)"
  with True have "prefix rt here" "length rt < length here" by (auto simp: stays_below_def)
  then have "prefix rt (butlast here)" by (auto simp: prefix_def butlast_append)
  with s True show ?thesis by (auto simp: stays_below_def os_step_def)
next
  case False
  assume "stays_below rt here (c # cs)"
  with False have "''..'' \<notin> set cs" "prefix rt here" by (auto simp: stays_below_def)
  with False show ?thesis by (auto simp: stays_below_noclimb os_step_def)
qed

lemma walk_inside:
  "resolve_from lk follow n here cs = Some q \<Longrightarrow> links_stay lk rt \<Longrightarrow> stays_below rt here cs \<Longrightarrow> prefix rt q"
proof (induction lk follow n here cs arbitrary: q rule: resolve_from.induct)
  case (2 lk follow n here c cs)
  show ?case
  proof (cases "link_at lk follow here c cs")
    case None
    with 2 show ?thesis by (auto intro!: "2.IH"(1) stays_below_step)
  next
    case (Some t)
    then have "c \<noteq> ''..''" by (auto simp: link_at_def)
    with "2.prems"(3) have cs: "''..'' \<notin> set cs" "prefix rt (here @ [c])" by (auto simp: stays_below_def)
    with "2.prems"(2) link_at_SomeD [OF Some] have "\<not> is_absolute t" "stays_below rt here (split_char CHR ''/'' t)"
      by (auto simp: links_stay_def)
    with cs(1) show ?thesis
      by (intro "2.IH"(2) [OF Some]) (use "2.prems" Some in \<open>auto simp: stays_below_append split: if_splits\<close>)
  qed
qed (simp add: stays_below_def)

lemma link_at_free: "link_free_path lk (here @ c # ds) \<Longrightarrow> link_at lk follow here c cs = None"
  by (cases "link_at lk follow here c cs") (auto simp: link_free_path_def dest!: link_at_SomeD)

lemma walk_free:
  "list_all plain_name cs \<Longrightarrow> link_free_path lk (here @ cs) \<Longrightarrow> resolve_from lk follow n here (cs @ ds) = resolve_from lk follow n (here @ cs) ds"
proof (induction cs arbitrary: here)
  case (Cons c cs)
  have "link_at lk follow here c (cs @ ds) = None" using Cons.prems(2) by (rule link_at_free)
  moreover have "os_step here c = here @ [c]" using Cons.prems(1) by (simp add: os_step_def plain_name_def)
  ultimately show ?case using Cons.IH [of "here @ [c]"] Cons.prems by simp
qed simp

lemma resolved_path_string:
  "list_all plain_name cs \<Longrightarrow> resolved follow d (path_string True cs) = resolve_from (ld_links d) follow 40 [] cs"
  by (simp add: resolved_def split_path_string link_at_def os_step_def)

text \<open>A path below the directory leads to a place below it.\<close>

lemma resolved_below:
  assumes "links_stay (ld_links d) rt" "list_all plain_name (rt @ cs)" "resolved follow d (path_string True (rt @ cs)) = Some q"
  shows "prefix rt q"
proof -
  have "resolve_from (ld_links d) follow 40 rt cs = Some q"
    using assms walk_free [of rt "ld_links d" "[]" follow 40 cs] by (simp add: resolved_path_string links_stay_def)
  moreover have "''..'' \<notin> set cs" using assms(2) by (auto simp: plain_name_def list_all_iff)
  ultimately show ?thesis using walk_inside [OF _ assms(1)] by (auto simp: stays_below_noclimb)
qed

lemma resolved_free:
  "list_all plain_name cs \<Longrightarrow> link_free_path (ld_links d) cs \<Longrightarrow> resolved follow d (path_string True cs) = Some cs"
  using walk_free [of cs "ld_links d" "[]" follow 40 "[]"] by (simp add: resolved_path_string)

text \<open>Without following the last component the place found is an entry of the directory before it.\<close>

lemma walk_entry:
  assumes "plain_name c"
  shows "resolve_from lk False n here (cs @ [c]) = map_option (\<lambda>h. h @ [c]) (resolve_from lk True n here cs)"
proof (induction lk True n here cs rule: resolve_from.induct)
  case (1 lk n here)
  then show ?case using assms by (auto simp: link_at_def os_step_def plain_name_def)
next
  case (2 lk n here x xs)
  have "link_at lk False here x (xs @ [c]) = link_at lk True here x xs" by (simp add: link_at_def)
  with 2 show ?case by (auto split: option.splits)
qed

lemma resolved_entry:
  "list_all plain_name (cs @ [c]) \<Longrightarrow>
    resolved False d (path_string True (cs @ [c])) = map_option (\<lambda>h. h @ [c]) (resolved True d (path_string True cs))"
  by (simp add: resolved_path_string walk_entry)

lemma walk_plain_names:
  "resolve_from lk follow n here cs = Some q \<Longrightarrow> list_all plain_name here \<Longrightarrow> \<forall>c \<in> set cs. CHR ''/'' \<notin> set c \<Longrightarrow> list_all plain_name q"
proof (induction lk follow n here cs arbitrary: q rule: resolve_from.induct)
  case (2 lk follow n here c cs)
  show ?case
  proof (cases "link_at lk follow here c cs")
    case None
    with 2 show ?thesis by (auto intro!: "2.IH"(1) os_step_plain)
  next
    case (Some t)
    show ?thesis
      by (rule "2.IH"(2) [OF Some]) (use "2.prems" Some in \<open>auto split: if_splits dest: split_char_no_sep_elem\<close>)
  qed
qed simp

lemma resolved_plain_names: "resolved follow d p = Some q \<Longrightarrow> is_absolute p \<Longrightarrow> list_all plain_name q"
  unfolding resolved_def by (erule walk_plain_names) (auto dest: split_char_no_sep_elem)

text \<open>Where a path leads when every link is followed there is no link any more.\<close>

lemma link_free_Nil [simp]: "link_free_path lk []"
  by (auto simp: link_free_path_def)

lemma link_free_prefix: "link_free_path lk cs \<Longrightarrow> prefix ds cs \<Longrightarrow> link_free_path lk ds"
  unfolding link_free_path_def using prefix_order.trans by blast

lemma link_free_snoc: "link_free_path lk (cs @ [c]) \<longleftrightarrow> link_free_path lk cs \<and> map_of lk (cs @ [c]) = None"
proof -
  have "map_of lk (cs @ [c]) = None \<longleftrightarrow> (\<forall>(x, t) \<in> set lk. x \<noteq> cs @ [c])" by (force simp: map_of_eq_None_iff)
  then show ?thesis unfolding link_free_path_def prefix_snoc by blast
qed

lemma link_free_step: "link_free_path lk here \<Longrightarrow> link_at lk True here c cs = None \<Longrightarrow> link_free_path lk (os_step here c)"
  by (auto simp: os_step_def link_at_def link_free_snoc split: if_splits intro: link_free_prefix prefixeq_butlast)

lemma walk_link_free:
  "resolve_from lk True n here cs = Some q \<Longrightarrow> link_free_path lk here \<Longrightarrow> link_free_path lk q"
proof (induction lk True n here cs arbitrary: q rule: resolve_from.induct)
  case (2 lk n here c cs)
  then show ?case
    by (cases "link_at lk True here c cs") (auto simp: link_free_step split: if_splits)
qed simp

lemma resolved_link_free: "resolved True d p = Some q \<Longrightarrow> is_absolute p \<Longrightarrow> link_free_path (ld_links d) q"
  unfolding resolved_def by (erule walk_link_free) simp

end
