(* ===== verification/Patch_Commit.thy ===== *)
theory Patch_Commit
  imports Patch Links
begin

text \<open>
  The patch engine on the disk: the second half of \<open>sentinel-ai-core/src/apply_patch.rs\<close>. The targets
  of a commit are resolved under the workspace root, all files are rendered, and only then written, each
  through a temporary file and a rename. The nanosecond counter in the names of temporary files is
  the argument \<open>clock\<close>, indexed by the position of the write.
\<close>

section \<open>Paths\<close>

definition normalize_path :: "string \<Rightarrow> string" where
  "normalize_path p = path_string (is_absolute p) (foldl os_step [] (split_char CHR ''/'' p))"

text \<open>\<open>Path::components\<close> of a path without a leading dot, and \<open>Path::starts_with\<close>.\<close>

definition path_components :: "string \<Rightarrow> string list" where
  "path_components p =
     (if is_absolute p then [''/''] else []) @ filter (\<lambda>c. c \<noteq> [] \<and> c \<noteq> ''.'') (split_char CHR ''/'' p)"

definition path_starts_with :: "string \<Rightarrow> string \<Rightarrow> bool" where
  "path_starts_with p q \<longleftrightarrow> prefix (path_components q) (path_components p)"

definition resolve_target :: "linked_disk \<Rightarrow> string \<Rightarrow> string \<Rightarrow> patch_error + string" where
  "resolve_target d workspace_root path =
     (let normalized_root = normalize_path workspace_root;
          normalized = normalize_path (path_join workspace_root path)
      in if \<not> path_starts_with normalized normalized_root then Inl (PathEscape normalized)
         else case canonicalize d workspace_root of
                Inl e \<Rightarrow> Inl (PatchIo (show_disk_error e))
              | Inr abs_root \<Rightarrow>
                  (if path_exists d normalized then
                     (case canonicalize d normalized of
                        Inl e \<Rightarrow> Inl (PatchIo (show_disk_error e))
                      | Inr c \<Rightarrow> if \<not> path_starts_with c abs_root then Inl (PathEscape c) else Inr c)
                   else Inr normalized))"

definition strip_diff_prefix :: "string \<Rightarrow> string" where
  "strip_diff_prefix path =
     (let trimmed = str_trim path in
      if trimmed = ''/dev/null'' then trimmed
      else let stripped = trim_start_matches {CHR ''a'', CHR ''b'', CHR ''x''} trimmed in
           if starts_with stripped ''/'' then trim_start_matches {CHR ''/''} stripped else trimmed)"

section \<open>Commits\<close>

datatype patch_action = Add | Update | Delete | Move

record file_change =
  fc_action :: patch_action
  fc_path :: string
  fc_source :: string
  fc_hunks :: "hunk list"
  fc_content :: "string option"
  fc_fuzz :: fuzz_level

definition file_change_of :: "file_diff \<Rightarrow> file_change" where
  "file_change_of f =
     (let old = strip_diff_prefix (str_trim (old_path f));
          new = strip_diff_prefix (str_trim (new_path f));
          (action, path, source) =
            (if new = ''/dev/null'' then (Delete, old, old)
             else if old = ''/dev/null'' then (Add, new, [])
             else if old \<noteq> new then (Move, new, old)
             else (Update, new, new))
      in \<lparr>fc_action = action, fc_path = path, fc_source = source, fc_hunks = fd_hunks f,
          fc_content = None, fc_fuzz = Exact\<rparr>)"

definition parse_commit :: "string \<Rightarrow> patch_error + file_change list" where
  "parse_commit diff = map_sum id (map file_change_of) (parse_files diff)"

record commit_inputs =
  to_read :: "string list"
  to_add :: "string list"
  to_delete :: "string list"

definition commit_required_inputs :: "file_change list \<Rightarrow> commit_inputs" where
  "commit_required_inputs commit =
     (let pick = (\<lambda>P g. remdups_adj (sort (map g (filter P commit)))) in
      \<lparr>to_read = pick (\<lambda>fc. fc_action fc = Update \<or> fc_action fc = Move) fc_source,
       to_add = pick (\<lambda>fc. fc_action fc = Add) fc_path,
       to_delete = pick (\<lambda>fc. fc_action fc = Delete) fc_source\<rparr>)"

record planned_write =
  pw_target :: string
  pw_content :: "string option"
  pw_rel :: string
  pw_remove_source :: "string option"

definition read_original :: "linked_disk \<Rightarrow> string \<Rightarrow> patch_error + string" where
  "read_original d target =
     (if path_exists d target then map_sum PatchIo id (read_text d target) else Inr [])"

text \<open>Phase 1 for one file: resolve, read and render; nothing is written.\<close>

definition plan_change :: "linked_disk \<Rightarrow> string \<Rightarrow> file_change \<Rightarrow> patch_error + planned_write \<times> file_change" where
  "plan_change d workspace_root fc =
     (if fc_action fc = Delete then
        map_sum id (\<lambda>target. (\<lparr>pw_target = target, pw_content = None, pw_rel = fc_source fc,
                                pw_remove_source = None\<rparr>, fc))
          (resolve_target d workspace_root (fc_source fc))
      else if fc_path fc = [] then Inl (MalformedDiff (EmptyTarget (fc_source fc)))
      else case resolve_target d workspace_root (fc_path fc) of
             Inl e \<Rightarrow> Inl e
           | Inr target \<Rightarrow>
               (let src_rel = (if fc_action fc = Move then fc_source fc else fc_path fc) in
                case resolve_target d workspace_root src_rel of
                  Inl e \<Rightarrow> Inl e
                | Inr src_target \<Rightarrow>
                    (case read_original d src_target of
                       Inl e \<Rightarrow> Inl e
                     | Inr original \<Rightarrow>
                         (case apply_hunks (split_lines_keep_endings original) (fc_hunks fc) (fc_fuzz fc) of
                            Inl e \<Rightarrow> Inl e
                          | Inr (text, fuzz) \<Rightarrow>
                              Inr (\<lparr>pw_target = target, pw_content = Some text, pw_rel = fc_path fc,
                                    pw_remove_source = (if fc_action fc = Move \<and> target \<noteq> src_target
                                                        then Some src_target else None)\<rparr>,
                                   fc\<lparr>fc_fuzz := fuzz, fc_content := Some text\<rparr>)))))"

fun plan_commit ::
    "linked_disk \<Rightarrow> string \<Rightarrow> file_change list \<Rightarrow> patch_error + planned_write list \<times> file_change list" where
  "plan_commit d workspace_root [] = Inr ([], [])"
| "plan_commit d workspace_root (fc # fcs) =
     (case plan_change d workspace_root fc of
        Inl e \<Rightarrow> Inl e
      | Inr (w, fc') \<Rightarrow>
          map_sum id (\<lambda>(ws, fcs'). (w # ws, fc' # fcs')) (plan_commit d workspace_root fcs))"

text \<open>\<open>Path::with_extension\<close>.\<close>

definition file_stem :: "string \<Rightarrow> string" where
  "file_stem c = (case name_extension c of None \<Rightarrow> c | Some e \<Rightarrow> take (length c - length e - 1) c)"

definition with_extension :: "string \<Rightarrow> string \<Rightarrow> string" where
  "with_extension p ext =
     (case file_name p of
        None \<Rightarrow> p
      | Some c \<Rightarrow> path_join (case path_parent p of Some d \<Rightarrow> d | None \<Rightarrow> []) (file_stem c @ ''.'' @ ext))"

definition tmp_path :: "string \<Rightarrow> nat \<Rightarrow> string" where
  "tmp_path target nanos = with_extension target (''patch_'' @ show_nat nanos @ ''.tmp'')"

text \<open>Write a temporary file next to the target and rename it; on a failed rename the temporary
  file is removed if that works.\<close>

definition write_atomic :: "nat \<Rightarrow> linked_disk \<Rightarrow> string \<Rightarrow> string \<Rightarrow> (disk_error + unit) \<times> linked_disk" where
  "write_atomic nanos d target text =
     (case create_dir_all d (case path_parent target of Some p \<Rightarrow> p | None \<Rightarrow> ''.'') of
        Inl e \<Rightarrow> (Inl e, d)
      | Inr d1 \<Rightarrow>
          (let tmp = tmp_path target nanos in
           case create_file d1 tmp text of
             Inl e \<Rightarrow> (Inl e, d1)
           | Inr d2 \<Rightarrow>
               (case rename d2 tmp target of
                  Inl e \<Rightarrow> (Inl e, case remove_file d2 tmp of Inr d3 \<Rightarrow> d3 | Inl _ \<Rightarrow> d2)
                | Inr d3 \<Rightarrow> (Inr (), d3))))"

definition remove_existing :: "linked_disk \<Rightarrow> string \<Rightarrow> (disk_error + unit) \<times> linked_disk" where
  "remove_existing d p =
     (if path_exists d p then
        (case remove_file d p of Inl e \<Rightarrow> (Inl e, d) | Inr d' \<Rightarrow> (Inr (), d'))
      else (Inr (), d))"

text \<open>Phase 2 for one planned write.\<close>

definition commit_write :: "nat \<Rightarrow> linked_disk \<Rightarrow> planned_write \<Rightarrow> (disk_error + unit) \<times> linked_disk" where
  "commit_write nanos d w =
     (case (case pw_content w of
              None \<Rightarrow> remove_existing d (pw_target w)
            | Some text \<Rightarrow> write_atomic nanos d (pw_target w) text) of
        (Inl e, d1) \<Rightarrow> (Inl e, d1)
      | (Inr _, d1) \<Rightarrow>
          (case pw_remove_source w of
             None \<Rightarrow> (Inr (), d1)
           | Some src \<Rightarrow> remove_existing d1 src))"

fun commit_plan :: "(nat \<Rightarrow> nat) \<Rightarrow> nat \<Rightarrow> linked_disk \<Rightarrow> planned_write list \<Rightarrow> (patch_error + string list) \<times> linked_disk" where
  "commit_plan clock k d [] = (Inr [], d)"
| "commit_plan clock k d (w # ws) =
     (case commit_write (clock k) d w of
        (Inl e, d1) \<Rightarrow> (Inl (PatchIo (show_disk_error e)), d1)
      | (Inr _, d1) \<Rightarrow>
          (case commit_plan clock (k + 1) d1 ws of
             (Inl e, d2) \<Rightarrow> (Inl e, d2)
           | (Inr rels, d2) \<Rightarrow> (Inr (pw_rel w # rels), d2)))"

record apply_outcome =
  ao_files :: "string list"
  ao_fuzz :: fuzz_level

text \<open>The fuzz of a file is raised into the total only where its hunks are applied, not for a deletion.\<close>

definition max_fuzz :: "file_change list \<Rightarrow> fuzz_level" where
  "max_fuzz commit = fold (\<lambda>fc m. if fc_action fc = Delete then m else raise_fuzz m (fc_fuzz fc)) commit Exact"

definition apply_commit ::
    "(nat \<Rightarrow> nat) \<Rightarrow> linked_disk \<Rightarrow> string \<Rightarrow> file_change list \<Rightarrow> (patch_error + apply_outcome) \<times> linked_disk" where
  "apply_commit clock d workspace_root commit =
     (case plan_commit d workspace_root commit of
        Inl e \<Rightarrow> (Inl e, d)
      | Inr (plan, commit') \<Rightarrow>
          (case commit_plan clock 0 d plan of
             (Inl e, d') \<Rightarrow> (Inl e, d')
           | (Inr rels, d') \<Rightarrow> (Inr \<lparr>ao_files = rels, ao_fuzz = max_fuzz commit'\<rparr>, d')))"

definition validate_change :: "linked_disk \<Rightarrow> string \<Rightarrow> file_change \<Rightarrow> patch_error + fuzz_level" where
  "validate_change d workspace_root fc =
     (if fc_action fc = Delete then Inr Exact
      else case resolve_target d workspace_root (if fc_action fc = Move then fc_source fc else fc_path fc) of
             Inl e \<Rightarrow> Inl e
           | Inr target \<Rightarrow>
               (case read_original d target of
                  Inl e \<Rightarrow> Inl e
                | Inr original \<Rightarrow> map_sum id snd (get_updated_file original (fc_hunks fc))))"

fun validate_commit :: "linked_disk \<Rightarrow> string \<Rightarrow> file_change list \<Rightarrow> fuzz_level \<Rightarrow> patch_error + fuzz_level" where
  "validate_commit d workspace_root [] m = Inr m"
| "validate_commit d workspace_root (fc # fcs) m =
     (case validate_change d workspace_root fc of
        Inl e \<Rightarrow> Inl e
      | Inr fuzz \<Rightarrow> validate_commit d workspace_root fcs (raise_fuzz m fuzz))"

definition validate_patch :: "linked_disk \<Rightarrow> string \<Rightarrow> string \<Rightarrow> patch_error + fuzz_level" where
  "validate_patch d workspace_root diff =
     (case parse_commit diff of Inl e \<Rightarrow> Inl e | Inr commit \<Rightarrow> validate_commit d workspace_root commit Exact)"

definition validate_patch_strict :: "linked_disk \<Rightarrow> string \<Rightarrow> string \<Rightarrow> patch_error + fuzz_level" where
  "validate_patch_strict d workspace_root diff =
     (case validate_patch d workspace_root diff of
        Inl e \<Rightarrow> Inl e
      | Inr fuzz \<Rightarrow> if fuzz \<noteq> Exact then Inl (FuzzyValidation (level fuzz)) else Inr fuzz)"

definition process_patch ::
    "(nat \<Rightarrow> nat) \<Rightarrow> linked_disk \<Rightarrow> string \<Rightarrow> string \<Rightarrow> (patch_error + apply_outcome) \<times> linked_disk" where
  "process_patch clock d workspace_root diff =
     (case parse_commit diff of Inl e \<Rightarrow> (Inl e, d) | Inr commit \<Rightarrow> apply_commit clock d workspace_root commit)"

definition apply_patch_multi ::
    "(nat \<Rightarrow> nat) \<Rightarrow> linked_disk \<Rightarrow> string \<Rightarrow> string \<Rightarrow> (patch_error + string list) \<times> linked_disk" where
  "apply_patch_multi clock d workspace_root diff =
     map_prod (map_sum id ao_files) id (process_patch clock d workspace_root diff)"

definition apply_patch :: "nat \<Rightarrow> linked_disk \<Rightarrow> string \<Rightarrow> string \<Rightarrow> string \<Rightarrow> (patch_error + unit) \<times> linked_disk" where
  "apply_patch nanos d workspace_root path patch =
     (case single_file_hunks patch of
        Inl e \<Rightarrow> (Inl e, d)
      | Inr hunks \<Rightarrow>
          (case resolve_target d workspace_root path of
             Inl e \<Rightarrow> (Inl e, d)
           | Inr target \<Rightarrow>
               (case read_original d target of
                  Inl e \<Rightarrow> (Inl e, d)
                | Inr original \<Rightarrow>
                    (case apply_hunks (split_lines_keep_endings original) hunks Exact of
                       Inl e \<Rightarrow> (Inl e, d)
                     | Inr (text, fuzz) \<Rightarrow>
                         map_prod (map_sum (\<lambda>e. PatchIo (show_disk_error e)) id) id
                           (write_atomic nanos d target text)))))"

section \<open>Validation and the two phases\<close>

lemma map_sum_eq_Inr: "map_sum g h x = Inr y \<longleftrightarrow> (\<exists>z. x = Inr z \<and> y = h z)"
  by (cases x) auto

lemma plan_change_validate:
  assumes "plan_change f r fc = Inr (w, fc')" "fc_fuzz fc = Exact"
  shows "fc_action fc' = fc_action fc \<and>
    validate_change f r fc = Inr (if fc_action fc = Delete then Exact else fc_fuzz fc')"
  using assms
  by (auto simp: plan_change_def validate_change_def get_updated_file_def map_sum_eq_Inr Let_def
      split: if_splits sum.splits)

lemma plan_commit_validate:
  assumes "plan_commit f r fcs = Inr (ws, fcs')" "list_all (\<lambda>fc. fc_fuzz fc = Exact) fcs"
  shows "validate_commit f r fcs m
    = Inr (fold (\<lambda>fc m. if fc_action fc = Delete then m else raise_fuzz m (fc_fuzz fc)) fcs' m)"
  using assms
proof (induction fcs arbitrary: ws fcs' m)
  case (Cons fc fcs)
  then obtain w fc' ws' fcs'' where p: "plan_change f r fc = Inr (w, fc')" "plan_commit f r fcs = Inr (ws', fcs'')"
    "fcs' = fc' # fcs''" by (auto simp: map_sum_eq_Inr split: sum.splits)
  have "fc_fuzz fc = Exact" using Cons.prems(2) by simp
  from plan_change_validate [OF p(1) this] Cons.IH [OF p(2)] Cons.prems(2) p(3) show ?case by simp
qed simp

lemma parse_commit_exact: "parse_commit diff = Inr fcs \<Longrightarrow> list_all (\<lambda>fc. fc_fuzz fc = Exact) fcs"
  by (cases "parse_files diff") (auto simp: parse_commit_def list_all_iff file_change_of_def Let_def)

text \<open>The dry run predicts the real one: whenever a patch is applied, validating it beforehand
  succeeds and reports the same fuzz level; and a failure other than an I/O error leaves the file
  system as it was.\<close>

theorem process_patch_validated:
  assumes "process_patch clock f r diff = (res, f')"
  shows "case res of
      Inr done_ \<Rightarrow> validate_patch f r diff = Inr (ao_fuzz done_)
    | Inl (PatchIo _) \<Rightarrow> True
    | Inl _ \<Rightarrow> f' = f"
proof (cases "parse_commit diff")
  case (Inl e)
  with assms show ?thesis by (auto simp: process_patch_def split: patch_error.splits)
next
  case (Inr fcs)
  show ?thesis
  proof (cases "plan_commit f r fcs")
    case Inl
    with Inr assms show ?thesis by (auto simp: process_patch_def apply_commit_def split: patch_error.splits)
  next
    case p: (Inr pl)
    then obtain ws fcs' where p': "plan_commit f r fcs = Inr (ws, fcs')" by (cases pl) auto
    have io: "commit_plan clock k g ws = (Inl e, g') \<Longrightarrow> \<exists>m. e = PatchIo m" for k g e g'
      by (induction ws arbitrary: k g) (auto split: prod.splits sum.splits)
    from plan_commit_validate [OF p' parse_commit_exact [OF Inr], of Exact] Inr p' assms io show ?thesis
      by (auto simp: process_patch_def apply_commit_def validate_patch_def max_fuzz_def
          split: prod.splits sum.splits patch_error.splits)
  qed
qed

definition ex_fs :: fs where
  "ex_fs = \<lparr>fs_root = Dir [(''w'', Dir [(''f'', File (''x'' @ LF))]), (''z'', File ''q'')], fs_cwd = []\<rparr>"

definition ex_diff :: string where
  "ex_diff = ''--- a/f'' @ LF @ ''+++ b/f'' @ LF @ ''@@ -1 +1 @@'' @ LF @ ''-x'' @ LF @ ''+y'' @ LF"

lemma ex_lines: "str_lines ex_diff = [''--- a/f'', ''+++ b/f'', ''@@ -1 +1 @@'', ''-x'', ''+y'']"
  by (simp add: ex_diff_def str_lines_def split_lf.simps strip_cr_def Let_def)

lemma ex_files: "parse_files ex_diff =
    Inr [\<lparr>old_path = ''a/f'', new_path = ''b/f'', fd_hunks = [\<lparr>orig_start = 1, hunk_lines = [HRemoved ''x'', HAdded ''y''], diff_line = 3\<rparr>]\<rparr>]"
  by (simp add: parse_files_def ex_lines text_defs flush_def set_new_path_def push_body_def push_line_def classify_line_def
     parse_hunk_header_def parse_unsigned_def digit_val_def Let_def)

definition ex_change :: file_change where
  "ex_change = \<lparr>fc_action = Update, fc_path = ''f'', fc_source = ''f'',
     fc_hunks = [\<lparr>orig_start = 1, hunk_lines = [HRemoved ''x'', HAdded ''y''], diff_line = 3\<rparr>],
     fc_content = None, fc_fuzz = Exact\<rparr>"

lemma ex_commit: "parse_commit ex_diff = Inr [ex_change]"
  by (simp add: parse_commit_def ex_files ex_change_def file_change_of_def strip_diff_prefix_def text_defs Let_def)

lemmas path_defs = path_join_def ends_with_def is_absolute_def os_path_def os_step_def normalize_path_def path_string_def
   path_components_def path_starts_with_def plain_ops fs_exists_def starts_with_def

lemma ex_resolve: "resolve_target (plain ex_fs) ''/w'' ''f'' = Inr ''/w/f''"
  by (simp add: resolve_target_def path_defs ex_fs_def Let_def)

lemma ex_plan:
  "plan_commit (plain ex_fs) ''/w'' [ex_change] =
     Inr ([\<lparr>pw_target = ''/w/f'', pw_content = Some (''y'' @ LF), pw_rel = ''f'', pw_remove_source = None\<rparr>],
       [ex_change\<lparr>fc_content := Some (''y'' @ LF)\<rparr>])"
  by (simp add: plan_change_def ex_change_def ex_resolve read_original_def read_to_string_def path_defs Let_def)
    (simp add: ex_fs_def valid_utf8_def split_lines_keep_endings.simps Let_def apply_hunks_def locate_hunk_def
      hunk_anchor_len_def try_at_def hunk_anchors_level_def match_defs)

lemma show_seven: "show_nat 7 = ''7''"
  by code_simp

lemma ex_process:
  "process_patch (\<lambda>_. 7) (plain ex_fs) ''/w'' ex_diff =
     (Inr \<lparr>ao_files = [''f''], ao_fuzz = Exact\<rparr>,
      plain \<lparr>fs_root = Dir [(''w'', Dir [(''f'', File (''y'' @ LF))]), (''z'', File ''q'')], fs_cwd = []\<rparr>)"
  by (simp add: process_patch_def ex_commit apply_commit_def ex_plan max_fuzz_def del: plan_commit.simps)
    (simp add: ex_change_def commit_write_def write_atomic_def path_parent_def trim_slashes_def tmp_path_def with_extension_def
      file_name_def file_stem_def name_extension_def show_seven max_fuzz_def fs_rename_def
      fs_create_dir_all_def fs_write_def fs_remove_file_def fs_read_def file_at_def path_defs ex_fs_def Let_def)

theorem process_patch_validated_witness:
  "validate_patch (plain ex_fs) ''/w'' ex_diff = Inr Exact"
  using process_patch_validated [OF ex_process] by simp

section \<open>Confinement\<close>

lemma path_components_string: "list_all plain_name cs \<Longrightarrow> path_components (path_string True cs) = ''/'' # cs"
proof -
  assume cs: "list_all plain_name cs"
  then have "filter (\<lambda>c. c \<noteq> [] \<and> c \<noteq> ''.'') cs = cs"
    by (auto simp: filter_id_conv list_all_iff plain_name_def)
  then show ?thesis by (simp add: path_components_def split_path_string [OF cs])
qed

lemma path_starts_with_string:
  "list_all plain_name ps \<Longrightarrow> list_all plain_name qs \<Longrightarrow> path_starts_with (path_string True ps) (path_string True qs) \<longleftrightarrow> prefix qs ps"
  by (simp add: path_starts_with_def path_components_string)

lemma normalize_absolute: "is_absolute p \<Longrightarrow> normalize_path p = path_string True (os_path cwd p)"
  by (simp add: normalize_path_def os_path_def)

lemma is_absolute_join: "is_absolute d \<Longrightarrow> is_absolute (path_join d p)"
  by (cases d) (auto simp: path_join_def)

text \<open>The two stages of the check below an absolute root. Whatever links there are, an existing target is taken at its canonical place,
  which lies below the canonical root; a target that does not exist yet is taken by its name.\<close>

lemma resolve_target_cases:
  assumes "is_absolute r" "resolve_target d r p = Inr t"
  defines "q \<equiv> os_path [] (path_join r p)"
  shows "prefix (os_path [] r) q \<and> list_all plain_name q \<and>
    (if path_exists d (path_string True q)
     then \<exists>rt c. resolved True d r = Some rt \<and> resolved True d (path_string True q) = Some c \<and> prefix rt c \<and> t = path_string True c
     else t = path_string True q)"
proof -
  have ab: "is_absolute (path_join r p)" using assms(1) by (rule is_absolute_join)
  have pl: "list_all plain_name (os_path [] r)" "list_all plain_name q"
    using assms(1) ab by (simp_all add: os_path_plain q_def)
  have n: "normalize_path r = path_string True (os_path [] r)" "normalize_path (path_join r p) = path_string True q"
    using assms(1) ab by (simp_all add: normalize_absolute q_def)
  have "prefix (os_path [] r) q"
    using assms(2) pl by (auto simp: resolve_target_def Let_def n path_starts_with_string split: if_splits)
  moreover have "t = path_string True q" if "\<not> path_exists d (path_string True q)"
    using assms(2) that by (auto simp: resolve_target_def Let_def n split: if_splits sum.splits)
  moreover have "\<exists>rt c. resolved True d r = Some rt \<and> resolved True d (path_string True q) = Some c \<and> prefix rt c \<and> t = path_string True c"
    if ex: "path_exists d (path_string True q)"
  proof -
    from assms(2) ex obtain ar where "canonicalize d r = Inr ar" "canonicalize d (path_string True q) = Inr t" "path_starts_with t ar"
      by (auto simp: resolve_target_def Let_def n split: if_splits sum.splits)
    then obtain rt c where c: "resolved True d r = Some rt" "resolved True d (path_string True q) = Some c"
      "ar = path_string True rt" "t = path_string True c" "path_starts_with (path_string True c) (path_string True rt)"
      by (auto dest!: canonicalize_InrD)
    with resolved_plain_names [OF c(1) assms(1)] resolved_plain_names [OF c(2)] show ?thesis by (simp add: path_starts_with_string)
  qed
  ultimately show ?thesis using pl by simp
qed

text \<open>A target is the normal form of a place at or below the root.\<close>

definition target_ok :: "string list \<Rightarrow> string \<Rightarrow> bool" where
  "target_ok rt t \<longleftrightarrow> (\<exists>cs. list_all plain_name (rt @ cs) \<and> t = path_string True (rt @ cs))"

lemma target_okI: "list_all plain_name q \<Longrightarrow> prefix rt q \<Longrightarrow> target_ok rt (path_string True q)"
  by (auto simp: target_ok_def prefix_def)

lemma resolve_target_ok:
  assumes "is_absolute r" "links_stay (ld_links d) (os_path [] r)" "resolve_target d r p = Inr t"
  shows "target_ok (os_path [] r) t"
proof -
  let ?q = "os_path [] (path_join r p)"
  note c = resolve_target_cases [OF assms(1,3)]
  show ?thesis
  proof (cases "path_exists d (path_string True ?q)")
    case False
    with c show ?thesis by (simp add: target_okI)
  next
    case True
    with c obtain e where e: "resolved True d (path_string True ?q) = Some e" "t = path_string True e" by auto
    obtain cs where "?q = os_path [] r @ cs" using c by (auto simp: prefix_def)
    with e(1) c assms(2) have "prefix (os_path [] r) e" by (auto intro: resolved_below)
    with e resolved_plain_names [OF e(1)] show ?thesis by (simp add: target_okI)
  qed
qed

text \<open>The temporary file is a sibling of its target.\<close>

definition tmp_name :: "string \<Rightarrow> nat \<Rightarrow> string" where
  "tmp_name c n = file_stem c @ ''.patch_'' @ show_nat n @ ''.tmp''"

lemma tmp_name_plain: "plain_name (tmp_name c n)" if "plain_name c"
proof -
  have "CHR ''/'' \<notin> set (show_nat n)" using show_nat_digits [of "CHR ''/''" n] by auto
  moreover have "set (file_stem c) \<subseteq> set c"
    by (auto simp: file_stem_def split: option.splits dest: in_set_takeD)
  ultimately show ?thesis using that by (auto simp: plain_name_def tmp_name_def)
qed

lemma tmp_path_string:
  assumes "list_all plain_name (cs @ [c])"
  shows "tmp_path (path_string True (cs @ [c])) n = path_string True (cs @ [tmp_name c n])"
proof -
  let ?p = "path_string True (cs @ [c])"
  have c: "plain_name c" using assms by simp
  have "file_name ?p = Some c"
    using c assms by (simp add: file_name_def split_path_string plain_name_def)
  then show ?thesis
    using path_parent_string [OF assms] path_string_snoc [of cs "tmp_name c n"] assms tmp_name_plain [OF c]
    by (simp add: tmp_path_def with_extension_def tmp_name_def)
qed

text \<open>What phase 2 may do to a file system, seen from the root: outside the root nothing changes, except
  that a file in the place of the root's own temporary file may be lost.\<close>

definition root_tmp :: "string list \<Rightarrow> (nat \<Rightarrow> nat) \<Rightarrow> string list \<Rightarrow> bool" where
  "root_tmp rt clock q \<longleftrightarrow> (\<exists>k. q = os_path [] (tmp_path (path_string True rt) (clock k)))"

definition safe_links :: "string list \<Rightarrow> (nat \<Rightarrow> nat) \<Rightarrow> links \<Rightarrow> bool" where
  "safe_links rt clock lk \<longleftrightarrow> links_stay lk rt \<and> (\<forall>(x, t) \<in> set lk. \<not> root_tmp rt clock x)"

definition inside_only :: "string list \<Rightarrow> (nat \<Rightarrow> nat) \<Rightarrow> linked_disk \<Rightarrow> linked_disk \<Rightarrow> bool" where
  "inside_only rt clock d d' \<longleftrightarrow> (safe_links rt clock (ld_links d) \<longrightarrow> safe_links rt clock (ld_links d')) \<and>
     (\<forall>q. \<not> prefix rt q \<longrightarrow> map_of (ld_links d') q = map_of (ld_links d) q \<and>
       (fs_files (ld_fs d') q = fs_files (ld_fs d) q \<or> fs_files (ld_fs d') q = None \<and> root_tmp rt clock q))"

lemma inside_only_refl [simp]: "inside_only rt clock d d"
  by (simp add: inside_only_def)

lemma inside_only_trans [trans]:
  "inside_only rt clock d d1 \<Longrightarrow> inside_only rt clock d1 d2 \<Longrightarrow> inside_only rt clock d d2"
  unfolding inside_only_def by metis

lemma inside_onlyI:
  assumes "ld_links d' = ld_links d"
    and "\<And>q. \<not> prefix rt q \<Longrightarrow> fs_files (ld_fs d') q = fs_files (ld_fs d) q \<or> fs_files (ld_fs d') q = None \<and> root_tmp rt clock q"
  shows "inside_only rt clock d d'"
  using assms by (simp add: inside_only_def)

lemma map_of_drop_link: "map_of (drop_link x lk) q = (if q = x then None else map_of lk q)"
  by (induction lk) (auto simp: drop_link_def)

lemma safe_links_subset: "safe_links rt clock lk \<Longrightarrow> set lk' \<subseteq> set lk \<Longrightarrow> safe_links rt clock lk'"
  unfolding safe_links_def links_stay_def link_free_path_def by blast

lemma set_drop_link: "set (drop_link x lk) \<subseteq> set lk"
  by (auto simp: drop_link_def)

lemma safe_links_drop: "safe_links rt clock lk \<Longrightarrow> safe_links rt clock (drop_link x lk)"
  using safe_links_subset set_drop_link by blast

lemma root_tmp_at:
  assumes "root_tmp rt clock q" "list_all plain_name rt" "rt \<noteq> []"
  obtains k where "q = butlast rt @ [tmp_name (last rt) (clock k)]"
proof -
  obtain ds d where rt: "rt = ds @ [d]" using assms(3) by (cases rt rule: rev_cases) auto
  from assms(1) obtain k where "q = os_path [] (tmp_path (path_string True rt) (clock k))" by (auto simp: root_tmp_def)
  with assms(2) rt tmp_name_plain that show ?thesis by (simp add: tmp_path_string)
qed

lemma root_tmp_outside: "root_tmp rt clock q \<Longrightarrow> list_all plain_name rt \<Longrightarrow> rt \<noteq> [] \<Longrightarrow> prefix rt q \<Longrightarrow> q = rt"
  by (erule root_tmp_at) (auto simp: prefix_def, metis (no_types) append_butlast_last_id append_eq_append_conv butlast_snoc length_append_singleton self_append_conv)

lemma create_dir_all_files:
  "create_dir_all d p = Inr d' \<Longrightarrow> fs_files (ld_fs d') = fs_files (ld_fs d) \<and> ld_links d' = ld_links d"
  by (auto simp: create_dir_all_def map_sum_eq_Inr with_tree_def fs_files_def dest: file_at_mk_dirs split: if_splits option.splits)

lemma create_dir_all_inside: "create_dir_all d p = Inr d' \<Longrightarrow> inside_only rt clock d d'"
  by (drule create_dir_all_files) (auto intro: inside_onlyI)

lemma create_file_files:
  assumes "create_file d p s = Inr d'"
  obtains q where "resolved True d p = Some q" "fs_files (ld_fs d') = (fs_files (ld_fs d))(q \<mapsto> s)" "ld_links d' = ld_links d"
    "fs_cwd (ld_fs d') = fs_cwd (ld_fs d)"
  using assms that
  by (auto simp: create_file_def at_place_def map_sum_eq_Inr with_tree_def fs_files_def dest: file_at_put_file
      split: if_splits option.splits)

lemma create_file_inside:
  assumes "create_file d p s = Inr d'" "\<And>q. resolved True d p = Some q \<Longrightarrow> prefix rt q"
  shows "inside_only rt clock d d'"
proof (rule create_file_files [OF assms(1)])
  fix q assume "resolved True d p = Some q" "fs_files (ld_fs d') = (fs_files (ld_fs d))(q \<mapsto> s)" "ld_links d' = ld_links d"
  with assms(2) show ?thesis by (auto intro!: inside_onlyI split: if_splits)
qed

lemma remove_file_inside:
  assumes "remove_file d p = Inr d'" "\<And>q. resolved False d p = Some q \<Longrightarrow> prefix rt q"
  shows "inside_only rt clock d d'"
proof -
  obtain q where q: "at_place False d p = Inr q" using assms(1) by (auto simp: remove_file_def split: sum.splits)
  then have "prefix rt q" using assms(2) by (auto simp: at_place_def split: if_splits option.splits)
  with assms(1) q show ?thesis
    by (auto simp: remove_file_def map_sum_eq_Inr with_tree_def fs_files_def inside_only_def map_of_drop_link safe_links_drop
        dest!: file_at_rm_file split: if_splits)
qed

lemma rename_file_files:
  assumes "rename_file r x y = Inr r'"
  obtains s where "file_at r x = Some s" "file_at r' = (if x = y then file_at r else (file_at r)(y \<mapsto> s, x := None))"
  using assms that
  by (auto simp: rename_file_def dest!: file_at_put_file file_at_rm_file split: option.splits if_splits sum.splits)

text \<open>A link that is moved below the root stays as harmless as it was.\<close>

lemma safe_links_move:
  assumes "safe_links rt clock lk" "(h @ [a], t) \<in> set lk" "prefix rt h" "list_all plain_name rt" "rt \<noteq> []"
  shows "safe_links rt clock ((h @ [b], t) # drop_link x (drop_link y lk))"
proof -
  have "safe_links rt clock (drop_link x (drop_link y lk))" using assms(1) by (simp add: safe_links_drop)
  moreover have "\<not> prefix (h @ [b]) rt" using assms(3) by (auto simp: prefix_def)
  moreover have "\<not> root_tmp rt clock (h @ [b])"
    using root_tmp_outside [of rt clock "h @ [b]"] assms(3-5) by (auto simp: prefix_def)
  moreover have "\<not> is_absolute t" "stays_below rt h (split_char CHR ''/'' t)"
    using assms(1-3) by (auto simp: safe_links_def links_stay_def)
  ultimately show ?thesis by (auto simp: safe_links_def links_stay_def link_free_path_def)
qed

lemma rename_inside:
  assumes "rename d a b = Inr d'" "list_all plain_name rt" "rt \<noteq> []"
    and "\<And>x y. resolved False d a = Some x \<Longrightarrow> resolved False d b = Some y \<Longrightarrow>
      \<exists>h v w. x = h @ [v] \<and> y = h @ [w] \<and> prefix rt h"
  shows "inside_only rt clock d d'"
proof -
  obtain x y where xy: "at_place False d a = Inr x" "at_place False d b = Inr y"
    using assms(1) by (auto simp: rename_def split: sum.splits)
  then obtain h v w where h: "x = h @ [v]" "y = h @ [w]" "prefix rt h"
    using assms(4) [of x y] by (auto simp: at_place_def split: if_splits option.splits)
  then have p: "prefix rt x" "prefix rt y" by simp_all
  show ?thesis
  proof (cases "map_of (ld_links d) x")
    case None
    with assms(1) xy obtain r where r: "rename_file (tree d) x y = Inr r"
      and d': "d' = (with_tree d r)\<lparr>ld_links := drop_link y (ld_links d)\<rparr>" by (auto simp: rename_def map_sum_eq_Inr)
    from r obtain s where "file_at r = (if x = y then file_at (tree d) else (file_at (tree d))(y \<mapsto> s, x := None))"
      by (rule rename_file_files)
    with p d' show ?thesis
      by (auto simp: inside_only_def with_tree_def fs_files_def map_of_drop_link safe_links_drop)
  next
    case (Some t)
    show ?thesis
    proof (cases "x = y")
      case False
      with assms(1) xy Some have d': "d' = d\<lparr>ld_fs := (ld_fs d)\<lparr>fs_root := (case rm_file (tree d) y of Inr r \<Rightarrow> r | Inl _ \<Rightarrow> tree d)\<rparr>,
          ld_links := (y, t) # drop_link x (drop_link y (ld_links d))\<rparr>" by (auto simp: rename_def split: if_splits)
      have "file_at (case rm_file (tree d) y of Inr r \<Rightarrow> r | Inl _ \<Rightarrow> tree d) q = file_at (tree d) q" if "\<not> prefix rt q" for q
        using that p(2) file_at_rm_file [of "tree d" y] by (cases "rm_file (tree d) y") auto
      moreover have "safe_links rt clock (ld_links d')" if "safe_links rt clock (ld_links d)"
        using safe_links_move [OF that _ h(3) assms(2,3)] map_of_SomeD [OF Some] h d' by simp
      ultimately show ?thesis using p d' by (auto simp: inside_only_def fs_files_def map_of_drop_link)
    qed (use assms(1) xy Some in \<open>simp add: rename_def\<close>)
  qed
qed

lemma target_below:
  "safe_links rt clock (ld_links d) \<Longrightarrow> target_ok rt t \<Longrightarrow> resolved follow d t = Some q \<Longrightarrow> prefix rt q"
  by (auto simp: target_ok_def safe_links_def dest: resolved_below)

lemma remove_existing_inside:
  assumes "remove_existing d t = (r, d')" "target_ok rt t" "safe_links rt clock (ld_links d)"
  shows "inside_only rt clock d d'"
proof (cases "d' = d")
  case False
  with assms(1) have "remove_file d t = Inr d'" by (auto simp: remove_existing_def split: if_splits sum.splits)
  with assms(2,3) target_below show ?thesis by (blast intro: remove_file_inside)
qed simp

lemma write_atomic_cases:
  assumes "write_atomic nanos d t text = (r, d')"
  obtains (unchanged) "d' = d"
  | (dir) p where "create_dir_all d p = Inr d'"
  | (renamed) p d1 d2 where "create_dir_all d p = Inr d1" "create_file d1 (tmp_path t nanos) text = Inr d2"
      "rename d2 (tmp_path t nanos) t = Inr d'"
  | (removed) p d1 d2 where "create_dir_all d p = Inr d1" "create_file d1 (tmp_path t nanos) text = Inr d2"
      "d' = (case remove_file d2 (tmp_path t nanos) of Inr d3 \<Rightarrow> d3 | Inl _ \<Rightarrow> d2)"
  using assms by (auto simp: write_atomic_def Let_def split: sum.splits)

lemma inside_only_safe: "inside_only rt clock d d' \<Longrightarrow> safe_links rt clock (ld_links d) \<Longrightarrow> safe_links rt clock (ld_links d')"
  by (simp add: inside_only_def)

text \<open>The file operations of an atomic write, when the target is a proper descendant of the root.\<close>

lemma write_below_inside:
  assumes "write_atomic nanos d t text = (r, d')" "safe_links rt clock (ld_links d)" "rt \<noteq> []"
    and t: "t = path_string True (rt @ cs)" "list_all plain_name (rt @ cs)" "cs \<noteq> []"
  shows "inside_only rt clock d d'"
proof -
  obtain bs c where cs: "cs = bs @ [c]" using t(3) by (cases cs rule: rev_cases) auto
  have tmp: "target_ok rt (tmp_path t nanos)"
    using tmp_path_string [of "rt @ bs" c nanos] t cs tmp_name_plain [of c nanos] by (auto intro!: target_okI)
  have siblings: "\<exists>h v w. x = h @ [v] \<and> y = h @ [w] \<and> prefix rt h"
    if "resolved False e (tmp_path t nanos) = Some x" "resolved False e t = Some y" "safe_links rt clock (ld_links e)" for e x y
    using that resolved_entry [of "rt @ bs" c e] resolved_entry [of "rt @ bs" "tmp_name c nanos" e] resolved_below [of e rt bs True]
      tmp_path_string [of "rt @ bs" c nanos] t cs tmp_name_plain [of c nanos] by (auto simp: safe_links_def)
  have written: "inside_only rt clock d d2 \<and> safe_links rt clock (ld_links d2)"
    if "create_dir_all d p = Inr d1" "create_file d1 (tmp_path t nanos) text = Inr d2" for p d1 d2
  proof -
    have s1: "inside_only rt clock d d1" using that(1) by (rule create_dir_all_inside)
    then have "inside_only rt clock d1 d2"
      using that(2) target_below [OF inside_only_safe [OF s1 assms(2)] tmp] by (blast intro: create_file_inside)
    with s1 assms(2) show ?thesis by (blast intro: inside_only_trans inside_only_safe)
  qed
  from assms(1) show ?thesis
  proof (cases rule: write_atomic_cases)
    case (renamed p d1 d2)
    note w = written [OF renamed(1,2)]
    have "inside_only rt clock d2 d'"
      by (rule rename_inside [OF renamed(3)]) (use w t(2) assms(3) siblings in \<open>auto\<close>)
    with w show ?thesis by (blast intro: inside_only_trans)
  next
    case (removed p d1 d2)
    note w = written [OF removed(1,2)]
    have "inside_only rt clock d2 d3" if "remove_file d2 (tmp_path t nanos) = Inr d3" for d3
      using that w target_below tmp by (blast intro: remove_file_inside)
    with w removed(3) show ?thesis
      by (cases "remove_file d2 (tmp_path t nanos)") (auto intro: inside_only_trans)
  qed (auto intro: create_dir_all_inside)
qed

text \<open>And when the target is the root itself: the temporary file is then a sibling of the root, and gone again at the end.\<close>

lemma free_place:
  assumes "list_all plain_name q" "link_free_path (ld_links d) q"
  shows "at_place follow d (path_string True q) = Inr q" "q \<noteq> [] \<Longrightarrow> q \<notin> fst ` set (ld_links d)"
proof -
  have "path_string True q \<noteq> []" by (simp add: path_string_def)
  with assms show "at_place follow d (path_string True q) = Inr q" by (simp add: at_place_def resolved_free)
  show "q \<notin> fst ` set (ld_links d)" if "q \<noteq> []" using assms(2) that by (force simp: link_free_path_def)
qed

lemma root_tmp_free:
  assumes "safe_links rt clock lk" "root_tmp rt clock x" "list_all plain_name rt" "rt \<noteq> []"
  shows "link_free_path lk x"
proof -
  obtain k where x: "x = butlast rt @ [tmp_name (last rt) (clock k)]" using root_tmp_at [OF assms(2-4)] .
  have "\<not> prefix y x" if "(y, u) \<in> set lk" "y \<noteq> []" for y u
  proof
    assume "prefix y x"
    then have "y = x \<or> prefix y rt" using prefix_order.trans [OF _ prefixeq_butlast] by (auto simp: x prefix_snoc)
    with assms(1,2) that show False by (auto simp: safe_links_def links_stay_def link_free_path_def)
  qed
  then show ?thesis by (auto simp: link_free_path_def)
qed

text \<open>An atomic write whose target and temporary file are reached without a link.\<close>

definition steady :: "string list \<Rightarrow> (nat \<Rightarrow> nat) \<Rightarrow> linked_disk \<Rightarrow> linked_disk \<Rightarrow> bool" where
  "steady rt clock d d' \<longleftrightarrow> ld_links d' = ld_links d \<and>
     (\<forall>q. \<not> prefix rt q \<longrightarrow>
       fs_files (ld_fs d') q = fs_files (ld_fs d) q \<or> fs_files (ld_fs d') q = None \<and> root_tmp rt clock q)"

lemma steady_inside: "steady rt clock d d' \<Longrightarrow> inside_only rt clock d d'"
  by (simp add: steady_def inside_only_def)

lemma steady_refl [simp]: "steady rt clock d d"
  by (simp add: steady_def)

lemma steady_trans [trans]: "steady rt clock d d1 \<Longrightarrow> steady rt clock d1 d2 \<Longrightarrow> steady rt clock d d2"
  unfolding steady_def by metis

lemma drop_link_none: "q \<notin> fst ` set lk \<Longrightarrow> drop_link q lk = lk"
  by (auto simp: drop_link_def filter_id_conv)

lemma write_free_steady:
  assumes "write_atomic (clock k) d (path_string True c) text = (r, d')" "list_all plain_name c" "c \<noteq> []" "prefix rt c" "rt \<noteq> []"
    and x_def: "x = butlast c @ [tmp_name (last c) (clock k)]"
    and free: "link_free_path (ld_links d) c" "link_free_path (ld_links d) x"
  shows "steady rt clock d d'"
proof -
  have tmp: "tmp_path (path_string True c) (clock k) = path_string True x" and px: "list_all plain_name x"
    using tmp_path_string [of "butlast c" "last c"] assms(2,3) tmp_name_plain [of "last c"]
    by (simp_all add: x_def) (simp_all add: list_all_iff in_set_butlastD)
  have at_x: "at_place follow g (path_string True x) = Inr x" "x \<notin> fst ` set (ld_links g)"
    and at_c: "at_place follow g (path_string True c) = Inr c" "c \<notin> fst ` set (ld_links g)" if "ld_links g = ld_links d" for follow g
    using that free free_place [OF px, of g] free_place [OF assms(2), of g] assms(3) by (auto simp: x_def)
  have tx: "prefix rt x \<or> root_tmp rt clock x"
  proof (cases "rt = c")
    case True
    with tmp px show ?thesis by (auto simp: root_tmp_def intro!: exI [of _ k])
  next
    case False
    with assms(3,4) have "prefix rt (butlast c)" by (cases c rule: rev_cases) (auto simp: prefix_snoc)
    then show ?thesis by (simp add: x_def)
  qed
  have written: "fs_files (ld_fs d2) = (fs_files (ld_fs d))(x \<mapsto> text) \<and> ld_links d2 = ld_links d"
    if w: "create_dir_all d p = Inr d1" "create_file d1 (path_string True x) text = Inr d2" for p d1 d2
  proof -
    have d1: "fs_files (ld_fs d1) = fs_files (ld_fs d)" "ld_links d1 = ld_links d" using create_dir_all_files [OF w(1)] by auto
    from w(2) obtain q where "resolved True d1 (path_string True x) = Some q" "fs_files (ld_fs d2) = (fs_files (ld_fs d1))(q \<mapsto> text)"
      "ld_links d2 = ld_links d1" by (rule create_file_files)
    with d1 at_x(1) [of d1 True] show ?thesis by (auto simp: at_place_def split: if_splits)
  qed
  from assms(1) show ?thesis
  proof (cases rule: write_atomic_cases)
    case (dir p)
    then show ?thesis by (auto simp: steady_def dest: create_dir_all_files)
  next
    case (renamed p d1 d2)
    note w = written [OF renamed(1) renamed(2) [unfolded tmp]]
    with at_x [of d2] at_c [of d2] renamed(3) tmp obtain n where n: "rename_file (tree d2) x c = Inr n"
      and d': "d' = (with_tree d2 n)\<lparr>ld_links := ld_links d2\<rparr>"
      by (auto simp: rename_def map_sum_eq_Inr drop_link_none simp flip: map_of_eq_None_iff)
    from n obtain s where "file_at n = (if x = c then file_at (tree d2) else (file_at (tree d2))(c \<mapsto> s, x := None))"
      by (rule rename_file_files)
    with d' w tx assms(4) show ?thesis by (auto simp: steady_def with_tree_def fs_files_def)
  next
    case (removed p d1 d2)
    note w = written [OF removed(1) removed(2) [unfolded tmp]]
    have "x \<noteq> []" "file_at (tree d2) x \<noteq> None" using w by (simp_all add: x_def fs_files_def)
    then obtain n where n: "rm_file (tree d2) x = Inr n" using rm_file_ok by blast
    with removed(3) tmp at_x(1) [of d2 False] at_x(2) [of d2] w have "d' = with_tree d2 n" by (simp add: remove_file_def)
    with file_at_rm_file [OF n] w tx show ?thesis by (auto simp: steady_def with_tree_def fs_files_def)
  qed simp
qed

lemma write_atomic_inside:
  assumes "write_atomic (clock k) d t text = (r, d')" "target_ok rt t" "rt \<noteq> []" "safe_links rt clock (ld_links d)"
  shows "inside_only rt clock d d'"
proof -
  from assms(2) obtain cs where cs: "list_all plain_name (rt @ cs)" "t = path_string True (rt @ cs)" by (auto simp: target_ok_def)
  show ?thesis
  proof (cases "cs = []")
    case True
    with cs have rt: "list_all plain_name rt" "t = path_string True rt" by simp_all
    define x where "x = butlast rt @ [tmp_name (last rt) (clock k)]"
    have "tmp_path (path_string True rt) (clock k) = path_string True x" "list_all plain_name x"
      using tmp_path_string [of "butlast rt" "last rt"] rt(1) assms(3) tmp_name_plain [of "last rt"]
      by (simp_all add: x_def) (simp_all add: list_all_iff in_set_butlastD)
    then have "root_tmp rt clock x" by (auto simp: root_tmp_def intro!: exI [of _ k])
    from root_tmp_free [OF assms(4) this rt(1) assms(3)] assms(4)
    have "steady rt clock d d'"
      by (intro write_free_steady [of clock k, OF assms(1) [unfolded rt(2)] rt(1) assms(3) _ assms(3) x_def])
        (simp_all add: safe_links_def links_stay_def)
    then show ?thesis by (rule steady_inside)
  next
    case False
    with write_below_inside [OF assms(1,4,3) cs(2,1)] show ?thesis by simp
  qed
qed

definition write_ok :: "string list \<Rightarrow> planned_write \<Rightarrow> bool" where
  "write_ok rt w \<longleftrightarrow> target_ok rt (pw_target w) \<and> (\<forall>s. pw_remove_source w = Some s \<longrightarrow> target_ok rt s)"

lemma commit_write_inside:
  assumes "commit_write (clock k) d w = (r, d')" "write_ok rt w" "rt \<noteq> []" "safe_links rt clock (ld_links d)"
  shows "inside_only rt clock d d'"
proof -
  obtain r1 d1 where s: "(case pw_content w of None \<Rightarrow> remove_existing d (pw_target w)
      | Some text \<Rightarrow> write_atomic (clock k) d (pw_target w) text) = (r1, d1)" by fastforce
  then have one: "inside_only rt clock d d1"
    using assms(2-4) by (auto simp: write_ok_def intro: remove_existing_inside write_atomic_inside split: option.splits)
  then have "safe_links rt clock (ld_links d1)" using assms(4) by (rule inside_only_safe)
  then have two: "inside_only rt clock d1 d'" if "d' \<noteq> d1"
    using assms(1,2) s that
    by (auto simp: commit_write_def write_ok_def intro: remove_existing_inside split: sum.splits option.splits)
  show ?thesis using one two inside_only_trans by (cases "d' = d1") auto
qed

lemma commit_plan_inside:
  "commit_plan clock k d ws = (r, d') \<Longrightarrow> list_all (write_ok rt) ws \<Longrightarrow> rt \<noteq> [] \<Longrightarrow> safe_links rt clock (ld_links d) \<Longrightarrow>
    inside_only rt clock d d'"
proof (induction ws arbitrary: k d r)
  case (Cons w ws)
  obtain r1 d1 where w: "commit_write (clock k) d w = (r1, d1)" by fastforce
  have one: "inside_only rt clock d d1" using commit_write_inside [of clock k, OF w] Cons.prems by simp
  show ?case
  proof (cases r1)
    case Inl
    with Cons.prems w one show ?thesis by simp
  next
    case Inr
    with Cons.prems w obtain r2 where "commit_plan clock (k + 1) d1 ws = (r2, d')"
      by (auto split: prod.splits sum.splits)
    from Cons.IH [OF this] Cons.prems one inside_only_safe [OF one] show ?thesis by (auto intro: inside_only_trans)
  qed
qed simp

lemma plan_change_ok:
  assumes "plan_change d r fc = Inr (w, fc')" "is_absolute r" "links_stay (ld_links d) (os_path [] r)"
  shows "write_ok (os_path [] r) w"
  using assms
  by (auto simp: plan_change_def write_ok_def map_sum_eq_Inr Let_def resolve_target_ok split: if_splits sum.splits)

lemma plan_commit_ok:
  "plan_commit d r fcs = Inr (ws, fcs') \<Longrightarrow> is_absolute r \<Longrightarrow> links_stay (ld_links d) (os_path [] r) \<Longrightarrow>
    list_all (write_ok (os_path [] r)) ws"
  by (induction fcs arbitrary: ws fcs') (auto simp: map_sum_eq_Inr plan_change_ok split: sum.splits)

lemma process_patch_inside:
  assumes "is_absolute r" "process_patch clock d r diff = (res, d')" "os_path [] r \<noteq> []" "safe_links (os_path [] r) clock (ld_links d)"
  shows "inside_only (os_path [] r) clock d d'"
proof (cases "d' = d")
  case False
  from assms(2) False obtain fcs ws fcs' res' where "plan_commit d r fcs = Inr (ws, fcs')" "commit_plan clock 0 d ws = (res', d')"
    by (auto simp: process_patch_def apply_commit_def split: sum.splits prod.splits)
  with commit_plan_inside plan_commit_ok assms show ?thesis unfolding safe_links_def by blast
qed simp

lemma os_path_absolute: "is_absolute p \<Longrightarrow> os_path cwd p = os_path [] p"
  by (simp add: os_path_def)

text \<open>A patch stays below the root when the links below the root do: no link on the way to the root, and below it only links with
  a relative text that does not climb above the root.\<close>

theorem process_patch_stays:
  assumes "is_absolute r" "links_stay (ld_links d) (loc (ld_fs d) r)"
    and "\<forall>k t. (os_path [] (tmp_path (path_string True (loc (ld_fs d) r)) (clock k)), t) \<notin> set (ld_links d)"
    and "process_patch clock d r diff = (res, d')" "\<not> prefix (loc (ld_fs d) r) q"
  shows "map_of (ld_links d') q = map_of (ld_links d) q \<and>
    (fs_files (ld_fs d') q = fs_files (ld_fs d) q
     \<or> fs_files (ld_fs d') q = None \<and> (\<exists>k. q = os_path [] (tmp_path (path_string True (loc (ld_fs d) r)) (clock k))))"
proof -
  have rt: "loc (ld_fs d) r = os_path [] r" using assms(1) by (rule os_path_absolute)
  then have "os_path [] r \<noteq> []" "safe_links (os_path [] r) clock (ld_links d)"
    using assms(2,3,5) by (auto simp: safe_links_def root_tmp_def)
  from process_patch_inside [OF assms(1,4) this] assms(5) rt show ?thesis by (auto simp: inside_only_def root_tmp_def)
qed

text \<open>Now with links anywhere. A path is named safely if there is something at it, wherever its links lead, or if no link is
  on the way to it. Then what the plan takes as the target has no link on its way and lies below the
  canonical root, by the second stage of the check when it exists and by the first one otherwise.\<close>

definition named_paths :: "file_change \<Rightarrow> string list" where
  "named_paths fc =
     (if fc_action fc = Delete then [fc_source fc]
      else if fc_action fc = Move then [fc_path fc, fc_source fc] else [fc_path fc])"

definition safely_named :: "linked_disk \<Rightarrow> string \<Rightarrow> string \<Rightarrow> bool" where
  "safely_named d r p \<longleftrightarrow>
     path_exists d (normalize_path (path_join r p)) \<or> link_free_path (ld_links d) (os_path [] (path_join r p))"

definition at_home :: "links \<Rightarrow> string list \<Rightarrow> string \<Rightarrow> bool" where
  "at_home lk rt t \<longleftrightarrow> (\<exists>c. t = path_string True c \<and> list_all plain_name c \<and> prefix rt c \<and> link_free_path lk c)"

lemma resolve_target_home:
  assumes "is_absolute r" "normalize_path r = r" "resolved True d r = Some rt" "resolve_target d r p = Inr t" "safely_named d r p"
  shows "at_home (ld_links d) rt t"
proof -
  let ?q = "os_path [] (path_join r p)"
  note c = resolve_target_cases [OF assms(1,4)]
  have n: "normalize_path (path_join r p) = path_string True ?q"
    using normalize_absolute is_absolute_join assms(1) by blast
  show ?thesis
  proof (cases "path_exists d (path_string True ?q)")
    case True
    with c assms(3) obtain e where e: "resolved True d (path_string True ?q) = Some e" "prefix rt e" "t = path_string True e" by auto
    with resolved_plain_names [OF e(1)] resolved_link_free [OF e(1)] show ?thesis by (auto simp: at_home_def)
  next
    case False
    with assms(5) n have free: "link_free_path (ld_links d) ?q" by (simp add: safely_named_def)
    have r: "r = path_string True (os_path [] r)" using normalize_absolute [OF assms(1)] assms(2) by metis
    have "resolved True d (path_string True (os_path [] r)) = Some (os_path [] r)"
      using resolved_free [of "os_path [] r" d True] os_path_plain [of "[]" r] assms(1) link_free_prefix [OF free] c by blast
    with r assms(3) have "rt = os_path [] r" by simp
    with False c free show ?thesis by (auto simp: at_home_def)
  qed
qed

definition write_home :: "links \<Rightarrow> string list \<Rightarrow> planned_write \<Rightarrow> bool" where
  "write_home lk rt w \<longleftrightarrow> at_home lk rt (pw_target w) \<and> (\<forall>s. pw_remove_source w = Some s \<longrightarrow> at_home lk rt s)"

lemma plan_change_home:
  assumes "plan_change d r fc = Inr (w, fc')" "list_all (safely_named d r) (named_paths fc)"
    and "is_absolute r" "normalize_path r = r" "resolved True d r = Some rt"
  shows "write_home (ld_links d) rt w"
  using assms(1,2) resolve_target_home [OF assms(3-5)]
  by (auto simp: plan_change_def write_home_def named_paths_def map_sum_eq_Inr Let_def split: if_splits sum.splits)

lemma plan_commit_home:
  assumes "is_absolute r" "normalize_path r = r" "resolved True d r = Some rt"
  shows "plan_commit d r fcs = Inr (ws, fcs') \<Longrightarrow> list_all (\<lambda>fc. list_all (safely_named d r) (named_paths fc)) fcs \<Longrightarrow>
    list_all (write_home (ld_links d) rt) ws"
  using plan_change_home [OF _ _ assms]
  by (induction fcs arbitrary: ws fcs') (auto simp: map_sum_eq_Inr split: sum.splits)

text \<open>No link has the name of a temporary file.\<close>

definition no_tmp_links :: "(nat \<Rightarrow> nat) \<Rightarrow> links \<Rightarrow> bool" where
  "no_tmp_links clock lk \<longleftrightarrow> (\<forall>(x, u) \<in> set lk. \<forall>c k. x \<noteq> [] \<longrightarrow> last x \<noteq> tmp_name c (clock k))"

lemma remove_home_steady:
  assumes "remove_existing d t = (r, d')" "at_home (ld_links d) rt t" "rt \<noteq> []"
  shows "steady rt clock d d'"
proof (cases "d' = d")
  case False
  with assms(1) have rm: "remove_file d t = Inr d'" by (auto simp: remove_existing_def split: if_splits sum.splits)
  from assms(2) obtain c where c: "t = path_string True c" "list_all plain_name c" "prefix rt c" "link_free_path (ld_links d) c"
    by (auto simp: at_home_def)
  have "c \<noteq> []" using c(3) assms(3) by auto
  then have "at_place False d t = Inr c" "c \<notin> fst ` set (ld_links d)" using free_place [OF c(2,4)] c(1) by simp_all
  with rm obtain n where "rm_file (tree d) c = Inr n" "d' = with_tree d n" by (auto simp: remove_file_def map_sum_eq_Inr)
  with c(3) show ?thesis by (auto simp: steady_def with_tree_def fs_files_def dest!: file_at_rm_file split: if_splits)
qed simp

lemma write_home_steady:
  assumes "write_atomic (clock k) d t text = (r, d')" "at_home (ld_links d) rt t" "rt \<noteq> []" "no_tmp_links clock (ld_links d)"
  shows "steady rt clock d d'"
proof -
  from assms(2) obtain c where c: "t = path_string True c" "list_all plain_name c" "prefix rt c" "link_free_path (ld_links d) c"
    by (auto simp: at_home_def)
  have ne: "c \<noteq> []" using c(3) assms(3) by auto
  have "link_free_path (ld_links d) (butlast c)" using link_free_prefix [OF c(4) prefixeq_butlast] .
  moreover have "map_of (ld_links d) (butlast c @ [tmp_name (last c) (clock k)]) = None"
    using assms(4) by (force simp: no_tmp_links_def map_of_eq_None_iff)
  ultimately have "link_free_path (ld_links d) (butlast c @ [tmp_name (last c) (clock k)])" by (simp add: link_free_snoc)
  from write_free_steady [of clock k, OF assms(1) [unfolded c(1)] c(2) ne c(3) assms(3) refl c(4) this] show ?thesis .
qed

lemma commit_write_steady:
  assumes "commit_write (clock k) d w = (r, d')" "write_home (ld_links d) rt w" "rt \<noteq> []" "no_tmp_links clock (ld_links d)"
  shows "steady rt clock d d'"
proof -
  obtain r1 d1 where s: "(case pw_content w of None \<Rightarrow> remove_existing d (pw_target w)
      | Some text \<Rightarrow> write_atomic (clock k) d (pw_target w) text) = (r1, d1)" by fastforce
  then have one: "steady rt clock d d1"
    using assms(2-4) by (auto simp: write_home_def intro: remove_home_steady write_home_steady split: option.splits)
  then have "write_home (ld_links d1) rt w" using assms(2) by (simp add: steady_def)
  then have two: "steady rt clock d1 d'" if "d' \<noteq> d1"
    using assms(1,3) s that
    by (auto simp: commit_write_def write_home_def intro: remove_home_steady split: sum.splits option.splits)
  show ?thesis using one two steady_trans by (cases "d' = d1") auto
qed

lemma commit_plan_steady:
  "commit_plan clock k d ws = (r, d') \<Longrightarrow> list_all (write_home (ld_links d) rt) ws \<Longrightarrow> rt \<noteq> [] \<Longrightarrow> no_tmp_links clock (ld_links d) \<Longrightarrow>
    steady rt clock d d'"
proof (induction ws arbitrary: k d r)
  case (Cons w ws)
  obtain r1 d1 where w: "commit_write (clock k) d w = (r1, d1)" by fastforce
  have one: "steady rt clock d d1" using commit_write_steady [of clock k, OF w] Cons.prems by simp
  then have lk: "ld_links d1 = ld_links d" by (simp add: steady_def)
  show ?case
  proof (cases r1)
    case Inl
    with Cons.prems w one show ?thesis by simp
  next
    case Inr
    with Cons.prems w obtain r2 where "commit_plan clock (k + 1) d1 ws = (r2, d')"
      by (auto split: prod.splits sum.splits)
    from Cons.IH [OF this] Cons.prems lk one show ?thesis by (auto intro: steady_trans)
  qed
qed simp

text \<open>C12. Whatever a patch says and however it ends, it changes nothing outside the workspace, on a disk with symbolic links
  anywhere. Let \<open>rt\<close> be the canonical place of the workspace root, given by a normalised absolute path, let every path that the patch names
  either exist, through whatever links, or have no link on its way, and let no link have the name of a temporary file.
  Then the links stay as they are, and so does every file outside \<open>rt\<close>; the only exception is a file that already has the name of the temporary
  file of \<open>rt\<close> itself, which a patch that names the root as a move target removes. What is left out is a new file below a link: \<open>new_file_follows_link\<close>
  shows that it can be written outside.\<close>

theorem process_patch_confined:
  assumes "is_absolute r" "normalize_path r = r" "resolved True d r = Some rt" "no_tmp_links clock (ld_links d)"
    and "case parse_commit diff of Inl e \<Rightarrow> True | Inr commit \<Rightarrow> list_all (\<lambda>fc. list_all (safely_named d r) (named_paths fc)) commit"
    and "process_patch clock d r diff = (res, d')" "\<not> prefix rt q"
  shows "ld_links d' = ld_links d \<and>
    (fs_files (ld_fs d') q = fs_files (ld_fs d) q
     \<or> fs_files (ld_fs d') q = None \<and> (\<exists>k. q = os_path [] (tmp_path (path_string True rt) (clock k))))"
proof -
  have "steady rt clock d d'"
  proof (cases "d' = d")
    case False
    with assms(6) obtain fcs ws fcs' res' where c: "parse_commit diff = Inr fcs" "plan_commit d r fcs = Inr (ws, fcs')"
      "commit_plan clock 0 d ws = (res', d')" by (auto simp: process_patch_def apply_commit_def split: sum.splits prod.splits)
    have "list_all (write_home (ld_links d) rt) ws"
      by (rule plan_commit_home [OF assms(1-3) c(2)]) (use assms(5) c(1) in simp)
    moreover have "rt \<noteq> []" using assms(7) by auto
    ultimately show ?thesis using commit_plan_steady [OF c(3)] assms(4) by blast
  qed simp
  with assms(7) show ?thesis by (auto simp: steady_def root_tmp_def)
qed

text \<open>A workspace with a link of its own: the patch names the link and changes the file it leads to.\<close>

definition ex_linked :: linked_disk where
  "ex_linked = \<lparr>ld_fs = ex_fs, ld_links = [([''w'', ''l''], ''f'')]\<rparr>"

definition ex_link_diff :: string where
  "ex_link_diff = ''--- a/l'' @ LF @ ''+++ b/l'' @ LF @ ''@@ -1 +1 @@'' @ LF @ ''-x'' @ LF @ ''+y'' @ LF"

definition ex_link_change :: file_change where
  "ex_link_change = ex_change\<lparr>fc_path := ''l'', fc_source := ''l''\<rparr>"

lemmas link_defs = resolved_def at_place_def link_at_def path_exists_def canonicalize_def read_text_def create_file_def create_dir_all_def
  remove_file_def rename_def rename_file_def dangling_def drop_link_def with_tree_def

lemmas write_defs = commit_write_def write_atomic_def path_parent_def trim_slashes_def tmp_path_def with_extension_def
  file_name_def file_stem_def name_extension_def show_seven file_at_def max_fuzz_def

lemma ex_link_commit: "parse_commit ex_link_diff = Inr [ex_link_change]"
  by (simp add: parse_commit_def ex_link_diff_def parse_files_def str_lines_def split_lf.simps strip_cr_def text_defs flush_def
      set_new_path_def push_body_def push_line_def classify_line_def parse_hunk_header_def parse_unsigned_def digit_val_def
      ex_link_change_def ex_change_def file_change_of_def strip_diff_prefix_def Let_def)

lemma ex_link_resolve: "resolve_target ex_linked ''/w'' ''l'' = Inr ''/w/f''"
  by (simp add: resolve_target_def path_defs link_defs ex_linked_def ex_fs_def Let_def)

lemma ex_link_read: "read_original ex_linked ''/w/f'' = Inr (''x'' @ LF)"
  by (simp add: read_original_def path_defs link_defs ex_linked_def ex_fs_def valid_utf8_def)

lemma ex_link_plan:
  "plan_commit ex_linked ''/w'' [ex_link_change] =
     Inr ([\<lparr>pw_target = ''/w/f'', pw_content = Some (''y'' @ LF), pw_rel = ''l'', pw_remove_source = None\<rparr>],
       [ex_link_change\<lparr>fc_content := Some (''y'' @ LF)\<rparr>])"
  by (simp add: plan_change_def ex_link_change_def ex_change_def ex_link_resolve ex_link_read Let_def)
    (simp add: split_lines_keep_endings.simps Let_def apply_hunks_def locate_hunk_def
      hunk_anchor_len_def try_at_def hunk_anchors_level_def match_defs)

lemma ex_link_process:
  "process_patch (\<lambda>_. 7) ex_linked ''/w'' ex_link_diff =
     (Inr \<lparr>ao_files = [''l''], ao_fuzz = Exact\<rparr>, ex_linked\<lparr>ld_fs :=
      \<lparr>fs_root = Dir [(''w'', Dir [(''f'', File (''y'' @ LF))]), (''z'', File ''q'')], fs_cwd = []\<rparr>\<rparr>)"
  by (simp add: process_patch_def ex_link_commit apply_commit_def ex_link_plan max_fuzz_def del: plan_commit.simps)
    (simp add: ex_link_change_def ex_change_def write_defs path_defs link_defs ex_linked_def ex_fs_def Let_def)

theorem process_patch_confined_witness:
  "fs_files (ld_fs (snd (process_patch (\<lambda>_. 7) ex_linked ''/w'' ex_link_diff))) [''z''] = fs_files ex_fs [''z'']"
proof -
  have r: "is_absolute ''/w''" "normalize_path ''/w'' = ''/w''" "resolved True ex_linked ''/w'' = Some [''w'']"
    by (simp_all add: path_defs link_defs ex_linked_def ex_fs_def)
  have n: "no_tmp_links (\<lambda>_. 7) (ld_links ex_linked)"
    by (simp add: no_tmp_links_def ex_linked_def tmp_name_def)
  have l: "safely_named ex_linked ''/w'' ''l''"
    by (simp add: safely_named_def path_defs link_defs ex_linked_def ex_fs_def)
  have p: "named_paths ex_link_change = [''l'']" by (simp add: named_paths_def ex_link_change_def ex_change_def)
  have s: "case parse_commit ex_link_diff of Inl e \<Rightarrow> True
    | Inr commit \<Rightarrow> list_all (\<lambda>fc. list_all (safely_named ex_linked ''/w'') (named_paths fc)) commit"
    by (simp add: ex_link_commit p l)
  have t: "os_path [] (tmp_path (path_string True [''w'']) 7) = [''w.patch_7.tmp'']"
    by (simp add: write_defs path_defs)
  have "ld_fs ex_linked = ex_fs" by (simp add: ex_linked_def)
  then show ?thesis
    using process_patch_confined [OF r n s ex_link_process, of "[''z'']"] t unfolding ex_link_process snd_conv by simp
qed

text \<open>The second stage of the check: an existing target reached through a link is judged by where it really is.\<close>

theorem existing_target_confined:
  assumes "is_absolute r" "resolve_target d r p = Inr t" "path_exists d (normalize_path (path_join r p))"
  shows "\<exists>rt q. resolved True d r = Some rt \<and> prefix rt q \<and> t = path_string True q
    \<and> resolved True d (normalize_path (path_join r p)) = Some q"
  using resolve_target_cases [OF assms(1,2)] assms(3) normalize_absolute [OF is_absolute_join [OF assms(1)], of p "[]"] by auto

lemma existing_link_refused:
  "resolve_target \<lparr>ld_fs = ex_fs, ld_links = [([''w'', ''out''], ''/z'')]\<rparr> ''/w'' ''out'' = Inl (PathEscape ''/z'')"
  by (simp add: resolve_target_def path_defs link_defs ex_fs_def Let_def)

text \<open>But a file that does not exist yet is judged by its name only: below a link that leads out of the
  workspace it is created outside.\<close>

definition ex_out :: linked_disk where
  "ex_out = \<lparr>ld_fs = \<lparr>fs_root = Dir [(''w'', Dir []), (''e'', Dir [])], fs_cwd = []\<rparr>, ld_links = [([''w'', ''out''], ''/e'')]\<rparr>"

definition ex_out_diff :: string where
  "ex_out_diff = ''--- /dev/null'' @ LF @ ''+++ b/out/n'' @ LF @ ''@@ -0,0 +1 @@'' @ LF @ ''+y'' @ LF"

definition ex_out_change :: file_change where
  "ex_out_change = \<lparr>fc_action = Add, fc_path = ''out/n'', fc_source = [],
     fc_hunks = [\<lparr>orig_start = 0, hunk_lines = [HAdded ''y''], diff_line = 3\<rparr>], fc_content = None, fc_fuzz = Exact\<rparr>"

lemma ex_out_commit: "parse_commit ex_out_diff = Inr [ex_out_change]"
  by (simp add: parse_commit_def ex_out_diff_def parse_files_def str_lines_def split_lf.simps strip_cr_def text_defs flush_def
      set_new_path_def push_body_def push_line_def classify_line_def parse_hunk_header_def parse_unsigned_def digit_val_def
      ex_out_change_def file_change_of_def strip_diff_prefix_def Let_def)

lemma ex_out_plan:
  "plan_commit ex_out ''/w'' [ex_out_change] =
     Inr ([\<lparr>pw_target = ''/w/out/n'', pw_content = Some (''y'' @ LF), pw_rel = ''out/n'', pw_remove_source = None\<rparr>],
       [ex_out_change\<lparr>fc_content := Some (''y'' @ LF)\<rparr>])"
proof -
  have "resolve_target ex_out ''/w'' ''out/n'' = Inr ''/w/out/n''"
    by (simp add: resolve_target_def path_defs link_defs ex_out_def Let_def)
  moreover have "read_original ex_out ''/w/out/n'' = Inr []"
    by (simp add: read_original_def path_defs link_defs ex_out_def)
  ultimately show ?thesis
    by (simp add: plan_change_def ex_out_change_def Let_def)
      (simp add: split_lines_keep_endings.simps Let_def apply_hunks_def locate_hunk_def
        hunk_anchor_len_def try_at_def hunk_anchors_level_def match_defs)
qed

theorem new_file_follows_link:
  "process_patch (\<lambda>_. 7) ex_out ''/w'' ex_out_diff =
     (Inr \<lparr>ao_files = [''out/n''], ao_fuzz = Exact\<rparr>, ex_out\<lparr>ld_fs :=
      \<lparr>fs_root = Dir [(''w'', Dir []), (''e'', Dir [(''n'', File (''y'' @ LF))])], fs_cwd = []\<rparr>\<rparr>)"
  by (simp add: process_patch_def ex_out_commit apply_commit_def ex_out_plan max_fuzz_def del: plan_commit.simps)
    (simp add: ex_out_change_def write_defs path_defs link_defs ex_out_def Let_def)

section \<open>The effect of a commit\<close>

text \<open>What one planned write does to the map from places to contents.\<close>

definition write_effect :: "fs \<Rightarrow> nat \<Rightarrow> planned_write \<Rightarrow> (string list \<rightharpoonup> string) \<Rightarrow> (string list \<rightharpoonup> string)" where
  "write_effect f nanos w m =
     (let m1 = (case pw_content w of
                  None \<Rightarrow> m(loc f (pw_target w) := None)
                | Some text \<Rightarrow> m(loc f (tmp_path (pw_target w) nanos) := None, loc f (pw_target w) \<mapsto> text))
      in case pw_remove_source w of None \<Rightarrow> m1 | Some src \<Rightarrow> m1(loc f src := None))"

fun plan_effect :: "fs \<Rightarrow> (nat \<Rightarrow> nat) \<Rightarrow> nat \<Rightarrow> planned_write list \<Rightarrow> (string list \<rightharpoonup> string) \<Rightarrow> (string list \<rightharpoonup> string)" where
  "plan_effect f clock k [] m = m"
| "plan_effect f clock k (w # ws) m = plan_effect f clock (k + 1) ws (write_effect f (clock k) w m)"

lemma map_sum_OsError_plain: "map_sum OsError plain x = Inr d' \<longleftrightarrow> (\<exists>f'. x = Inr f' \<and> d' = plain f')"
  by (auto simp: map_sum_eq_Inr)

lemma fs_op_cwd:
  "fs_write f p s = Inr f' \<Longrightarrow> fs_cwd f' = fs_cwd f"
  "fs_remove_file f p = Inr f' \<Longrightarrow> fs_cwd f' = fs_cwd f"
  "fs_create_dir_all f p = Inr f' \<Longrightarrow> fs_cwd f' = fs_cwd f"
  by (auto simp: fs_write_def fs_remove_file_def fs_create_dir_all_def map_sum_eq_Inr)

lemma fs_rename_cwd: "fs_rename f a b = Inr f' \<Longrightarrow> fs_cwd f' = fs_cwd f"
  by (auto simp: fs_rename_def fs_op_cwd split: option.splits if_splits sum.splits)

text \<open>On a disk without links every step has its effect on the map from places to contents, and there still are no links.\<close>

definition has_effect :: "fs \<Rightarrow> ((string list \<rightharpoonup> string) \<Rightarrow> string list \<rightharpoonup> string) \<Rightarrow> linked_disk \<Rightarrow> bool" where
  "has_effect f g d' \<longleftrightarrow> (\<exists>f'. d' = plain f' \<and> fs_files f' = g (fs_files f) \<and> fs_cwd f' = fs_cwd f)"

lemma remove_existing_effect:
  assumes "remove_existing (plain f) p = (Inr u, d')" "p \<noteq> []"
  shows "has_effect f (\<lambda>m. m(loc f p := None)) d'"
proof (cases "fs_exists f p")
  case True
  with assms obtain f' where f': "fs_remove_file f p = Inr f'" "d' = plain f'"
    by (auto simp: remove_existing_def plain_ops map_sum_OsError_plain split: sum.splits)
  from disk.remove_law [OF f'(1)] fs_op_cwd(2) [OF f'(1)] f'(2) show ?thesis by (simp add: has_effect_def)
next
  case False
  with assms have "d' = plain f" "node_at (fs_root f) (loc f p) = None"
    by (auto simp: remove_existing_def plain_ops fs_exists_def)
  then show ?thesis by (auto simp: has_effect_def fs_files_def file_at_def fun_eq_iff)
qed

lemma write_atomic_effect:
  assumes "write_atomic nanos (plain f) t text = (Inr u, d')" "t \<noteq> []"
  shows "has_effect f (\<lambda>m. m(loc f (tmp_path t nanos) := None, loc f t \<mapsto> text)) d'"
proof -
  from assms(1) obtain d1 d2 where "create_dir_all (plain f) (case path_parent t of Some p \<Rightarrow> p | None \<Rightarrow> ''.'') = Inr d1"
    "create_file d1 (tmp_path t nanos) text = Inr d2" "rename d2 (tmp_path t nanos) t = Inr d'"
    by (auto simp: write_atomic_def Let_def split: sum.splits)
  then obtain f1 f2 f' where d: "fs_create_dir_all f (case path_parent t of Some p \<Rightarrow> p | None \<Rightarrow> ''.'') = Inr f1"
    and w: "fs_write f1 (tmp_path t nanos) text = Inr f2" and m: "fs_rename f2 (tmp_path t nanos) t = Inr f'" and "d' = plain f'"
    using assms(2) by (auto simp: plain_ops map_sum_OsError_plain split: if_splits)
  with disk.create_law [OF d] fs_op_cwd(3) [OF d] disk_mv.write_rename [OF w m] fs_op_cwd(1) [OF w] fs_rename_cwd [OF m]
  show ?thesis by (simp add: has_effect_def)
qed

lemma target_ok_nonempty: "target_ok rt t \<Longrightarrow> t \<noteq> []"
  by (auto simp: target_ok_def path_string_def)

lemma has_effect_trans:
  "has_effect f g (plain f1) \<Longrightarrow> has_effect f1 h d' \<Longrightarrow> has_effect f (\<lambda>m. h (g m)) d'"
  by (auto simp: has_effect_def)

lemma commit_write_effect:
  assumes "commit_write nanos (plain f) w = (Inr u, d')" "write_ok rt w"
  shows "has_effect f (write_effect f nanos w) d'"
proof -
  from assms(1) obtain u1 d1 where s: "(case pw_content w of None \<Rightarrow> remove_existing (plain f) (pw_target w)
      | Some text \<Rightarrow> write_atomic nanos (plain f) (pw_target w) text) = (Inr u1, d1)"
    and rm: "case pw_remove_source w of None \<Rightarrow> d' = d1 | Some src \<Rightarrow> remove_existing d1 src = (Inr u, d')"
    by (auto simp: commit_write_def split: prod.splits sum.splits option.splits)
  have ne: "pw_target w \<noteq> []" "pw_remove_source w = Some s \<Longrightarrow> s \<noteq> []" for s
    using assms(2) by (auto simp: write_ok_def dest: target_ok_nonempty)
  from s ne(1) have one: "has_effect f (write_effect f nanos (w\<lparr>pw_remove_source := None\<rparr>)) d1"
    by (auto simp: has_effect_def write_effect_def split: option.splits dest!: remove_existing_effect write_atomic_effect)
  then obtain f1 where f1: "d1 = plain f1" "fs_cwd f1 = fs_cwd f" by (auto simp: has_effect_def)
  show ?thesis
  proof (cases "pw_remove_source w")
    case None
    then show ?thesis using one rm by (cases "pw_content w") (simp_all add: has_effect_def write_effect_def)
  next
    case (Some src)
    with rm ne(2) f1 have "has_effect f1 (\<lambda>m. m(loc f src := None)) d'" by (auto dest!: remove_existing_effect)
    from has_effect_trans [OF one [unfolded f1(1)] this] Some show ?thesis
      by (cases "pw_content w") (simp_all add: has_effect_def write_effect_def)
  qed
qed

lemma write_effect_cwd: "fs_cwd g = fs_cwd f \<Longrightarrow> write_effect g nanos w m = write_effect f nanos w m"
  by (simp add: write_effect_def Let_def split: option.splits)

lemma plan_effect_cwd: "fs_cwd g = fs_cwd f \<Longrightarrow> plan_effect g clock k ws m = plan_effect f clock k ws m"
  by (induction ws arbitrary: k m) (simp_all add: write_effect_cwd [of g f])

lemma commit_plan_effect:
  "commit_plan clock k (plain f) ws = (Inr rels, d') \<Longrightarrow> list_all (write_ok rt) ws \<Longrightarrow>
    rels = map pw_rel ws \<and> has_effect f (plan_effect f clock k ws) d'"
proof (induction ws arbitrary: k f rels)
  case (Cons w ws)
  then obtain u d1 rels' where w: "commit_write (clock k) (plain f) w = (Inr u, d1)"
    and r: "commit_plan clock (k + 1) d1 ws = (Inr rels', d')" "rels = pw_rel w # rels'"
    by (auto split: prod.splits sum.splits)
  from commit_write_effect [OF w] Cons.prems(2) obtain f1 where f1: "d1 = plain f1" "fs_cwd f1 = fs_cwd f"
    and e: "has_effect f (write_effect f (clock k) w) (plain f1)" by (auto simp: has_effect_def)
  have "rels' = map pw_rel ws \<and> has_effect f1 (plan_effect f clock (k + 1) ws) d'"
    using Cons.IH [OF r(1) [unfolded f1(1)]] Cons.prems(2) plan_effect_cwd [OF f1(2)] by (simp add: fun_eq_iff)
  with has_effect_trans [OF e] r(2) show ?case by simp
qed (force simp: has_effect_def)

text \<open>C13. A patch that is applied to a disk without links has exactly the effect of its plan: every section is rendered against
  the files as they were before the patch, and then the contents are put in place one after the other,
  a deleted or moved file going away. The temporary files leave no trace but the loss of a file that
  had their name.\<close>

theorem process_patch_effect:
  assumes "process_patch clock (plain f) r diff = (Inr out, d')" "is_absolute r"
  shows "\<exists>commit plan commit'. parse_commit diff = Inr commit \<and> plan_commit (plain f) r commit = Inr (plan, commit')
    \<and> ao_files out = map pw_rel plan \<and> ld_links d' = [] \<and> fs_files (ld_fs d') = plan_effect f clock 0 plan (fs_files f)"
proof -
  from assms(1) obtain commit plan commit' where c: "parse_commit diff = Inr commit" "plan_commit (plain f) r commit = Inr (plan, commit')"
    "commit_plan clock 0 (plain f) plan = (Inr (ao_files out), d')"
    by (auto simp: process_patch_def apply_commit_def split: sum.splits prod.splits)
  have "list_all (write_ok (os_path [] r)) plan" using plan_commit_ok [OF c(2) assms(2)] by simp
  from commit_plan_effect [OF c(3) this] c(1,2) show ?thesis by (auto simp: has_effect_def)
qed

theorem process_patch_effect_witness:
  "fs_files (ld_fs (snd (process_patch (\<lambda>_. 7) (plain ex_fs) ''/w'' ex_diff))) [''w'', ''f''] = Some (''y'' @ LF)"
proof -
  have ab: "is_absolute ''/w''" by (simp add: is_absolute_def starts_with_def)
  from process_patch_effect [OF ex_process ab] ex_commit ex_plan
  have "fs_files (ld_fs (snd (process_patch (\<lambda>_. 7) (plain ex_fs) ''/w'' ex_diff))) = plan_effect ex_fs (\<lambda>_. 7) 0
      [\<lparr>pw_target = ''/w/f'', pw_content = Some (''y'' @ LF), pw_rel = ''f'', pw_remove_source = None\<rparr>] (fs_files ex_fs)"
    by (auto simp: ex_process)
  then show ?thesis
    by (simp add: write_effect_def path_defs)
qed

lemma plan_update:
  assumes "plan_change f r c = Inr (w, c')" "fc_action c = Update" "fc_fuzz c = Exact"
  obtains t original new fz where "resolve_target f r (fc_path c) = Inr t" "read_original f t = Inr original"
    "get_updated_file original (fc_hunks c) = Inr (new, fz)"
    "w = \<lparr>pw_target = t, pw_content = Some new, pw_rel = fc_path c, pw_remove_source = None\<rparr>"
  using assms that
  by (auto simp: plan_change_def get_updated_file_def Let_def split: if_splits sum.splits)

text \<open>A patch with two sections for the same file loses the first one: the file ends up with the hunks
  of the second section applied to the content before the patch.\<close>

theorem later_section_wins:
  assumes "process_patch clock (plain f) r diff = (Inr out, d')" "is_absolute r"
    and "parse_commit diff = Inr [c1, c2]" "fc_action c1 = Update" "fc_action c2 = Update" "fc_path c1 = fc_path c2"
  shows "\<exists>t original new fz. resolve_target (plain f) r (fc_path c2) = Inr t \<and> read_original (plain f) t = Inr original
    \<and> get_updated_file original (fc_hunks c2) = Inr (new, fz) \<and> fs_files (ld_fs d') (loc f t) = Some new"
proof -
  from assms(1,3) obtain plan commit' where p: "plan_commit (plain f) r [c1, c2] = Inr (plan, commit')"
    and e: "commit_plan clock 0 (plain f) plan = (Inr (ao_files out), d')"
    by (auto simp: process_patch_def apply_commit_def split: sum.splits prod.splits)
  from p obtain w1 c1' w2 c2' where w: "plan_change (plain f) r c1 = Inr (w1, c1')" "plan_change (plain f) r c2 = Inr (w2, c2')"
    "plan = [w1, w2]" by (auto simp: map_sum_eq_Inr split: sum.splits)
  have "fc_fuzz c2 = Exact" using parse_commit_exact [OF assms(3)] by simp
  then obtain t original new fz where "resolve_target (plain f) r (fc_path c2) = Inr t" "read_original (plain f) t = Inr original"
    "get_updated_file original (fc_hunks c2) = Inr (new, fz)"
    "w2 = \<lparr>pw_target = t, pw_content = Some new, pw_rel = fc_path c2, pw_remove_source = None\<rparr>"
    using plan_update [OF w(2) assms(5)] by metis
  moreover have "fs_files (ld_fs d') = plan_effect f clock 0 [w1, w2] (fs_files f)"
    using commit_plan_effect [OF e plan_commit_ok [OF p assms(2)]] w(3) by (auto simp: has_effect_def)
  ultimately show ?thesis by (auto simp: write_effect_def)
qed

section \<open>Where the code and its comments part\<close>

text \<open>The prefix remover takes every leading \<open>a\<close>, \<open>b\<close> and \<open>x\<close> of the first directory name.\<close>

lemma strip_diff_prefix_directory: "strip_diff_prefix ''abba/song.txt'' = ''song.txt''"
  by (simp add: strip_diff_prefix_def text_defs Let_def)

text \<open>With the root \<open>.\<close> the lexical check accepts every path, and a new file can be named anywhere.\<close>

lemma dot_root_accepts_absolute:
  "fs_cwd f = [''w''] \<Longrightarrow> node_at (fs_root f) [''w''] \<noteq> None \<Longrightarrow> node_at (fs_root f) [''e'', ''n''] = None \<Longrightarrow>
    resolve_target (plain f) ''.'' ''/e/n'' = Inr ''/e/n''"
  by (simp add: resolve_target_def path_defs Let_def)

lemma dotdot_root_misplaced:
  assumes "fs_cwd f = [''w'']" "node_at (fs_root f) [''p''] \<noteq> None" "node_at (fs_root f) [''w'', ''p'', ''n''] = None"
  shows "resolve_target (plain f) ''../p'' ''n'' = Inr ''p/n'' \<and> loc f ''p/n'' = [''w'', ''p'', ''n''] \<and> loc f ''../p'' = [''p'']"
  using assms by (simp add: resolve_target_def path_defs Let_def)

definition ex_diff2 :: string where
  "ex_diff2 = ex_diff @ ''--- a/f'' @ LF @ ''+++ b/f'' @ LF @ ''@@ -1 +1,2 @@'' @ LF @ '' x'' @ LF @ ''+z'' @ LF"

definition ex_change2 :: file_change where
  "ex_change2 = ex_change\<lparr>fc_hunks := [\<lparr>orig_start = 1, hunk_lines = [HContext ''x'', HAdded ''z''], diff_line = 8\<rparr>]\<rparr>"

lemma ex_commit2: "parse_commit ex_diff2 = Inr [ex_change, ex_change2]"
proof -
  have l: "str_lines ex_diff2 = [''--- a/f'', ''+++ b/f'', ''@@ -1 +1 @@'', ''-x'', ''+y'',
      ''--- a/f'', ''+++ b/f'', ''@@ -1 +1,2 @@'', '' x'', ''+z'']"
    by (simp add: ex_diff_def ex_diff2_def str_lines_def split_lf.simps strip_cr_def Let_def)
  have "parse_files ex_diff2 =
    Inr [\<lparr>old_path = ''a/f'', new_path = ''b/f'', fd_hunks = fc_hunks ex_change\<rparr>,
         \<lparr>old_path = ''a/f'', new_path = ''b/f'', fd_hunks = fc_hunks ex_change2\<rparr>]"
    by (simp add: parse_files_def l text_defs flush_def set_new_path_def push_body_def push_line_def classify_line_def
        parse_hunk_header_def parse_unsigned_def digit_val_def ex_change_def ex_change2_def Let_def)
  then show ?thesis
    by (simp add: parse_commit_def ex_change_def ex_change2_def file_change_of_def strip_diff_prefix_def text_defs Let_def)
qed

lemma ex_plan2: "plan_change (plain ex_fs) ''/w'' ex_change2 =
     Inr (\<lparr>pw_target = ''/w/f'', pw_content = Some (''x'' @ LF @ ''z'' @ LF), pw_rel = ''f'', pw_remove_source = None\<rparr>,
       ex_change2\<lparr>fc_content := Some (''x'' @ LF @ ''z'' @ LF)\<rparr>)"
  by (simp add: plan_change_def ex_change_def ex_change2_def ex_resolve read_original_def read_to_string_def path_defs Let_def)
    (simp add: ex_fs_def valid_utf8_def split_lines_keep_endings.simps Let_def apply_hunks_def locate_hunk_def
      hunk_anchor_len_def try_at_def hunk_anchors_level_def match_defs)

theorem later_section_wins_witness:
  "\<exists>d'. process_patch (\<lambda>_. 7) (plain ex_fs) ''/w'' ex_diff2 = (Inr \<lparr>ao_files = [''f'', ''f''], ao_fuzz = Exact\<rparr>, d')
    \<and> fs_files (ld_fs d') [''w'', ''f''] = Some (''x'' @ LF @ ''z'' @ LF)"
proof -
  let ?ws = "[\<lparr>pw_target = ''/w/f'', pw_content = Some (''y'' @ LF), pw_rel = ''f'', pw_remove_source = None\<rparr>,
    \<lparr>pw_target = ''/w/f'', pw_content = Some (''x'' @ LF @ ''z'' @ LF), pw_rel = ''f'', pw_remove_source = None\<rparr>]"
  have p: "plan_commit (plain ex_fs) ''/w'' [ex_change, ex_change2] = Inr (?ws,
      [ex_change\<lparr>fc_content := Some (''y'' @ LF)\<rparr>, ex_change2\<lparr>fc_content := Some (''x'' @ LF @ ''z'' @ LF)\<rparr>])"
    using ex_plan by (auto simp: ex_plan2 map_sum_eq_Inr split: sum.splits)
  have "\<exists>d'. commit_plan (\<lambda>_. 7) 0 (plain ex_fs) ?ws = (Inr [''f'', ''f''], d')"
    by (simp add: commit_write_def write_atomic_def path_parent_def trim_slashes_def tmp_path_def with_extension_def
      file_name_def file_stem_def name_extension_def show_seven fs_rename_def
      fs_create_dir_all_def fs_write_def fs_remove_file_def fs_read_def file_at_def path_defs ex_fs_def Let_def)
  then obtain d' where c: "commit_plan (\<lambda>_. 7) 0 (plain ex_fs) ?ws = (Inr [''f'', ''f''], d')" by blast
  have r: "process_patch (\<lambda>_. 7) (plain ex_fs) ''/w'' ex_diff2 = (Inr \<lparr>ao_files = [''f'', ''f''], ao_fuzz = Exact\<rparr>, d')"
    using c by (simp add: process_patch_def ex_commit2 apply_commit_def p max_fuzz_def del: plan_commit.simps commit_plan.simps)
      (simp add: ex_change_def ex_change2_def)
  have acts: "is_absolute ''/w''" "fc_action ex_change = Update" "fc_action ex_change2 = Update" "fc_path ex_change = fc_path ex_change2"
    by (simp_all add: ex_change_def ex_change2_def is_absolute_def starts_with_def)
  from later_section_wins [OF r acts(1) ex_commit2 acts(2-4)] obtain t original new fz where
    ob: "resolve_target (plain ex_fs) ''/w'' (fc_path ex_change2) = Inr t" "read_original (plain ex_fs) t = Inr original"
      "get_updated_file original (fc_hunks ex_change2) = Inr (new, fz)" and d': "fs_files (ld_fs d') (loc ex_fs t) = Some new" by blast
  have "fc_path ex_change2 = ''f''" "fc_fuzz ex_change2 = Exact" by (simp_all add: ex_change_def ex_change2_def)
  with ob ex_plan2 acts have "t = ''/w/f''" "new = ''x'' @ LF @ ''z'' @ LF"
    by (auto simp: plan_change_def get_updated_file_def Let_def)
  with d' r show ?thesis by (simp add: path_defs)
qed

end
