(* ===== verification/Builtin_Tools.thy ===== *)
theory Builtin_Tools
  imports Patch_Commit Batch
begin

text \<open>
  The file tools of \<open>sentinel-tools/src/builtin.rs\<close>: \<open>read\<close>, \<open>view\<close>, \<open>write\<close>, \<open>edit\<close>, \<open>apply_patch\<close> and its alias,
  as functions from the disk and the arguments to an output and the disk; no output stands for a panic.
  Parameters: \<open>lower\<close> is \<open>str::to_lowercase\<close>, whose tables are Unicode's, \<open>debug\<close> the escaping of \<open>{:?}\<close>.
\<close>

section \<open>Arguments\<close>

definition arg_text :: "json \<Rightarrow> string \<Rightarrow> string" where
  "arg_text args k = (case as_str (json_get args k) of Some s \<Rightarrow> s | None \<Rightarrow> [])"

section \<open>Read\<close>

text \<open>\<open>lines[start..end]\<close> panics when the start is behind the end.\<close>

definition slice_lines :: "nat \<Rightarrow> nat \<Rightarrow> string list \<Rightarrow> string list option" where
  "slice_lines a b ls = (if a \<le> b \<and> b \<le> length ls then Some (take (b - a) (drop a ls)) else None)"

definition line_start :: "usize option \<Rightarrow> usize" where
  "line_start offset = saturating_sub (case offset of Some k \<Rightarrow> k | None \<Rightarrow> 1) 1"

definition line_end :: "usize \<Rightarrow> usize option \<Rightarrow> nat \<Rightarrow> nat" where
  "line_end start limit tot = (case limit of Some l \<Rightarrow> min (unat (start + l)) tot | None \<Rightarrow> tot)"

definition read_execute :: "fs \<Rightarrow> json \<Rightarrow> tool_output option" where
  "read_execute f args =
     (let path = arg_text args ''file_path'' in
      if path = [] then Some (output_err ''file_path is required'')
      else
        let offset = as_u64 (json_get args ''offset''); limit = as_u64 (json_get args ''limit'') in
        case read_to_string f path of
          Inl e \<Rightarrow> Some (output_err (''Failed to read '' @ path @ '': '' @ e))
        | Inr body \<Rightarrow>
            (if offset = None \<and> limit = None then Some (output_ok body)
             else
               let lines = str_lines body; start = line_start offset in
               if length lines \<le> unat start then Some (output_ok [])
               else map_option (\<lambda>ls. output_ok (join LF ls))
                      (slice_lines (unat start) (line_end start limit (length lines)) lines)))"

section \<open>Write and edit\<close>

definition write_execute :: "fs \<Rightarrow> json \<Rightarrow> tool_output \<times> fs" where
  "write_execute f args =
     (let path = arg_text args ''file_path''; body = arg_text args ''content'' in
      if path = [] then (output_err ''file_path is required'', f)
      else
        let made = (case path_parent path of
                      Some parent \<Rightarrow>
                        if parent \<noteq> [] \<and> \<not> fs_exists f parent
                        then (case fs_create_dir_all f parent of
                                Inl e \<Rightarrow> Inl (''Failed to create directory '' @ parent @ '': '' @ show_io_error e)
                              | Inr f1 \<Rightarrow> Inr f1)
                        else Inr f
                    | None \<Rightarrow> Inr f)
        in case made of
             Inl e \<Rightarrow> (output_err e, f)
           | Inr f1 \<Rightarrow>
               (case fs_write f1 path body of
                  Inl e \<Rightarrow> (output_err (''Failed to write '' @ path @ '': '' @ show_io_error e), f1)
                | Inr f2 \<Rightarrow> (output_ok (''Wrote '' @ show_nat (length body) @ '' bytes to '' @ path), f2)))"

definition edit_execute :: "fs \<Rightarrow> json \<Rightarrow> tool_output \<times> fs" where
  "edit_execute f args =
     (let path = arg_text args ''file_path''; old = arg_text args ''old_string''; new = arg_text args ''new_string'';
          replace_all = (case as_bool (json_get args ''replace_all'') of Some b \<Rightarrow> b | None \<Rightarrow> False) in
      if path = [] then (output_err ''file_path is required'', f)
      else if old = [] then (output_err ''old_string is required'', f)
      else case read_to_string f path of
             Inl e \<Rightarrow> (output_err (''Failed to read '' @ path @ '': '' @ e), f)
           | Inr body \<Rightarrow>
               (if \<not> str_contains body old then (output_err ''old_string not found in file content'', f)
                else
                  let edited = (if replace_all then Some (str_replace body old new)
                                else map_option (\<lambda>pos. take pos body @ new @ drop (pos + length old) body) (str_find body old))
                  in case edited of
                       None \<Rightarrow> (output_err ''old_string not found in file content'', f)
                     | Some new_content \<Rightarrow>
                         (case fs_write f path new_content of
                            Inl e \<Rightarrow> (output_err (''Failed to write '' @ path @ '': '' @ show_io_error e), f)
                          | Inr f1 \<Rightarrow> (output_ok (''Edited '' @ path), f1))))"

section \<open>Patches\<close>

fun show_malformed :: "(string \<Rightarrow> string) \<Rightarrow> malformed \<Rightarrow> string" where
  "show_malformed debug NoHunks = ''no hunks found in diff''"
| "show_malformed debug HunkBeforeHeader = ''hunk appears before any --- / +++ file header''"
| "show_malformed debug NoFileSections = ''no file sections found in diff''"
| "show_malformed debug (MissingNewHeader p) = ''file section '' @ [CHR 0x27] @ p @ [CHR 0x27] @ '' is missing its +++ header''"
| "show_malformed debug (BadHunkHeader n h) = ''line '' @ show_nat n @ '': cannot parse hunk header: '' @ debug h"
| "show_malformed debug (BadDiffHeader h) = ''cannot parse hunk header: '' @ debug h"
| "show_malformed debug (BadLineNumber n h) = ''line '' @ show_nat n @ '': cannot parse orig line number from '' @ debug h"
| "show_malformed debug (EmptyTarget p) = ''empty target path for file section '' @ [CHR 0x27] @ p @ [CHR 0x27]"
| "show_malformed debug (NotSingleFile n) = ''expected a single-file diff, found '' @ show_nat n
     @ '' file section(s); use apply_patch_multi instead''"

fun show_patch_error :: "(string \<Rightarrow> string) \<Rightarrow> patch_error \<Rightarrow> string" where
  "show_patch_error debug (PathEscape p) = ''path '' @ [CHR 0x27] @ p @ [CHR 0x27] @ '' escapes the workspace root''"
| "show_patch_error debug (MalformedDiff m) = ''malformed diff: '' @ show_malformed debug m"
| "show_patch_error debug (StaleContext h l expected found) =
     ''stale patch: hunk starting at line '' @ show_nat h @ '' of the diff does not match file content at line '' @ show_nat l
     @ ''; expected '' @ debug expected @ '', found '' @ debug found"
| "show_patch_error debug (FuzzyValidation n) = ''fuzzy validation required (fuzz level '' @ show_nat n @ ''); exact matching was required''"
| "show_patch_error debug (PatchIo e) = ''I/O error: '' @ e"

definition patch_base :: "tool_context \<Rightarrow> json \<Rightarrow> string" where
  "patch_base tc args =
     (case as_str (json_get args ''base_path'') of
        Some s \<Rightarrow> if s \<noteq> [] then s else (case tc_workspace_dir tc of Some d \<Rightarrow> d | None \<Rightarrow> ''.'')
      | None \<Rightarrow> (case tc_workspace_dir tc of Some d \<Rightarrow> d | None \<Rightarrow> ''.''))"

definition execute_patch ::
    "(string \<Rightarrow> string) \<Rightarrow> (nat \<Rightarrow> nat) \<Rightarrow> linked_disk \<Rightarrow> json \<Rightarrow> tool_context \<Rightarrow> tool_output \<times> linked_disk" where
  "execute_patch debug clock disk args tc =
     (let d = arg_text args ''diff'' in
      if d = [] then (output_err ''diff is required'', disk)
      else case apply_patch_multi clock disk (patch_base tc args) d of
             (Inr changed, disk1) \<Rightarrow>
               (output_ok (''Applied patch to '' @ show_nat (length changed) @ '' file(s):''
                  @ concat (map (\<lambda>p. LF @ ''- '' @ p) changed)), disk1)
           | (Inl e, disk1) \<Rightarrow> (output_err (''Patch failed: '' @ show_patch_error debug e), disk1))"

section \<open>View\<close>

text \<open>\<open>edit_distance\<close>: the rows of the table, \<open>cur\<close> from \<open>prev\<close>.\<close>

fun distance_cells :: "string \<Rightarrow> string list \<Rightarrow> nat list \<Rightarrow> nat \<Rightarrow> nat list" where
  "distance_cells ca [] prev left = []"
| "distance_cells ca (cb # bs) prev left =
     (let cost = (if ca = cb then 0 else 1);
          c = min (min (hd (tl prev) + 1) (left + 1)) (hd prev + cost)
      in c # distance_cells ca bs (tl prev) c)"

definition distance_row :: "string list \<Rightarrow> nat list \<Rightarrow> nat \<times> string \<Rightarrow> nat list" where
  "distance_row bs prev ica = (case ica of (i, ca) \<Rightarrow> (i + 1) # distance_cells ca bs prev (i + 1))"

definition edit_distance :: "string \<Rightarrow> string \<Rightarrow> nat" where
  "edit_distance a b =
     (let as = utf8_chars a; bs = utf8_chars b in
      foldl (distance_row bs) [0 ..< length bs + 1] (enumerate 0 as) ! length bs)"

fun read_dir_names :: "node option \<Rightarrow> string list" where
  "read_dir_names (Some (Dir es)) = map fst es"
| "read_dir_names _ = []"

definition suggest_similar_path :: "(string \<Rightarrow> string) \<Rightarrow> fs \<Rightarrow> string \<Rightarrow> tool_context \<Rightarrow> string" where
  "suggest_similar_path lower f path tc =
     (let parent = (case path_parent path of
                      Some dir \<Rightarrow> if dir \<noteq> [] then dir else (case tc_workspace_dir tc of Some d \<Rightarrow> d | None \<Rightarrow> [])
                    | None \<Rightarrow> (case tc_workspace_dir tc of Some d \<Rightarrow> d | None \<Rightarrow> []));
          wanted = (case file_name path of Some n \<Rightarrow> lower n | None \<Rightarrow> []);
          names = (if parent = [] then [] else read_dir_names (node_at (fs_root f) (loc f parent)));
          missing = ''File not found: '' @ path
      in if list_ex (\<lambda>n. lower n = wanted) names then missing
         else case sort_key fst (map (\<lambda>n. (edit_distance wanted (lower n), n)) names) of
                [] \<Rightarrow> missing
              | (dst, name) # rest \<Rightarrow>
                  (if dst \<le> 4 \<and> dst < max (length wanted) 2
                   then missing @ LF @ ''Did you mean: '' @ name
                     @ (case rest of (dist2, name2) # _ \<Rightarrow> if dist2 \<le> dst + 1 then '' or '' @ name2 else [] | [] \<Rightarrow> [])
                   else missing))"

definition pad6 :: "string \<Rightarrow> string" where
  "pad6 s = replicate (6 - length s) CHR '' '' @ s"

definition view_line :: "nat \<Rightarrow> string \<Rightarrow> string" where
  "view_line n line = pad6 (show_nat n) @ '' | '' @ line @ LF"

definition view_execute :: "(string \<Rightarrow> string) \<Rightarrow> fs \<Rightarrow> json \<Rightarrow> tool_context \<Rightarrow> tool_output option" where
  "view_execute lower f args tc =
     (let path = arg_text args ''file_path'' in
      if path = [] then Some (output_err ''file_path is required'')
      else
        let offset = as_u64 (json_get args ''offset''); limit = as_u64 (json_get args ''limit'') in
        case fs_read f path of
          None \<Rightarrow> Some (output_err (suggest_similar_path lower f path tc))
        | Some bytes \<Rightarrow>
            (if list_ex (\<lambda>b. b = CHR 0x00) (take 8192 bytes) then Some (output_err (path @ '' appears to be a binary file''))
             else if \<not> valid_utf8 bytes then Some (output_err (path @ '' is not valid UTF-8 text''))
             else
               let lines = str_lines bytes; tot = length lines; start = line_start offset in
               if tot \<le> unat start then
                 Some (output_ok (path @ '' has '' @ show_nat tot @ '' lines; requested offset '' @ show_word (start + 1)
                   @ '' is past the end.''))
               else
                 let ende = line_end start limit tot in
                 map_option (\<lambda>ls. output_ok (concat (map (\<lambda>(i, line). view_line (unat start + i + 1) line) (enumerate 0 ls))
                     @ (if ende < tot
                        then ''... ('' @ show_nat (ende - unat start) @ '' of '' @ show_nat tot @ '' lines shown; use offset/limit to page)'' @ LF
                        else [])))
                   (slice_lines (unat start) ende lines)))"

section \<open>Reading lines\<close>

lemma line_end_wrap:
  assumes "2 ^ 64 \<le> unat start + unat (l :: u64)"
  shows "unat (start + l) < unat (start :: u64)"
proof -
  have b: "unat l < 2 ^ 64" "unat start < 2 ^ 64" using unsigned_less [of l] unsigned_less [of start] by simp_all
  then have "(unat start + unat l) mod 2 ^ 64 = unat start + unat l - 2 ^ 64"
    using assms by (subst le_mod_geq) simp_all
  then show ?thesis using b assms by (simp add: unat_word_ariths(1))
qed

lemma unat_plus_no_wrap: "unat (a :: u64) + unat b < 2 ^ 64 \<Longrightarrow> unat (a + b) = unat a + unat b"
  by (simp add: unat_word_ariths(1))

text \<open>Reading lines of a text file gives exactly the requested lines, those from the offset (counted from one) on,
  at most \<open>limit\<close> of them; only when offset and limit together pass \<open>2 ^ 64\<close> does the sum wrap around and the
  tool panic.\<close>

theorem read_lines:
  assumes "arg_text args ''file_path'' = path" "path \<noteq> []" "read_to_string f path = Inr body"
    and "as_u64 (json_get args ''offset'') = offset" "as_u64 (json_get args ''limit'') = Some l"
    and "unat (line_start offset) < length (str_lines body)" "length (str_lines body) < 2 ^ 64"
  shows "read_execute f args =
    (if unat (line_start offset) + unat l < 2 ^ 64
     then Some (output_ok (join LF (take (unat l) (drop (unat (line_start offset)) (str_lines body)))))
     else None)"
proof (cases "unat (line_start offset) + unat l < 2 ^ 64")
  case True
  then show ?thesis using assms
    by (simp add: read_execute_def Let_def line_end_def slice_lines_def unat_plus_no_wrap min_diff)
      (simp add: min_def)
next
  case False
  then have "unat (line_start offset + l) < unat (line_start offset)" by (intro line_end_wrap) simp
  then show ?thesis using assms False by (simp add: read_execute_def Let_def line_end_def slice_lines_def)
qed

section \<open>The preview shows what is done\<close>

lemma read_to_string_Inr: "read_to_string f path = Inr s \<Longrightarrow> fs_files f (loc f path) = Some s \<and> fs_exists f path"
  by (auto simp: read_to_string_def fs_files_def fs_exists_def file_at_def split: option.splits node.splits if_splits)

lemma before_write_Some: "before_write f path = Inr (Some s) \<longleftrightarrow> read_to_string f path = Inr s"
  by (cases "read_to_string f path") (auto simp: before_write_def dest: read_to_string_Inr)

lemma before_write_files: "before_write f path = Inr orig \<Longrightarrow> fs_files f (loc f path) = orig"
  by (cases "read_to_string f path"; cases "fs_exists f path")
    (auto simp: before_write_def dest: read_to_string_Inr simp: fs_exists_def fs_files_def file_at_def)

text \<open>The preview reads the arguments \<open>args\<close> on the disk \<open>f\<close>, the tool runs later with \<open>args'\<close> on \<open>g\<close>.\<close>

lemma edit_execute_ok:
  assumes "edit_execute g args' = (out, g')" "\<not> to_is_error out" "captured_diff f ''edit'' args = Some d"
    and same: "before_write g (arg_text args' ''file_path'') = before_write f (arg_text args ''file_path'')"
      "\<And>k. k \<noteq> ''file_path'' \<Longrightarrow> json_get args' k = json_get args k"
  shows "\<exists>new. d = diff (arg_text args ''file_path'') (fs_files g (loc g (arg_text args' ''file_path''))) new
    \<and> fs_files g' = (fs_files g)(loc g (arg_text args' ''file_path'') \<mapsto> new)"
proof -
  let ?path = "arg_text args' ''file_path''" and ?o = "arg_text args ''old_string''" and ?n = "arg_text args ''new_string''"
  let ?all = "case as_bool (json_get args ''replace_all'') of Some b \<Rightarrow> b | None \<Rightarrow> False"
  have same': "arg_text args' ''old_string'' = ?o" "arg_text args' ''new_string'' = ?n" "json_get args' ''replace_all'' = json_get args ''replace_all''"
    using same(2) by (simp_all add: arg_text_def)
  obtain body where body: "?path \<noteq> []" "read_to_string g ?path = Inr body"
    using assms(1,2) by (auto simp: edit_execute_def output_err_def Let_def split: if_splits sum.splits)
  obtain new where new: "simulate_edit body ?o ?n ?all = Inr new" "fs_write g ?path new = Inr g'"
    using assms(1,2) body same'
    by (auto simp: edit_execute_def simulate_edit_def output_err_def Let_def split: if_splits sum.splits option.splits)
  have o: "before_write f (arg_text args ''file_path'') = Inr (Some body)" using same(1) body(2) before_write_Some by metis
  then have "read_to_string f (arg_text args ''file_path'') = Inr body" by (simp add: before_write_Some)
  with assms(3) new(1) o have "d = diff (arg_text args ''file_path'') (Some body) new"
    by (auto simp: captured_diff_def simulate_edit_content_def Let_def simp flip: arg_text_def split: if_splits)
  with read_to_string_Inr [OF body(2)] disk.write_law [OF new(2)] show ?thesis by auto
qed

lemma write_execute_ok:
  assumes "write_execute g args' = (out, g')" "\<not> to_is_error out" "captured_diff f ''write'' args = Some d"
    and same: "before_write g (arg_text args' ''file_path'') = before_write f (arg_text args ''file_path'')"
      "\<And>k. k \<noteq> ''file_path'' \<Longrightarrow> json_get args' k = json_get args k"
  shows "\<exists>new. d = diff (arg_text args ''file_path'') (fs_files g (loc g (arg_text args' ''file_path''))) new
    \<and> fs_files g' = (fs_files g)(loc g (arg_text args' ''file_path'') \<mapsto> new)"
proof -
  let ?path = "arg_text args' ''file_path''" and ?body = "arg_text args ''content''"
  have "arg_text args' ''content'' = ?body" using same(2) by (simp add: arg_text_def)
  then obtain g1 where g1: "g1 = g \<or> (\<exists>p. fs_create_dir_all g p = Inr g1)" "fs_write g1 ?path ?body = Inr g'"
    using assms(1,2) by (auto simp: write_execute_def output_err_def Let_def split: if_splits sum.splits option.splits)
  have "fs_files g1 = fs_files g" "loc g1 = loc g" using g1(1) disk.create_law by metis+
  with disk.write_law [OF g1(2)] have "fs_files g' = (fs_files g)(loc g ?path \<mapsto> ?body)" by metis
  moreover obtain orig where orig: "before_write f (arg_text args ''file_path'') = Inr orig" "d = diff (arg_text args ''file_path'') orig ?body"
    using assms(3) by (auto simp: captured_diff_def Let_def simp flip: arg_text_def split: sum.splits if_splits)
  moreover have "fs_files g (loc g ?path) = orig" using orig(1) same(1) before_write_files by metis
  ultimately show ?thesis by blast
qed

lemma reroot_keeps:
  assumes "name = ''write'' \<or> name = ''edit''" "k \<noteq> ''file_path''"
  shows "json_get (reroot_sandbox_args name args sb) k = json_get args k"
proof -
  have "path_keys name = Some [''file_path'']" using assms(1) by (auto simp: path_keys_def)
  with assms(2) show ?thesis
    by (cases sb; cases args) (simp_all add: reroot_sandbox_args_def reroot_keys_one json_get_def map_of_obj_insert split: option.splits)
qed

text \<open>C16. What the approver of a \<open>write\<close> or an \<open>edit\<close> is shown is what happens. The request shows a diff \<open>d\<close> of the
  file the model named, on the disk \<open>f\<close> at the time of the request; the tool runs later, on a disk \<open>g\<close> that other calls may have changed,
  with the arguments re-rooted into the sandbox if there is one. If the file it finds at its path is as the preview read the named one
  (the same content, or none in both places) and the tool succeeds, then \<open>d\<close> is the diff between the old and the new content of the
  file it writes, and no other file changes. Without that proviso the two part: \<open>sandbox_preview_other_file\<close>.\<close>

theorem preview_shows_change:
  assumes "ar_diff (make_request f name args) = Some d" "args' = reroot_sandbox_args name args sb"
    and "name = ''write'' \<and> write_execute g args' = (out, g') \<or> name = ''edit'' \<and> edit_execute g args' = (out, g')"
    and "\<not> to_is_error out" "before_write g (arg_text args' ''file_path'') = before_write f (arg_text args ''file_path'')"
  shows "\<exists>new. d = diff (arg_text args ''file_path'') (fs_files g (loc g (arg_text args' ''file_path''))) new
    \<and> fs_files g' = (fs_files g)(loc g (arg_text args' ''file_path'') \<mapsto> new)"
proof -
  have d: "captured_diff f name args = Some d" using assms(1) by (simp add: make_request_def Let_def)
  have k: "json_get args' k = json_get args k" if "k \<noteq> ''file_path''" for k
    using reroot_keeps [OF _ that] assms(2,3) by blast
  from assms(3) show ?thesis
  proof
    assume "name = ''write'' \<and> write_execute g args' = (out, g')"
    with write_execute_ok [OF _ assms(4) _ assms(5) k] d show ?thesis by blast
  next
    assume "name = ''edit'' \<and> edit_execute g args' = (out, g')"
    with edit_execute_ok [OF _ assms(4) _ assms(5) k] d show ?thesis by blast
  qed
qed

definition ex_disk :: fs where
  "ex_disk = \<lparr>fs_root = Dir [(''f'', File (''a'' @ LF @ ''b'' @ LF @ ''c'' @ LF))], fs_cwd = []\<rparr>"

definition ex_edit :: json where
  "ex_edit = JObject [(''file_path'', JString ''/f''), (''old_string'', JString ''b''), (''new_string'', JString ''x'')]"

lemmas ex_tool_defs = arg_text_def json_get_def read_to_string_def fs_read_def fs_write_def fs_files_def fs_exists_def file_at_def
  os_path_def os_step_def is_absolute_def starts_with_def valid_utf8_def

definition ex_copies :: "string \<Rightarrow> string \<Rightarrow> fs" where
  "ex_copies body other = \<lparr>fs_root = Dir [(''f'', File (''a'' @ LF @ ''b'' @ LF @ ''c'' @ LF)), (''o'', File other),
     (''s'', Dir [(''work'', Dir [(''f'', File body)])])], fs_cwd = []\<rparr>"

lemma ex_edit_args:
  "reroot_sandbox_args ''edit'' ex_edit (Some (LocalSandbox ''/s'')) =
     JObject [(''file_path'', JString ''/s/work/f''), (''old_string'', JString ''b''), (''new_string'', JString ''x'')]"
  by (simp add: reroot_sandbox_args_def path_keys_def ex_edit_def local_resolve_def strip_root_def path_join_def ends_with_def
      ex_tool_defs obj_insert.simps Let_def)

lemma ex_edit_run:
  "edit_execute (ex_copies (''a'' @ LF @ ''b'' @ LF @ ''c'' @ LF) ''new'') (reroot_sandbox_args ''edit'' ex_edit (Some (LocalSandbox ''/s'')))
     = (output_ok ''Edited /s/work/f'', ex_copies (''a'' @ LF @ ''x'' @ LF @ ''c'' @ LF) ''new'')"
  unfolding ex_edit_args
  by (simp add: edit_execute_def ex_copies_def ex_tool_defs str_contains_def str_find.simps Let_def)

text \<open>In a sandbox that holds a copy of the workspace, with another file changed between the preview and the run.\<close>

theorem preview_shows_change_witness:
  "\<exists>d new. ar_diff (make_request (ex_copies (''a'' @ LF @ ''b'' @ LF @ ''c'' @ LF) ''old'') ''edit'' ex_edit) = Some d
    \<and> d = diff ''/f'' (Some (''a'' @ LF @ ''b'' @ LF @ ''c'' @ LF)) new
    \<and> fs_files (snd (edit_execute (ex_copies (''a'' @ LF @ ''b'' @ LF @ ''c'' @ LF) ''new'')
        (reroot_sandbox_args ''edit'' ex_edit (Some (LocalSandbox ''/s''))))) [''s'', ''work'', ''f''] = Some new"
proof -
  let ?body = "''a'' @ LF @ ''b'' @ LF @ ''c'' @ LF"
  have "\<exists>d. ar_diff (make_request (ex_copies ?body ''old'') ''edit'' ex_edit) = Some d"
    by (simp add: make_request_def captured_diff_def before_write_def simulate_edit_content_def simulate_edit_def
        ex_edit_def ex_copies_def ex_tool_defs str_find.simps Let_def)
  then obtain d where d: "ar_diff (make_request (ex_copies ?body ''old'') ''edit'' ex_edit) = Some d" by blast
  have p: "arg_text ex_edit ''file_path'' = ''/f''"
    "arg_text (reroot_sandbox_args ''edit'' ex_edit (Some (LocalSandbox ''/s''))) ''file_path'' = ''/s/work/f''"
    unfolding ex_edit_args by (simp_all add: ex_edit_def ex_tool_defs)
  have q: "loc (ex_copies b o') ''/s/work/f'' = [''s'', ''work'', ''f'']" "fs_files (ex_copies b o') [''s'', ''work'', ''f''] = Some b"
    "before_write (ex_copies ?body ''new'') ''/s/work/f'' = before_write (ex_copies ?body ''old'') ''/f''" for b o'
    by (simp_all add: ex_copies_def before_write_def ex_tool_defs)
  from preview_shows_change [OF d refl disjI2 [OF conjI [OF refl ex_edit_run]]] obtain new where
    new: "d = diff ''/f'' (Some ?body) new" "fs_files (ex_copies (''a'' @ LF @ ''x'' @ LF @ ''c'' @ LF) ''new'')
      = (fs_files (ex_copies ?body ''new''))([''s'', ''work'', ''f''] \<mapsto> new)"
    unfolding p q output_ok_def by auto
  then have "fs_files (snd (edit_execute (ex_copies ?body ''new'') (reroot_sandbox_args ''edit'' ex_edit (Some (LocalSandbox ''/s'')))))
      [''s'', ''work'', ''f''] = Some new"
    unfolding ex_edit_run snd_conv by (metis fun_upd_same)
  with d new(1) show ?thesis by blast
qed

theorem read_lines_witness:
  "read_execute ex_disk (JObject [(''file_path'', JString ''/f''), (''offset'', JNumber (PosInt 2)), (''limit'', JNumber (PosInt 1))])
     = Some (output_ok ''b'')
   \<and> read_execute ex_disk (JObject [(''file_path'', JString ''/f''), (''offset'', JNumber (PosInt 2)), (''limit'', JNumber (PosInt (- 1)))]) = None"
proof -
  have r: "read_to_string ex_disk ''/f'' = Inr (''a'' @ LF @ ''b'' @ LF @ ''c'' @ LF)"
    by (simp add: ex_disk_def ex_tool_defs)
  have l: "str_lines (''a'' @ LF @ ''b'' @ LF @ ''c'' @ LF) = [''a'', ''b'', ''c'']"
    by (simp add: str_lines_def split_lf.simps strip_cr_def Let_def)
  have s: "line_start (Some 2) = 1" by (simp add: line_start_def saturating_sub_def)
  let ?args = "\<lambda>n. JObject [(''file_path'', JString ''/f''), (''offset'', JNumber (PosInt 2)), (''limit'', JNumber (PosInt n))]"
  have a: "arg_text (?args n) ''file_path'' = ''/f''" "as_u64 (json_get (?args n) ''offset'') = Some 2"
    "as_u64 (json_get (?args n) ''limit'') = Some n" for n
    by (simp_all add: arg_text_def json_get_def)
  have "read_execute ex_disk (?args n) =
    (if 1 + unat n < 2 ^ 64 then Some (output_ok (join LF (take (unat n) [''b'', ''c'']))) else None)" for n
    using read_lines [OF a(1) [of n] _ r a(2) [of n] a(3) [of n]] unfolding l s by simp
  from this [of 1] this [of "- 1"] show ?thesis by (simp add: unsigned_minus_1_eq_mask mask_eq_exp_minus_1)
qed

section \<open>The distance of names\<close>

text \<open>The number of insertions, deletions and substitutions with which one word is turned into another.\<close>

inductive edits :: "nat \<Rightarrow> 'a list \<Rightarrow> 'a list \<Rightarrow> bool" where
  nil: "edits 0 [] []"
| keep: "edits n xs ys \<Longrightarrow> edits n (xs @ [x]) (ys @ [x])"
| subst: "edits n xs ys \<Longrightarrow> edits (Suc n) (xs @ [x]) (ys @ [y])"
| ins: "edits n xs ys \<Longrightarrow> edits (Suc n) xs (ys @ [y])"
| del: "edits n xs ys \<Longrightarrow> edits (Suc n) (xs @ [x]) ys"

text \<open>The recursion behind the table, from the back of the words.\<close>

fun lev :: "'a list \<Rightarrow> 'a list \<Rightarrow> nat" where
  "lev [] ys = length ys"
| "lev (x # xs) [] = Suc (length xs)"
| "lev (x # xs) (y # ys) = min (min (lev xs (y # ys) + 1) (lev (x # xs) ys + 1)) (lev xs ys + (if x = y then 0 else 1))"

lemma lev_Nil [simp]: "lev xs [] = length xs"
  by (cases xs) auto

lemma lev_Cons_le: "lev (x # xs) ys \<le> Suc (lev xs ys)" "lev xs (y # ys) \<le> Suc (lev xs ys)"
  by (cases ys; simp; fail) (cases xs; simp; fail)

lemma lev_Cons_Cons_le: "lev (x # xs) (y # ys) \<le> lev xs ys + (if x = y then 0 else 1)"
  by simp

lemma edits_lev: "edits n xs ys \<Longrightarrow> lev (rev xs) (rev ys) \<le> n"
proof (induction rule: edits.induct)
  case (keep n xs ys x)
  then show ?case using lev_Cons_Cons_le [of x "rev xs" x "rev ys"] by simp
next
  case (subst n xs ys x y)
  then show ?case by (auto simp: min_le_iff_disj)
next
  case (ins n xs ys y)
  then show ?case using lev_Cons_le(2) [of "rev xs" y "rev ys"] by simp
next
  case (del n xs ys x)
  then show ?case using lev_Cons_le(1) [of x "rev xs" "rev ys"] by simp
qed simp

lemma edits_all: "edits (length ys) [] ys" "edits (length xs) xs []"
proof -
  show "edits (length ys) [] ys" by (induction ys rule: rev_induct) (auto intro: edits.intros)
  show "edits (length xs) xs []" by (induction xs rule: rev_induct) (auto intro: edits.intros)
qed

lemma lev_edits: "edits (lev xs ys) (rev xs) (rev ys)"
proof (induction xs ys rule: lev.induct)
  case (1 ys)
  then show ?case using edits_all(1) [of "rev ys"] by simp
next
  case (2 x xs)
  then show ?case using edits_all(2) [of "rev (x # xs)"] by simp
next
  case (3 x xs y ys)
  have a: "edits (lev xs (y # ys) + 1) (rev (x # xs)) (rev (y # ys))" using edits.del [OF "3.IH"(1), of x] by simp
  have b: "edits (lev (x # xs) ys + 1) (rev (x # xs)) (rev (y # ys))" using edits.ins [OF "3.IH"(2), of y] by simp
  have c: "edits (lev xs ys + (if x = y then 0 else 1)) (rev (x # xs)) (rev (y # ys))"
    using edits.keep [OF "3.IH"(3), of x] edits.subst [OF "3.IH"(3), of x y] by (cases "x = y") simp_all
  show ?case unfolding lev.simps min_def using a b c by (simp del: rev.simps split: if_splits)
qed

lemma length_distance_cells [simp]: "length (distance_cells ca bs prev left) = length bs"
  by (induction bs arbitrary: prev left) (simp_all add: Let_def)

text \<open>A cell of the table is the distance of two prefixes.\<close>

lemma distance_cells_lev:
  assumes "\<And>j. j \<le> length bs \<Longrightarrow> prev ! j = lev xs (rev (take j bs) @ zs)" "length prev = Suc (length bs)"
    and "left = lev (ca # xs) zs" "j < length bs"
  shows "distance_cells ca bs prev left ! j = lev (ca # xs) (rev (take (Suc j) bs) @ zs)"
  using assms
proof (induction bs arbitrary: prev left zs j)
  case (Cons cb bs)
  obtain p q ps where prev: "prev = p # q # ps" using Cons.prems(2) by (cases prev; cases "tl prev") auto
  have p: "p = lev xs zs" using Cons.prems(1) [of 0] by (simp add: prev)
  have q: "q = lev xs (cb # zs)" using Cons.prems(1) [of 1] by (simp add: prev)
  let ?c = "min (min (q + 1) (left + 1)) (p + (if ca = cb then 0 else 1))"
  have c: "?c = lev (ca # xs) (cb # zs)" by (simp add: p q Cons.prems(3))
  have cells: "distance_cells ca (cb # bs) prev left = ?c # distance_cells ca bs (q # ps) ?c"
    by (simp add: prev Let_def)
  show ?case
  proof (cases j)
    case 0
    then show ?thesis by (simp only: cells c nth_Cons_0) simp
  next
    case (Suc i)
    have "distance_cells ca bs (q # ps) ?c ! i = lev (ca # xs) (rev (take (Suc i) bs) @ (cb # zs))"
    proof (rule Cons.IH)
      show "(q # ps) ! k = lev xs (rev (take k bs) @ (cb # zs))" if "k \<le> length bs" for k
        using Cons.prems(1) [of "Suc k"] that by (simp add: prev)
      show "length (q # ps) = Suc (length bs)" using Cons.prems(2) by (simp add: prev)
      show "?c = lev (ca # xs) (cb # zs)" by (fact c)
      show "i < length bs" using Cons.prems(4) Suc by simp
    qed
    then show ?thesis by (simp only: cells Suc nth_Cons_Suc) simp
  qed
qed simp

lemma distance_table:
  "length (foldl (distance_row bs) [0 ..< length bs + 1] (enumerate 0 as)) = Suc (length bs) \<and>
   (\<forall>j \<le> length bs. foldl (distance_row bs) [0 ..< length bs + 1] (enumerate 0 as) ! j = lev (rev as) (rev (take j bs)))"
proof (induction as rule: rev_induct)
  case Nil
  have "[0 ..< length bs + 1] ! j = j" if "j \<le> length bs" for j using that by (simp del: upt_Suc)
  then show ?case by (simp del: upt_Suc)
next
  case (snoc a as)
  let ?prev = "foldl (distance_row bs) [0 ..< length bs + 1] (enumerate 0 as)"
  let ?row = "(length as + 1) # distance_cells a bs ?prev (length as + 1)"
  have row: "foldl (distance_row bs) [0 ..< length bs + 1] (enumerate 0 (as @ [a])) = ?row"
    by (simp add: enumerate_append_eq distance_row_def del: upt_Suc)
  have "?row ! j = lev (rev (as @ [a])) (rev (take j bs))" if "j \<le> length bs" for j
  proof (cases j)
    case (Suc i)
    then show ?thesis
      using distance_cells_lev [of bs ?prev "rev as" "[]" "length as + 1" a i] snoc that by (simp del: upt_Suc)
  qed simp
  then show ?case unfolding row by simp
qed

text \<open>The distance behind the suggestions for a mistyped name is the edit distance: the names can be turned into one
  another with that many insertions, deletions and substitutions of characters, and not with fewer.\<close>

theorem edit_distance_least:
  "edits (edit_distance a b) (utf8_chars a) (utf8_chars b) \<and>
   {n. edits n (utf8_chars a) (utf8_chars b) \<and> n < edit_distance a b} = {}"
proof -
  have d: "edit_distance a b = lev (rev (utf8_chars a)) (rev (utf8_chars b))"
    using distance_table [of "utf8_chars b" "utf8_chars a"] by (simp add: edit_distance_def Let_def del: upt_Suc)
  show ?thesis using lev_edits [of "rev (utf8_chars a)" "rev (utf8_chars b)"] edits_lev [of _ "utf8_chars a" "utf8_chars b"]
    by (auto simp: d not_less [symmetric])
qed

section \<open>The preview inside a sandbox\<close>

text \<open>Inside a sandbox the preview is taken from the path as the model gave it, the tool gets the path
  below the root of the sandbox.\<close>

lemma sandbox_preview_other_file:
  "\<exists>d. ar_diff (make_request \<lparr>fs_root = Dir [(''f'', File ''b''), (''s'', Dir [(''work'', Dir [(''f'', File ''abc'')])])], fs_cwd = []\<rparr>
        ''edit'' ex_edit) = Some d
     \<and> d = diff ''/f'' (Some ''b'') ''x''
     \<and> arg_text (reroot_sandbox_args ''edit'' ex_edit (Some (LocalSandbox ''/s''))) ''file_path'' = ''/s/work/f''"
  by (simp add: make_request_def captured_diff_def before_write_def simulate_edit_content_def simulate_edit_def
      ex_edit_def ex_tool_defs str_find.simps reroot_sandbox_args_def path_keys_def local_resolve_def strip_root_def path_join_def
      ends_with_def Let_def)

section \<open>Patches inside a sandbox\<close>

lemma local_resolve_below:
  assumes "''..'' \<notin> set (comps p)"
  shows "\<exists>cs. os_path cwd (local_resolve rt p) = os_path cwd rt @ ''work'' # cs"
proof -
  have "prefix (os_path cwd rt @ [''work'']) (os_path cwd (local_resolve rt p))"
    unfolding local_resolve_os_path using assms by (intro foldl_os_step_prefix) (simp add: comps_strip_root)
  then show ?thesis by (auto simp: prefix_def)
qed

lemma local_resolve_absolute: "is_absolute rt \<Longrightarrow> is_absolute (local_resolve rt p)"
  by (simp add: local_resolve_def is_absolute_join)

lemma patch_base_cases:
  "patch_base tc args = (if arg_text args ''base_path'' \<noteq> [] then arg_text args ''base_path''
     else case tc_workspace_dir tc of Some d \<Rightarrow> d | None \<Rightarrow> ''.'')"
  by (auto simp: patch_base_def arg_text_def split: option.splits)

lemma reroot_patch_args:
  "arg_text (reroot_sandbox_args ''apply_patch'' args (Some sb)) ''base_path'' =
     (if arg_text args ''base_path'' = [] then [] else sb_resolve_path sb (arg_text args ''base_path''))"
proof (cases args)
  case (JObject obj)
  then show ?thesis
    by (auto simp: reroot_sandbox_args_def path_keys_def reroot_keys_one arg_text_def json_get_def map_of_obj_insert
        split: option.splits)
qed (simp_all add: reroot_sandbox_args_def arg_text_def json_get_def)

lemma sandboxed_base:
  assumes "is_absolute rt" "''..'' \<notin> set (comps (arg_text args ''base_path''))"
    and base_def: "base = patch_base (sandbox_context tc (Some (LocalSandbox rt))) (reroot_sandbox_args ''apply_patch'' args (Some (LocalSandbox rt)))"
  shows "is_absolute base \<and> (\<exists>cs. loc f base = loc f rt @ ''work'' # cs)"
proof (cases "arg_text args ''base_path'' = []")
  case True
  then have "base = path_join rt ''work''"
    by (simp add: base_def patch_base_cases reroot_patch_args sandbox_context_def sb_work_dir_def)
  then show ?thesis using assms(1) by (simp add: is_absolute_join os_path_join plain_name_def)
next
  case False
  moreover have "local_resolve rt p \<noteq> []" for p using local_resolve_absolute [OF assms(1), of p] by (auto simp: is_absolute_def starts_with_def)
  ultimately have "base = local_resolve rt (arg_text args ''base_path'')"
    by (simp add: base_def patch_base_cases reroot_patch_args)
  with assms(1,2) show ?thesis by (simp add: local_resolve_absolute local_resolve_below)
qed

lemma execute_patch_disk:
  assumes "execute_patch debug clock disk args tc = (out, disk')"
  shows "disk' = disk \<or> (\<exists>d res. process_patch clock disk (patch_base tc args) d = (res, disk'))"
proof -
  obtain r g where "process_patch clock disk (patch_base tc args) (arg_text args ''diff'') = (r, g)" by fastforce
  with assms show ?thesis
    by (cases r) (auto simp: execute_patch_def apply_patch_multi_def Let_def split: if_splits)
qed

text \<open>C15. A patch inside a local sandbox stays inside. The sandbox's root is absolute and the base path of the call, if it gives
  one, has no \<open>..\<close>; the links below the directory the patch is applied to stay below it, none lies on the way to it, and none has the name of
  its temporary file. Then the tool that the agent calls with the re-rooted arguments leaves every file and every link outside
  the sandbox's root as it is, whatever the diff says and however it ends.\<close>

theorem sandboxed_patch_confined:
  assumes "is_absolute rt" "''..'' \<notin> set (comps (arg_text args ''base_path''))"
    and "args' = reroot_sandbox_args ''apply_patch'' args (Some (LocalSandbox rt))" "tc' = sandbox_context tc (Some (LocalSandbox rt))"
    and "base = loc (ld_fs disk) (patch_base tc' args')" "links_stay (ld_links disk) base"
    and "\<forall>k t. (os_path [] (tmp_path (path_string True base) (clock k)), t) \<notin> set (ld_links disk)"
    and "execute_patch debug clock disk args' tc' = (out, disk')" "\<not> prefix (loc (ld_fs disk) rt) q"
  shows "fs_files (ld_fs disk') q = fs_files (ld_fs disk) q \<and> map_of (ld_links disk') q = map_of (ld_links disk) q"
proof -
  let ?rt = "loc (ld_fs disk) rt" and ?base = "patch_base tc' args'"
  obtain cs where b: "is_absolute ?base" "base = ?rt @ ''work'' # cs"
    using sandboxed_base [OF assms(1,2) refl, of tc "ld_fs disk"] unfolding assms(3-5) by blast
  have base: "os_path [] ?base = base" using b(1) assms(5) os_path_absolute by metis
  consider "disk' = disk" | d res where "process_patch clock disk ?base d = (res, disk')"
    using execute_patch_disk [OF assms(8)] by blast
  then show ?thesis
  proof cases
    case 2
    have pl: "list_all plain_name base" using b(1) os_path_plain assms(5) by blast
    have safe: "safe_links base clock (ld_links disk)" using assms(6,7) by (auto simp: safe_links_def root_tmp_def)
    have "prefix ?rt (butlast base)" by (simp add: b(2) butlast_append)
    then have "\<not> root_tmp base clock q" using assms(9) pl b(2) by (auto elim: root_tmp_at)
    moreover have "\<not> prefix base q" using assms(9) b(2) by (metis append_prefixD)
    ultimately show ?thesis
      using process_patch_inside [OF b(1) 2] safe b(2) base by (auto simp: inside_only_def)
  qed simp
qed

text \<open>A patch that changes the sandbox's copy of a file and leaves the file of the same name outside alone.\<close>

definition ex_sandbox_disk :: "string \<Rightarrow> linked_disk" where
  "ex_sandbox_disk body = plain \<lparr>fs_root = Dir [(''f'', File (''x'' @ LF)), (''s'', Dir [(''work'', Dir [(''f'', File (body @ LF))])])], fs_cwd = []\<rparr>"

lemma ex_sandbox_process:
  "process_patch (\<lambda>_. 7) (ex_sandbox_disk ''x'') ''/s/work'' ex_diff =
     (Inr \<lparr>ao_files = [''f''], ao_fuzz = Exact\<rparr>, ex_sandbox_disk ''y'')"
proof -
  let ?d = "ex_sandbox_disk ''x''"
  have r: "resolve_target ?d ''/s/work'' ''f'' = Inr ''/s/work/f''"
    by (simp add: resolve_target_def path_defs ex_sandbox_disk_def Let_def)
  have o: "read_original ?d ''/s/work/f'' = Inr (''x'' @ LF)"
    by (simp add: read_original_def read_to_string_def path_defs ex_sandbox_disk_def valid_utf8_def)
  have p: "plan_commit ?d ''/s/work'' [ex_change] =
     Inr ([\<lparr>pw_target = ''/s/work/f'', pw_content = Some (''y'' @ LF), pw_rel = ''f'', pw_remove_source = None\<rparr>],
       [ex_change\<lparr>fc_content := Some (''y'' @ LF)\<rparr>])"
    by (simp add: plan_change_def ex_change_def r o Let_def)
      (simp add: split_lines_keep_endings.simps Let_def apply_hunks_def locate_hunk_def hunk_anchor_len_def try_at_def
        hunk_anchors_level_def match_defs)
  show ?thesis
    by (simp add: process_patch_def ex_commit apply_commit_def p del: plan_commit.simps)
      (simp add: ex_change_def write_defs fs_rename_def fs_create_dir_all_def fs_write_def fs_remove_file_def fs_read_def
        path_defs ex_sandbox_disk_def Let_def)
qed

lemma show_one: "show_nat (Suc 0) = ''1''"
  by code_simp

theorem sandboxed_patch_confined_witness:
  "\<exists>disk'. execute_patch (\<lambda>s. s) (\<lambda>_. 7) (ex_sandbox_disk ''x'')
      (reroot_sandbox_args ''apply_patch'' (JObject [(''diff'', JString ex_diff)]) (Some (LocalSandbox ''/s'')))
      (sandbox_context tool_context_new (Some (LocalSandbox ''/s''))) = (output_ok (''Applied patch to 1 file(s):'' @ LF @ ''- f''), disk')
    \<and> fs_files (ld_fs disk') [''s'', ''work'', ''f''] = Some (''y'' @ LF) \<and> fs_files (ld_fs disk') [''f''] = Some (''x'' @ LF)"
proof -
  let ?args = "JObject [(''diff'', JString ex_diff)]" and ?disk = "ex_sandbox_disk ''x''"
  let ?args' = "reroot_sandbox_args ''apply_patch'' ?args (Some (LocalSandbox ''/s''))"
  let ?tc = "sandbox_context tool_context_new (Some (LocalSandbox ''/s''))"
  have a: "arg_text ?args' ''base_path'' = []" "arg_text ?args' ''diff'' = ex_diff"
    by (simp_all add: reroot_sandbox_args_def path_keys_def reroot_keys_one arg_text_def json_get_def)
  have base: "patch_base ?tc ?args' = ''/s/work''"
    by (simp add: patch_base_cases a sandbox_context_def sb_work_dir_def path_defs)
  have diff: "ex_diff \<noteq> []" by (simp add: ex_diff_def)
  have e: "execute_patch (\<lambda>s. s) (\<lambda>_. 7) ?disk ?args' ?tc
      = (output_ok (''Applied patch to 1 file(s):'' @ LF @ ''- f''), ex_sandbox_disk ''y'')"
    unfolding execute_patch_def a base by (simp add: diff apply_patch_multi_def ex_sandbox_process show_one)
  have "is_absolute ''/s''" "''..'' \<notin> set (comps (arg_text ?args ''base_path''))" "\<not> prefix (loc (ld_fs ?disk) ''/s'') [''f'']"
    "ld_links ?disk = []"
    by (simp_all add: ex_tool_defs ex_sandbox_disk_def)
  with sandboxed_patch_confined [OF _ _ refl refl refl _ _ e, of "[''f'']"] e show ?thesis
    by (auto simp: ex_sandbox_disk_def fs_files_def file_at_def)
qed

end
