(* ===== verification/Event_Stream.thy ===== *)
theory Event_Stream
  imports Protocol
begin

text \<open>
  Server-sent events as the providers read them (\<open>sentinel-provider/src/route/framing.rs\<close> and the
  same loop in \<open>openai.rs\<close>, \<open>google.rs\<close> and \<open>local.rs\<close>): the body of a response arrives in chunks of bytes
  that are cut anywhere, a buffer holds what is not yet a whole event, and every event that is
  complete is taken off the buffer and handed to the provider line by line. What the consumer of the
  channel sees is the list of the items sent, as long as it keeps the receiver. The locale
  \<open>chunked_reader\<close> has the law by which the cuts do not matter; each provider's reader interprets it.
\<close>

section \<open>Decoding bytes\<close>

text \<open>\<open>String::from_utf8_lossy\<close>: a sequence that is no character becomes one replacement character.
  \<open>utf8_step\<close> gives the length of the next sequence and whether it is a character; reading past the
  end gives 0.\<close>

definition replacement_char :: string where
  "replacement_char = [CHR 0xEF, CHR 0xBF, CHR 0xBD]"

definition utf8_step :: "string \<Rightarrow> nat \<times> bool" where
  "utf8_step s =
     (let b = (\<lambda>i. if i < length s then (of_char (s ! i) :: nat) else 0);
          cont = (\<lambda>i. 128 \<le> b i \<and> b i < 192) in
      if b 0 < 128 then (1, True)
      else if 194 \<le> b 0 \<and> b 0 < 224 then (if cont 1 then (2, True) else (1, False))
      else if 224 \<le> b 0 \<and> b 0 < 240 then
        (if \<not> (cont 1 \<and> (b 0 = 224 \<longrightarrow> 160 \<le> b 1) \<and> (b 0 = 237 \<longrightarrow> b 1 < 160)) then (1, False)
         else if cont 2 then (3, True) else (2, False))
      else if 240 \<le> b 0 \<and> b 0 < 245 then
        (if \<not> (cont 1 \<and> (b 0 = 240 \<longrightarrow> 144 \<le> b 1) \<and> (b 0 = 244 \<longrightarrow> b 1 < 144)) then (1, False)
         else if \<not> cont 2 then (2, False)
         else if cont 3 then (4, True) else (3, False))
      else (1, False))"

function from_utf8_lossy :: "string \<Rightarrow> string" where
  "from_utf8_lossy s =
     (if s = [] then []
      else let (n, ok) = utf8_step s in
           (if ok then take n s else replacement_char) @ from_utf8_lossy (drop n s))"
  by pat_completeness auto
termination
  by (relation "measure length") (auto simp: utf8_step_def Let_def split: if_splits)

declare from_utf8_lossy.simps [simp del]

lemma from_utf8_lossy_nil [simp]: "from_utf8_lossy [] = []"
  by (simp add: from_utf8_lossy.simps)

lemma valid_bytes_step:
  assumes "valid_bytes (map of_char s)" "s \<noteq> []"
  shows "\<exists>n. utf8_step s = (n, True) \<and> valid_bytes (map of_char (drop n s))"
proof -
  obtain a r where s: "s = a # r" using assms(2) by (cases s) auto
  let ?a = "of_char a :: nat" and ?cont = "\<lambda>c :: char. 128 \<le> (of_char c :: nat) \<and> (of_char c :: nat) < 192"
  have v: "valid_bytes (?a # map of_char r)" using assms(1) s by simp
  consider "?a < 128" | "194 \<le> ?a" "?a < 224" | "224 \<le> ?a" "?a < 240" | "240 \<le> ?a" "?a < 245"
    using v by (fastforce simp: Let_def split: if_splits)
  then show ?thesis
  proof cases
    case 1
    with v show ?thesis by (intro exI [of _ 1]) (simp add: s utf8_step_def)
  next
    case 2
    with v obtain b r' where "r = b # r'" "?cont b" "valid_bytes (map of_char r')"
      by (simp add: Let_def split: list.splits) blast
    with 2 show ?thesis by (intro exI [of _ 2]) (simp add: s utf8_step_def Let_def)
  next
    case 3
    with v obtain b c r' where "r = b # c # r'" "?cont b" "?cont c" "?a = 224 \<longrightarrow> 160 \<le> (of_char b :: nat)"
      "?a = 237 \<longrightarrow> (of_char b :: nat) < 160" "valid_bytes (map of_char r')"
      by (simp add: Let_def split: list.splits) blast
    with 3 show ?thesis by (intro exI [of _ 3]) (simp add: s utf8_step_def Let_def)
  next
    case 4
    with v obtain b c d r' where "r = b # c # d # r'" "?cont b" "?cont c" "?cont d" "?a = 240 \<longrightarrow> 144 \<le> (of_char b :: nat)"
      "?a = 244 \<longrightarrow> (of_char b :: nat) < 144" "valid_bytes (map of_char r')"
      by (simp add: Let_def split: list.splits) blast
    with 4 show ?thesis by (intro exI [of _ 4]) (simp add: s utf8_step_def Let_def)
  qed
qed

lemma valid_bytes_append: "valid_bytes xs \<Longrightarrow> valid_bytes ys \<Longrightarrow> valid_bytes (xs @ ys)"
proof (induction xs rule: valid_bytes.induct)
  case (2 a bs)
  then show ?case by (auto simp: Let_def split: if_splits list.splits)
qed simp

lemma valid_utf8_append: "valid_utf8 s \<Longrightarrow> valid_utf8 t \<Longrightarrow> valid_utf8 (s @ t)"
  by (simp add: valid_utf8_def valid_bytes_append)

text \<open>Text that is well-formed is left as it is.\<close>

lemma from_utf8_lossy_valid: "valid_utf8 s \<Longrightarrow> from_utf8_lossy s = s"
proof (induction s rule: from_utf8_lossy.induct)
  case (1 s)
  show ?case
  proof (cases "s = []")
    case False
    with valid_bytes_step [of s] 1(2) obtain n where n: "utf8_step s = (n, True)" "valid_utf8 (drop n s)"
      by (auto simp: valid_utf8_def)
    with 1(1) [OF False] have "from_utf8_lossy (drop n s) = drop n s" by simp
    with False n show ?thesis by (subst from_utf8_lossy.simps) simp
  qed simp
qed

section \<open>Events\<close>

text \<open>The blank line that ends an event, and the loop that takes the finished events off the buffer.\<close>

definition blank :: string where "blank = LF @ LF"

lemma str_find_bound: "str_find s p = Some i \<Longrightarrow> i + length p \<le> length s"
proof (induction s arbitrary: i)
  case Nil
  then show ?case by (subst (asm) str_find.simps) (auto simp: starts_with_def split: if_splits)
next
  case (Cons c s)
  show ?case
  proof (cases "starts_with (c # s) p")
    case True
    with Cons.prems have "i = 0" by (simp add: str_find.simps)
    with True show ?thesis using prefix_length_le [of p "c # s"] by (simp add: starts_with_prefix)
  next
    case False
    with Cons.prems obtain j where "str_find s p = Some j" "i = Suc j" by (subst (asm) str_find.simps) auto
    with Cons.IH show ?thesis by fastforce
  qed
qed

function split_events :: "string \<Rightarrow> string list \<times> string" where
  "split_events buffer =
     (case str_find buffer blank of
        None \<Rightarrow> ([], buffer)
      | Some pos \<Rightarrow> let (es, rest) = split_events (drop (pos + 2) buffer) in (take pos buffer # es, rest))"
  by pat_completeness auto
termination
  by (relation "measure length") (auto dest: str_find_bound simp: blank_def)

declare split_events.simps [simp del]

text \<open>The reading loop: a failed read is passed on and ends the stream; what is left in the buffer at the
  end is dropped.\<close>

fun read_events :: "(string \<Rightarrow> 'a list) \<Rightarrow> (string \<Rightarrow> 'a) \<Rightarrow> string \<Rightarrow> (string + string) list \<Rightarrow> 'a list" where
  "read_events emit fail buffer [] = []"
| "read_events emit fail buffer (Inl e # chunks) = [fail e]"
| "read_events emit fail buffer (Inr bytes # chunks) =
     (let (events, rest) = split_events (buffer @ bytes) in
      concat (map (\<lambda>ev. emit (from_utf8_lossy ev)) events) @ read_events emit fail rest chunks)"

section \<open>Readers that do not see the cuts\<close>

locale chunked_reader =
  fixes drain :: "string \<Rightarrow> 'e list \<times> string"
  assumes drain_more: "drain b = (es, r) \<Longrightarrow> drain (b @ c) = (es @ fst (drain (r @ c)), snd (drain (r @ c)))"
begin

fun feed :: "string \<Rightarrow> string list \<Rightarrow> 'e list \<times> string" where
  "feed r [] = ([], r)"
| "feed r (c # cs) = (let (es, r') = drain (r @ c); (fs, r'') = feed r' cs in (es @ fs, r''))"

lemma drain_rest: "drain b = (es, r) \<Longrightarrow> drain r = ([], r)"
  using drain_more [of b es r "[]"] by (cases "drain r") auto

lemma feed_concat:
  assumes "drain r = ([], r)"
  shows "feed r cs = drain (r @ concat cs)"
  using assms
proof (induction cs arbitrary: r)
  case (Cons c cs)
  obtain es r' where d: "drain (r @ c) = (es, r')" by fastforce
  with Cons.IH [of r'] drain_rest have "feed r' cs = drain (r' @ concat cs)" by blast
  then show ?case using drain_more [OF d, of "concat cs"] d by (simp split: prod.splits)
qed simp

theorem cuts_irrelevant:
  assumes "drain [] = ([], [])" "concat cs = concat ds"
  shows "feed [] cs = feed [] ds"
  using assms by (simp add: feed_concat)

end

text \<open>Splitting at blank lines is such a reader: what has been taken off is not changed by what follows.\<close>

lemma str_find_append: "str_find s p = Some i \<Longrightarrow> str_find (s @ t) p = Some i"
proof (induction s arbitrary: i)
  case Nil
  then show ?case by (subst (asm) str_find.simps) (auto simp: starts_with_def str_find.simps split: if_splits)
next
  case (Cons c s)
  have pre: "starts_with (c # s) p \<Longrightarrow> starts_with (c # s @ t) p"
    by (metis append_Cons starts_with_prefix prefix_append)
  show ?case
  proof (cases "starts_with (c # s) p")
    case True
    with Cons.prems pre show ?thesis by (simp add: str_find.simps)
  next
    case False
    then obtain j where j: "str_find s p = Some j" "i = Suc j"
      using Cons.prems by (subst (asm) str_find.simps) auto
    have "\<not> starts_with (c # s @ t) p"
    proof
      assume "starts_with (c # s @ t) p"
      then have "take (length p) (c # s @ t) = p" by (simp add: starts_with_def)
      moreover have "length p \<le> length (c # s)" using str_find_bound [OF j(1)] by simp
      ultimately have "take (length p) (c # s) = p" by (metis append_Cons take_append append_Nil2 diff_is_0_eq take0)
      with False show False by (simp add: starts_with_def)
    qed
    with Cons.IH [OF j(1)] j(2) show ?thesis by (subst str_find.simps) simp
  qed
qed

lemma split_events_more:
  "split_events b = (es, r) \<Longrightarrow> split_events (b @ c) = (es @ fst (split_events (r @ c)), snd (split_events (r @ c)))"
proof (induction b arbitrary: es rule: split_events.induct)
  case (1 b)
  show ?case
  proof (cases "str_find b blank")
    case None
    with 1(2) show ?thesis by (subst (asm) split_events.simps) simp
  next
    case (Some pos)
    obtain fs r' where d: "split_events (drop (pos + 2) b) = (fs, r')" by fastforce
    with 1(2) Some have es: "es = take pos b # fs" "r' = r" by (subst (asm) split_events.simps, simp)+
    have len: "pos + 2 \<le> length b" using str_find_bound [OF Some] by (simp add: blank_def)
    have ih: "split_events (drop (pos + 2) b @ c) = (fs @ fst (split_events (r @ c)), snd (split_events (r @ c)))"
      using 1(1) [OF Some] d es by blast
    show ?thesis
      using len ih by (subst split_events.simps) (simp add: str_find_append [OF Some] es)
  qed
qed

lemma split_events_nil [simp]: "split_events [] = ([], [])"
  by (subst split_events.simps, subst str_find.simps) (simp add: starts_with_def blank_def)

interpretation sse: chunked_reader split_events
  by unfold_locales (rule split_events_more)

lemma read_events_feed:
  "read_events emit fail b (map Inr cs) = concat (map (\<lambda>ev. emit (from_utf8_lossy ev)) (fst (sse.feed b cs)))"
  by (induction cs arbitrary: b) (simp_all split: prod.splits)

text \<open>The items of a stream are those of the events of its whole text, then the error if a read fails.\<close>

lemma read_events_whole:
  "read_events emit fail [] (map Inr cs) = concat (map (\<lambda>ev. emit (from_utf8_lossy ev)) (fst (split_events (concat cs))))"
  using sse.feed_concat [of "[]" cs] by (simp add: read_events_feed)

lemma read_events_error:
  "read_events emit fail b (map Inr cs @ Inl e # rest) = read_events emit fail b (map Inr cs) @ [fail e]"
  by (induction cs arbitrary: b) (simp_all split: prod.splits)

section \<open>A well-formed stream\<close>

text \<open>What a server sends for a list of payloads, one event each.\<close>

definition sse_encode :: "string list \<Rightarrow> string" where
  "sse_encode ps = concat (map (\<lambda>p. ''data: '' @ p @ blank) ps)"

lemma str_find_first: "CHR 0x0A \<notin> set a \<Longrightarrow> str_find (a @ blank @ t) blank = Some (length a)"
proof (induction a)
  case Nil
  show ?case by (simp add: str_find.simps)
next
  case (Cons c a)
  then have "\<not> starts_with (c # a @ blank @ t) blank" by (auto simp: starts_with_def blank_def)
  with Cons show ?case by (subst str_find.simps) simp
qed

lemma split_events_encode:
  "list_all (\<lambda>p. CHR 0x0A \<notin> set p) ps \<Longrightarrow> split_events (sse_encode ps) = (map ((@) ''data: '') ps, [])"
proof (induction ps)
  case Nil
  show ?case by (simp add: sse_encode_def)
next
  case (Cons p ps)
  have e: "sse_encode (p # ps) = (''data: '' @ p) @ blank @ sse_encode ps" by (simp add: sse_encode_def)
  have f: "str_find (sse_encode (p # ps)) blank = Some (length (''data: '' @ p))"
    unfolding e using Cons.prems by (intro str_find_first) simp
  have "drop (length (''data: '' @ p) + 2) (sse_encode (p # ps)) = sse_encode ps" "take (length (''data: '' @ p)) (sse_encode (p # ps)) = ''data: '' @ p"
    unfolding e by (simp_all add: blank_def)
  with Cons f show ?case by (subst split_events.simps) simp
qed

lemma str_lines_single: "CHR 0x0A \<notin> set l \<Longrightarrow> l \<noteq> [] \<Longrightarrow> str_lines l = [l]"
proof -
  assume l: "CHR 0x0A \<notin> set l" "l \<noteq> []"
  then have "takeWhile (\<lambda>c. c \<noteq> CHR 0x0A) l = l" "dropWhile (\<lambda>c. c \<noteq> CHR 0x0A) l = []"
    by (auto simp: takeWhile_eq_all_conv dropWhile_eq_Nil_conv)
  then have "split_lf l = [l]" by (subst split_lf.simps) simp
  with l(2) show ?thesis by (simp add: str_lines_def)
qed

lemma str_lines_event:
  assumes "CHR 0x0A \<notin> set l" "CHR 0x0D \<notin> set l"
  shows "str_lines (l @ blank) = [l, []]"
proof -
  have t: "takeWhile (\<lambda>c. c \<noteq> CHR 0x0A) (l @ blank) = l" "dropWhile (\<lambda>c. c \<noteq> CHR 0x0A) (l @ blank) = blank"
    using assms(1) by (auto simp: takeWhile_append dropWhile_append blank_def)
  have "split_lf LF = [[], []]" by (subst split_lf.simps) (simp add: split_lf.simps [of "[]"])
  then have "split_lf (l @ blank) = [l, [], []]" by (subst split_lf.simps) (simp add: t, simp add: blank_def)
  moreover have "strip_cr l = l" using assms(2) by (metis last_in_set strip_cr_def)
  ultimately show ?thesis by (simp add: str_lines_def strip_cr_def)
qed

text \<open>The reader of such a stream gets the events one by one, however the bytes are cut.\<close>

lemma read_events_encode:
  assumes "list_all (\<lambda>p. CHR 0x0A \<notin> set p \<and> valid_utf8 p) ps" "concat cs = sse_encode ps"
  shows "read_events emit fail [] (map Inr cs) = concat (map (\<lambda>p. emit (''data: '' @ p)) ps)"
proof -
  have "from_utf8_lossy (''data: '' @ p) = ''data: '' @ p" if "p \<in> set ps" for p
    using assms(1) that by (intro from_utf8_lossy_valid) (auto simp: list_all_iff valid_utf8_def)
  moreover have "split_events (concat cs) = (map ((@) ''data: '') ps, [])"
    unfolding assms(2) using assms(1) by (intro split_events_encode) (auto simp: list_all_iff)
  ultimately show ?thesis by (simp add: read_events_whole o_def cong: map_cong)
qed

end
