(* ===== verification/Openai.thy ===== *)
theory Openai
  imports Event_Stream
begin

text \<open>
  The OpenAI client (\<open>sentinel-provider/src/openai.rs\<close>) and its twin for local servers (\<open>local.rs\<close>): the body
  of a request, the answer read from a response, the streamed answer and the errors. An HTTP exchange
  is a parameter that gives the response or the error of the client library; \<open>serde_json\<close>'s printer
  and parser are parameters as well (\<open>ts\<close>, \<open>fs\<close>). Reading a missing key of an object with \<open>map["key"]\<close>
  panics; a panic is \<open>None\<close>.
\<close>

section \<open>Values\<close>

fun as_array :: "json \<Rightarrow> json list option" where
  "as_array (JArray xs) = Some xs"
| "as_array _ = None"

abbreviation opt_or :: "'a \<Rightarrow> 'a option \<Rightarrow> 'a" where
  "opt_or d x \<equiv> (case x of None \<Rightarrow> d | Some y \<Rightarrow> y)"

abbreviation str_or_empty :: "json \<Rightarrow> string" where
  "str_or_empty v \<equiv> opt_or [] (as_str v)"

abbreviation count_u32 :: "json \<Rightarrow> u32" where
  "count_u32 v \<equiv> ucast (opt_or 0 (as_u64 v))"

definition set_opt :: "string \<Rightarrow> ('a \<Rightarrow> json) \<Rightarrow> 'a option \<Rightarrow> json_object \<Rightarrow> json_object" where
  "set_opt k f v body = (case v of None \<Rightarrow> body | Some x \<Rightarrow> obj_insert k (f x) body)"

lemma map_of_set_opt [simp]: "k \<noteq> k' \<Longrightarrow> map_of (set_opt k f v body) k' = map_of body k'"
  by (simp add: set_opt_def map_of_obj_insert split: option.split)

lemma json_get_JObject: "json_get (JObject kvs) k = opt_or JNull (map_of kvs k)"
  by (simp add: json_get_def)

definition word_json :: "u32 \<Rightarrow> json" where
  "word_json n = JNumber (PosInt (ucast n))"

definition float_json :: "rat \<Rightarrow> json" where
  "float_json x = JNumber (Float x)"

definition strings_json :: "string list \<Rightarrow> json" where
  "strings_json xs = JArray (map JString xs)"

section \<open>Requests\<close>

fun role_str :: "role \<Rightarrow> string" where
  "role_str RSystem = ''system''"
| "role_str RUser = ''user''"
| "role_str RAssistant = ''assistant''"
| "role_str RTool = ''tool''"

fun is_tool_result_block :: "content_block \<Rightarrow> bool" where
  "is_tool_result_block (ToolResultBlock _ _ _) = True"
| "is_tool_result_block _ = False"

fun tool_call_json :: "(json \<Rightarrow> string) \<Rightarrow> tool_call \<Rightarrow> json" where
  "tool_call_json ts (i, n, a) =
     JObject [(''id'', JString i), (''type'', JString ''function''),
              (''function'', JObject [(''name'', JString n), (''arguments'', JString (ts a))])]"

fun tool_result_json :: "content_block \<Rightarrow> json option" where
  "tool_result_json (ToolResultBlock i c e) =
     Some (JObject [(''role'', JString ''tool''), (''tool_call_id'', JString i), (''content'', JString c),
                    (''is_error'', JBool (opt_or False e))])"
| "tool_result_json _ = None"

definition openai_serialize_message :: "(json \<Rightarrow> string) \<Rightarrow> message \<Rightarrow> json" where
  "openai_serialize_message ts m =
     (let text = extract_text m; text_json = (if text = [] then JNull else JString text) in
      if list_ex is_tool_call_block (content m) then
        JObject [(''role'', JString (role_str (role m))), (''content'', text_json),
                 (''tool_calls'', JArray (map (tool_call_json ts) (message_tool_calls m)))]
      else if list_ex is_tool_result_block (content m) then
        hd (List.map_filter tool_result_json (content m))
      else JObject [(''role'', JString (role_str (role m))), (''content'', text_json)])"

definition function_json :: "tool_def \<Rightarrow> json" where
  "function_json t =
     JObject [(''type'', JString ''function''),
              (''function'', JObject [(''name'', JString (td_name t)), (''description'', JString (td_description t)),
                                      (''parameters'', td_input_schema t)])]"

text \<open>The options of a request that both clients add in the same order.\<close>

definition request_options :: "completion_request \<Rightarrow> json_object \<Rightarrow> json_object" where
  "request_options req =
     set_opt ''tools'' (\<lambda>ts. JArray (map function_json ts)) (req_tools req) \<circ>
     set_opt ''stop'' strings_json (req_stop req) \<circ>
     set_opt ''top_p'' float_json (req_top_p req) \<circ>
     set_opt ''temperature'' float_json (req_temperature req) \<circ>
     set_opt ''max_tokens'' word_json (req_max_tokens req)"

record provider_info =
  pi_id :: string
  pi_base_url :: string

definition openai_model :: "provider_info \<Rightarrow> completion_request \<Rightarrow> string" where
  "openai_model info req =
     (if pi_id info = ''openrouter'' then opt_or (req_model req) (strip_prefix (req_model req) ''openrouter/'')
      else req_model req)"

definition openai_build_body :: "(json \<Rightarrow> string) \<Rightarrow> provider_info \<Rightarrow> completion_request \<Rightarrow> json" where
  "openai_build_body ts info req =
     JObject (request_options req
       [(''model'', JString (openai_model info req)),
        (''messages'', JArray (map (openai_serialize_message ts) (req_messages req)))])"

section \<open>Responses\<close>

definition parse_tool_call :: "(string \<Rightarrow> json option) \<Rightarrow> json \<Rightarrow> content_block list option" where
  "parse_tool_call fs tc =
     (case as_object (json_get tc ''function'') of
        None \<Rightarrow> Some []
      | Some func \<Rightarrow>
          (case (map_of func ''name'', map_of func ''arguments'') of
             (Some n, Some a) \<Rightarrow>
               Some [ToolCall (str_or_empty (json_get tc ''id'')) (str_or_empty n)
                       (opt_or JNull (fs (opt_or ''{}'' (as_str a))))]
           | _ \<Rightarrow> None))"

definition parse_message :: "(string \<Rightarrow> json option) \<Rightarrow> json \<Rightarrow> content_block list option" where
  "parse_message fs msg =
     (let text = (case as_str (json_get msg ''content'') of
                    Some t \<Rightarrow> if t = [] then [] else [Text t]
                  | None \<Rightarrow> [])
      in map_option (\<lambda>calls. text @ concat calls)
           (those (map (parse_tool_call fs) (opt_or [] (as_array (json_get msg ''tool_calls''))))))"

definition parse_choice :: "(string \<Rightarrow> json option) \<Rightarrow> nat \<times> json \<Rightarrow> choice option" where
  "parse_choice fs = (\<lambda>(i, ch).
     map_option (\<lambda>blocks. \<lparr>ch_index = ucast (opt_or (of_nat i) (as_u64 (json_get ch ''index''))),
                           ch_message = message_new RAssistant blocks,
                           ch_finish_reason = as_str (json_get ch ''finish_reason'')\<rparr>)
       (parse_message fs (json_get ch ''message'')))"

definition parse_usage :: "json \<Rightarrow> usage option option" where
  "parse_usage v =
     (case as_object v of
        None \<Rightarrow> Some None
      | Some u \<Rightarrow>
          (case (map_of u ''prompt_tokens'', map_of u ''completion_tokens'', map_of u ''total_tokens'') of
             (Some p, Some c, Some t) \<Rightarrow>
               Some (Some \<lparr>prompt_tokens = count_u32 p, completion_tokens = count_u32 c, total_tokens = count_u32 t\<rparr>)
           | _ \<Rightarrow> None))"

definition openai_parse_response :: "(string \<Rightarrow> json option) \<Rightarrow> json \<Rightarrow> completion_response option" where
  "openai_parse_response fs data =
     (case those (map (parse_choice fs) (enumerate 0 (opt_or [] (as_array (json_get data ''choices''))))) of
        None \<Rightarrow> None
      | Some choices \<Rightarrow>
          map_option (\<lambda>u. \<lparr>resp_id = str_or_empty (json_get data ''id''), resp_model = str_or_empty (json_get data ''model''),
                           resp_choices = choices, resp_usage = u\<rparr>)
            (parse_usage (json_get data ''usage'')))"

section \<open>Streams\<close>

text \<open>The lines of an event. \<open>parse\<close> decodes one chunk of the wire format, with the error of the decoder
  on the left.\<close>

definition data_line :: "(string \<Rightarrow> 'a) \<Rightarrow> string \<Rightarrow> 'a list" where
  "data_line deliver l =
     (let line = str_trim l in
      if line = [] \<or> line = ''data: [DONE]'' then []
      else case strip_prefix line ''data: '' of None \<Rightarrow> [] | Some data \<Rightarrow> [deliver data])"

definition json_or_error :: "(string \<Rightarrow> string + 'a) \<Rightarrow> string \<Rightarrow> provider_error + 'a" where
  "json_or_error parse data = (case parse data of Inl e \<Rightarrow> Inl (JsonError e) | Inr c \<Rightarrow> Inr c)"

definition openai_event :: "(string \<Rightarrow> string + stream_chunk) \<Rightarrow> string \<Rightarrow> (provider_error + stream_chunk) list" where
  "openai_event parse text = concat (map (data_line (json_or_error parse)) (str_lines text))"

definition openai_stream ::
    "(string \<Rightarrow> string + stream_chunk) \<Rightarrow> (string + string) list \<Rightarrow> (provider_error + stream_chunk) list" where
  "openai_stream parse = read_events (openai_event parse) (\<lambda>e. Inl (StreamError e)) []"

text \<open>\<open>sse_frame_stream\<close> of \<open>route/framing.rs\<close>: the payloads as bytes, lines taken as they are.\<close>

definition frame_line :: "string \<Rightarrow> (provider_error + string) list" where
  "frame_line line =
     (case strip_prefix line ''data: '' of
        None \<Rightarrow> []
      | Some data \<Rightarrow> if data = ''[DONE]'' then [] else [Inr data])"

definition sse_frame_stream :: "(string + string) list \<Rightarrow> (provider_error + string) list" where
  "sse_frame_stream = read_events (\<lambda>text. concat (map frame_line (str_lines text))) (\<lambda>e. Inl (StreamError e)) []"

section \<open>Exchanges\<close>

text \<open>What the client library gives: the status, the body as text (empty when it cannot be read) and as
  JSON, and the chunks of the body.\<close>

record http_response =
  hr_status :: u16
  hr_text :: string
  hr_json :: "string + json"
  hr_chunks :: "(string + string) list"

type_synonym 'w http_client = "'w \<Rightarrow> string \<Rightarrow> json \<Rightarrow> (string + http_response) \<times> 'w"

definition is_success :: "u16 \<Rightarrow> bool" where
  "is_success s \<longleftrightarrow> 200 \<le> s \<and> s \<le> 299"

definition map_api_error :: "u16 \<Rightarrow> string \<Rightarrow> provider_error" where
  "map_api_error status body =
     (if status = 401 then Unauthorized body
      else if status = 403 then Forbidden body
      else if status = 408 \<or> status = 429 then RateLimited 0
      else if 502 \<le> status \<and> status \<le> 504 then ServiceUnavailable None
      else if 500 \<le> status \<and> status \<le> 599 then ServerError status
      else ApiError status body)"

text \<open>Sending a request and sorting out its failure; the two ways of reading the response follow.\<close>

definition exchange ::
    "'w http_client \<Rightarrow> (u16 \<Rightarrow> string \<Rightarrow> provider_error) \<Rightarrow> string \<Rightarrow> json \<Rightarrow> 'w \<Rightarrow> (provider_error + http_response) \<times> 'w" where
  "exchange http err url body w =
     (case http w url body of
        (Inl e, w1) \<Rightarrow> (Inl (Reqwest e), w1)
      | (Inr resp, w1) \<Rightarrow>
          (if is_success (hr_status resp) then (Inr resp, w1)
           else (Inl (err (hr_status resp) (hr_text resp)), w1)))"

definition read_json ::
    "(json \<Rightarrow> completion_response option) \<Rightarrow> (provider_error + http_response) \<times> 'w
       \<Rightarrow> (provider_error + completion_response) option \<times> 'w" where
  "read_json parse = (\<lambda>(r, w).
     ((case r of
         Inl e \<Rightarrow> Some (Inl e)
       | Inr resp \<Rightarrow> (case hr_json resp of Inl e \<Rightarrow> Some (Inl (Reqwest e)) | Inr data \<Rightarrow> map_option Inr (parse data))), w))"

definition openai_complete ::
    "'w http_client \<Rightarrow> (json \<Rightarrow> string) \<Rightarrow> (string \<Rightarrow> json option) \<Rightarrow> provider_info \<Rightarrow> 'w \<Rightarrow> completion_request
       \<Rightarrow> (provider_error + completion_response) option \<times> 'w" where
  "openai_complete http ts fs info w req =
     read_json (openai_parse_response fs)
       (exchange http map_api_error (pi_base_url info @ ''/chat/completions'') (openai_build_body ts info req) w)"

fun with_stream_flag :: "json \<Rightarrow> json" where
  "with_stream_flag (JObject b) = JObject (obj_insert ''stream'' (JBool True) b)"
| "with_stream_flag v = v"

definition openai_complete_stream ::
    "'w http_client \<Rightarrow> (json \<Rightarrow> string) \<Rightarrow> (string \<Rightarrow> string + stream_chunk) \<Rightarrow> provider_info \<Rightarrow> 'w \<Rightarrow> completion_request
       \<Rightarrow> (provider_error + (provider_error + stream_chunk) list) \<times> 'w" where
  "openai_complete_stream http ts parse info w req =
     (case exchange http map_api_error (pi_base_url info @ ''/chat/completions'')
             (with_stream_flag (openai_build_body ts info req)) w of
        (Inl e, w1) \<Rightarrow> (Inl e, w1)
      | (Inr resp, w1) \<Rightarrow> (Inr (openai_stream parse (hr_chunks resp)), w1))"

section \<open>Local servers\<close>

text \<open>\<open>local.rs\<close> has its own copy of the message and response code, names its model itself, always sets the
  \<open>stream\<close> flag and reports every failed status as it is.\<close>

definition normalize_base_url :: "string \<Rightarrow> string" where
  "normalize_base_url url =
     (let base = rev (dropWhile (\<lambda>c. c = CHR ''/'') (rev url)) in
      if ends_with base ''/v1'' then base else base @ ''/v1'')"

definition local_serialize_message :: "(json \<Rightarrow> string) \<Rightarrow> message \<Rightarrow> json" where
  "local_serialize_message ts m = openai_serialize_message ts m"

definition local_build_body :: "(json \<Rightarrow> string) \<Rightarrow> string \<Rightarrow> completion_request \<Rightarrow> json" where
  "local_build_body ts local_name req =
     JObject (obj_insert ''stream'' (JBool False) (request_options req
       [(''model'', JString local_name),
        (''messages'', JArray (map (local_serialize_message ts) (req_messages req)))]))"

definition local_parse_response :: "(string \<Rightarrow> json option) \<Rightarrow> json \<Rightarrow> completion_response option" where
  "local_parse_response fs data = openai_parse_response fs data"

definition local_complete ::
    "'w http_client \<Rightarrow> (json \<Rightarrow> string) \<Rightarrow> (string \<Rightarrow> json option) \<Rightarrow> provider_info \<Rightarrow> string \<Rightarrow> 'w \<Rightarrow> completion_request
       \<Rightarrow> (provider_error + completion_response) option \<times> 'w" where
  "local_complete http ts fs info local_name w req =
     read_json (local_parse_response fs)
       (exchange http ApiError (pi_base_url info @ ''/chat/completions'') (local_build_body ts local_name req) w)"

definition local_complete_stream ::
    "'w http_client \<Rightarrow> (json \<Rightarrow> string) \<Rightarrow> (string \<Rightarrow> string + stream_chunk) \<Rightarrow> provider_info \<Rightarrow> string \<Rightarrow> 'w
       \<Rightarrow> completion_request \<Rightarrow> (provider_error + (provider_error + stream_chunk) list) \<times> 'w" where
  "local_complete_stream http ts parse info local_name w req =
     (case exchange http ApiError (pi_base_url info @ ''/chat/completions'')
             (with_stream_flag (local_build_body ts local_name req)) w of
        (Inl e, w1) \<Rightarrow> (Inl e, w1)
      | (Inr resp, w1) \<Rightarrow> (Inr (openai_stream parse (hr_chunks resp)), w1))"

section \<open>Answers that are sent back\<close>

lemma those_None: "those xs = None \<longleftrightarrow> None \<in> set xs"
  by (induction xs) (auto split: option.splits)

lemma those_Some: "those (map Some xs) = Some xs"
  by (induction xs) auto

lemma those_map_Some: "those (map f xs) = Some ys \<Longrightarrow> list_all2 (\<lambda>x y. f x = Some y) xs ys"
  by (induction xs arbitrary: ys) (auto split: option.splits)

abbreviation call_block :: "tool_call \<Rightarrow> content_block" where
  "call_block c \<equiv> (case c of (i, n, a) \<Rightarrow> ToolCall i n a)"

text \<open>Every parsed answer has this shape: at most one text, not empty, and then the calls.\<close>

definition answer_blocks :: "string \<Rightarrow> tool_call list \<Rightarrow> content_block list" where
  "answer_blocks t cs = (if t = [] then [] else [Text t]) @ map call_block cs"

lemma parse_tool_call_shape: "parse_tool_call fs tc = Some bs \<Longrightarrow> \<exists>cs. bs = map call_block cs"
proof -
  have "\<exists>cs. [] = map call_block cs" "\<exists>cs. [ToolCall i n a] = map call_block cs" for i n a
    by (simp_all add: exI [of _ "[(i, n, a)]"])
  then show "parse_tool_call fs tc = Some bs \<Longrightarrow> \<exists>cs. bs = map call_block cs"
    by (auto simp: parse_tool_call_def split: option.splits)
qed

lemma concat_call_blocks: "list_all (\<lambda>bs. \<exists>cs. bs = map call_block cs) bss \<Longrightarrow> \<exists>cs. concat bss = map call_block cs"
proof (induction bss)
  case (Cons bs bss)
  then obtain cs ds where "bs = map call_block cs" "concat bss = map call_block ds" by auto
  then have "concat (bs # bss) = map call_block (cs @ ds)" by simp
  then show ?case by blast
qed simp

lemma parse_message_shape: "parse_message fs msg = Some bs \<Longrightarrow> \<exists>t cs. bs = answer_blocks t cs"
proof -
  assume "parse_message fs msg = Some bs"
  then obtain calls where c: "those (map (parse_tool_call fs) (opt_or [] (as_array (json_get msg ''tool_calls'')))) = Some calls"
    and bs: "bs = (case as_str (json_get msg ''content'') of Some t \<Rightarrow> if t = [] then [] else [Text t] | None \<Rightarrow> []) @ concat calls"
    by (auto simp: parse_message_def Let_def)
  have "list_all (\<lambda>bs. \<exists>cs. bs = map call_block cs) calls"
    using those_map_Some [OF c] by (auto simp: list_all2_conv_all_nth list_all_length intro: parse_tool_call_shape)
  then obtain cs where "concat calls = map call_block cs" using concat_call_blocks by blast
  with bs have "bs = answer_blocks (opt_or [] (as_str (json_get msg ''content''))) cs"
    by (simp add: answer_blocks_def split: option.splits)
  then show ?thesis by blast
qed

lemma map_filter_calls [simp]:
  "List.map_filter block_text (map call_block cs) = []"
  "List.map_filter block_tool_call (map call_block cs) = cs"
  by (induction cs) auto

lemma list_ex_calls [simp]: "list_ex is_tool_call_block (map call_block cs) \<longleftrightarrow> cs \<noteq> []"
  "\<not> list_ex is_tool_result_block (map call_block cs)"
  by (induction cs) auto

lemma parse_serialized_call:
  assumes "fs (ts (snd (snd c))) = Some (snd (snd c))"
  shows "parse_tool_call fs (tool_call_json ts c) = Some [call_block c]"
  using assms by (cases c) (simp add: parse_tool_call_def json_get_def)

lemma parse_serialized_calls:
  assumes "\<And>c. c \<in> set cs \<Longrightarrow> fs (ts (snd (snd c))) = Some (snd (snd c))"
  shows "those (map (parse_tool_call fs) (map (tool_call_json ts) cs)) = Some (map (\<lambda>c. [call_block c]) cs)"
proof -
  have "map (parse_tool_call fs) (map (tool_call_json ts) cs) = map Some (map (\<lambda>c. [call_block c]) cs)"
    using assms by (simp add: parse_serialized_call)
  then show ?thesis by (simp only: those_Some)
qed

lemma concat_singletons: "concat (map (\<lambda>c. [f c]) cs) = map f cs"
  by (induction cs) auto

lemma serialize_answer:
  "openai_serialize_message ts (message_new RAssistant (answer_blocks t cs)) =
     JObject ([(''role'', JString ''assistant''), (''content'', if t = [] then JNull else JString t)]
       @ (if cs = [] then [] else [(''tool_calls'', JArray (map (tool_call_json ts) cs))]))"
  by (auto simp: openai_serialize_message_def answer_blocks_def message_new_def extract_text_def message_tool_calls_def Let_def)

text \<open>C25. Sending an answer back loses nothing: when an answer of the model that was parsed from a response is
  serialised for the next request and read again as a response, the same text and the same tool calls
  come out, provided the JSON parser inverts the printer on the arguments of the calls.\<close>

theorem openai_answer_roundtrip:
  assumes "parse_message fs msg = Some blocks" "\<And>i n a. ToolCall i n a \<in> set blocks \<Longrightarrow> fs (ts a) = Some a"
  shows "parse_message fs (openai_serialize_message ts (message_new RAssistant blocks)) = Some blocks"
proof -
  obtain t cs where b: "blocks = answer_blocks t cs" using parse_message_shape [OF assms(1)] by blast
  have inv: "\<And>c. c \<in> set cs \<Longrightarrow> fs (ts (snd (snd c))) = Some (snd (snd c))"
    using assms(2) by (force simp: b answer_blocks_def)
  have "parse_message fs (openai_serialize_message ts (message_new RAssistant blocks)) =
      Some ((if t = [] then [] else [Text t]) @ map call_block cs)"
    using parse_serialized_calls [of cs fs ts, OF inv]
    by (cases "cs = []"; cases "t = []")
      (simp_all add: b serialize_answer parse_message_def json_get_def concat_singletons Let_def del: map_map)
  then show ?thesis by (simp add: b answer_blocks_def)
qed

section \<open>Responses that panic\<close>

definition call_without_fields :: "json \<Rightarrow> bool" where
  "call_without_fields tc \<longleftrightarrow>
     (case as_object (json_get tc ''function'') of
        None \<Rightarrow> False
      | Some func \<Rightarrow> map_of func ''name'' = None \<or> map_of func ''arguments'' = None)"

definition response_calls :: "json \<Rightarrow> json list" where
  "response_calls data =
     concat (map (\<lambda>ch. opt_or [] (as_array (json_get (json_get ch ''message'') ''tool_calls'')))
       (opt_or [] (as_array (json_get data ''choices''))))"

lemma parse_message_panics:
  "parse_message fs msg = None \<longleftrightarrow> list_ex call_without_fields (opt_or [] (as_array (json_get msg ''tool_calls'')))"
proof -
  have "parse_tool_call fs tc = None \<longleftrightarrow> call_without_fields tc" for tc
    by (auto simp: parse_tool_call_def call_without_fields_def split: option.splits)
  then show ?thesis
    by (auto simp: parse_message_def Let_def those_None list_ex_iff image_iff eq_commute [of None])
qed

text \<open>A response is read without a panic, whatever else is missing in it, exactly unless a tool call with a
  function lacks the name or the arguments of the function, or a usage object lacks one of its three
  counts.\<close>

theorem openai_parse_panics_iff:
  "openai_parse_response fs data = None \<longleftrightarrow>
     list_ex call_without_fields (response_calls data)
     \<or> (\<exists>u. as_object (json_get data ''usage'') = Some u
          \<and> \<not> {''prompt_tokens'', ''completion_tokens'', ''total_tokens''} \<subseteq> dom (map_of u))"
proof -
  have c: "those (map (parse_choice fs) (enumerate 0 chs)) = None \<longleftrightarrow>
      list_ex call_without_fields (concat (map (\<lambda>ch. opt_or [] (as_array (json_get (json_get ch ''message'') ''tool_calls''))) chs))"
    for chs
  proof -
    have "None \<in> set (map (parse_choice fs) (enumerate n chs)) \<longleftrightarrow>
      list_ex call_without_fields (concat (map (\<lambda>ch. opt_or [] (as_array (json_get (json_get ch ''message'') ''tool_calls''))) chs))" for n
      by (induction chs arbitrary: n) (auto simp: parse_choice_def parse_message_panics)
    then show ?thesis by (simp add: those_None)
  qed
  have u: "parse_usage v = None \<longleftrightarrow> (\<exists>u. as_object v = Some u
          \<and> \<not> {''prompt_tokens'', ''completion_tokens'', ''total_tokens''} \<subseteq> dom (map_of u))" for v
    by (auto simp: parse_usage_def domIff split: option.splits)
  have "openai_parse_response fs data = None \<longleftrightarrow>
      those (map (parse_choice fs) (enumerate 0 (opt_or [] (as_array (json_get data ''choices''))))) = None
      \<or> parse_usage (json_get data ''usage'') = None"
    by (simp add: openai_parse_response_def split: option.split)
  then show ?thesis by (simp only: c u response_calls_def)
qed

section \<open>Delivery of a stream\<close>

text \<open>A payload on one line that the trimming of the line leaves alone and that is not the end mark.\<close>

definition payload :: "string \<Rightarrow> bool" where
  "payload p \<longleftrightarrow> CHR 0x0A \<notin> set p \<and> CHR 0x0D \<notin> set p \<and> valid_utf8 p \<and> str_trim (''data: '' @ p) = ''data: '' @ p \<and> p \<noteq> ''[DONE]''"

lemma data_line_payload: "payload p \<Longrightarrow> concat (map (data_line deliver) (str_lines (''data: '' @ p))) = [deliver p]"
proof -
  assume p: "payload p"
  have "str_lines (''data: '' @ p) = [''data: '' @ p]" using p by (intro str_lines_single) (auto simp: payload_def)
  moreover have "strip_prefix (''data: '' @ p) ''data: '' = Some p" by (simp add: strip_prefix_def starts_with_def)
  ultimately show ?thesis using p by (simp add: data_line_def payload_def)
qed

lemma read_data_lines:
  assumes "list_all payload ps" "concat cs = sse_encode ps"
  shows "read_events (\<lambda>text. concat (map (data_line deliver) (str_lines text))) fail [] (map Inr cs) = map deliver ps"
proof -
  have "read_events (\<lambda>text. concat (map (data_line deliver) (str_lines text))) fail [] (map Inr cs) =
      concat (map (\<lambda>p. concat (map (data_line deliver) (str_lines (''data: '' @ p)))) ps)"
    using assms by (intro read_events_encode) (auto simp: list_all_iff payload_def)
  also have "\<dots> = concat (map (\<lambda>p. [deliver p]) ps)"
    using assms(1) by (intro arg_cong [of _ _ concat] map_cong refl data_line_payload) (auto simp: list_all_iff)
  finally show ?thesis by (simp add: concat_singletons)
qed

text \<open>C26. However the network cuts the bytes of a stream, every payload that the server sent is decoded once and
  in order; one that cannot be decoded becomes an error item in its place and does not end the stream.\<close>

theorem openai_stream_delivers:
  assumes "list_all payload ps" "concat cs = sse_encode ps"
  shows "openai_stream parse (map Inr cs) = map (json_or_error parse) ps"
  using read_data_lines [OF assms] by (simp add: openai_stream_def openai_event_def [abs_def])

section \<open>Examples\<close>

definition ex_message :: json where
  "ex_message = JObject [(''content'', JString ''on it''),
     (''tool_calls'', JArray [JObject [(''id'', JString ''c1''),
        (''function'', JObject [(''name'', JString ''read''), (''arguments'', JString ''{}'')])]])]"

lemma ex_message_parsed: "parse_message (\<lambda>_. Some (JObject [])) ex_message = Some [Text ''on it'', ToolCall ''c1'' ''read'' (JObject [])]"
  by (simp add: parse_message_def parse_tool_call_def ex_message_def json_get_def)

theorem openai_answer_roundtrip_witness:
  "parse_message (\<lambda>_. Some (JObject [])) (openai_serialize_message (\<lambda>_. ''{}'')
     (message_new RAssistant [Text ''on it'', ToolCall ''c1'' ''read'' (JObject [])])) =
   Some [Text ''on it'', ToolCall ''c1'' ''read'' (JObject [])]"
  by (rule openai_answer_roundtrip [OF ex_message_parsed]) auto

lemma ex_payload: "payload ''{}''" "payload ''[]''"
  by (code_simp, code_simp)

theorem openai_stream_delivers_witness:
  "openai_stream (\<lambda>d. if d = ''[]'' then Inl ''bad'' else Inr \<lparr>chunk_id = d, chunk_model = [], chunk_choices = []\<rparr>)
     (map Inr [''data: {}'' @ LF, LF @ ''da'', ''ta: []'' @ LF @ LF]) =
   [Inr \<lparr>chunk_id = ''{}'', chunk_model = [], chunk_choices = []\<rparr>, Inl (JsonError ''bad'')]"
proof -
  have "concat [''data: {}'' @ LF, LF @ ''da'', ''ta: []'' @ LF @ LF] = sse_encode [''{}'', ''[]'']"
    by (simp add: sse_encode_def blank_def)
  from openai_stream_delivers [OF _ this] show ?thesis by (simp add: ex_payload json_or_error_def)
qed

end
