(* ===== verification/Anthropic.thy ===== *)
theory Anthropic
  imports Openai
begin

text \<open>
  The Anthropic client (\<open>sentinel-provider/src/anthropic.rs\<close>): the body of a request, the answer read from a
  response and the streamed answer. The stream is decoded chunk by chunk, with no buffer between the
  chunks. The decoder of one event is a parameter, as for the other clients.
\<close>

section \<open>Requests\<close>

fun anthropic_role :: "role \<Rightarrow> string" where
  "anthropic_role RAssistant = ''assistant''"
| "anthropic_role _ = ''user''"

fun text_block_json :: "content_block \<Rightarrow> json option" where
  "text_block_json (Text t) = Some (JObject [(''type'', JString ''text''), (''text'', JString t)])"
| "text_block_json _ = None"

fun tool_use_json :: "content_block \<Rightarrow> json option" where
  "tool_use_json (ToolCall i n a) =
     Some (JObject [(''type'', JString ''tool_use''), (''id'', JString i), (''name'', JString n), (''input'', a)])"
| "tool_use_json _ = None"

fun anthropic_result_json :: "content_block \<Rightarrow> json option" where
  "anthropic_result_json (ToolResultBlock i c e) =
     Some (JObject [(''type'', JString ''tool_result''), (''tool_use_id'', JString i), (''content'', JString c),
                    (''is_error'', JBool (opt_or False e))])"
| "anthropic_result_json _ = None"

definition anthropic_serialize_message :: "message \<Rightarrow> json" where
  "anthropic_serialize_message m =
     (let role_str = anthropic_role (role m);
          blocks = List.map_filter text_block_json (content m) @ List.map_filter tool_use_json (content m)
                   @ List.map_filter anthropic_result_json (content m) in
      if role_str = ''user'' \<and> list_ex is_tool_result_block (content m) then
        JObject [(''role'', JString ''user''), (''content'', JArray blocks)]
      else if role_str = ''assistant'' \<and> list_ex is_tool_call_block (content m) then
        JObject [(''role'', JString ''assistant''), (''content'', JArray blocks)]
      else JObject [(''role'', JString role_str), (''content'', JString (join LF (List.map_filter block_text (content m))))])"

definition anthropic_system :: "message list \<Rightarrow> string" where
  "anthropic_system ms = concat (map (\<lambda>m. extract_text m @ LF) (filter (\<lambda>m. role m = RSystem) ms))"

definition anthropic_tool_json :: "tool_def \<Rightarrow> json" where
  "anthropic_tool_json t =
     JObject [(''name'', JString (td_name t)), (''description'', JString (td_description t)), (''input_schema'', td_input_schema t)]"

definition anthropic_build_body :: "completion_request \<Rightarrow> json" where
  "anthropic_build_body req =
     (let system = anthropic_system (req_messages req) in
      JObject
        ((set_opt ''tools'' (\<lambda>ts. JArray (map anthropic_tool_json ts)) (req_tools req) \<circ>
          set_opt ''stop_sequences'' strings_json (req_stop req) \<circ>
          set_opt ''top_p'' float_json (req_top_p req) \<circ>
          set_opt ''temperature'' float_json (req_temperature req) \<circ>
          set_opt ''system'' JString (if system = [] then None else Some (str_trim system)))
         [(''model'', JString (req_model req)),
          (''max_tokens'', word_json (opt_or 8192 (req_max_tokens req))),
          (''messages'', JArray (map anthropic_serialize_message (filter (\<lambda>m. role m \<noteq> RSystem) (req_messages req))))]))"

section \<open>Responses\<close>

definition anthropic_stop_reason :: "string \<Rightarrow> string" where
  "anthropic_stop_reason s =
     (if s = ''end_turn'' then ''stop'' else if s = ''tool_use'' then ''tool_calls''
      else if s = ''max_tokens'' then ''length'' else s)"

definition anthropic_block :: "json \<Rightarrow> content_block list" where
  "anthropic_block b =
     (if as_str (json_get b ''type'') = Some ''text'' then
        (case as_str (json_get b ''text'') of Some t \<Rightarrow> [Text t] | None \<Rightarrow> [])
      else if as_str (json_get b ''type'') = Some ''tool_use'' then
        [ToolCall (str_or_empty (json_get b ''id'')) (str_or_empty (json_get b ''name'')) (json_get b ''input'')]
      else [])"

definition anthropic_usage :: "json \<Rightarrow> usage option option" where
  "anthropic_usage v =
     (case as_object v of
        None \<Rightarrow> Some None
      | Some u \<Rightarrow>
          (case (map_of u ''input_tokens'', map_of u ''output_tokens'') of
             (Some i, Some ot) \<Rightarrow>
               Some (Some \<lparr>prompt_tokens = count_u32 i, completion_tokens = count_u32 ot,
                           total_tokens = ucast (opt_or 0 (as_u64 i) + opt_or 0 (as_u64 ot))\<rparr>)
           | _ \<Rightarrow> None))"

definition anthropic_parse_response :: "json \<Rightarrow> completion_response option" where
  "anthropic_parse_response data =
     map_option (\<lambda>u.
       \<lparr>resp_id = str_or_empty (json_get data ''id''), resp_model = str_or_empty (json_get data ''model''),
        resp_choices = [\<lparr>ch_index = 0,
          ch_message = message_new RAssistant (concat (map anthropic_block (opt_or [] (as_array (json_get data ''content''))))),
          ch_finish_reason = map_option anthropic_stop_reason (as_str (json_get data ''stop_reason''))\<rparr>],
        resp_usage = u\<rparr>)
       (anthropic_usage (json_get data ''usage''))"

section \<open>Streams\<close>

datatype content_block_start = TextStart string | ToolUseStart string string

datatype content_delta = TextDelta string | InputJsonDelta string

datatype anthropic_event =
    MessageStart string string
  | ContentBlockStart u32 content_block_start
  | ContentBlockDelta u32 content_delta
  | ContentBlockStop u32
  | MessageDelta "string option" "(u32 option \<times> u32 option) option"
  | MessageStop
  | Ping

definition chunk_of :: "string \<Rightarrow> string \<Rightarrow> delta \<Rightarrow> string option \<Rightarrow> stream_chunk" where
  "chunk_of i m d fin = \<lparr>chunk_id = i, chunk_model = m, chunk_choices = [\<lparr>sc_index = 0, sc_delta = d, sc_finish_reason = fin\<rparr>]\<rparr>"

fun event_to_chunk :: "anthropic_event \<Rightarrow> stream_chunk option" where
  "event_to_chunk (MessageStart i m) =
     Some (chunk_of i m \<lparr>d_role = Some ''assistant'', d_content = None, d_tool_calls = None\<rparr> None)"
| "event_to_chunk (ContentBlockDelta _ (TextDelta t)) =
     Some (chunk_of [] [] \<lparr>d_role = None, d_content = Some t, d_tool_calls = None\<rparr> None)"
| "event_to_chunk (ContentBlockDelta _ (InputJsonDelta part)) =
     Some (chunk_of [] []
       \<lparr>d_role = None, d_content = None,
        d_tool_calls = Some [\<lparr>dtc_index = 0, dtc_id = None, dtc_type = Some ''function'',
                              dtc_function = Some \<lparr>df_name = None, df_arguments = Some part\<rparr>\<rparr>]\<rparr> None)"
| "event_to_chunk (MessageDelta stop _) =
     Some (chunk_of [] [] \<lparr>d_role = None, d_content = None, d_tool_calls = None\<rparr> stop)"
| "event_to_chunk _ = None"

definition anthropic_line ::
    "(string \<Rightarrow> string + anthropic_event) \<Rightarrow> string \<Rightarrow> (provider_error + stream_chunk) list" where
  "anthropic_line parse l =
     (let line = str_trim l in
      if line = [] then []
      else case strip_prefix line ''data: '' of
             None \<Rightarrow> []
           | Some data \<Rightarrow>
               (case parse data of
                  Inl e \<Rightarrow> [Inl (JsonError e)]
                | Inr ev \<Rightarrow> (case event_to_chunk ev of Some c \<Rightarrow> [Inr c] | None \<Rightarrow> [])))"

fun anthropic_chunk ::
    "(string \<Rightarrow> string + anthropic_event) \<Rightarrow> string + string \<Rightarrow> (provider_error + stream_chunk) list" where
  "anthropic_chunk parse (Inl e) = [Inl (StreamError e)]"
| "anthropic_chunk parse (Inr bytes) = concat (map (anthropic_line parse) (str_lines (from_utf8_lossy bytes)))"

definition anthropic_stream ::
    "(string \<Rightarrow> string + anthropic_event) \<Rightarrow> (string + string) list \<Rightarrow> (provider_error + stream_chunk) list" where
  "anthropic_stream parse chunks = concat (map (anthropic_chunk parse) chunks)"

section \<open>Exchanges\<close>

definition anthropic_complete ::
    "'w http_client \<Rightarrow> provider_info \<Rightarrow> 'w \<Rightarrow> completion_request \<Rightarrow> (provider_error + completion_response) option \<times> 'w" where
  "anthropic_complete http info w req =
     read_json anthropic_parse_response
       (exchange http ApiError (pi_base_url info @ ''/messages'') (anthropic_build_body req) w)"

definition anthropic_complete_stream ::
    "'w http_client \<Rightarrow> (string \<Rightarrow> string + anthropic_event) \<Rightarrow> provider_info \<Rightarrow> 'w \<Rightarrow> completion_request
       \<Rightarrow> (provider_error + (provider_error + stream_chunk) list) \<times> 'w" where
  "anthropic_complete_stream http parse info w req =
     (case exchange http ApiError (pi_base_url info @ ''/messages'') (with_stream_flag (anthropic_build_body req)) w of
        (Inl e, w1) \<Rightarrow> (Inl e, w1)
      | (Inr resp, w1) \<Rightarrow> (Inr (anthropic_stream parse (hr_chunks resp)), w1))"

end
