(* ===== verification/Google.thy ===== *)
theory Google
  imports Openai
begin

text \<open>
  The Google client (\<open>sentinel-provider/src/google.rs\<close>): request bodies, responses, streams and errors. Reading a
  missing key of the error object panics, which is \<open>None\<close>.
\<close>

section \<open>Requests\<close>

text \<open>\<open>Value::get\<close>: the entry of an object, if it is there.\<close>

definition json_lookup :: "json \<Rightarrow> string \<Rightarrow> json option" where
  "json_lookup v k = (case as_object v of None \<Rightarrow> None | Some kvs \<Rightarrow> map_of kvs k)"

function trim_models :: "string \<Rightarrow> string" where
  "trim_models s = (if starts_with s ''models/'' then trim_models (drop 7 s) else s)"
  by pat_completeness auto
termination
  by (relation "measure length") (auto simp: starts_with_def neq_Nil_conv dest: arg_cong [of _ _ length])

declare trim_models.simps [simp del]

definition google_model_name :: "completion_request \<Rightarrow> string" where
  "google_model_name req = trim_models (req_model req)"

definition build_user_parts :: "message \<Rightarrow> json list" where
  "build_user_parts m = List.map_filter (\<lambda>b. case b of Text t \<Rightarrow> Some (JObject [(''text'', JString t)]) | _ \<Rightarrow> None) (content m)"

definition build_assistant_parts :: "message \<Rightarrow> json list" where
  "build_assistant_parts m =
     List.map_filter (\<lambda>b. case b of
         Text t \<Rightarrow> Some (JObject [(''text'', JString t)])
       | ToolCall i n a \<Rightarrow> Some (JObject [(''functionCall'', JObject [(''name'', JString n), (''args'', a)])])
       | _ \<Rightarrow> None) (content m)"

fun function_response :: "content_block \<Rightarrow> json option" where
  "function_response (ToolResultBlock i c e) =
     Some (JObject [(''role'', JString ''function''),
       (''parts'', JArray [JObject [(''functionResponse'',
          JObject [(''name'', JString i), (''response'', JObject [(''response'', JString c)])])]])])"
| "function_response _ = None"

fun parts_entry :: "string \<Rightarrow> json list \<Rightarrow> json list" where
  "parts_entry r parts = (if parts = [] then [] else [JObject [(''role'', JString r), (''parts'', JArray parts)]])"

definition google_contents :: "message \<Rightarrow> json list" where
  "google_contents m =
     (case role m of
        RSystem \<Rightarrow> []
      | RUser \<Rightarrow> parts_entry ''user'' (build_user_parts m)
      | RAssistant \<Rightarrow> parts_entry ''model'' (build_assistant_parts m)
      | RTool \<Rightarrow> List.map_filter function_response (content m))"

definition google_system :: "message list \<Rightarrow> string option" where
  "google_system ms =
     (case rev (filter (\<lambda>m. role m = RSystem) ms) of [] \<Rightarrow> None | m # _ \<Rightarrow> Some (extract_text m))"

definition google_config :: "completion_request \<Rightarrow> json_object" where
  "google_config req =
     (set_opt ''stopSequences'' strings_json (req_stop req) \<circ> set_opt ''topP'' float_json (req_top_p req) \<circ>
      set_opt ''temperature'' float_json (req_temperature req) \<circ> set_opt ''maxOutputTokens'' word_json (req_max_tokens req)) []"

definition google_tool_json :: "tool_def \<Rightarrow> json" where
  "google_tool_json t =
     JObject [(''name'', JString (td_name t)), (''description'', JString (td_description t)), (''parameters'', td_input_schema t)]"

definition google_build_body :: "completion_request \<Rightarrow> json" where
  "google_build_body req =
     JObject
       (obj_insert ''generationConfig'' (JObject (google_config req))
         (set_opt ''tools'' (\<lambda>ts. JArray [JObject [(''functionDeclarations'', JArray (map google_tool_json ts))]]) (req_tools req)
           (set_opt ''systemInstruction'' (\<lambda>t. JObject [(''parts'', JArray [JObject [(''text'', JString t)]])])
              (google_system (req_messages req))
              [(''contents'', JArray (concat (map google_contents (req_messages req))))])))"

section \<open>Responses\<close>

definition google_finish :: "string \<Rightarrow> string" where
  "google_finish r =
     (if r = ''STOP'' then ''stop'' else if r = ''MAX_TOKENS'' then ''length''
      else if r = ''SAFETY'' \<or> r = ''RECITATION'' then ''content_filter''
      else if r = ''FUNCTION_CALL'' then ''tool_calls'' else r)"

definition google_part :: "json \<Rightarrow> content_block list" where
  "google_part part =
     (case as_str (json_get part ''text'') of Some t \<Rightarrow> if t = [] then [] else [Text t] | None \<Rightarrow> [])
     @ (case json_lookup part ''functionCall'' of
          None \<Rightarrow> []
        | Some fc \<Rightarrow> [ToolCall (''gc_'' @ opt_or ''unknown'' (as_str (json_get fc ''name''))) (str_or_empty (json_get fc ''name''))
                       (json_get fc ''args'')])"

definition google_choice :: "nat \<times> json \<Rightarrow> choice" where
  "google_choice = (\<lambda>(i, cand).
     \<lparr>ch_index = ucast (opt_or (of_nat i) (as_u64 (json_get cand ''index''))),
      ch_message = message_new RAssistant
        (concat (map google_part (opt_or [] (as_array (json_get (json_get cand ''content'') ''parts''))))),
      ch_finish_reason = map_option google_finish (as_str (json_get cand ''finishReason''))\<rparr>)"

definition google_usage :: "json \<Rightarrow> usage" where
  "google_usage u =
     \<lparr>prompt_tokens = count_u32 (json_get u ''promptTokenCount''), completion_tokens = count_u32 (json_get u ''candidatesTokenCount''),
      total_tokens = count_u32 (json_get u ''totalTokenCount'')\<rparr>"

definition google_parse_response :: "json \<Rightarrow> completion_response" where
  "google_parse_response data =
     \<lparr>resp_id = [], resp_model = str_or_empty (json_get data ''modelVersion''),
      resp_choices = map google_choice (enumerate 0 (opt_or [] (as_array (json_get data ''candidates'')))),
      resp_usage = map_option google_usage (json_lookup data ''usageMetadata'')\<rparr>"

section \<open>Streams\<close>

definition google_stream_finish :: "string \<Rightarrow> string" where
  "google_stream_finish r =
     (if r = ''STOP'' then ''stop'' else if r = ''MAX_TOKENS'' then ''length''
      else if r = ''FUNCTION_CALL'' then ''tool_calls'' else r)"

definition parse_stream_chunk :: "json \<Rightarrow> stream_chunk" where
  "parse_stream_chunk c =
     (let (text, fin) =
        (case as_array (json_get c ''candidates'') of
           Some (cand # _) \<Rightarrow>
             (let texts = (case as_array (json_get (json_get cand ''content'') ''parts'') of
                             None \<Rightarrow> []
                           | Some parts \<Rightarrow> filter (\<lambda>t. t \<noteq> []) (List.map_filter (\<lambda>p. as_str (json_get p ''text'')) parts))
              in (if texts = [] then None else Some (join [] texts),
                  map_option google_stream_finish (as_str (json_get cand ''finishReason''))))
         | _ \<Rightarrow> (None, None))
      in \<lparr>chunk_id = [], chunk_model = str_or_empty (json_get c ''modelVersion''),
          chunk_choices = [\<lparr>sc_index = 0,
            sc_delta = \<lparr>d_role = Some ''assistant'', d_content = text, d_tool_calls = None\<rparr>,
            sc_finish_reason = fin\<rparr>]\<rparr>)"

definition google_event :: "(string \<Rightarrow> string + json) \<Rightarrow> string \<Rightarrow> (provider_error + stream_chunk) list" where
  "google_event parse text =
     concat (map (data_line (\<lambda>data. map_sum id parse_stream_chunk (json_or_error parse data))) (str_lines text))"

definition google_stream :: "(string \<Rightarrow> string + json) \<Rightarrow> (string + string) list \<Rightarrow> (provider_error + stream_chunk) list" where
  "google_stream parse = read_events (google_event parse) (\<lambda>e. Inl (StreamError e)) []"

section \<open>Errors\<close>

definition error_object :: "(string \<Rightarrow> json option) \<Rightarrow> string \<Rightarrow> json_object option" where
  "error_object fs body = Option.bind (fs body) (\<lambda>v. as_object (json_get v ''error''))"

text \<open>\<open>parsed.and_then(|e| e["message"]\<dots>)\<close>: nothing parsed, or the entry, or a panic.\<close>

definition error_entry :: "json_object option \<Rightarrow> string \<Rightarrow> json option option" where
  "error_entry parsed k =
     (case parsed of None \<Rightarrow> Some None | Some e \<Rightarrow> (case map_of e k of None \<Rightarrow> None | Some v \<Rightarrow> Some (Some v)))"

definition google_detail :: "json_object option \<Rightarrow> string \<Rightarrow> string option" where
  "google_detail parsed body = map_option (\<lambda>m. opt_or body (Option.bind m as_str)) (error_entry parsed ''message'')"

definition google_classify_error :: "(string \<Rightarrow> json option) \<Rightarrow> u16 \<Rightarrow> string \<Rightarrow> provider_error option" where
  "google_classify_error fs status body =
     (let parsed = error_object fs body in
      if status = 400 then map_option InvalidRequest (google_detail parsed body)
      else if status = 401 \<or> status = 403 then map_option Unauthorized (google_detail parsed body)
      else if status = 404 then Some (NotFound body)
      else if status = 429 then
        map_option (\<lambda>r. RateLimited (opt_or 30 (Option.bind r as_u64))) (error_entry parsed ''retryAfter'')
      else if 500 \<le> status \<and> status \<le> 599 then Some (ServerError status)
      else Some (ApiError status body))"

section \<open>Exchanges\<close>

definition google_url :: "provider_info \<Rightarrow> completion_request \<Rightarrow> string \<Rightarrow> string" where
  "google_url info req method =
     rev (dropWhile (\<lambda>c. c = CHR ''/'') (rev (pi_base_url info))) @ ''/models/'' @ google_model_name req @ '':'' @ method"

definition google_exchange ::
    "'w http_client \<Rightarrow> (string \<Rightarrow> json option) \<Rightarrow> string \<Rightarrow> json \<Rightarrow> 'w \<Rightarrow> (provider_error + http_response) option \<times> 'w" where
  "google_exchange http fs url body w =
     (case http w url body of
        (Inl e, w1) \<Rightarrow> (Some (Inl (Reqwest e)), w1)
      | (Inr resp, w1) \<Rightarrow>
          (if is_success (hr_status resp) then (Some (Inr resp), w1)
           else (map_option Inl (google_classify_error fs (hr_status resp) (hr_text resp)), w1)))"

definition google_complete ::
    "'w http_client \<Rightarrow> (string \<Rightarrow> json option) \<Rightarrow> provider_info \<Rightarrow> 'w \<Rightarrow> completion_request
       \<Rightarrow> (provider_error + completion_response) option \<times> 'w" where
  "google_complete http fs info w req =
     (case google_exchange http fs (google_url info req ''generateContent'') (google_build_body req) w of
        (None, w1) \<Rightarrow> (None, w1)
      | (Some r, w1) \<Rightarrow> read_json (Some \<circ> google_parse_response) (r, w1))"

definition google_complete_stream ::
    "'w http_client \<Rightarrow> (string \<Rightarrow> json option) \<Rightarrow> (string \<Rightarrow> string + json) \<Rightarrow> provider_info \<Rightarrow> 'w \<Rightarrow> completion_request
       \<Rightarrow> (provider_error + (provider_error + stream_chunk) list) option \<times> 'w" where
  "google_complete_stream http fs parse info w req =
     (case google_exchange http fs (google_url info req ''streamGenerateContent?alt=sse'') (google_build_body req) w of
        (None, w1) \<Rightarrow> (None, w1)
      | (Some (Inl e), w1) \<Rightarrow> (Some (Inl e), w1)
      | (Some (Inr resp), w1) \<Rightarrow> (Some (Inr (google_stream parse (hr_chunks resp))), w1))"

end
