(* ===== verification/Router.thy ===== *)
theory Router
  imports Agent
begin

text \<open>
  The model router of \<open>sentinel-provider\<close>: \<open>fallback.rs\<close> (health of the models, delays between retries, the classes of
  errors), \<open>router.rs\<close> (retries and fallbacks over an ordered list of providers) and \<open>switcher.rs\<close> (the choice of a
  provider by effort). A provider is a record of its calls; the world they act on also holds the clock, the
  source of random numbers and the effect of sleeping, which the record \<open>runtime\<close> reads. Times are in milliseconds.
\<close>

section \<open>Health (fallback.rs)\<close>

datatype error_kind = KTerminal | KTransient | KNotFound | KRateLimited | KUnknown

datatype model_health = Healthy | Degraded | Unavailable string nat

fun health_available :: "nat \<Rightarrow> model_health \<Rightarrow> bool" where
  "health_available now Healthy = True"
| "health_available now Degraded = True"
| "health_available now (Unavailable why until) \<longleftrightarrow> until < now"

record availability =
  av_models :: "string \<rightharpoonup> model_health"
  av_retry_cooldown :: nat

definition availability_new :: "string list \<Rightarrow> availability" where
  "availability_new names =
     \<lparr>av_models = fold (\<lambda>n m. m(n \<mapsto> Healthy)) names Map.empty, av_retry_cooldown = 30 * 1000\<rparr>"

definition with_retry_cooldown :: "nat \<Rightarrow> availability \<Rightarrow> availability" where
  "with_retry_cooldown d svc = svc\<lparr>av_retry_cooldown := d\<rparr>"

definition is_available :: "nat \<Rightarrow> availability \<Rightarrow> string \<Rightarrow> bool" where
  "is_available now svc name = (case av_models svc name of Some h \<Rightarrow> health_available now h | None \<Rightarrow> True)"

definition health :: "availability \<Rightarrow> string \<Rightarrow> model_health" where
  "health svc name = (case av_models svc name of Some h \<Rightarrow> h | None \<Rightarrow> Healthy)"

definition mark_healthy :: "string \<Rightarrow> availability \<Rightarrow> availability" where
  "mark_healthy name svc = svc\<lparr>av_models := (av_models svc)(name \<mapsto> Healthy)\<rparr>"

fun show_error_kind :: "error_kind \<Rightarrow> string" where
  "show_error_kind KTerminal = ''Terminal''"
| "show_error_kind KTransient = ''Transient''"
| "show_error_kind KNotFound = ''NotFound''"
| "show_error_kind KRateLimited = ''RateLimited''"
| "show_error_kind KUnknown = ''Unknown''"

definition mark_failure :: "nat \<Rightarrow> string \<Rightarrow> error_kind \<Rightarrow> availability \<Rightarrow> availability" where
  "mark_failure now name kind svc =
     svc\<lparr>av_models := (av_models svc)(name \<mapsto>
       (case kind of
          KTerminal \<Rightarrow> Unavailable (show_error_kind kind) (now + 300 * 1000)
        | KNotFound \<Rightarrow> Unavailable (show_error_kind kind) (now + 300 * 1000)
        | KRateLimited \<Rightarrow> Unavailable (show_error_kind kind) (now + av_retry_cooldown svc)
        | KTransient \<Rightarrow> Unavailable (show_error_kind kind) (now + av_retry_cooldown svc)
        | KUnknown \<Rightarrow> Degraded))\<rparr>"

definition first_available :: "nat \<Rightarrow> availability \<Rightarrow> string list \<Rightarrow> string option" where
  "first_available now svc names = find (is_available now svc) names"

definition available :: "nat \<Rightarrow> availability \<Rightarrow> string list \<Rightarrow> string list" where
  "available now svc names = filter (is_available now svc) names"

fun classify_error :: "provider_error \<Rightarrow> error_kind" where
  "classify_error (RateLimited _) = KRateLimited"
| "classify_error (RateLimitExceeded _) = KRateLimited"
| "classify_error (NotFound _) = KNotFound"
| "classify_error (Unauthorized _) = KTerminal"
| "classify_error (Forbidden _) = KTerminal"
| "classify_error (InvalidRequest _) = KTerminal"
| "classify_error (Timeout _) = KTransient"
| "classify_error (NetworkError _) = KTransient"
| "classify_error (ServerError _) = KTransient"
| "classify_error (ServiceUnavailable _) = KTransient"
| "classify_error _ = KUnknown"

record retry_config =
  rc_max_attempts :: u32
  rc_base_delay_ms :: u64
  rc_max_delay_ms :: u64
  rc_jitter :: bool

definition retry_config_default :: retry_config where
  "retry_config_default = \<lparr>rc_max_attempts = 10, rc_base_delay_ms = 1000, rc_max_delay_ms = 30000, rc_jitter = True\<rparr>"

text \<open>In the release profile the power and the product wrap around. \<open>rand\<close> is the random number.\<close>

definition delay_for :: "retry_config \<Rightarrow> u32 \<Rightarrow> u64 \<Rightarrow> u64" where
  "delay_for cfg attempt rand =
     (let ex = rc_base_delay_ms cfg * 2 ^ (if attempt = 0 then 0 else unat (attempt - 1));
          capped = min ex (rc_max_delay_ms cfg)
      in if rc_jitter cfg then capped + rand mod (capped div 4 + 1) else capped)"

section \<open>The router (router.rs)\<close>

record 'w provider =
  pv_name :: string
  pv_complete :: "'w \<Rightarrow> completion_request \<Rightarrow> (provider_error + completion_response) \<times> 'w"
  pv_complete_stream :: "'w \<Rightarrow> completion_request \<Rightarrow> (provider_error + (provider_error + stream_chunk) list) \<times> 'w"

record 'w runtime =
  rt_now :: "'w \<Rightarrow> nat"
  rt_sleep :: "u64 \<Rightarrow> 'w \<Rightarrow> 'w"
  rt_random :: "'w \<Rightarrow> u64 \<times> 'w"

record 'w router =
  ro_providers :: "'w provider list"
  ro_active :: nat
  ro_system_prompt_override :: "string option"
  ro_retry_config :: retry_config

definition router_new :: "'w provider list \<Rightarrow> 'w router" where
  "router_new ps = \<lparr>ro_providers = ps, ro_active = 0, ro_system_prompt_override = None, ro_retry_config = retry_config_default\<rparr>"

definition with_system_prompt_override :: "string \<Rightarrow> 'w router \<Rightarrow> 'w router" where
  "with_system_prompt_override p r = r\<lparr>ro_system_prompt_override := Some p\<rparr>"

definition with_retry :: "retry_config \<Rightarrow> 'w router \<Rightarrow> 'w router" where
  "with_retry cfg r = r\<lparr>ro_retry_config := cfg\<rparr>"

definition provider_count :: "'w router \<Rightarrow> nat" where
  "provider_count r = length (ro_providers r)"

definition active_provider :: "'w router \<Rightarrow> 'w provider option" where
  "active_provider r = (if ro_active r < length (ro_providers r) then Some (ro_providers r ! ro_active r) else None)"

definition fallback_order :: "'w router \<Rightarrow> nat list" where
  "fallback_order r = [ro_active r ..< length (ro_providers r)]"

text \<open>The loop of both \<open>call_with_retry\<close> and \<open>call_stream_with_retry\<close>; \<open>attempt\<close> stays below \<open>max_attempts\<close>.\<close>

function call_with_retry ::
    "'w runtime \<Rightarrow> retry_config \<Rightarrow> ('w \<Rightarrow> (provider_error + 'r) \<times> 'w) \<Rightarrow> nat \<Rightarrow> 'w \<Rightarrow> (provider_error + 'r) \<times> 'w" where
  "call_with_retry rt cfg call attempt w =
     (case call w of
        (Inr resp, w1) \<Rightarrow> (Inr resp, w1)
      | (Inl e, w1) \<Rightarrow>
          (if classify_error e \<in> {KTransient, KRateLimited} \<and> attempt + 1 < unat (rc_max_attempts cfg) then
             let (rand, w2) = (if rc_jitter cfg then rt_random rt w1 else (0, w1));
                 w3 = rt_sleep rt (delay_for cfg (of_nat (attempt + 1)) rand) w2
             in call_with_retry rt cfg call (attempt + 1) w3
           else (Inl e, w1)))"
  by pat_completeness auto
termination by (relation "measure (\<lambda>(_, cfg, _, a, _). unat (rc_max_attempts cfg) - a)") auto

declare call_with_retry.simps [simp del]

text \<open>The loop of both \<open>complete_with_fallback\<close> and \<open>complete_stream_with_fallback\<close>.\<close>

fun fallback_loop ::
    "'w runtime \<Rightarrow> 'w router \<Rightarrow> ('w provider \<Rightarrow> 'w \<Rightarrow> (provider_error + 'r) \<times> 'w) \<Rightarrow> nat list \<Rightarrow> provider_error option
       \<Rightarrow> availability option \<Rightarrow> 'w \<Rightarrow> (provider_error + 'r) \<times> availability option \<times> 'w" where
  "fallback_loop rt ro call [] last_err svc w =
     (Inl (case last_err of Some e \<Rightarrow> e | None \<Rightarrow> AllProvidersFailed), svc, w)"
| "fallback_loop rt ro call (i # is) last_err svc w =
     (let provider = ro_providers ro ! i; name = pv_name provider in
      if (case svc of Some s \<Rightarrow> \<not> is_available (rt_now rt w) s name | None \<Rightarrow> False)
      then fallback_loop rt ro call is last_err svc w
      else case call_with_retry rt (ro_retry_config ro) (call provider) 0 w of
             (Inr resp, w1) \<Rightarrow> (Inr resp, map_option (mark_healthy name) svc, w1)
           | (Inl e, w1) \<Rightarrow>
               fallback_loop rt ro call is (Some e)
                 (map_option (mark_failure (rt_now rt w1) name (classify_error e)) svc) w1)"

definition routed_request :: "'w router \<Rightarrow> completion_request \<Rightarrow> completion_request" where
  "routed_request ro req = (case ro_system_prompt_override ro of Some p \<Rightarrow> with_system req p | None \<Rightarrow> req)"

definition complete_with_fallback ::
    "'w runtime \<Rightarrow> 'w router \<Rightarrow> completion_request \<Rightarrow> availability option \<Rightarrow> 'w
       \<Rightarrow> (provider_error + completion_response) \<times> availability option \<times> 'w" where
  "complete_with_fallback rt ro req svc w =
     fallback_loop rt ro (\<lambda>p w. pv_complete p w (routed_request ro req)) (fallback_order ro) None svc w"

definition complete_stream_with_fallback ::
    "'w runtime \<Rightarrow> 'w router \<Rightarrow> completion_request \<Rightarrow> availability option \<Rightarrow> 'w
       \<Rightarrow> (provider_error + (provider_error + stream_chunk) list) \<times> availability option \<times> 'w" where
  "complete_stream_with_fallback rt ro req svc w =
     fallback_loop rt ro (\<lambda>p w. pv_complete_stream p w (routed_request ro req)) (fallback_order ro) None svc w"

text \<open>The router as the provider of an agent, without an availability service.\<close>

definition router_complete :: "'w runtime \<Rightarrow> 'w router \<Rightarrow> 'w \<Rightarrow> completion_request \<Rightarrow> (provider_error + completion_response) \<times> 'w" where
  "router_complete rt ro w req = (case complete_with_fallback rt ro req None w of (r, _, w') \<Rightarrow> (r, w'))"

section \<open>The switcher (switcher.rs)\<close>

datatype effort = Cheap | Balanced | Powerful

definition from_reasoning_effort :: "string option \<Rightarrow> effort" where
  "from_reasoning_effort r =
     (if r = Some ''low'' then Cheap else if r = Some ''medium'' then Balanced else if r = Some ''high'' then Powerful else Balanced)"

definition complexity_score :: "string \<Rightarrow> nat" where
  "complexity_score input =
     (let l = length input;
          has_code = str_contains input ''```'' \<or> str_contains input ''fn '' \<or> str_contains input ''def '';
          has_multiple_questions = 2 < length (filter (\<lambda>u. u = ''?'') (utf8_chars input));
          has_tool_request = str_contains input ''run '' \<or> str_contains input ''execute '' \<or> str_contains input ''search ''
      in if 2000 < l then 10
         else if has_code \<and> 100 < l then 8
         else if has_multiple_questions \<and> 300 < l then 5
         else if has_tool_request \<and> 200 < l then 4
         else if has_code \<and> 30 < l then 6
         else if 500 < l then 3
         else 1)"

definition from_task_complexity :: "string \<Rightarrow> effort" where
  "from_task_complexity input =
     (let score = complexity_score input in if 6 \<le> score then Powerful else if 4 \<le> score then Balanced else Cheap)"

record 'w switcher =
  sw_cheap :: "'w provider"
  sw_balanced :: "'w provider"
  sw_powerful :: "'w provider"
  sw_effort :: effort

definition switcher_new :: "'w provider \<Rightarrow> 'w provider \<Rightarrow> 'w provider \<Rightarrow> 'w switcher" where
  "switcher_new c b p = \<lparr>sw_cheap = c, sw_balanced = b, sw_powerful = p, sw_effort = Balanced\<rparr>"

definition current_provider :: "'w switcher \<Rightarrow> 'w provider" where
  "current_provider s = (case sw_effort s of Cheap \<Rightarrow> sw_cheap s | Balanced \<Rightarrow> sw_balanced s | Powerful \<Rightarrow> sw_powerful s)"

definition set_effort :: "effort \<Rightarrow> 'w switcher \<Rightarrow> 'w switcher" where
  "set_effort e s = s\<lparr>sw_effort := e\<rparr>"

definition select_for_task :: "string \<Rightarrow> 'w switcher \<Rightarrow> 'w provider \<times> 'w switcher" where
  "select_for_task input s = (let s1 = s\<lparr>sw_effort := from_task_complexity input\<rparr> in (current_provider s1, s1))"

definition complete_with_selection ::
    "'w switcher \<Rightarrow> 'w \<Rightarrow> completion_request \<Rightarrow> (provider_error + completion_response) \<times> 'w" where
  "complete_with_selection s w req = pv_complete (current_provider s) w req"

definition complete_stream_with_selection ::
    "'w switcher \<Rightarrow> 'w \<Rightarrow> completion_request \<Rightarrow> (provider_error + (provider_error + stream_chunk) list) \<times> 'w" where
  "complete_stream_with_selection s w req = pv_complete_stream (current_provider s) w req"

fun switcher_loop ::
    "completion_request \<Rightarrow> 'w provider list \<Rightarrow> provider_error option \<Rightarrow> 'w \<Rightarrow> (provider_error + completion_response) \<times> 'w" where
  "switcher_loop req [] last_err w = (Inl (case last_err of Some e \<Rightarrow> e | None \<Rightarrow> AllProvidersFailed), w)"
| "switcher_loop req (p # ps) last_err w =
     (case pv_complete p w req of
        (Inr resp, w1) \<Rightarrow> (Inr resp, w1)
      | (Inl e, w1) \<Rightarrow> switcher_loop req ps (Some e) w1)"

definition complete_with_all_fallback ::
    "'w switcher \<Rightarrow> 'w \<Rightarrow> completion_request \<Rightarrow> (provider_error + completion_response) \<times> 'w" where
  "complete_with_all_fallback s w req =
     (let providers = [sw_cheap s, sw_balanced s, sw_powerful s];
          start_idx = (case sw_effort s of Cheap \<Rightarrow> 0 | Balanced \<Rightarrow> 1 | Powerful \<Rightarrow> 2)
      in switcher_loop req (drop start_idx providers) None w)"

section \<open>Which providers are asked\<close>

text \<open>A log in the world that has the provider and the answer of every call and that sleeping and drawing leave alone.\<close>

definition logs_calls ::
    "'w runtime \<Rightarrow> ('w \<Rightarrow> (string \<times> (provider_error + 'r)) list) \<Rightarrow> 'w provider list
       \<Rightarrow> ('w provider \<Rightarrow> 'w \<Rightarrow> (provider_error + 'r) \<times> 'w) \<Rightarrow> bool" where
  "logs_calls rt lg ps call \<longleftrightarrow>
     (\<forall>p \<in> set ps. \<forall>w. lg (snd (call p w)) = lg w @ [(pv_name p, fst (call p w))]) \<and>
     (\<forall>d w. lg (rt_sleep rt d w) = lg w) \<and> (\<forall>w. lg (snd (rt_random rt w)) = lg w)"

abbreviation tries :: "retry_config \<Rightarrow> nat" where
  "tries cfg \<equiv> max 1 (unat (rc_max_attempts cfg))"

lemma call_with_retry_log:
  assumes "logs_calls rt lg ps call" "p \<in> set ps" "call_with_retry rt cfg (call p) a w = (r, w')" "a < tries cfg"
  shows "\<exists>rs. list_all isl rs \<and> a + Suc (length rs) \<le> tries cfg \<and> lg w' = lg w @ map (Pair (pv_name p)) (rs @ [r])"
  using assms
proof (induction rt cfg "call p" a w arbitrary: r w' rule: call_with_retry.induct)
  case (1 rt cfg a w)
  note lg = "1.prems"(1) [unfolded logs_calls_def]
  obtain x w1 where c: "call p w = (x, w1)" by fastforce
  have l1: "lg w1 = lg w @ [(pv_name p, x)]" using lg "1.prems"(2) c by (metis fst_conv snd_conv)
  show ?case
  proof (cases "\<exists>e. x = Inl e \<and> classify_error e \<in> {KTransient, KRateLimited} \<and> a + 1 < unat (rc_max_attempts cfg)")
    case False
    then have "w' = w1" "r = x"
      using "1.prems"(3) c by (subst (asm) call_with_retry.simps; auto split: sum.splits if_splits)+
    with l1 "1.prems"(4) show ?thesis by (intro exI [of _ "[]"]) simp
  next
    case True
    then obtain e where e: "x = Inl e" "classify_error e \<in> {KTransient, KRateLimited}" "a + 1 < unat (rc_max_attempts cfg)" by blast
    obtain rand w2 where w2: "(if rc_jitter cfg then rt_random rt w1 else (0, w1)) = (rand, w2)" by fastforce
    let ?w3 = "rt_sleep rt (delay_for cfg (of_nat (a + 1)) rand) w2"
    have "call_with_retry rt cfg (call p) (a + 1) ?w3 = (r, w')"
      using "1.prems"(3) c e w2 by (subst (asm) call_with_retry.simps) auto
    then obtain rs where rs: "list_all isl rs" "a + 1 + Suc (length rs) \<le> tries cfg" "lg w' = lg ?w3 @ map (Pair (pv_name p)) (rs @ [r])"
      using "1.hyps" [OF c [symmetric] e(1) _ refl w2 [symmetric]] e "1.prems"(1,2) by fastforce
    have "lg w2 = lg w1" using lg w2 by (metis prod.inject snd_conv)
    with lg have "lg ?w3 = lg w1" by simp
    with rs l1 e(1) show ?thesis by (intro exI [of _ "x # rs"]) simp
  qed
qed

text \<open>What a run of calls ends with: the answer of the last one, and before it there were only failures.\<close>

definition ends_with_answer :: "(string \<times> (provider_error + 'r)) list \<Rightarrow> provider_error \<Rightarrow> provider_error + 'r \<Rightarrow> bool" where
  "ends_with_answer cs none r \<longleftrightarrow>
     (if cs = [] then r = Inl none else snd (last cs) = r \<and> list_all (\<lambda>c. isl (snd c)) (butlast cs))"

text \<open>Whom a run without an availability service has asked.\<close>

definition asked_in_turn :: "provider_error + 'r \<Rightarrow> nat list \<Rightarrow> bool" where
  "asked_in_turn r ks \<longleftrightarrow>
     (case r of Inl e \<Rightarrow> 0 \<notin> set ks | Inr x \<Rightarrow> \<exists>n < length ks. (\<forall>j < length ks. 0 < ks ! j \<longleftrightarrow> j \<le> n))"

lemma asked_in_turn_Cons: "0 < k \<Longrightarrow> asked_in_turn r ks \<Longrightarrow> asked_in_turn r (k # ks)"
proof (cases r)
  case (Inr y)
  assume "0 < k" "asked_in_turn r ks"
  then obtain n where n: "n < length ks" "\<forall>j < length ks. 0 < ks ! j \<longleftrightarrow> j \<le> n" using Inr by (auto simp: asked_in_turn_def)
  then have "\<forall>j < length (k # ks). 0 < (k # ks) ! j \<longleftrightarrow> j \<le> Suc n" using \<open>0 < k\<close> by (auto simp: nth_Cons split: nat.splits)
  with n(1) Inr show ?thesis by (auto simp: asked_in_turn_def intro!: exI [of _ "Suc n"])
qed (simp add: asked_in_turn_def)

lemma asked_in_turn_first: "0 < k \<Longrightarrow> asked_in_turn (Inr x) (k # replicate n 0)"
  by (auto simp: asked_in_turn_def nth_Cons intro!: exI [of _ 0] split: nat.splits)

lemma ends_with_answer_retried:
  "ends_with_answer cs e r \<Longrightarrow> list_all isl rs \<Longrightarrow> ends_with_answer (map (Pair name) (rs @ [Inl e]) @ cs) none r"
  by (fastforce simp: ends_with_answer_def list_all_iff butlast_append)

text \<open>The calls of one run of the router: each provider at most so many times, in order, and nobody after the one that answered.\<close>

lemma fallback_loop_log:
  assumes "logs_calls rt lg (ro_providers ro) call" "fallback_loop rt ro call is le svc w = (r, svc', w')"
    and "\<forall>i \<in> set is. i < length (ro_providers ro)"
  shows "\<exists>ks cs. length ks = length is \<and> (\<forall>k \<in> set ks. k \<le> tries (ro_retry_config ro)) \<and> lg w' = lg w @ cs \<and>
    map fst cs = concat (map2 (\<lambda>i k. replicate k (pv_name (ro_providers ro ! i))) is ks) \<and>
    ends_with_answer cs (case le of Some e \<Rightarrow> e | None \<Rightarrow> AllProvidersFailed) r \<and> (svc = None \<longrightarrow> asked_in_turn r ks)"
  using assms(2,3)
proof (induction "is" arbitrary: le svc w)
  case Nil
  then show ?case by (auto simp: ends_with_answer_def asked_in_turn_def)
next
  case (Cons i "is")
  let ?p = "ro_providers ro ! i" and ?cfg = "ro_retry_config ro"
  let ?names = "\<lambda>is ks. concat (map2 (\<lambda>i k. replicate k (pv_name (ro_providers ro ! i))) is ks)"
  have lt: "\<forall>i \<in> set is. i < length (ro_providers ro)" using Cons.prems(2) by simp
  show ?case
  proof (cases "case svc of Some s \<Rightarrow> \<not> is_available (rt_now rt w) s (pv_name ?p) | None \<Rightarrow> False")
    case True
    then have "fallback_loop rt ro call is le svc w = (r, svc', w')" using Cons.prems(1) by (simp add: Let_def)
    from Cons.IH [OF this lt] obtain ks cs where "length ks = length is" "\<forall>k \<in> set ks. k \<le> tries ?cfg"
      "lg w' = lg w @ cs" "map fst cs = ?names is ks"
      "ends_with_answer cs (case le of Some e \<Rightarrow> e | None \<Rightarrow> AllProvidersFailed) r" by blast
    moreover have "svc \<noteq> None" using True by (auto split: option.splits)
    ultimately show ?thesis by (intro exI [of _ "0 # ks"] exI [of _ cs]) auto
  next
    case False
    obtain x w1 where c: "call_with_retry rt ?cfg (call ?p) 0 w = (x, w1)" by fastforce
    obtain rs where rs: "list_all isl rs" "Suc (length rs) \<le> tries ?cfg" "lg w1 = lg w @ map (Pair (pv_name ?p)) (rs @ [x])"
      using call_with_retry_log [OF assms(1) _ c] Cons.prems(2) by (auto simp: less_max_iff_disj)
    let ?k = "Suc (length rs)" and ?one = "map (Pair (pv_name ?p)) (rs @ [x])"
    have names: "map fst ?one = replicate ?k (pv_name ?p)" by (simp add: map_replicate_const comp_def replicate_append_same)
    show ?thesis
    proof (cases x)
      case (Inr resp)
      then have r: "r = Inr resp" "w' = w1" using Cons.prems(1) c False by (auto simp: Let_def)
      have none: "?names js (replicate (length js) 0) = []" for js by (induction js) auto
      have "ends_with_answer ?one e r" for e
        using rs(1) Inr r(1) by (auto simp: ends_with_answer_def list_all_iff butlast_append)
      with r rs none names asked_in_turn_first [of ?k resp "length is"] show ?thesis
        by (intro exI [of _ "?k # replicate (length is) 0"] exI [of _ ?one]) simp
    next
      case (Inl e)
      then have "fallback_loop rt ro call is (Some e)
          (map_option (mark_failure (rt_now rt w1) (pv_name ?p) (classify_error e)) svc) w1 = (r, svc', w')"
        using Cons.prems(1) c False by (simp add: Let_def)
      from Cons.IH [OF this lt] obtain ks cs where ks: "length ks = length is" "\<forall>k \<in> set ks. k \<le> tries ?cfg"
        "lg w' = lg w1 @ cs" "map fst cs = ?names is ks" "ends_with_answer cs e r" "svc = None \<longrightarrow> asked_in_turn r ks" by auto
      then show ?thesis using rs names Inl ends_with_answer_retried [OF ks(5) rs(1), of "pv_name ?p"] asked_in_turn_Cons [of ?k r ks]
        by (intro exI [of _ "?k # ks"] exI [of _ "?one @ cs"]) simp
    qed
  qed
qed

text \<open>C23. The router asks its providers one after the other from the active one on, each at most \<open>max_attempts\<close> times (once
  if that is zero), with or without an availability service. Its answer is that of the last call it made, all calls before it
  have failed, so nobody is asked after the one that answered, and if it made none it reports that all providers failed.
  Without a service it skips nobody: when it fails it has asked every one of them, when it succeeds every one up to the one
  that answered.\<close>

theorem router_asks_in_order:
  assumes "logs_calls rt lg (ro_providers ro) (\<lambda>p w. pv_complete p w (routed_request ro req))"
    and "complete_with_fallback rt ro req svc w = (r, svc', w')"
  shows "\<exists>ks cs. length ks = provider_count ro - ro_active ro \<and> (\<forall>k \<in> set ks. k \<le> max 1 (unat (rc_max_attempts (ro_retry_config ro)))) \<and>
    lg w' = lg w @ cs \<and> map fst cs = concat (map2 (\<lambda>p k. replicate k (pv_name p)) (drop (ro_active ro) (ro_providers ro)) ks) \<and>
    ends_with_answer cs AllProvidersFailed r \<and> (svc = None \<longrightarrow> asked_in_turn r ks)"
proof -
  let ?is = "fallback_order ro"
  have map2: "map2 (\<lambda>i k. replicate k (pv_name (ro_providers ro ! i))) ?is ks =
      map2 (\<lambda>p k. replicate k (pv_name p)) (drop (ro_active ro) (ro_providers ro)) ks" for ks
    by (rule nth_equalityI) (auto simp: fallback_order_def)
  have lt: "\<forall>i \<in> set ?is. i < length (ro_providers ro)" by (simp add: fallback_order_def)
  have len: "length ?is = provider_count ro - ro_active ro" by (simp add: fallback_order_def provider_count_def)
  from fallback_loop_log [OF assms(1) assms(2) [unfolded complete_with_fallback_def] lt] show ?thesis
    unfolding map2 len by simp
qed


section \<open>An agent on top of the router\<close>

lemma length_concat_le: "\<forall>x \<in> set xss. length x \<le> n \<Longrightarrow> length (concat xss) \<le> length xss * n"
  by (induction xss) auto

lemma router_complete_calls:
  assumes "\<forall>req. logs_calls rt lg (ro_providers ro) (\<lambda>p w. pv_complete p w req)" "router_complete rt ro w req = (r, w')"
  shows "length (lg w') \<le> length (lg w) + provider_count ro * tries (ro_retry_config ro)"
proof -
  obtain svc' where c: "complete_with_fallback rt ro req None w = (r, svc', w')"
    using assms(2) by (auto simp: router_complete_def split: prod.splits)
  have lc: "logs_calls rt lg (ro_providers ro) (\<lambda>p w. pv_complete p w (routed_request ro req))" using assms(1) by blast
  let ?is = "fallback_order ro" and ?g = "\<lambda>i k. replicate k (pv_name (ro_providers ro ! i))"
  have "\<forall>i \<in> set ?is. i < length (ro_providers ro)" by (simp add: fallback_order_def)
  from fallback_loop_log [OF lc c [unfolded complete_with_fallback_def] this]
  obtain ks cs where ks: "length ks = length ?is" "\<forall>k \<in> set ks. k \<le> tries (ro_retry_config ro)"
    "lg w' = lg w @ cs" "map fst cs = concat (map2 ?g ?is ks)" by blast
  have "length (concat (map2 ?g ?is ks)) \<le> length (map2 ?g ?is ks) * tries (ro_retry_config ro)"
    using ks(2) by (intro length_concat_le) (auto dest: set_zip_rightD)
  also have "\<dots> \<le> provider_count ro * tries (ro_retry_config ro)"
    using ks(1) by (intro mult_le_mono1) (simp add: fallback_order_def provider_count_def)
  finally show ?thesis using arg_cong [OF ks(4), of length] by (simp add: ks(3))
qed

lemma await_completion_calls:
  assumes "ae_complete env = router_complete rt ro" "\<forall>req. logs_calls rt lg (ro_providers ro) (\<lambda>p w. pv_complete p w req)"
    and "\<forall>w w'. ae_cut env w = Some w' \<longrightarrow> lg w' = lg w" "await_completion env req s = (x, s')"
  shows "length (lg (ag_world s')) \<le> length (lg (ag_world s)) + provider_count ro * tries (ro_retry_config ro)"
  using assms(3,4) router_complete_calls [OF assms(2)]
  by (auto simp: await_completion_def assms(1) logged_def Let_def split: if_splits option.splits prod.splits)

text \<open>An agent whose provider is the router makes at most three times as many calls for one answer as the router
  may make, the number of its providers times \<open>max_attempts\<close> (once if that is zero), and this bound covers
  the retries of both.\<close>

theorem agent_provider_calls_bounded:
  assumes "ae_complete env = router_complete rt ro" "\<forall>req. logs_calls rt lg (ro_providers ro) (\<lambda>p w. pv_complete p w req)"
    and "\<forall>w w'. ae_cut env w = Some w' \<longrightarrow> lg w' = lg w" "complete_retry env req 0 s = (a, s')"
  shows "length (lg (ag_world s')) \<le> length (lg (ag_world s))
    + 3 * (provider_count ro * max 1 (unat (rc_max_attempts (ro_retry_config ro))))"
proof -
  let ?B = "provider_count ro * tries (ro_retry_config ro)"
  have "length (lg (ag_world s')) \<le> length (lg (ag_world s)) + (3 - n) * ?B"
    if "complete_retry env req n s = (a, s')" "n < 3" "ae_complete env = router_complete rt ro"
      "\<forall>w w'. ae_cut env w = Some w' \<longrightarrow> lg w' = lg w" for n env req s
    using that
  proof (induction env req n s arbitrary: rule: complete_retry.induct)
    case (1 env req n s)
    obtain x s1 where x: "await_completion env req s = (x, s1)" by fastforce
    have one: "length (lg (ag_world s1)) \<le> length (lg (ag_world s)) + ?B"
      using await_completion_calls [OF "1.prems"(3) assms(2) "1.prems"(4) x] .
    obtain d where "3 - n = Suc d" using "1.prems"(2) by (metis Suc_diff_Suc)
    then have B: "?B \<le> (3 - n) * ?B" by simp
    show ?case
    proof (cases "\<exists>e. x = Some (Inl e) \<and> n + 1 < 3 \<and> is_transient e")
      case True
      then obtain e where e: "x = Some (Inl e)" "n + 1 < 3 \<and> is_transient e" by blast
      with "1.prems"(1) x have "complete_retry env req (n + 1) s1 = (a, s')" by (subst (asm) complete_retry.simps) simp
      from "1.IH" [OF x [symmetric] e(1) refl e(2) this] e "1.prems"(3,4)
      have "length (lg (ag_world s')) \<le> length (lg (ag_world s1)) + (3 - (n + 1)) * ?B" by simp
      moreover have "(3 - n) * ?B = ?B + (3 - (n + 1)) * ?B"
        using e(2) by (simp add: Suc_diff_Suc [symmetric] numeral_3_eq_3)
      ultimately show ?thesis using one by simp
    next
      case False
      with "1.prems"(1) x have "s' = s1"
        by (subst (asm) complete_retry.simps) (auto split: option.splits sum.splits if_splits)
      with order_trans [OF one add_left_mono [OF B]] show ?thesis by (simp only:)
    qed
  qed
  from this [OF assms(4) _ assms(1,3)] show ?thesis by simp
qed

section \<open>Delays\<close>

lemma unat_div4_succ: "unat ((c :: u64) div 4 + 1) = unat c div 4 + 1"
proof -
  have "unat c < 2 ^ 64" using unsigned_less [of c] by simp
  then show ?thesis by (simp add: unat_word_ariths(1) unat_div)
qed

lemma unat_mult_pow: "unat (b :: u64) * 2 ^ k < 2 ^ 64 \<Longrightarrow> unat (b * 2 ^ k) = unat b * 2 ^ k"
proof (cases "b = 0")
  case False
  assume lt: "unat b * 2 ^ k < 2 ^ 64"
  have "0 < unat b" using False by (simp add: unat_gt_0)
  then have "(2 :: nat) ^ k \<le> unat b * 2 ^ k" by simp
  with lt have k: "(2 :: nat) ^ k < 2 ^ 64" by linarith
  have "unat (of_nat (2 ^ k) :: u64) = 2 ^ k" using power_less_imp_less_exp [OF _ k] by (simp only: unsigned_of_nat) (simp add: take_bit_nat_eq_self)
  then have "unat (2 ^ k :: u64) = 2 ^ k" by simp
  with lt show ?thesis by (simp add: unat_word_ariths(2))
qed simp

text \<open>The wait before a retry doubles with every attempt up to \<open>max_delay_ms\<close>, plus at most a quarter of it as jitter, as
  long as the doubled delay fits in 64 bits.\<close>

theorem delay_for_bounds:
  assumes "0 < attempt" "unat (rc_base_delay_ms cfg) * 2 ^ (unat attempt - 1) < 2 ^ 64" "unat (rc_max_delay_ms cfg) < 2 ^ 63"
  shows "let capped = min (unat (rc_base_delay_ms cfg) * 2 ^ (unat attempt - 1)) (unat (rc_max_delay_ms cfg)) in
    capped \<le> unat (delay_for cfg attempt rand) \<and> unat (delay_for cfg attempt rand) \<le> capped + capped div 4
    \<and> (\<not> rc_jitter cfg \<longrightarrow> unat (delay_for cfg attempt rand) = capped)"
proof -
  let ?c = "min (rc_base_delay_ms cfg * 2 ^ unat (attempt - 1)) (rc_max_delay_ms cfg)"
  have "unat (attempt - 1) = unat attempt - 1" using assms(1) by (simp add: unat_minus_one word_neq_0_conv)
  then have c: "unat ?c = min (unat (rc_base_delay_ms cfg) * 2 ^ (unat attempt - 1)) (unat (rc_max_delay_ms cfg))"
    using unat_mult_pow [OF assms(2)] by (simp add: min_def word_le_nat_alt)
  let ?j = "rand mod (?c div 4 + 1)"
  have "unat ?j \<le> unat ?c div 4"
    using mod_less_divisor [of "unat ?c div 4 + 1" "unat rand"] by (simp add: unat_mod unat_div4_succ)
  moreover have "unat ?c < 2 ^ 63" using c assms(3) by simp
  ultimately have "unat (?c + ?j) = unat ?c + unat ?j \<and> unat ?j \<le> unat ?c div 4"
    by (simp add: unat_word_ariths(1))
  moreover have "attempt \<noteq> 0" using assms(1) by auto
  ultimately show ?thesis using c by (simp add: delay_for_def Let_def)
qed

text \<open>From the sixty-fifth attempt on the doubled delay has wrapped around to zero, and the loop retries at once.\<close>

lemma delay_wraps: "\<not> rc_jitter cfg \<Longrightarrow> delay_for cfg 65 rand = 0"
proof -
  have z: "b * 18446744073709551616 = 0" for b :: u64
  proof -
    have "(18446744073709551616 :: u64) = 0" by code_simp
    then have "b * 18446744073709551616 = b * 0" by (rule arg_cong)
    then show ?thesis by (simp only: mult_zero_right)
  qed
  then show "\<not> rc_jitter cfg \<Longrightarrow> delay_for cfg 65 rand = 0" by (simp add: delay_for_def Let_def z)
qed

theorem delay_for_bounds_witness:
  "let capped = min (unat (rc_base_delay_ms retry_config_default) * 2 ^ (unat (3 :: u32) - 1)) (unat (rc_max_delay_ms retry_config_default)) in
    capped \<le> unat (delay_for retry_config_default 3 77) \<and> unat (delay_for retry_config_default 3 77) \<le> capped + capped div 4
    \<and> (\<not> rc_jitter retry_config_default \<longrightarrow> unat (delay_for retry_config_default 3 77) = capped)"
  by (rule delay_for_bounds) (simp_all add: retry_config_default_def)

section \<open>Health\<close>

text \<open>A failed model comes back after its cooldown, and at once when the error is of no known class.\<close>

lemma mark_failure_until:
  "is_available now' (mark_failure now name kind svc) name \<longleftrightarrow>
     kind = KUnknown \<or> now + (if kind \<in> {KTerminal, KNotFound} then 300000 else av_retry_cooldown svc) < now'"
  by (cases kind) (auto simp: is_available_def mark_failure_def)

text \<open>Without an available provider nobody is asked and nothing changes.\<close>

lemma fallback_none_available:
  "(\<And>i. i \<in> set is \<Longrightarrow> \<not> is_available (rt_now rt w) s (pv_name (ro_providers ro ! i))) \<Longrightarrow>
    fallback_loop rt ro call is None (Some s) w = (Inl AllProvidersFailed, Some s, w)"
  by (induction "is") (auto simp: Let_def)

section \<open>Two providers\<close>

type_synonym ex_world = "(string \<times> (provider_error + completion_response)) list"

definition ex_runtime :: "ex_world runtime" where
  "ex_runtime = \<lparr>rt_now = \<lambda>_. 0, rt_sleep = \<lambda>_ w. w, rt_random = \<lambda>w. (0, w)\<rparr>"

definition ex_provider :: "string \<Rightarrow> (provider_error + completion_response) \<Rightarrow> ex_world provider" where
  "ex_provider name r = \<lparr>pv_name = name, pv_complete = \<lambda>w req. (r, w @ [(name, r)]), pv_complete_stream = \<lambda>w req. (Inl PCancelled, w)\<rparr>"

definition ex_router :: "ex_world router" where
  "ex_router = with_retry \<lparr>rc_max_attempts = 2, rc_base_delay_ms = 1, rc_max_delay_ms = 9, rc_jitter = False\<rparr>
     (router_new [ex_provider ''a'' (Inl (Timeout 1)), ex_provider ''b'' (Inr (ex_response (message_assistant ''hi'') None))])"

lemma ex_router_logs: "logs_calls ex_runtime (\<lambda>w. w) (ro_providers ex_router) (\<lambda>p w. pv_complete p w req)"
  by (simp add: logs_calls_def ex_runtime_def ex_router_def with_retry_def router_new_def ex_provider_def)

lemmas ex_router_defs = ex_router_def with_retry_def router_new_def ex_provider_def ex_runtime_def complete_with_fallback_def
  fallback_order_def call_with_retry.simps

text \<open>With an availability service: the first provider is tried twice, the second answers.\<close>

theorem router_asks_in_order_witness:
  "\<exists>svc' cs. complete_with_fallback ex_runtime ex_router (completion_request_new ''m'') (Some (availability_new [''a'', ''b''])) [] =
     (Inr (ex_response (message_assistant ''hi'') None), svc', cs) \<and> map fst cs = [''a'', ''a'', ''b'']
     \<and> ends_with_answer cs AllProvidersFailed (Inr (ex_response (message_assistant ''hi'') None))"
proof -
  obtain svc' where c: "complete_with_fallback ex_runtime ex_router (completion_request_new ''m'') (Some (availability_new [''a'', ''b''])) [] =
     (Inr (ex_response (message_assistant ''hi'') None), svc',
      [(''a'', Inl (Timeout 1)), (''a'', Inl (Timeout 1)), (''b'', Inr (ex_response (message_assistant ''hi'') None))])"
    by (simp add: ex_router_defs upt_rec Let_def is_available_def availability_new_def mark_failure_def)
  from router_asks_in_order [OF ex_router_logs c] c show ?thesis by auto
qed

text \<open>An agent over that router, whose log is the world.\<close>

definition ex_routed_env :: "ex_world agent_env" where
  "ex_routed_env =
     \<lparr>ae_batch = \<lparr>be_tools = Map.empty, be_gate = auto_approval_gate, be_policy = None, be_plugins = registry_new,
        be_sandbox = None, be_compress = (\<lambda>w n s e. (s, w)), be_fs = (\<lambda>_. \<lparr>fs_root = Dir [], fs_cwd = []\<rparr>),
        be_cancelled = (\<lambda>_. False), be_interrupt = (\<lambda>_ _. None), be_sched = (\<lambda>_ _. None)\<rparr>,
      ae_complete = router_complete ex_runtime ex_router,
      ae_complete_stream = (\<lambda>w req. (Inl (StreamError ''none''), w)),
      ae_cut = (\<lambda>w. None), ae_compress_conversation = (\<lambda>w ms m. (ms, w)), ae_hooks = [],
      ae_upload = null_upload, ae_run_command = (\<lambda>w c d. (TimedOut, w)),
      ae_manager = (\<lambda>w. snapshot_manager_new), ae_set_manager = (\<lambda>m w. w), ae_cwd = (\<lambda>w. None),
      ae_tool_defs = [], ae_keys = [], ae_dbg = (\<lambda>j. []), ae_parse = (\<lambda>x. None),
      ae_prompt = [], ae_provider_name = ''p'', ae_model = [], ae_default_model = ''m'', ae_max_tokens = None,
      ae_verify_command = None, ae_max_fix_cycles = 3, ae_paths = []\<rparr>"

definition ex_routed_state :: "ex_world agent_state" where
  "ex_routed_state = \<lparr>ag_world = [], ag_thread = thread_new ''x'' 5 2 True, ag_log = [], total_prompt_tokens = 0,
     total_completion_tokens = 0, fix_cycles = 0\<rparr>"

theorem agent_provider_calls_bounded_witness:
  "\<exists>a s'. complete_retry ex_routed_env (completion_request_new ''m'') 0 ex_routed_state = (a, s') \<and>
     length (ag_world s') \<le> 3 * (2 * 2)"
proof -
  obtain a s' where c: "complete_retry ex_routed_env (completion_request_new ''m'') 0 ex_routed_state = (a, s')" by fastforce
  have "provider_count ex_router = 2" "max 1 (unat (rc_max_attempts (ro_retry_config ex_router))) = 2"
    by (simp_all add: ex_router_def with_retry_def router_new_def provider_count_def)
  with agent_provider_calls_bounded [OF _ _ _ c, of ex_runtime ex_router "\<lambda>w. w"] ex_router_logs c show ?thesis
    by (simp add: ex_routed_env_def ex_routed_state_def)
qed

end
