(* ===== verification/Providers.thy ===== *)
theory Providers
  imports Anthropic Google Streaming Router
begin

text \<open>
  What the provider clients mean for the agent that calls them: which failures are tried again, which
  tool results reach the model, and which streamed answers can ever run a tool. The clients are those
  of \<open>Openai\<close>, \<open>Anthropic\<close> and \<open>Google\<close>; the agent is that of \<open>Agent\<close> and \<open>Streaming\<close>, the router that of \<open>Router\<close>.
\<close>

section \<open>Cuts\<close>

text \<open>The chunks of a response: bytes, and an error at the end if a read failed.\<close>

definition arriving :: "string list \<Rightarrow> string option \<Rightarrow> (string + string) list" where
  "arriving cs failure = map Inr cs @ (case failure of None \<Rightarrow> [] | Some e \<Rightarrow> [Inl e])"

lemma read_events_cuts:
  assumes "concat cs = concat ds"
  shows "read_events emit fail [] (arriving cs failure) = read_events emit fail [] (arriving ds failure)"
proof -
  have "read_events emit fail [] (map Inr cs) = read_events emit fail [] (map Inr ds)"
    using assms by (simp add: read_events_whole)
  then show ?thesis by (cases failure) (simp_all add: arriving_def read_events_error)
qed

text \<open>The cuts of the network do not matter to the clients that buffer: two ways of cutting the same bytes into
  chunks give the same items, for OpenAI and local servers, for Google and for the shared frame reader,
  also when a read fails after them.\<close>

theorem stream_cuts_irrelevant:
  assumes "concat cs = concat ds"
  shows "openai_stream parse (arriving cs failure) = openai_stream parse (arriving ds failure)
    \<and> google_stream gparse (arriving cs failure) = google_stream gparse (arriving ds failure)
    \<and> sse_frame_stream (arriving cs failure) = sse_frame_stream (arriving ds failure)"
  unfolding openai_stream_def google_stream_def sse_frame_stream_def
  by (intro conjI read_events_cuts [OF assms])

text \<open>The Anthropic client has no buffer, so a cut inside an event loses it: when the first part of a payload
  cannot be decoded alone, the consumer gets an error instead of the event, although the same bytes in
  one chunk deliver the event.\<close>

theorem anthropic_cut_loses_event:
  assumes "payload (a @ b)" "payload a" "valid_utf8 b" "\<not> starts_with (str_trim b) ''data: ''"
    and "parse a = Inl e" "parse (a @ b) = Inr ev" "event_to_chunk ev = Some c"
  shows "anthropic_stream parse [Inr (''data: '' @ a @ b @ blank)] = [Inr c]
    \<and> anthropic_stream parse [Inr (''data: '' @ a), Inr (b @ blank)] = [Inl (JsonError e)]"
proof -
  have line: "anthropic_line parse (''data: '' @ p) = (case parse p of Inl e \<Rightarrow> [Inl (JsonError e)]
      | Inr ev \<Rightarrow> (case event_to_chunk ev of Some c \<Rightarrow> [Inr c] | None \<Rightarrow> []))" if "payload p" for p
    using that by (simp add: anthropic_line_def payload_def strip_prefix_def starts_with_def)
  have empty: "anthropic_line parse [] = []" by (simp add: anthropic_line_def str_trim_def)
  have b: "anthropic_line parse b = []" using assms(4) by (simp add: anthropic_line_def strip_prefix_def Let_def)
  have v: "valid_utf8 (''data: '' @ p)" if "valid_utf8 p" for p using that by (simp add: valid_utf8_def)
  have vb: "valid_utf8 blank" by (simp add: valid_utf8_def blank_def)
  have no_lf: "CHR 0x0A \<notin> set (''data: '' @ a @ b)" "CHR 0x0D \<notin> set (''data: '' @ a @ b)"
    "CHR 0x0A \<notin> set b" "CHR 0x0D \<notin> set b" "CHR 0x0A \<notin> set (''data: '' @ a)"
    using assms(1) by (auto simp: payload_def)
  have whole: "from_utf8_lossy (''data: '' @ a @ b @ blank) = (''data: '' @ a @ b) @ blank"
    using from_utf8_lossy_valid [OF valid_utf8_append [OF v [of "a @ b"] vb]] assms(1) by (simp add: payload_def)
  have first: "from_utf8_lossy (''data: '' @ a) = ''data: '' @ a"
    using assms(2) by (intro from_utf8_lossy_valid v) (simp add: payload_def)
  have second: "from_utf8_lossy (b @ blank) = b @ blank"
    using assms(3) vb by (intro from_utf8_lossy_valid valid_utf8_append)
  have "str_lines (''data: '' @ a) = [''data: '' @ a]" using no_lf(5) by (intro str_lines_single) auto
  moreover have "str_lines (''data: '' @ a @ b @ blank) = [''data: '' @ a @ b, []]"
    using str_lines_event [OF no_lf(1,2)] by simp
  ultimately show ?thesis
    using line [OF assms(1)] line [OF assms(2)] assms(5-7)
    by (simp add: anthropic_stream_def whole first second str_lines_event [OF no_lf(3,4)]
        empty b del: append_Cons)
qed

section \<open>Streamed tool calls\<close>

text \<open>The tool-call pieces of a chunk.\<close>

definition chunk_pieces :: "stream_chunk \<Rightarrow> delta_tool_call list" where
  "chunk_pieces c = concat (map (\<lambda>ch. opt_or [] (d_tool_calls (sc_delta ch))) (chunk_choices c))"

lemma event_pieces: "event_to_chunk ev = Some c \<Longrightarrow> tc \<in> set (chunk_pieces c) \<Longrightarrow> dtc_id tc = None"
  by (induction ev rule: event_to_chunk.induct) (auto simp: chunk_pieces_def chunk_of_def)

lemma anthropic_pieces:
  assumes "Inr c \<in> set (anthropic_stream parse chunks)" "tc \<in> set (chunk_pieces c)"
  shows "dtc_id tc = None"
proof -
  have "anthropic_line parse l = [] \<or> (\<exists>e. anthropic_line parse l = [Inl e])
      \<or> (\<exists>ev d. event_to_chunk ev = Some d \<and> anthropic_line parse l = [Inr d])" for l
    by (auto simp: anthropic_line_def Let_def split: option.splits sum.splits)
  then have line: "\<exists>ev. event_to_chunk ev = Some c" if "Inr c \<in> set (anthropic_line parse l)" for l
    using that by (metis Inl_Inr_False Inr_inject empty_iff empty_set set_ConsD)
  obtain x where x: "x \<in> set chunks" "Inr c \<in> set (anthropic_chunk parse x)"
    using assms(1) by (auto simp: anthropic_stream_def)
  have "\<exists>ev. event_to_chunk ev = Some c"
  proof (cases x)
    case (Inr bytes)
    with x(2) obtain l where "Inr c \<in> set (anthropic_line parse l)" by auto
    then show ?thesis by (rule line)
  qed (use x(2) in simp)
  then obtain ev where "event_to_chunk ev = Some c" by blast
  then show ?thesis using assms(2) by (rule event_pieces)
qed

lemma google_pieces: "chunk_pieces (parse_stream_chunk j) = []"
  by (simp add: parse_stream_chunk_def chunk_pieces_def split: prod.splits)

lemma google_stream_pieces:
  assumes "Inr c \<in> set (google_stream parse chunks)"
  shows "chunk_pieces c = []"
proof -
  have line: "\<exists>j. c = parse_stream_chunk j"
    if "Inr c \<in> set (data_line (\<lambda>data. map_sum id parse_stream_chunk (json_or_error parse data)) l)" for l
  proof -
    let ?d = "\<lambda>data. map_sum id parse_stream_chunk (json_or_error parse data)"
    have "data_line ?d l = [] \<or> (\<exists>x. data_line ?d l = [?d x])"
      by (auto simp: data_line_def Let_def split: option.splits)
    with that obtain x where "Inr c = map_sum id parse_stream_chunk (json_or_error parse x)" by auto
    then show ?thesis by (cases "json_or_error parse x") auto
  qed
  have read: "\<exists>ev. Inr c \<in> set (google_event parse ev)"
    if "Inr c \<in> set (read_events (google_event parse) (\<lambda>e. Inl (StreamError e)) b xs)" for b xs
    using that
  proof (induction xs arbitrary: b)
    case (Cons x xs)
    then show ?case by (cases x) (auto split: prod.splits)
  qed simp
  obtain ev where "Inr c \<in> set (google_event parse ev)" using read assms by (auto simp: google_stream_def)
  then obtain j where "c = parse_stream_chunk j" using line by (auto simp: google_event_def)
  then show ?thesis by (simp add: google_pieces)
qed

text \<open>What the loop collects from chunks without an identified piece has no identified call.\<close>

lemma collect_choice_anonymous:
  "(\<And>tc. tc \<in> set (opt_or [] (d_tool_calls (sc_delta ch))) \<Longrightarrow> dtc_id tc = None) \<Longrightarrow>
   list_all (\<lambda>c. fst c = []) (snd acc) \<Longrightarrow> list_all (\<lambda>c. fst c = []) (snd (collect_choice parse ch acc))"
  by (cases acc; cases "d_tool_calls (sc_delta ch)")
    (auto simp: collect_choice_def delta_call_def opt_str_def list_all_iff Let_def split: option.splits)

lemma collect_anonymous:
  assumes "\<And>c tc. Inr c \<in> set cs \<Longrightarrow> tc \<in> set (chunk_pieces c) \<Longrightarrow> dtc_id tc = None" "list_all (\<lambda>c. fst c = []) (snd acc)"
  shows "list_all (\<lambda>c. fst c = []) (snd (collect_stream parse cs acc))"
  using assms
proof (induction parse cs acc rule: collect_stream.induct)
  case (3 parse c cs acc)
  have step: "list_all (\<lambda>c. fst c = []) (snd (fold (collect_choice parse) chs acc'))"
    if "set chs \<subseteq> set (chunk_choices c)" "list_all (\<lambda>c. fst c = []) (snd acc')" for chs acc'
    using that
  proof (induction chs arbitrary: acc')
    case (Cons ch chs)
    have "list_all (\<lambda>c. fst c = []) (snd (collect_choice parse ch acc'))"
      using Cons.prems "3.prems"(1) [of c] by (intro collect_choice_anonymous) (auto simp: chunk_pieces_def)
    with Cons show ?case by simp
  qed simp
  have p: "\<And>d tc. Inr d \<in> set cs \<Longrightarrow> tc \<in> set (chunk_pieces d) \<Longrightarrow> dtc_id tc = None" by (rule "3.prems"(1)) simp_all
  show ?case using "3.IH" [OF p] step [of "chunk_choices c" acc] "3.prems"(2) by simp
qed auto

lemma anonymous_rejected:
  assumes "list_all (\<lambda>c. fst c = []) (snd x)"
  shows "stream_rejected x"
proof (cases "snd x = []")
  case False
  then obtain c where "c \<in> set (snd x)" by (cases "snd x") auto
  with assms show ?thesis by (auto simp: stream_rejected_def list_all_iff dest: missing_id_invalid)
qed (simp add: stream_rejected_def)

text \<open>C28. With the Anthropic or the Google client a streaming run never executes a tool: the pieces of a streamed
  call carry no id (Anthropic) or are not passed on at all (Google), so every answer of the model is
  rejected or taken as final, and no batch is ever run.\<close>

theorem streaming_clients_run_nothing:
  assumes "\<forall>w req r w'. ae_complete_stream env w req = (r, w') \<longrightarrow>
      anthropic_complete_stream http parse info w req = (r, w') \<or> google_complete_stream http fs gparse info w req = (Some r, w')"
  shows "batches (ag_log (snd (run_streaming_with_system env input g system s))) = batches (ag_log s)"
proof (rule mute_runs_nothing)
  have "stream_rejected (collect_stream (ae_parse env) cs ([], []))" if c: "ae_complete_stream env w req = (Inr cs, w')" for w req cs w'
  proof (intro anonymous_rejected collect_anonymous)
    fix c tc assume "Inr c \<in> set cs" "tc \<in> set (chunk_pieces c)"
    moreover have "(\<exists>chunks. cs = anthropic_stream parse chunks) \<or> (\<exists>chunks. cs = google_stream gparse chunks)"
      using assms [rule_format, OF c]
      by (auto simp: anthropic_complete_stream_def google_complete_stream_def split: prod.splits sum.splits option.splits)
    ultimately show "dtc_id tc = None" by (auto dest: anthropic_pieces google_stream_pieces)
  qed simp
  then show "mute env" by (simp add: mute_def)
qed

section \<open>Failures that are tried again\<close>

text \<open>Whether the agent repeats a request after an error, and whether the router does.\<close>

definition repeated_after :: "provider_error \<Rightarrow> bool \<times> bool" where
  "repeated_after e = (is_transient e, classify_error e \<in> {KTransient, KRateLimited})"

lemma status_gateway: "(502 \<le> s \<and> s \<le> 504) = (s \<in> {502, 503, 504 :: u16})"
proof -
  have "(502 \<le> s \<and> s \<le> 504) = (502 \<le> unat s \<and> unat s \<le> 504)" by (simp add: word_le_nat_alt)
  also have "\<dots> = (unat s = unat (502 :: u16) \<or> unat s = unat (503 :: u16) \<or> unat s = unat (504 :: u16))" by simp linarith
  finally show ?thesis by (simp only: word_unat_eq_iff [symmetric]) simp
qed

lemma map_api_error_repeated:
  "repeated_after (map_api_error s b) = (s \<in> {408, 429, 502, 503, 504}, s \<in> {408, 429} \<or> 500 \<le> s \<and> s \<le> 599)"
proof -
  have "s \<in> {502, 503, 504} \<Longrightarrow> 500 \<le> s \<and> s \<le> 599" by auto
  then show ?thesis
    unfolding map_api_error_def repeated_after_def status_gateway by (auto split: if_splits)
qed

lemma google_error_repeated:
  "google_classify_error fs s b = Some e \<Longrightarrow> repeated_after e = (s = 429, s = 429 \<or> 500 \<le> s \<and> s \<le> 599)"
  "google_classify_error fs s b = None \<Longrightarrow> s \<in> {400, 401, 403, 429}"
  by (auto simp: google_classify_error_def repeated_after_def Let_def split: if_splits)

lemma api_error_repeated: "repeated_after (ApiError s b) = (False, False)"
  by (simp add: repeated_after_def)


text \<open>A bad gateway in front of every server.\<close>

definition ex_gateway :: http_response where
  "ex_gateway = \<lparr>hr_status = 502, hr_text = ''down'', hr_json = Inl [], hr_chunks = []\<rparr>"

definition ex_down :: "unit http_client" where
  "ex_down w url body = (Inr ex_gateway, w)"

definition ex_openai_info :: provider_info where
  "ex_openai_info = \<lparr>pi_id = ''openai'', pi_base_url = ''https://host''\<rparr>"


section \<open>Tool results on their way to the model\<close>

fun block_result :: "content_block \<Rightarrow> (string \<times> string) option" where
  "block_result (ToolResultBlock i c e) = Some (i, c)"
| "block_result _ = None"

definition results :: "message \<Rightarrow> (string \<times> string) list" where
  "results m = List.map_filter block_result (content m)"

text \<open>The messages of the agent's window: a tool message holds one result, no other message holds any.\<close>

definition agent_message :: "message \<Rightarrow> bool" where
  "agent_message m \<longleftrightarrow>
     (\<exists>i c e. m = message_new RTool [ToolResultBlock i c e]) \<or> role m \<noteq> RTool \<and> \<not> list_ex is_tool_result_block (content m)"

text \<open>A client that encodes messages so that the results can be read off what is sent.\<close>

locale result_channel =
  fixes encode :: "message \<Rightarrow> json list" and sent :: "json \<Rightarrow> (string \<times> string) list"
  assumes carries: "agent_message m \<Longrightarrow> concat (map sent (encode m)) = results m"
begin

lemma window_carried: "list_all agent_message ms \<Longrightarrow> concat (map sent (concat (map encode ms))) = concat (map results ms)"
  by (induction ms) (simp_all add: carries)

lemma batch_carried:
  assumes "list_all agent_message ms"
  shows "concat (map sent (concat (map encode (ms @ map result_message rs)))) =
    concat (map results ms) @ map (\<lambda>r. (tool_call_id r, tr_output r)) rs"
proof -
  have "list_all agent_message (map result_message rs)"
    by (induction rs) (auto simp: agent_message_def result_message_def)
  moreover have "concat (map results (map result_message rs)) = map (\<lambda>r. (tool_call_id r, tr_output r)) rs"
    by (induction rs) (auto simp: results_def result_message_def message_new_def)
  ultimately show ?thesis using assms window_carried [of "ms @ map result_message rs"] by simp
qed

end

definition openai_sent :: "json \<Rightarrow> (string \<times> string) list" where
  "openai_sent j =
     (if as_str (json_get j ''role'') = Some ''tool''
      then [(str_or_empty (json_get j ''tool_call_id''), str_or_empty (json_get j ''content''))] else [])"

definition anthropic_sent :: "json \<Rightarrow> (string \<times> string) list" where
  "anthropic_sent j =
     concat (map (\<lambda>b. if as_str (json_get b ''type'') = Some ''tool_result''
                      then [(str_or_empty (json_get b ''tool_use_id''), str_or_empty (json_get b ''content''))] else [])
       (opt_or [] (as_array (json_get j ''content''))))"

definition google_sent :: "json \<Rightarrow> (string \<times> string) list" where
  "google_sent j =
     concat (map (\<lambda>p. case json_lookup p ''functionResponse'' of
                        None \<Rightarrow> []
                      | Some r \<Rightarrow> [(str_or_empty (json_get r ''name''), str_or_empty (json_get (json_get r ''response'') ''response''))])
       (opt_or [] (as_array (json_get j ''parts''))))"

lemma no_results: "\<not> list_ex is_tool_result_block bs \<Longrightarrow> List.map_filter block_result bs = []"
  "\<not> list_ex is_tool_result_block bs \<Longrightarrow> List.map_filter anthropic_result_json bs = []"
proof -
  have "\<not> is_tool_result_block b \<Longrightarrow> block_result b = None \<and> anthropic_result_json b = None" for b by (cases b) auto
  then show "\<not> list_ex is_tool_result_block bs \<Longrightarrow> List.map_filter block_result bs = []"
    "\<not> list_ex is_tool_result_block bs \<Longrightarrow> List.map_filter anthropic_result_json bs = []"
    by (induction bs) auto
qed

lemma agent_message_cases [consumes 1, case_names tool other]:
  assumes "agent_message m"
  obtains i c e where "m = message_new RTool [ToolResultBlock i c e]"
    | "role m \<noteq> RTool" "\<not> list_ex is_tool_result_block (content m)" "results m = []"
  using assms by (auto simp: agent_message_def results_def no_results)

interpretation openai_results: result_channel "\<lambda>m. [openai_serialize_message ts m]" openai_sent for ts
proof
  fix m assume "agent_message m"
  then show "concat (map openai_sent [openai_serialize_message ts m]) = results m"
  proof (cases rule: agent_message_cases)
    case (tool i c e)
    then show ?thesis
      by (simp add: openai_serialize_message_def openai_sent_def results_def message_new_def json_get_def)
  next
    case other
    then have "role_str (role m) \<noteq> ''tool''" by (cases "role m") auto
    with other show ?thesis by (simp add: openai_serialize_message_def openai_sent_def json_get_def Let_def)
  qed
qed

lemma anthropic_sent_none:
  "anthropic_sent (JObject [(''role'', x), (''content'', JString t)]) = []"
  "anthropic_sent (JObject [(''role'', x), (''content'', JArray (List.map_filter text_block_json bs @ List.map_filter tool_use_json bs))]) = []"
proof -
  have "b \<in> set (List.map_filter text_block_json bs @ List.map_filter tool_use_json bs) \<Longrightarrow>
      as_str (json_get b ''type'') \<noteq> Some ''tool_result''" for b
  proof (induction bs)
    case (Cons y bs)
    then show ?case by (cases y) (auto simp: json_get_def)
  qed simp
  moreover have "anthropic_sent (JObject [(''role'', x), (''content'', JArray cs)]) = []"
    if "\<And>b. b \<in> set cs \<Longrightarrow> as_str (json_get b ''type'') \<noteq> Some ''tool_result''" for cs
    using that by (induction cs) (auto simp: anthropic_sent_def json_get_JObject)
  ultimately show "anthropic_sent (JObject [(''role'', x), (''content'', JArray (List.map_filter text_block_json bs @ List.map_filter tool_use_json bs))]) = []"
    by blast
qed (simp add: anthropic_sent_def json_get_JObject)

interpretation anthropic_results:
  result_channel "\<lambda>m. if role m = RSystem then [] else [anthropic_serialize_message m]" anthropic_sent
proof
  fix m assume "agent_message m"
  then show "concat (map anthropic_sent (if role m = RSystem then [] else [anthropic_serialize_message m])) = results m"
  proof (cases rule: agent_message_cases)
    case (tool i c e)
    then show ?thesis
      by (simp add: anthropic_serialize_message_def anthropic_sent_def results_def message_new_def json_get_def)
  next
    case other
    then have "anthropic_sent (anthropic_serialize_message m) = []"
      by (simp add: anthropic_serialize_message_def no_results anthropic_sent_none Let_def)
    with other show ?thesis by simp
  qed
qed

interpretation google_results: result_channel google_contents google_sent
proof
  fix m assume "agent_message m"
  then show "concat (map google_sent (google_contents m)) = results m"
  proof (cases rule: agent_message_cases)
    case (tool i c e)
    then show ?thesis
      by (simp add: google_contents_def google_sent_def results_def message_new_def json_lookup_def json_get_def)
  next
    case other
    have none: "google_sent (JObject [(''role'', x), (''parts'', JArray ps)]) = []"
      if "\<And>p. p \<in> set ps \<Longrightarrow> json_lookup p ''functionResponse'' = None" for x ps
      using that by (induction ps) (auto simp: google_sent_def json_get_def)
    have "json_lookup p ''functionResponse'' = None" if "p \<in> set (build_user_parts m) \<union> set (build_assistant_parts m)" for p
      using that by (auto simp: build_user_parts_def build_assistant_parts_def List.map_filter_def json_lookup_def split: content_block.splits)
    with other none show ?thesis by (cases "role m") (auto simp: google_contents_def)
  qed
qed

text \<open>C24. The results of a batch reach the model: in a window of the agent followed by the messages of a batch, the
  request that a client builds holds exactly the results of the window and then, in order and under their
  call ids, the outputs of the batch, for all three wire formats.\<close>

theorem results_reach_provider:
  assumes "list_all agent_message ms" "req_messages req = ms @ map result_message rs"
  shows "let expected = concat (map results ms) @ map (\<lambda>r. (tool_call_id r, tr_output r)) rs in
    concat (map openai_sent (opt_or [] (as_array (json_get (openai_build_body ts info req) ''messages'')))) = expected
    \<and> concat (map anthropic_sent (opt_or [] (as_array (json_get (anthropic_build_body req) ''messages'')))) = expected
    \<and> concat (map google_sent (opt_or [] (as_array (json_get (google_build_body req) ''contents'')))) = expected"
proof -
  have "as_array (json_get (openai_build_body ts info req) ''messages'') = Some (map (openai_serialize_message ts) (req_messages req))"
    by (simp add: openai_build_body_def request_options_def json_get_JObject)
  moreover have "as_array (json_get (anthropic_build_body req) ''messages'') =
      Some (map anthropic_serialize_message (filter (\<lambda>m. role m \<noteq> RSystem) (req_messages req)))"
    by (simp add: anthropic_build_body_def json_get_JObject Let_def)
  moreover have "as_array (json_get (google_build_body req) ''contents'') = Some (concat (map google_contents (req_messages req)))"
    by (simp add: google_build_body_def json_get_JObject map_of_obj_insert)
  moreover have "map (openai_serialize_message ts) ns = concat (map (\<lambda>m. [openai_serialize_message ts m]) ns)"
    "map anthropic_serialize_message (filter (\<lambda>m. role m \<noteq> RSystem) ns) =
      concat (map (\<lambda>m. if role m = RSystem then [] else [anthropic_serialize_message m]) ns)" for ns
    by (induction ns) auto
  ultimately show ?thesis
    unfolding assms(2)
    by (simp only: Let_def option.case openai_results.batch_carried [OF assms(1)] anthropic_results.batch_carried [OF assms(1)]
        google_results.batch_carried [OF assms(1)] simp_thms)
qed

text \<open>A tool message with more than one result, which the agent does not build, is cut to its first one by the OpenAI client.\<close>

lemma openai_keeps_one_result:
  "openai_sent (openai_serialize_message ts (message_new RTool [ToolResultBlock i c e, ToolResultBlock i' c' e'])) = [(i, c)]"
  by (simp add: openai_serialize_message_def openai_sent_def message_new_def json_get_def)

section \<open>Errors of Google\<close>

text \<open>An error response of Google is sorted out without a panic exactly unless its error object lacks the message
  (for a status of 400, 401 or 403) or the delay \<open>retryAfter\<close> (for 429).\<close>

theorem google_error_panics_iff:
  "google_classify_error fs s b = None \<longleftrightarrow>
     (\<exists>e. error_object fs b = Some e \<and> (s \<in> {400, 401, 403} \<and> ''message'' \<notin> dom (map_of e) \<or> s = 429 \<and> ''retryAfter'' \<notin> dom (map_of e)))"
  by (auto simp: google_classify_error_def google_detail_def error_entry_def Let_def split: option.splits if_splits)

text \<open>Two calls of one function in an answer of Google get the same id.\<close>

lemma google_ids_collide:
  assumes "json_lookup p ''functionCall'' = Some f" "json_lookup p' ''functionCall'' = Some f'" "json_get f ''name'' = json_get f' ''name''"
  shows "map (\<lambda>b. case b of ToolCall i n a \<Rightarrow> i | _ \<Rightarrow> []) (filter is_tool_call_block (google_part p @ google_part p')) =
    [''gc_'' @ opt_or ''unknown'' (as_str (json_get f ''name'')), ''gc_'' @ opt_or ''unknown'' (as_str (json_get f ''name''))]"
  using assms by (auto simp: google_part_def split: option.splits)

section \<open>Examples\<close>

theorem stream_cuts_irrelevant_witness:
  "google_stream (\<lambda>_. Inr JNull) (arriving [''data: 1'', LF, LF] None) = google_stream (\<lambda>_. Inr JNull) (arriving [''data: 1'' @ blank] None)"
  using stream_cuts_irrelevant [of "[''data: 1'', LF, LF]" "[''data: 1'' @ blank]"] by (simp add: blank_def)

definition ex_decode :: "string \<Rightarrow> string + anthropic_event" where
  "ex_decode d = (if d = ''[1]'' then Inr (ContentBlockDelta 0 (TextDelta ''hi'')) else Inl ''eof'')"

theorem anthropic_cut_loses_event_witness:
  "anthropic_stream ex_decode [Inr (''data: [1]'' @ blank)] =
     [Inr (chunk_of [] [] \<lparr>d_role = None, d_content = Some ''hi'', d_tool_calls = None\<rparr> None)]
   \<and> anthropic_stream ex_decode [Inr ''data: ['', Inr (''1]'' @ blank)] = [Inl (JsonError ''eof'')]"
proof -
  have "payload ''[1]''" "payload ''[''" "valid_utf8 ''1]''" "\<not> starts_with (str_trim ''1]'') ''data: ''"
    by (code_simp, code_simp, code_simp, code_simp)
  then show ?thesis
    using anthropic_cut_loses_event [of "''[''" "''1]''" ex_decode "''eof''" "ContentBlockDelta 0 (TextDelta ''hi'')"]
    by (simp add: ex_decode_def)
qed

definition ex_http :: "'w http_client" where
  "ex_http w url body = (Inr \<lparr>hr_status = 200, hr_text = [], hr_json = Inr JNull, hr_chunks = [Inr (''data: [1]'' @ blank)]\<rparr>, w)"

theorem streaming_clients_run_nothing_witness:
  "batches (ag_log (snd (run_streaming_with_system
      ((exa ex_call None)\<lparr>ae_complete_stream := anthropic_complete_stream ex_http ex_decode \<lparr>pi_id = ''anthropic'', pi_base_url = ''u''\<rparr>\<rparr>)
      ''hi'' auto_approval_gate None (ex_state (thread_new ''x'' 5 5 True))))) = []"
  by (subst streaming_clients_run_nothing [where http = ex_http and parse = ex_decode and info = "\<lparr>pi_id = ''anthropic'', pi_base_url = ''u''\<rparr>"])
    (simp_all add: ex_state_def)

theorem results_reach_provider_witness:
  "concat (map anthropic_sent (opt_or [] (as_array (json_get (anthropic_build_body
      ((completion_request_new ''m'')\<lparr>req_messages := [message_user ''hi''] @
         map result_message [\<lparr>tool_call_id = ''c1'', tr_name = ''read'', tr_output = ''text'', tr_is_error = False\<rparr>]\<rparr>)) ''messages'')))) =
   [(''c1'', ''text'')]"
proof -
  have "list_all agent_message [message_user ''hi'']" by (simp add: agent_message_def message_user_def message_text_def)
  from results_reach_provider [OF this, of "(completion_request_new ''m'')\<lparr>req_messages := [message_user ''hi''] @
         map result_message [\<lparr>tool_call_id = ''c1'', tr_name = ''read'', tr_output = ''text'', tr_is_error = False\<rparr>]\<rparr>"
      "[\<lparr>tool_call_id = ''c1'', tr_name = ''read'', tr_output = ''text'', tr_is_error = False\<rparr>]"]
  show ?thesis by (simp add: Let_def results_def message_user_def message_text_def)
qed

end
