(* ===== verification/Sub_Agents.thy ===== *)
theory Sub_Agents
  imports Agent
begin

text \<open>
  Sub-agents (\<open>sentinel-core/src/sub_agent.rs\<close> and \<open>sub_agent_tool.rs\<close>): tasks that run on forks of a thread, each with an
  agent of its own, and the tool \<open>fork_sub_agent\<close> that lets the model start one. The agents are those of
  \<open>Agent\<close>. The tasks of a team run concurrently; here each runs as a whole, in an order that is a
  parameter, which is also the order in which they are joined. A run of the agent returns, so no task
  panics.
\<close>

section \<open>Tasks\<close>

record sub_task =
  st_id :: string
  st_description :: string
  st_instruction :: string

record sub_task_result =
  sr_id :: string
  sr_output :: agent_output
  sr_thread :: agent_thread

text \<open>\<open>Agent::new\<close> with the prompt manager, the plugins and, when there is one, the compressor of the parent: no
  hooks, no sandbox, no upload, no model override, a checkpoint store and a cancellation token of its
  own. \<open>mgr\<close> and \<open>set_mgr\<close> reach that store.\<close>

definition sub_agent_env ::
    "('w \<Rightarrow> snapshot_manager) \<Rightarrow> (snapshot_manager \<Rightarrow> 'w \<Rightarrow> 'w) \<Rightarrow> 'w agent_env \<Rightarrow> 'w agent_env" where
  "sub_agent_env mgr set_mgr env =
     env\<lparr>ae_batch := (ae_batch env)\<lparr>be_sandbox := None, be_cancelled := \<lambda>_. False, be_interrupt := \<lambda>_ _. None\<rparr>,
         ae_cut := \<lambda>_. None, ae_hooks := [], ae_upload := null_upload, ae_model := [],
         ae_manager := mgr, ae_set_manager := set_mgr\<rparr>"

fun show_agent_error :: "agent_error \<Rightarrow> string" where
  "show_agent_error (ProviderErr e) = ''Provider error: '' @ show_provider_error e"
| "show_agent_error (Generic e) = ''Agent error: '' @ e"

definition sub_state :: "agent_thread \<Rightarrow> 'w \<Rightarrow> 'w agent_state" where
  "sub_state t w = \<lparr>ag_world = w, ag_thread = t, ag_log = [], total_prompt_tokens = 0, total_completion_tokens = 0, fix_cycles = 0\<rparr>"

definition sub_instruction :: "sub_task \<Rightarrow> string" where
  "sub_instruction task = ''[Sub-task: '' @ st_description task @ '']'' @ LF @ st_instruction task"

definition run_sub_task ::
    "('w \<Rightarrow> snapshot_manager) \<Rightarrow> (snapshot_manager \<Rightarrow> 'w \<Rightarrow> 'w) \<Rightarrow> 'w agent_env \<Rightarrow> string \<Rightarrow> agent_thread \<Rightarrow> sub_task \<Rightarrow> 'w
       \<Rightarrow> sub_task_result \<times> 'w agent_state" where
  "run_sub_task mgr set_mgr env uuid parent task w =
     (let (r, s') = run_with_approval (sub_agent_env mgr set_mgr env) (sub_instruction task) auto_approval_gate None
                      (sub_state (fork uuid parent) w)
      in (\<lparr>sr_id = st_id task,
           sr_output = (case r of Inr out \<Rightarrow> out | Inl e \<Rightarrow> OutError (show_agent_error e)),
           sr_thread = ag_thread s'\<rparr>, s'))"

text \<open>The tasks in the order in which they end; \<open>uuids\<close> gives the ids of the forked threads.\<close>

fun run_team ::
    "('w \<Rightarrow> snapshot_manager) \<Rightarrow> (snapshot_manager \<Rightarrow> 'w \<Rightarrow> 'w) \<Rightarrow> 'w agent_env \<Rightarrow> (nat \<Rightarrow> string) \<Rightarrow> agent_thread
       \<Rightarrow> sub_task list \<Rightarrow> nat list \<Rightarrow> 'w \<Rightarrow> sub_task_result list \<times> 'w" where
  "run_team mgr set_mgr env uuids parent tasks [] w = ([], w)"
| "run_team mgr set_mgr env uuids parent tasks (i # is) w =
     (let (r, s') = run_sub_task mgr set_mgr env (uuids i) parent (tasks ! i) w;
          (rs, w') = run_team mgr set_mgr env uuids parent tasks is (ag_world s')
      in (r # rs, w'))"

definition run_sub_agent_team ::
    "('w \<Rightarrow> snapshot_manager) \<Rightarrow> (snapshot_manager \<Rightarrow> 'w \<Rightarrow> 'w) \<Rightarrow> 'w agent_env \<Rightarrow> (nat \<Rightarrow> string) \<Rightarrow> (nat \<Rightarrow> nat list)
       \<Rightarrow> agent_thread \<Rightarrow> sub_task list \<Rightarrow> 'w \<Rightarrow> sub_task_result list \<times> 'w" where
  "run_sub_agent_team mgr set_mgr env uuids order parent tasks w =
     run_team mgr set_mgr env uuids parent tasks (order (length tasks)) w"

section \<open>The tool\<close>

definition sub_agent_execute ::
    "('w \<Rightarrow> snapshot_manager) \<Rightarrow> (snapshot_manager \<Rightarrow> 'w \<Rightarrow> 'w) \<Rightarrow> 'w agent_env \<Rightarrow> (nat \<Rightarrow> string) \<Rightarrow> (nat \<Rightarrow> nat list)
       \<Rightarrow> u32 \<Rightarrow> u32 \<Rightarrow> 'w \<Rightarrow> json \<Rightarrow> tool_output \<times> 'w" where
  "sub_agent_execute mgr set_mgr env uuids order max_t max_i w args =
     (let arg = (\<lambda>k d. case as_str (json_get args k) of Some s \<Rightarrow> s | None \<Rightarrow> d);
          instruction = arg ''instruction'' [] in
      if instruction = [] then (output_err ''instruction is required'', w)
      else
        let task = \<lparr>st_id = arg ''id'' ''task'', st_description = arg ''description'' [], st_instruction = instruction\<rparr>;
            parent = thread_new (uuids 1) max_t max_i True;
            (results, w') = run_sub_agent_team mgr set_mgr env uuids order parent [task] w
        in case results of
             [] \<Rightarrow> (output_err ''Sub-agent returned no results'', w')
           | r # _ \<Rightarrow> (case sr_output r of Success t \<Rightarrow> (output_ok t, w') | OutError m \<Rightarrow> (output_err m, w')))"

definition sub_agent_tool ::
    "('w \<Rightarrow> snapshot_manager) \<Rightarrow> (snapshot_manager \<Rightarrow> 'w \<Rightarrow> 'w) \<Rightarrow> 'w agent_env \<Rightarrow> (nat \<Rightarrow> string) \<Rightarrow> (nat \<Rightarrow> nat list)
       \<Rightarrow> json \<Rightarrow> u32 \<Rightarrow> u32 \<Rightarrow> 'w tool" where
  "sub_agent_tool mgr set_mgr env uuids order schema max_t max_i =
     \<lparr>t_name = ''fork_sub_agent'',
      t_description = ''Fork a sub-agent thread to execute a task in parallel. Returns the result when complete.'',
      t_input_schema = schema, t_is_mutating = False,
      t_execute = \<lambda>w args tc. let (out, w') = sub_agent_execute mgr set_mgr env uuids order max_t max_i w args in (Some out, w')\<rparr>"

section \<open>Properties\<close>

text \<open>Every task gives one result under its own id, whatever the order in which the tasks end.\<close>

lemma run_team_ids: "map sr_id (fst (run_team mgr set_mgr env uuids parent tasks is w)) = map (\<lambda>i. st_id (tasks ! i)) is"
  by (induction "is" arbitrary: w) (auto simp: run_sub_task_def Let_def case_prod_unfold)

lemma team_results:
  assumes "mset (order (length tasks)) = mset [0..<length tasks]"
  shows "mset (map sr_id (fst (run_sub_agent_team mgr set_mgr env uuids order parent tasks w))) = mset (map st_id tasks)"
proof -
  have "mset (map (\<lambda>i. st_id (tasks ! i)) (order (length tasks))) = mset (map (\<lambda>i. st_id (tasks ! i)) [0..<length tasks])"
    using assms by (simp only: mset_map)
  also have "map (\<lambda>i. st_id (tasks ! i)) [0..<length tasks] = map st_id tasks"
    by (rule nth_equalityI) auto
  finally show ?thesis by (simp add: run_sub_agent_team_def run_team_ids del: mset_map)
qed

lemma run_sub_task_log:
  assumes "run_sub_task mgr set_mgr env uuid parent task w = (r, s')"
  obtains e where "ag_log s' = ag_log (snd (run_with_approval_inner (with_gate auto_approval_gate None (sub_agent_env mgr set_mgr env))
      (sub_instruction task) None (sub_state (fork uuid parent) w))) @ [Hooked e]"
  using assms run_log [of "sub_agent_env mgr set_mgr env" "sub_instruction task" None auto_approval_gate None "sub_state (fork uuid parent) w"]
  by (auto simp: run_sub_task_def run_with_approval_def split: prod.splits)

lemma sub_agent_env_unsupervised:
  "with_gate auto_approval_gate None (sub_agent_env mgr set_mgr
      (env\<lparr>ae_batch := (ae_batch env)\<lparr>be_gate := g, be_policy := p, be_sandbox := sb, be_cancelled := cancelled, be_interrupt := interrupt\<rparr>,
           ae_hooks := hs\<rparr>)) =
   with_gate auto_approval_gate None (sub_agent_env mgr set_mgr env)"
  by (simp add: with_gate_def sub_agent_env_def)

text \<open>C29. Only the plugins watch over a sub-agent. Every tool that a sub-agent runs has passed their checks for a veto and
  for a denial, and the sub-agent asks the model at most four times for every iteration of its thread.
  But the run is the same for every gate, policy, sandbox, cancellation token and hook of the parent: what the parent's
  gate would reject or its sandbox would confine is executed all the same.\<close>

theorem sub_agent_unsupervised:
  assumes "run_sub_task mgr set_mgr env uuid parent task w = (r, s')"
    and "BatchRan calls (pre @ Started i name args # post) \<in> set (ag_log s')"
  shows "i < length calls
    \<and> (\<exists>a. VetoCheck i a \<in> set pre \<and> (\<nexists>why. a = PVeto why)) \<and> (\<exists>a. DenyCheck i a \<in> set pre \<and> (\<nexists>why. a = PDenyRun why))
    \<and> asks (ag_log s') \<le> 4 * (unat (max_iterations parent) - 1)
    \<and> (\<forall>g p sb cancelled interrupt hs. run_sub_task mgr set_mgr
          (env\<lparr>ae_batch := (ae_batch env)\<lparr>be_gate := g, be_policy := p, be_sandbox := sb, be_cancelled := cancelled, be_interrupt := interrupt\<rparr>,
               ae_hooks := hs\<rparr>) uuid parent task w = (r, s'))"
proof -
  let ?env = "with_gate auto_approval_gate None (sub_agent_env mgr set_mgr env)"
  let ?s = "sub_state (fork uuid parent) w"
  obtain e where log: "ag_log s' = ag_log (snd (run_with_approval_inner ?env (sub_instruction task) None ?s)) @ [Hooked e]"
    using run_sub_task_log [OF assms(1)] by blast
  have "list_all (note_ok (ae_batch ?env)) (ag_log (snd (run_with_approval_inner ?env (sub_instruction task) None ?s)))"
    unfolding run_with_approval_inner_def by (rule agent_loop_notes) (simp add: sub_state_def)
  then have "list_all (note_ok (ae_batch ?env)) (ag_log s')" by (simp add: log)
  then have "note_ok (ae_batch ?env) (BatchRan calls (pre @ Started i name args # post))"
    unfolding list_all_iff by (rule bspec) (rule assms(2))
  then have auth: "authorised (ae_batch ?env) i pre" "i < length calls" by (auto simp: started_ok_def)
  have "asks (ag_log (snd (run_with_approval_inner ?env (sub_instruction task) None ?s))) \<le> 4 * (unat (max_iterations parent) - 1)"
    using agent_loop_asks [of ?env "run_start ?env (sub_instruction task) None ?s"]
    by (simp add: run_with_approval_inner_def iter_left_def sub_state_def fork_def)
  then have "asks (ag_log s') \<le> 4 * (unat (max_iterations parent) - 1)" by (simp add: log)
  with auth assms(1) show ?thesis
    by (simp add: authorised_def cleared_def run_sub_task_def run_with_approval_def run_with_approval_with_system_def sub_agent_env_unsupervised)
qed

text \<open>The cap of the parent is not shared: every task starts with nothing spent.\<close>

lemma sub_task_budget_fresh:
  "total_spend_usd (budget (fork uuid parent)) = 0 \<and> cost_cap_usd (budget (fork uuid parent)) = cost_cap_usd (budget parent)"
  by (simp add: fork_def budget_new_def)

lemma sub_agent_tool_uncapped: "cost_cap_usd (budget (thread_new i max_t max_i True)) = None"
  by (simp add: thread_new_def budget_new_def)

section \<open>A sub-agent that runs a tool\<close>

definition ex_sub_task :: sub_task where
  "ex_sub_task = \<lparr>st_id = ''a'', st_description = ''d'', st_instruction = ''go''\<rparr>"

abbreviation ex_run_sub_task :: "sub_task_result \<times> unit agent_state" where
  "ex_run_sub_task \<equiv> run_sub_task (ae_manager (exa ex_call None)) (ae_set_manager (exa ex_call None)) (exa ex_call None) ''x''
     (thread_new ''p'' 5 2 True) ex_sub_task ()"

theorem sub_agent_unsupervised_witness:
  "\<exists>s' pre post. snd ex_run_sub_task = s'
    \<and> BatchRan [(''1'', ''t'', JNull)] (pre @ Started 0 ''t'' JNull # post) \<in> set (ag_log s')
    \<and> (\<exists>a. VetoCheck 0 a \<in> set pre) \<and> asks (ag_log s') \<le> 4"
proof -
  let ?e = "exa ex_call None" and ?in = "sub_instruction ex_sub_task"
  let ?s = "sub_state (fork ''x'' (thread_new ''p'' 5 2 True)) ()"
  have env: "with_gate auto_approval_gate None (sub_agent_env (ae_manager ?e) (ae_set_manager ?e) ?e) = ?e"
    by (simp add: with_gate_def sub_agent_env_def ex_agent_def ex_env_def)
  have s: "?s = ex_state ((thread_new ''x'' 5 2 True)\<lparr>parent_thread_id := Some ''p''\<rparr>)"
    by (simp add: sub_state_def ex_state_def fork_def thread_new_def budget_new_def)
  have "length ?in < 100" by (simp add: sub_instruction_def ex_sub_task_def)
  then obtain s1 pre post where it: "agent_iteration ?e (run_start ?e ?in None ?s) = (Continue, s1)"
    and b: "BatchRan [(''1'', ''t'', JNull)] (pre @ Started 0 ''t'' JNull # post) \<in> set (ag_log s1)"
    using ex_iteration [of ?in "Some ''p''"] unfolding s by blast
  obtain s2 where "run_with_approval_inner ?e ?in None ?s = (Inr (OutError ''Max iterations reached''), s2)"
    and l: "ag_log s2 = ag_log s1"
    unfolding run_with_approval_inner_def using ex_loop [OF it] by (auto simp: sub_state_def fork_def thread_new_def)
  moreover obtain r s' where r: "ex_run_sub_task = (r, s')" by fastforce
  ultimately have "BatchRan [(''1'', ''t'', JNull)] (pre @ Started 0 ''t'' JNull # post) \<in> set (ag_log s')"
    using b run_sub_task_log [OF r] env by (metis Un_iff set_append snd_conv)
  from sub_agent_unsupervised [OF r this] this r show ?thesis by (auto simp: thread_new_def)
qed

end
