(* ===== verification/Compaction_Select.thy ===== *)
theory Compaction_Select
  imports Prelude
begin

text \<open>
  Choosing what a compaction summarises (\<open>common/sentinel-ai-compaction\<close>): the conversation items as the
  crate sees them (\<open>item.rs\<close>, \<open>token.rs\<close>), the split point of a list of items (\<open>select.rs\<close>), the ladder that
  fits a conversation into the budget of the summariser (\<open>intra_compaction/fit.rs\<close>) and the trigger
  (\<open>trigger.rs\<close>, \<open>config.rs\<close>). The items belong to the host program; the methods of their traits are
  the fields of \<open>item_ops\<close>, and \<open>cnt\<close> is the token counter. Counts saturate at 32 bits.
\<close>

section \<open>Items\<close>

datatype compaction_role = CSystem | CDeveloper | CUser | CAssistant | CTool

record file_ref =
  fr_id :: string
  fr_name :: string

record 'a item_ops =
  ci_role :: "'a \<Rightarrow> compaction_role"
  ci_text :: "'a \<Rightarrow> string option"
  ci_has_tool_requests :: "'a \<Rightarrow> bool"
  ci_is_summary :: "'a \<Rightarrow> bool"
  ci_attachments :: "'a \<Rightarrow> file_ref list"
  ci_summary_item :: "string \<Rightarrow> 'a"
  ci_strip_tools :: "'a \<Rightarrow> 'a option"
  ci_truncate :: "'a \<Rightarrow> u32 \<Rightarrow> 'a"

definition is_tool_result :: "'a item_ops \<Rightarrow> 'a \<Rightarrow> bool" where
  "is_tool_result ops x \<longleftrightarrow> ci_role ops x = CTool"

section \<open>Saturating counts\<close>

definition sat_add :: "u32 \<Rightarrow> u32 \<Rightarrow> u32" where
  "sat_add a b = (if unat a + unat b < 2 ^ 32 then a + b else - 1)"

lemma unat_minus_one_u32: "unat (- 1 :: u32) = 2 ^ 32 - 1"
  by (simp add: unsigned_minus_1_eq_mask mask_eq_exp_minus_1)

lemma unat_sat_add: "unat (sat_add a b) = min (unat a + unat b) (2 ^ 32 - 1)"
proof (cases "unat a + unat b < 2 ^ 32")
  case True
  then show ?thesis by (simp add: sat_add_def unat_word_ariths min_def)
next
  case False
  then show ?thesis by (simp add: sat_add_def unat_minus_one_u32 min_def)
qed

definition sum_counts :: "u32 list \<Rightarrow> u32" where
  "sum_counts cs = foldl sat_add 0 cs"

lemma unat_u32_max: "unat (a :: u32) \<le> 2 ^ 32 - 1"
proof -
  have "unat a < 2 ^ LENGTH(32)" by (rule unsigned_less)
  then show ?thesis by simp
qed

lemma unat_sum_counts: "unat (sum_counts cs) = min (sum_list (map unat cs)) (2 ^ 32 - 1)"
proof -
  have "unat (foldl sat_add a cs) = min (unat a + sum_list (map unat cs)) (2 ^ 32 - 1)" for a
  proof (induction cs arbitrary: a)
    case Nil
    then show ?case using unat_u32_max [of a] by (simp add: min_def)
  next
    case (Cons c cs)
    then show ?case by (simp add: unat_sat_add)
  qed
  then show ?thesis by (simp add: sum_counts_def)
qed

lemma sum_counts_le: "sum_counts cs \<le> b \<longleftrightarrow> min (sum_list (map unat cs)) (2 ^ 32 - 1) \<le> unat b"
  by (simp add: word_le_nat_alt unat_sum_counts)

lemma sum_counts_simps [simp]:
  "sum_counts [] = 0"
  "sum_counts (c # cs) = sat_add c (sum_counts cs)"
  "sum_counts (cs @ ds) = sat_add (sum_counts cs) (sum_counts ds)"
  by (simp_all add: word_unat_eq_iff unat_sum_counts unat_sat_add)

lemma sum_counts_drop_mono: "i \<le> j \<Longrightarrow> sum_counts (drop j cs) \<le> sum_counts (drop i cs)"
proof -
  assume "i \<le> j"
  then have "drop i cs = take (j - i) (drop i cs) @ drop j cs" by (metis append_take_drop_id drop_drop le_add_diff_inverse2)
  then have "sum_list (map unat (drop i cs)) = sum_list (map unat (take (j - i) (drop i cs))) + sum_list (map unat (drop j cs))"
    by (metis map_append sum_list_append)
  then show ?thesis by (simp add: word_le_nat_alt unat_sum_counts)
qed

section \<open>The split point\<close>

record split_plan =
  split_idx :: nat
  tokens_to_compact :: u32

text \<open>The walk from the newest item: \<open>Suc i\<close> items are still in front of it and \<open>acc\<close> tokens behind.\<close>

fun select_back :: "u32 list \<Rightarrow> u32 \<Rightarrow> nat \<Rightarrow> u32 \<Rightarrow> nat" where
  "select_back counts target 0 acc = 0"
| "select_back counts target (Suc i) acc =
     (if target < sat_add acc (counts ! i) then Suc i
      else select_back counts target i (sat_add acc (counts ! i)))"

function skip_results :: "'a item_ops \<Rightarrow> 'a list \<Rightarrow> nat \<Rightarrow> nat" where
  "skip_results ops items idx =
     (if idx < length items \<and> is_tool_result ops (items ! idx) then skip_results ops items (Suc idx) else idx)"
  by pat_completeness auto
termination
  by (relation "measure (\<lambda>(ops, items, idx). length items - idx)") auto

declare skip_results.simps [simp del]

definition snap_to_safe_boundary :: "'a item_ops \<Rightarrow> 'a list \<Rightarrow> nat \<Rightarrow> nat" where
  "snap_to_safe_boundary ops items candidate =
     (if length items \<le> candidate then length items
      else if \<not> is_tool_result ops (items ! candidate) then candidate
      else skip_results ops items candidate)"

text \<open>\<open>counts\<close> and \<open>items\<close> have the same length at every call.\<close>

definition select_turns_to_compact :: "'a item_ops \<Rightarrow> u32 list \<Rightarrow> 'a list \<Rightarrow> u32 \<Rightarrow> u32 \<Rightarrow> split_plan option" where
  "select_turns_to_compact ops counts items target_tokens min_compactable =
     (if items = [] then None
      else
        let split = select_back counts target_tokens (length items) 0 in
        if split = 0 then None
        else
          let safe = snap_to_safe_boundary ops items split in
          if length items \<le> safe then None
          else
            let tokens = sum_counts (take safe counts) in
            if tokens < min_compactable then None
            else Some \<lparr>split_idx = safe, tokens_to_compact = tokens\<rparr>)"

subsection \<open>What the split point is\<close>

text \<open>A place where the list may be cut: the items from there on fit, and the first of them is no tool
  result.\<close>

definition may_cut :: "'a item_ops \<Rightarrow> u32 list \<Rightarrow> 'a list \<Rightarrow> u32 \<Rightarrow> nat \<Rightarrow> bool" where
  "may_cut ops counts items target s \<longleftrightarrow>
     s < length items \<and> sum_counts (drop s counts) \<le> target \<and> \<not> is_tool_result ops (items ! s)"

lemma select_back_least:
  assumes "n \<le> length counts" "acc = sum_counts (drop n counts)" "acc \<le> target"
  shows "select_back counts target n acc = (LEAST s. sum_counts (drop s counts) \<le> target)"
  using assms
proof (induction n arbitrary: acc)
  case 0
  then show ?case by (simp add: Least_eq_0)
next
  case (Suc i)
  have step: "sat_add acc (counts ! i) = sum_counts (drop i counts)"
    using Suc.prems by (simp add: Cons_nth_drop_Suc [symmetric] word_unat_eq_iff unat_sat_add)
  show ?case
  proof (cases "target < sat_add acc (counts ! i)")
    case True
    have "(LEAST s. sum_counts (drop s counts) \<le> target) = Suc i"
    proof (rule Least_equality)
      show "sum_counts (drop (Suc i) counts) \<le> target" using Suc.prems by simp
      fix s assume s: "sum_counts (drop s counts) \<le> target"
      show "Suc i \<le> s"
      proof (rule ccontr)
        assume "\<not> Suc i \<le> s"
        then have "sum_counts (drop i counts) \<le> sum_counts (drop s counts)" by (intro sum_counts_drop_mono) simp
        with s True show False by (simp add: step)
      qed
    qed
    with True show ?thesis by simp
  next
    case False
    then show ?thesis using Suc.IH [of "sat_add acc (counts ! i)"] Suc.prems step by simp
  qed
qed

lemma skip_results_spec:
  "idx \<le> skip_results ops items idx"
  "idx \<le> s \<Longrightarrow> s < skip_results ops items idx \<Longrightarrow> is_tool_result ops (items ! s)"
  "skip_results ops items idx < length items \<Longrightarrow> \<not> is_tool_result ops (items ! skip_results ops items idx)"
  "idx \<le> length items \<Longrightarrow> skip_results ops items idx \<le> length items"
proof (induction ops items idx rule: skip_results.induct)
  case (1 ops items idx)
  note unfold = skip_results.simps [of ops items idx]
  { case 1 with "1.IH"(1) show ?case by (subst unfold) auto
  next case 2 with "1.IH"(2) show ?case by (cases "s = idx") (auto simp: unfold split: if_splits)
  next case 3 with "1.IH"(3) show ?case by (subst (asm) unfold, subst unfold) (auto split: if_splits)
  next case 4 with "1.IH"(4) show ?case by (subst unfold) auto }
qed

lemma snap_spec:
  assumes "c \<le> length items"
  shows "c \<le> snap_to_safe_boundary ops items c" "snap_to_safe_boundary ops items c \<le> length items"
    "c \<le> s \<Longrightarrow> s < snap_to_safe_boundary ops items c \<Longrightarrow> is_tool_result ops (items ! s)"
    "snap_to_safe_boundary ops items c < length items \<Longrightarrow> \<not> is_tool_result ops (items ! snap_to_safe_boundary ops items c)"
  using assms skip_results_spec [where ops = ops and items = items and idx = c]
  by (auto simp: snap_to_safe_boundary_def split: if_splits)

text \<open>The place the walk and the snap agree on: the earliest cut, or the end of the list.\<close>

definition earliest_cut :: "'a item_ops \<Rightarrow> u32 list \<Rightarrow> 'a list \<Rightarrow> u32 \<Rightarrow> nat" where
  "earliest_cut ops counts items target =
     snap_to_safe_boundary ops items (LEAST s. sum_counts (drop s counts) \<le> target)"

lemma least_fit:
  "sum_counts (drop (LEAST s. sum_counts (drop s counts) \<le> target) counts) \<le> target"
  "(LEAST s. sum_counts (drop s counts) \<le> target) \<le> length counts"
  by (rule LeastI [of _ "length counts"], simp) (rule Least_le, simp)

lemma earliest_cut_spec:
  assumes "length counts = length items"
  shows "earliest_cut ops counts items target \<le> length items"
    "earliest_cut ops counts items target < length items \<Longrightarrow> may_cut ops counts items target (earliest_cut ops counts items target)"
    "may_cut ops counts items target s \<Longrightarrow> earliest_cut ops counts items target \<le> s"
proof -
  let ?l = "LEAST s. sum_counts (drop s counts) \<le> target" and ?e = "earliest_cut ops counts items target"
  have l: "?l \<le> length items" using least_fit(2) [of counts target] assms by simp
  note snap = snap_spec [OF l, where ops = ops, folded earliest_cut_def]
  show "?e \<le> length items" by (rule snap(2))
  show "may_cut ops counts items target ?e" if "?e < length items"
    using that snap(1,4) least_fit(1) [of counts target] sum_counts_drop_mono [of ?l ?e counts] by (auto simp: may_cut_def)
  show "?e \<le> s" if "may_cut ops counts items target s"
  proof (rule ccontr)
    assume "\<not> ?e \<le> s"
    moreover have "?l \<le> s" using that by (auto simp: may_cut_def intro: Least_le)
    ultimately have "is_tool_result ops (items ! s)" using snap(3) by simp
    with that show False by (simp add: may_cut_def)
  qed
qed

lemma select_earliest:
  assumes "length counts = length items"
  shows "select_turns_to_compact ops counts items target m =
    (let e = earliest_cut ops counts items target in
     if sum_counts counts \<le> target \<or> length items \<le> e \<or> sum_counts (take e counts) < m then None
     else Some \<lparr>split_idx = e, tokens_to_compact = sum_counts (take e counts)\<rparr>)"
proof -
  have "(LEAST s. sum_counts (drop s counts) \<le> target) = 0 \<longleftrightarrow> sum_counts counts \<le> target"
    using least_fit(1) [of counts target] by (auto simp: Least_eq_0)
  moreover have "select_back counts target (length items) 0 = (LEAST s. sum_counts (drop s counts) \<le> target)"
    using assms by (intro select_back_least) simp_all
  ultimately show ?thesis
    using assms by (auto simp: select_turns_to_compact_def earliest_cut_def Let_def)
qed

text \<open>The items that are kept: from the earliest cut on, or none.\<close>

definition newest_fitting :: "'a item_ops \<Rightarrow> ('a \<Rightarrow> u32) \<Rightarrow> 'a list \<Rightarrow> u32 \<Rightarrow> 'a list" where
  "newest_fitting ops cnt ts room = drop (earliest_cut ops (map cnt ts) ts room) ts"

lemma newest_fitting_fits: "sum_counts (map cnt (newest_fitting ops cnt ts room)) \<le> room"
proof -
  let ?e = "earliest_cut ops (map cnt ts) ts room"
  have "?e < length ts \<or> ?e = length ts" using earliest_cut_spec(1) [of "map cnt ts" ts ops room] by auto
  then show ?thesis
    using earliest_cut_spec(2) [of "map cnt ts" ts ops room] by (auto simp: newest_fitting_def may_cut_def drop_map)
qed

subsection \<open>Tool results stay with their requests\<close>

text \<open>Every tool result belongs to a run of results behind an item with tool requests; \<open>open_run\<close> says whether
  such a run may go on at the front of the list.\<close>

fun no_orphans :: "'a item_ops \<Rightarrow> bool \<Rightarrow> 'a list \<Rightarrow> bool" where
  "no_orphans ops open_run [] = True"
| "no_orphans ops open_run (x # xs) =
     (if is_tool_result ops x then open_run \<and> no_orphans ops open_run xs
      else no_orphans ops (ci_has_tool_requests ops x) xs)"

lemma no_orphans_take: "no_orphans ops b xs \<Longrightarrow> no_orphans ops b (take n xs)"
  by (induction ops b xs arbitrary: n rule: no_orphans.induct) (auto simp: take_Cons' split: if_splits)

lemma no_orphans_drop:
  "no_orphans ops b xs \<Longrightarrow> n < length xs \<Longrightarrow> \<not> is_tool_result ops (xs ! n) \<Longrightarrow> no_orphans ops b' (drop n xs)"
proof (induction ops b xs arbitrary: n rule: no_orphans.induct)
  case (2 ops b x xs)
  then show ?case by (cases n) (auto split: if_splits)
qed simp

text \<open>C33. Where a compaction cuts the conversation. The items that are kept fit into the target, the cut is the
  earliest one for which they do and that does not separate a tool result from its request, and neither
  part has a tool result without its request if the whole had none. The part that is summarised is never
  empty and holds at least the minimum of tokens.\<close>

theorem select_cuts_safely:
  assumes "length counts = length items" "select_turns_to_compact ops counts items target m = Some p"
    and "no_orphans ops False items"
  shows "may_cut ops counts items target (split_idx p) \<and> split_idx p = (LEAST s. may_cut ops counts items target s)
    \<and> 0 < split_idx p \<and> m \<le> tokens_to_compact p \<and> tokens_to_compact p = sum_counts (take (split_idx p) counts)
    \<and> no_orphans ops False (take (split_idx p) items) \<and> no_orphans ops False (drop (split_idx p) items)"
proof -
  let ?e = "earliest_cut ops counts items target"
  have p: "p = \<lparr>split_idx = ?e, tokens_to_compact = sum_counts (take ?e counts)\<rparr>" "?e < length items"
    "\<not> sum_counts counts \<le> target" "m \<le> sum_counts (take ?e counts)"
    using assms(2) by (auto simp: select_earliest [OF assms(1)] Let_def split: if_splits)
  note spec = earliest_cut_spec [OF assms(1), of ops target]
  have cut: "may_cut ops counts items target ?e" using spec(2) p(2) by blast
  moreover have "?e = (LEAST s. may_cut ops counts items target s)"
    using cut spec(3) by (intro Least_equality [symmetric])
  moreover have "0 < ?e" using cut p(3) by (cases "?e") (auto simp: may_cut_def)
  moreover have "no_orphans ops False (drop ?e items)"
    using no_orphans_drop [OF assms(3)] cut by (simp add: may_cut_def)
  ultimately show ?thesis using p(4) no_orphans_take [OF assms(3)] by (simp add: p(1))
qed

text \<open>Nothing is compacted exactly when everything fits, when no cut is possible, or when the part in front of the cut is
  too small.\<close>

lemma select_none_iff:
  assumes "length counts = length items"
  shows "select_turns_to_compact ops counts items target m = None \<longleftrightarrow>
    sum_counts counts \<le> target \<or> (\<nexists>s. may_cut ops counts items target s)
    \<or> sum_counts (take (LEAST s. may_cut ops counts items target s) counts) < m"
proof -
  let ?e = "earliest_cut ops counts items target"
  note spec = earliest_cut_spec [OF assms, of ops target]
  have "(\<exists>s. may_cut ops counts items target s) \<longleftrightarrow> ?e < length items"
    using spec by (metis le_less_trans may_cut_def)
  moreover have "?e < length items \<Longrightarrow> (LEAST s. may_cut ops counts items target s) = ?e"
    using spec by (intro Least_equality) auto
  ultimately show ?thesis by (auto simp: select_earliest [OF assms] Let_def)
qed

section \<open>Example\<close>

definition ex_ops :: "(compaction_role \<times> string) item_ops" where
  "ex_ops = \<lparr>ci_role = fst, ci_text = \<lambda>x. Some (snd x), ci_has_tool_requests = \<lambda>x. fst x = CAssistant,
     ci_is_summary = \<lambda>x. fst x = CDeveloper, ci_attachments = \<lambda>_. [], ci_summary_item = Pair CDeveloper,
     ci_strip_tools = Some, ci_truncate = \<lambda>x n. (fst x, take (4 * unat n) (snd x))\<rparr>"

definition ex_items :: "(compaction_role \<times> string) list" where
  "ex_items = [(CUser, ''q''), (CAssistant, ''c''), (CTool, ''r1''), (CTool, ''r2''), (CAssistant, ''a'')]"

theorem select_cuts_safely_witness:
  "select_turns_to_compact ex_ops [5, 5, 5, 5, 5] ex_items 12 0 = Some \<lparr>split_idx = 4, tokens_to_compact = 20\<rparr>
   \<and> no_orphans ex_ops False (drop 4 ex_items) \<and> 4 = (LEAST s. may_cut ex_ops [5, 5, 5, 5, 5] ex_items 12 s)"
proof -
  have s: "select_turns_to_compact ex_ops [5, 5, 5, 5, 5] ex_items 12 0 = Some \<lparr>split_idx = 4, tokens_to_compact = 20\<rparr>"
  proof -
    have "select_back [5, 5, 5, 5, 5] 12 (Suc (Suc (Suc (Suc (Suc 0))))) 0 = 3" by (simp add: sat_add_def)
    moreover have "skip_results ex_ops ex_items (Suc (Suc (Suc 0))) = 4"
      by (subst skip_results.simps, subst skip_results.simps) (simp add: ex_items_def ex_ops_def is_tool_result_def)
    moreover have "length ex_items = Suc (Suc (Suc (Suc (Suc 0))))" "is_tool_result ex_ops (ex_items ! Suc (Suc (Suc 0)))" "ex_items \<noteq> []"
      by (simp_all add: ex_items_def ex_ops_def is_tool_result_def)
    ultimately show ?thesis by (simp add: select_turns_to_compact_def snap_to_safe_boundary_def sat_add_def)
  qed
  have "length [5, 5, 5, 5, 5 :: u32] = length ex_items" "no_orphans ex_ops False ex_items"
    by (simp_all add: ex_items_def ex_ops_def is_tool_result_def)
  from select_cuts_safely [OF this(1) s this(2)] show ?thesis by (simp add: s)
qed

end
