(* ===== verification/Compaction_Fit.thy ===== *)
theory Compaction_Fit
  imports Compaction_Select Tools
begin

text \<open>
  Fitting a conversation into the budget of the summariser (\<open>intra_compaction/fit.rs\<close>): a ladder of ever
  harsher measures, tried in order. The theory also has the one-shot clipping of a text and the trigger of
  a compaction (\<open>trigger.rs\<close>). The ladder is shown equal to a definition by cases, in which the
  measures that can never apply are gone.
\<close>

section \<open>The ladder\<close>

datatype fit_rung = Verbatim | HistoryTurnSelected | ToolTruncated | StepTurnsSelected | Emergency

record 'a fit_plan =
  llm_turns :: "'a list"
  tokens_raw :: u32
  tokens_fit :: u32
  rung :: fit_rung
  items_truncated :: u32
  history_turns_omitted :: u32
  step_turns_omitted :: u32

definition sum_tokens :: "('a \<Rightarrow> u32) \<Rightarrow> 'a list \<Rightarrow> u32" where
  "sum_tokens cnt ts = sum_counts (map cnt ts)"

definition len32 :: "'a list \<Rightarrow> u32" where
  "len32 xs = of_nat (length xs)"

fun oversized_result :: "'a item_ops \<Rightarrow> ('a \<Rightarrow> u32) \<Rightarrow> u32 \<Rightarrow> 'a \<Rightarrow> bool" where
  "oversized_result ops cnt max_tokens t \<longleftrightarrow> is_tool_result ops t \<and> max_tokens < cnt t"

definition clip_result :: "'a item_ops \<Rightarrow> ('a \<Rightarrow> u32) \<Rightarrow> u32 \<Rightarrow> 'a \<Rightarrow> 'a" where
  "clip_result ops cnt max_tokens t = (if oversized_result ops cnt max_tokens t then ci_truncate ops t max_tokens else t)"

definition shrink_oversized_tool_results :: "'a item_ops \<Rightarrow> ('a \<Rightarrow> u32) \<Rightarrow> u32 \<Rightarrow> 'a list \<Rightarrow> 'a list \<times> u32" where
  "shrink_oversized_tool_results ops cnt max_tokens ts =
     (map (clip_result ops cnt max_tokens) ts, len32 (filter (oversized_result ops cnt max_tokens) ts))"

definition keep_recent_under_budget :: "'a item_ops \<Rightarrow> 'a list \<Rightarrow> u32 list \<Rightarrow> u32 \<Rightarrow> ('a list \<times> u32) option" where
  "keep_recent_under_budget ops ts counts budget =
     (if ts = [] then Some ([], 0)
      else if budget = 0 then Some ([], len32 ts)
      else if sum_counts counts \<le> budget then Some (ts, 0)
      else case select_turns_to_compact ops counts ts budget 0 of
             None \<Rightarrow> None
           | Some plan \<Rightarrow> Some (drop (split_idx plan) ts, of_nat (split_idx plan)))"

text \<open>The step that stages 1 and 3 share: make room in one of the two lists, given the tokens of the other.\<close>

definition make_room :: "'a item_ops \<Rightarrow> 'a list \<Rightarrow> u32 list \<Rightarrow> u32 \<Rightarrow> u32 \<Rightarrow> 'a list \<times> u32 list \<times> u32" where
  "make_room ops ts counts other budget =
     (if other < budget then
        if budget - other < sum_counts counts then
          (case keep_recent_under_budget ops ts counts (budget - other) of
             Some (keep, omitted) \<Rightarrow> (keep, drop (unat omitted) counts, omitted)
           | None \<Rightarrow> ([], [], len32 ts))
        else (ts, counts, 0)
      else ([], [], len32 ts))"

definition plan_ok ::
    "('a \<Rightarrow> u32) \<Rightarrow> 'a list \<Rightarrow> 'a list \<Rightarrow> u32 \<Rightarrow> fit_rung \<Rightarrow> u32 \<Rightarrow> u32 \<Rightarrow> u32 \<Rightarrow> 'a fit_plan" where
  "plan_ok cnt hist step raw r n ho so =
     \<lparr>llm_turns = hist @ step, tokens_raw = raw, tokens_fit = sum_tokens cnt (hist @ step), rung = r,
      items_truncated = n, history_turns_omitted = ho, step_turns_omitted = so\<rparr>"

text \<open>\<open>history.len().saturating_sub(1) as u32\<close>.\<close>

definition pred32 :: "'a list \<Rightarrow> u32" where
  "pred32 xs = of_nat (length xs - 1)"

definition emergency_source ::
    "'a list \<Rightarrow> 'a list \<Rightarrow> 'a list \<Rightarrow> 'a list \<Rightarrow> u32 \<Rightarrow> u32 \<Rightarrow> 'a list \<times> u32 \<times> u32" where
  "emergency_source history steps hist step hist_omitted step_omitted =
     (if hist @ step = [] then
        (history @ steps,
         if steps = [] then (pred32 history, 0) else (len32 history, pred32 steps))
      else if step = [] then (hist @ step, sat_add hist_omitted (pred32 hist), step_omitted)
      else (hist @ step, sat_add hist_omitted (len32 hist), sat_add step_omitted (pred32 step)))"

definition emergency ::
    "'a item_ops \<Rightarrow> ('a \<Rightarrow> u32) \<Rightarrow> u32 \<Rightarrow> u32 \<Rightarrow> u32 \<Rightarrow> 'a list \<times> u32 \<times> u32 \<Rightarrow> 'a fit_plan" where
  "emergency ops cnt budget raw n = (\<lambda>(source, ho, so).
     if source = [] then
       \<lparr>llm_turns = [], tokens_raw = raw, tokens_fit = 0, rung = Emergency, items_truncated = n,
        history_turns_omitted = ho, step_turns_omitted = so\<rparr>
     else
       let last_turn = [ci_truncate ops (last source) budget] in
       \<lparr>llm_turns = last_turn, tokens_raw = raw, tokens_fit = sum_tokens cnt last_turn, rung = Emergency,
        items_truncated = sat_add n 1, history_turns_omitted = ho, step_turns_omitted = so\<rparr>)"

text \<open>Stages 2 to 4, entered with what stage 1 has left.\<close>

definition fit_harder ::
    "'a item_ops \<Rightarrow> ('a \<Rightarrow> u32) \<Rightarrow> u32 \<Rightarrow> u32 \<Rightarrow> 'a list \<Rightarrow> 'a list \<Rightarrow> 'a list \<Rightarrow> u32 \<Rightarrow> 'a fit_plan" where
  "fit_harder ops cnt budget raw history steps hist hist_omitted =
     (let (hist2, n1) = shrink_oversized_tool_results ops cnt budget hist;
          (step2, n2) = shrink_oversized_tool_results ops cnt budget steps;
          n = sat_add n1 n2;
          hist_counts = map cnt hist2; step_counts = map cnt step2 in
      if sat_add (sum_counts hist_counts) (sum_counts step_counts) \<le> budget then
        plan_ok cnt hist2 step2 raw ToolTruncated n hist_omitted 0
      else
        let (step3, step_counts3, step_omitted) = make_room ops step2 step_counts (sum_counts hist_counts) budget in
        if sat_add (sum_counts hist_counts) (sum_counts step_counts3) \<le> budget \<and> (hist2 \<noteq> [] \<or> step3 \<noteq> []) then
          plan_ok cnt hist2 step3 raw StepTurnsSelected n hist_omitted step_omitted
        else emergency ops cnt budget raw n (emergency_source history steps hist2 step3 hist_omitted step_omitted))"

definition fit_turns_for_summarizer :: "'a item_ops \<Rightarrow> ('a \<Rightarrow> u32) \<Rightarrow> 'a list \<Rightarrow> 'a list \<Rightarrow> u32 \<Rightarrow> 'a fit_plan" where
  "fit_turns_for_summarizer ops cnt history steps budget =
     (let hist_counts = map cnt history; step_counts = map cnt steps;
          raw = sat_add (sum_counts hist_counts) (sum_counts step_counts) in
      if budget = 0 then
        \<lparr>llm_turns = [], tokens_raw = raw, tokens_fit = 0, rung = Emergency, items_truncated = 0,
         history_turns_omitted = len32 history, step_turns_omitted = len32 steps\<rparr>
      else if raw \<le> budget then plan_ok cnt history steps raw Verbatim 0 0 0
      else
        let (hist, hist_counts1, hist_omitted) = make_room ops history hist_counts (sum_counts step_counts) budget in
        if sat_add (sum_counts hist_counts1) (sum_counts step_counts) \<le> budget then
          plan_ok cnt hist steps raw HistoryTurnSelected 0 hist_omitted 0
        else fit_harder ops cnt budget raw history steps hist hist_omitted)"

section \<open>The ladder by cases\<close>

text \<open>What the ladder amounts to.\<close>

definition fitted :: "'a item_ops \<Rightarrow> ('a \<Rightarrow> u32) \<Rightarrow> 'a list \<Rightarrow> 'a list \<Rightarrow> u32 \<Rightarrow> fit_rung \<times> 'a list" where
  "fitted ops cnt history steps budget =
     (let clipped = map (clip_result ops cnt budget) steps in
      if sum_tokens cnt (history @ steps) \<le> budget then (Verbatim, history @ steps)
      else if sum_tokens cnt steps \<le> budget then
        (HistoryTurnSelected,
         (if sum_tokens cnt steps < budget then newest_fitting ops cnt history (budget - sum_tokens cnt steps) else []) @ steps)
      else if sum_tokens cnt clipped \<le> budget then (ToolTruncated, clipped)
      else if newest_fitting ops cnt clipped budget \<noteq> [] then (StepTurnsSelected, newest_fitting ops cnt clipped budget)
      else (Emergency, [ci_truncate ops (last steps) budget]))"

lemma sum_tokens_append: "sum_tokens cnt (xs @ ys) = sat_add (sum_tokens cnt xs) (sum_tokens cnt ys)"
  by (simp add: sum_tokens_def)

lemma sat_add_0 [simp]: "sat_add 0 a = a" "sat_add a 0 = a"
  using unat_u32_max [of a] by (simp_all add: word_unat_eq_iff unat_sat_add min_def)

lemma sat_add_room: "a \<le> budget - b \<Longrightarrow> b \<le> budget \<Longrightarrow> sat_add a b \<le> budget"
  by (simp add: word_le_nat_alt unat_sat_add unat_sub)

lemma no_room: "\<not> sat_add a b \<le> budget \<Longrightarrow> b \<le> budget \<Longrightarrow> \<not> a \<le> budget - b"
  using sat_add_room by blast

lemma keep_recent_newest:
  assumes "length ts < 2 ^ 32" "room \<noteq> 0" "\<not> sum_tokens cnt ts \<le> room"
  shows "(case keep_recent_under_budget ops ts (map cnt ts) room of
            Some (keep, omitted) \<Rightarrow> (keep, drop (unat omitted) (map cnt ts), omitted)
          | None \<Rightarrow> ([], [], len32 ts)) =
    (newest_fitting ops cnt ts room, map cnt (newest_fitting ops cnt ts room), of_nat (length ts - length (newest_fitting ops cnt ts room)))"
proof -
  let ?e = "earliest_cut ops (map cnt ts) ts room"
  have e: "?e \<le> length ts" using earliest_cut_spec(1) [of "map cnt ts" ts ops room] by simp
  then have "unat (of_nat ?e :: u32) = ?e" using assms(1) by (simp add: unat_of_nat)
  moreover have "ts \<noteq> []" using assms by (auto simp: sum_tokens_def)
  ultimately show ?thesis
    using assms(2,3) e
    by (auto simp: keep_recent_under_budget_def sum_tokens_def select_earliest Let_def newest_fitting_def drop_map len32_def)
qed

lemma make_room_newest:
  assumes "length ts < 2 ^ 32" "\<not> sat_add (sum_tokens cnt ts) other \<le> budget"
  shows "make_room ops ts (map cnt ts) other budget =
    (if other < budget then
       (newest_fitting ops cnt ts (budget - other), map cnt (newest_fitting ops cnt ts (budget - other)),
        of_nat (length ts - length (newest_fitting ops cnt ts (budget - other))))
     else ([], [], len32 ts))"
proof (cases "other < budget")
  case True
  then have less: "budget - other < sum_tokens cnt ts" using no_room [OF assms(2)] by (simp add: not_le)
  moreover have "budget - other \<noteq> 0" using True by auto
  ultimately show ?thesis
    using True keep_recent_newest [OF assms(1), of "budget - other" cnt ops] less by (simp add: make_room_def sum_tokens_def not_le)
qed (simp add: make_room_def)

text \<open>Past the first stage there is no history left.\<close>

lemma fit_harder_cases:
  assumes "length steps < 2 ^ 32" "\<not> sum_tokens cnt steps \<le> budget" "budget \<noteq> 0"
  shows "(rung (fit_harder ops cnt budget raw history steps [] ho), llm_turns (fit_harder ops cnt budget raw history steps [] ho)) =
    (let clipped = map (clip_result ops cnt budget) steps in
     if sum_tokens cnt clipped \<le> budget then (ToolTruncated, clipped)
     else if newest_fitting ops cnt clipped budget \<noteq> [] then (StepTurnsSelected, newest_fitting ops cnt clipped budget)
     else (Emergency, [ci_truncate ops (last steps) budget]))"
proof -
  let ?c = "map (clip_result ops cnt budget) steps"
  have ne: "steps \<noteq> []" using assms(2) by (auto simp: sum_tokens_def)
  show ?thesis
  proof (cases "sum_tokens cnt ?c \<le> budget")
    case True
    then show ?thesis
      by (simp add: fit_harder_def shrink_oversized_tool_results_def plan_ok_def sum_tokens_def Let_def)
  next
    case False
    have "0 < budget" using assms(3) by (simp add: word_neq_0_conv)
    then have m: "make_room ops ?c (map cnt ?c) 0 budget =
        (newest_fitting ops cnt ?c budget, map cnt (newest_fitting ops cnt ?c budget),
         of_nat (length ?c - length (newest_fitting ops cnt ?c budget)))"
      using make_room_newest [of ?c cnt 0 budget ops] False assms(1) by simp
    have "sum_counts (map cnt (newest_fitting ops cnt ?c budget)) \<le> budget" by (rule newest_fitting_fits)
    then show ?thesis
      using False ne m
      by (simp add: fit_harder_def shrink_oversized_tool_results_def plan_ok_def sum_tokens_def emergency_source_def
          emergency_def Let_def)
  qed
qed

lemma fit_turns_fitted:
  assumes "length history < 2 ^ 32" "length steps < 2 ^ 32" "budget \<noteq> 0"
  shows "(rung (fit_turns_for_summarizer ops cnt history steps budget), llm_turns (fit_turns_for_summarizer ops cnt history steps budget)) =
    fitted ops cnt history steps budget"
proof (cases "sum_tokens cnt (history @ steps) \<le> budget")
  case True
  then show ?thesis
    using assms(3) by (simp add: fit_turns_for_summarizer_def fitted_def plan_ok_def sum_tokens_def Let_def)
next
  case False
  let ?s = "sum_tokens cnt steps"
  let ?h = "newest_fitting ops cnt history (budget - ?s)"
  have raw: "\<not> sat_add (sum_tokens cnt history) ?s \<le> budget" using False by (simp add: sum_tokens_append)
  note room = make_room_newest [OF assms(1) raw, of ops]
  consider (less) "?s < budget" | (equal) "?s = budget" | (over) "\<not> ?s \<le> budget" by fastforce
  then show ?thesis
  proof cases
    case less
    have "sat_add (sum_counts (map cnt ?h)) ?s \<le> budget"
      using less by (intro sat_add_room newest_fitting_fits) simp
    then show ?thesis
      using room less False raw assms(3)
      by (simp add: fit_turns_for_summarizer_def fitted_def plan_ok_def sum_tokens_def Let_def)
  next
    case equal
    then show ?thesis
      using room equal False raw assms(3)
      by (simp add: fit_turns_for_summarizer_def fitted_def plan_ok_def sum_tokens_def Let_def)
  next
    case over
    then have "make_room ops history (map cnt history) ?s budget = ([], [], len32 history)" using room by auto
    then show ?thesis
      using over False raw assms(3) fit_harder_cases [OF assms(2) over assms(3)]
      by (simp add: fit_turns_for_summarizer_def fitted_def sum_tokens_def Let_def)
  qed
qed

text \<open>C31. The ladder takes the first of its measures that makes the conversation fit: the whole conversation; all
  steps with the newest part of the history that fits beside them; no history and the clipped steps; the
  newest clipped steps that fit; the newest step alone, clipped. Parts of a list are cut off only where no
  tool result loses its request.\<close>

theorem fit_turns_ladder:
  assumes "length history < 2 ^ 32" "length steps < 2 ^ 32" "budget \<noteq> 0"
  shows "(rung (fit_turns_for_summarizer ops cnt history steps budget), llm_turns (fit_turns_for_summarizer ops cnt history steps budget)) =
    fitted ops cnt history steps budget"
  using assms by (rule fit_turns_fitted)

subsection \<open>What comes out of it\<close>

lemma fit_counts:
  "tokens_fit (fit_turns_for_summarizer ops cnt history steps budget) =
     sum_tokens cnt (llm_turns (fit_turns_for_summarizer ops cnt history steps budget))"
  by (simp add: fit_turns_for_summarizer_def fit_harder_def emergency_def plan_ok_def sum_tokens_def Let_def split: prod.split)

text \<open>C32. The plan fits the budget, with one exception: when it falls back to the newest step alone, clipped to the
  budget, it is as large as the clipping made that step, and fits when the clipping keeps to the tokens asked for. It is
  empty exactly when there was nothing to fit, when the budget is zero, or when the conversation has no steps,
  does not fit, and no end of the history fits either.\<close>

theorem fit_within_budget:
  assumes "length history < 2 ^ 32" "length steps < 2 ^ 32"
  shows "tokens_fit (fit_turns_for_summarizer ops cnt history steps budget) =
      sum_tokens cnt (llm_turns (fit_turns_for_summarizer ops cnt history steps budget))
    \<and> (tokens_fit (fit_turns_for_summarizer ops cnt history steps budget) \<le> budget
       \<or> rung (fit_turns_for_summarizer ops cnt history steps budget) = Emergency \<and> steps \<noteq> []
         \<and> llm_turns (fit_turns_for_summarizer ops cnt history steps budget) = [ci_truncate ops (last steps) budget])
    \<and> (cnt (ci_truncate ops (last steps) budget) \<le> budget \<longrightarrow>
         tokens_fit (fit_turns_for_summarizer ops cnt history steps budget) \<le> budget)
    \<and> (llm_turns (fit_turns_for_summarizer ops cnt history steps budget) = [] \<longleftrightarrow>
         budget = 0 \<or> history @ steps = []
         \<or> steps = [] \<and> \<not> sum_tokens cnt history \<le> budget \<and> newest_fitting ops cnt history budget = [])"
proof (cases "budget = 0")
  case True
  then show ?thesis by (simp add: fit_turns_for_summarizer_def sum_tokens_def Let_def)
next
  case False
  let ?p = "fit_turns_for_summarizer ops cnt history steps budget"
  have f: "rung ?p = fst (fitted ops cnt history steps budget)" "llm_turns ?p = snd (fitted ops cnt history steps budget)"
    using fit_turns_fitted [OF assms False] by (metis fst_conv, metis snd_conv)
  have "sum_tokens cnt (newest_fitting ops cnt history (budget - sum_tokens cnt steps) @ steps) \<le> budget" if "sum_tokens cnt steps < budget"
    using that newest_fitting_fits [of cnt ops history "budget - sum_tokens cnt steps"]
    by (simp add: sum_tokens_append sat_add_room sum_tokens_def)
  then have bound: "tokens_fit ?p \<le> budget \<or> rung ?p = Emergency \<and> steps \<noteq> [] \<and> llm_turns ?p = [ci_truncate ops (last steps) budget]"
    using newest_fitting_fits [of cnt ops "map (clip_result ops cnt budget) steps" budget]
    by (auto simp: fit_counts f fitted_def Let_def sum_tokens_def)
  moreover have "tokens_fit ?p \<le> budget" if "cnt (ci_truncate ops (last steps) budget) \<le> budget"
    using bound that by (auto simp: fit_counts sum_tokens_def)
  moreover have "snd (fitted ops cnt history steps budget) = [] \<longleftrightarrow> history @ steps = []
      \<or> steps = [] \<and> \<not> sum_tokens cnt history \<le> budget \<and> newest_fitting ops cnt history budget = []"
    using False by (auto simp: fitted_def Let_def sum_tokens_def word_neq_0_conv)
  ultimately show ?thesis using False by (simp add: fit_counts f)
qed

lemma no_orphans_open: "no_orphans ops False ys \<Longrightarrow> no_orphans ops b ys"
  by (cases ys) auto

lemma no_orphans_join: "no_orphans ops b xs \<Longrightarrow> no_orphans ops False ys \<Longrightarrow> no_orphans ops b (xs @ ys)"
  by (induction ops b xs rule: no_orphans.induct) (auto simp: no_orphans_open)

lemma no_orphans_newest: "no_orphans ops False ts \<Longrightarrow> no_orphans ops False (newest_fitting ops cnt ts room)"
proof -
  let ?e = "earliest_cut ops (map cnt ts) ts room"
  assume ts: "no_orphans ops False ts"
  note spec = earliest_cut_spec(1,2) [of "map cnt ts" ts ops room]
  show ?thesis
  proof (cases "?e < length ts")
    case True
    then have "\<not> is_tool_result ops (ts ! ?e)" using spec by (simp add: may_cut_def)
    with ts True show ?thesis by (simp add: newest_fitting_def no_orphans_drop)
  qed (simp add: newest_fitting_def)
qed

lemma no_orphans_clip:
  assumes "\<And>x n. ci_role ops (ci_truncate ops x n) = ci_role ops x" "\<And>x n. ci_has_tool_requests ops (ci_truncate ops x n) = ci_has_tool_requests ops x"
  shows "no_orphans ops b (map (clip_result ops cnt budget) ts) = no_orphans ops b ts"
  by (induction ts arbitrary: b) (auto simp: clip_result_def is_tool_result_def assms)

text \<open>No tool result reaches the summariser without its request, unless the ladder falls back to the newest step alone, if
  neither the history nor the steps have such a result and clipping an item leaves its role and its
  requests alone.\<close>

theorem fit_keeps_pairs:
  assumes "length history < 2 ^ 32" "length steps < 2 ^ 32" "no_orphans ops False history" "no_orphans ops False steps"
    and "\<And>x n. ci_role ops (ci_truncate ops x n) = ci_role ops x"
    and "\<And>x n. ci_has_tool_requests ops (ci_truncate ops x n) = ci_has_tool_requests ops x"
  shows "no_orphans ops False (llm_turns (fit_turns_for_summarizer ops cnt history steps budget))
    \<or> rung (fit_turns_for_summarizer ops cnt history steps budget) = Emergency"
proof (cases "budget = 0")
  case False
  have "rung (fit_turns_for_summarizer ops cnt history steps budget) = fst (fitted ops cnt history steps budget)"
    "llm_turns (fit_turns_for_summarizer ops cnt history steps budget) = snd (fitted ops cnt history steps budget)"
    using fit_turns_fitted [OF assms(1,2) False] by (metis fst_conv, metis snd_conv)
  then show ?thesis
    using assms(3,4) by (auto simp: fitted_def Let_def no_orphans_join no_orphans_newest no_orphans_clip [OF assms(5,6)])
qed (simp add: fit_turns_for_summarizer_def Let_def)

section \<open>Clipping a text\<close>

text \<open>The largest character boundary that is not after \<open>end\<close>.\<close>

fun floor_boundary :: "string \<Rightarrow> nat \<Rightarrow> nat" where
  "floor_boundary s 0 = 0"
| "floor_boundary s (Suc n) = (if is_char_boundary s (Suc n) then Suc n else floor_boundary s n)"

definition truncation_marker :: "nat \<Rightarrow> string" where
  "truncation_marker dropped =
     LF @ ''[... truncated '' @ show_nat dropped @ '' bytes to fit the compaction window ...]''"

definition truncate_text_to_token_budget :: "string \<Rightarrow> u32 \<Rightarrow> string" where
  "truncate_text_to_token_budget s max_tokens =
     (let max_bytes = unat (saturating_mul (ucast max_tokens) 4) in
      if length s \<le> max_bytes then s
      else
        let keep = max_bytes - 64;
            stop = floor_boundary s (min keep (length s)) in
        take stop s @ truncation_marker (length s - stop))"

lemma floor_boundary_le: "floor_boundary s n \<le> n"
  by (induction n) auto

lemma floor_boundary_boundary: "is_char_boundary s (floor_boundary s n)"
  by (induction n) (auto simp: is_char_boundary_def)

lemma length_show_nat_le: "n < 10 ^ k \<Longrightarrow> 0 < k \<Longrightarrow> length (show_nat n) \<le> k"
proof (induction k arbitrary: n)
  case (Suc k)
  show ?case
  proof (cases "n < 10")
    case False
    then have "n div 10 < 10 ^ k" "0 < k" using Suc.prems by (auto simp: div_less_iff_less_mult intro: ccontr)
    then have "length (show_nat (n div 10)) \<le> k" by (rule Suc.IH)
    with False show ?thesis by (subst show_nat.simps) simp
  qed (subst show_nat.simps, simp)
qed simp

lemma length_truncation_marker: "length (truncation_marker n) = 56 + length (show_nat n)"
  by (simp add: truncation_marker_def)

lemma unat_widen: "unat (ucast (n :: u32) :: u64) = unat n" "unat (ucast (p :: 8 word) :: u64) = unat p"
  by (transfer, simp)+

lemma unat_max_bytes: "unat (saturating_mul (ucast (n :: u32)) 4) = 4 * unat n"
proof -
  have "unat n * 4 < 2 ^ 64" using unat_u32_max [of n] by simp
  then show ?thesis by (simp add: unat_saturating_mul unat_widen)
qed

text \<open>A clipped text starts with a prefix of the original that ends between two characters, and is no longer than four
  bytes per token, provided the budget is at least sixteen tokens and the text has less than a hundred
  million bytes: the reserve of 64 bytes is just enough for a number of eight digits.\<close>

theorem truncate_text_bound:
  assumes "16 \<le> max_tokens" "length s < 10 ^ 8"
  shows "length (truncate_text_to_token_budget s max_tokens) \<le> 4 * unat max_tokens
    \<and> (\<exists>n m. is_char_boundary s n \<and> truncate_text_to_token_budget s max_tokens = take n s @ m)"
proof (cases "length s \<le> 4 * unat max_tokens")
  case True
  then have "truncate_text_to_token_budget s max_tokens = take (length s) s @ []"
    by (simp add: truncate_text_to_token_budget_def unat_max_bytes)
  with True show ?thesis by (auto simp: is_char_boundary_def intro!: exI [of _ "length s"])
next
  case False
  define stop where "stop = floor_boundary s (min (4 * unat max_tokens - 64) (length s))"
  have t: "truncate_text_to_token_budget s max_tokens = take stop s @ truncation_marker (length s - stop)"
    using False by (simp add: truncate_text_to_token_budget_def unat_max_bytes stop_def Let_def)
  have "16 \<le> unat max_tokens" using assms(1) by (simp add: word_le_nat_alt)
  moreover have "stop \<le> 4 * unat max_tokens - 64"
    unfolding stop_def by (rule order_trans [OF floor_boundary_le]) simp
  moreover have "length (show_nat (length s - stop)) \<le> 8" using assms(2) by (intro length_show_nat_le) simp_all
  moreover have "length (take stop s) \<le> stop" by simp
  ultimately have "length (take stop s) + (56 + length (show_nat (length s - stop))) \<le> 4 * unat max_tokens" by linarith
  moreover have "is_char_boundary s stop" unfolding stop_def by (rule floor_boundary_boundary)
  ultimately show ?thesis unfolding t by (auto simp: length_truncation_marker)
qed

text \<open>Below sixteen tokens the marker alone is longer than the budget.\<close>

lemma truncate_text_overshoots:
  assumes "max_tokens < 15" "4 * unat max_tokens < length s"
  shows "4 * unat max_tokens < length (truncate_text_to_token_budget s max_tokens)"
proof -
  have m: "unat max_tokens < 15" using assms(1) by (simp add: word_less_nat_alt)
  then have "truncate_text_to_token_budget s max_tokens = truncation_marker (length s)"
    using assms(2) by (simp add: truncate_text_to_token_budget_def unat_max_bytes)
  moreover have "0 < length (show_nat (length s))" unfolding length_greater_0_conv by (rule show_nat_nonempty)
  ultimately show ?thesis using m length_truncation_marker [of "length s"] by (simp only:)
qed

section \<open>The trigger\<close>

datatype intra_mode = FullReplace | StepsOnly | HistoryOnly | HistoryThenSteps

datatype intra_summarizer = Shared | Legacy

record intra_config =
  ic_enabled :: bool
  ic_mode :: intra_mode
  trigger_threshold_percent :: "8 word"
  min_steps_before_compact :: u32
  min_compactable_tokens :: u32
  max_reduction_ratio :: rat
  compaction_model_name :: "string option"
  sampling_timeout_secs :: u64
  ic_max_attempts :: u32
  retry_delay_secs :: u64
  compaction_version :: string
  ic_summarizer :: intra_summarizer
  target_threshold_percent :: "8 word"
  steps_trigger_ratio :: rat
  user_message_truncate_chars :: u32

definition effective_compaction_model_name :: "intra_config \<Rightarrow> string" where
  "effective_compaction_model_name c =
     (case compaction_model_name c of
        None \<Rightarrow> ''ai-4.20''
      | Some n \<Rightarrow> if str_trim n = [] then ''ai-4.20'' else str_trim n)"

record intra_trigger =
  last_prompt_tokens :: u32
  context_window :: u32
  percent :: "8 word"
  trigger_step :: u32

definition should_compact :: "intra_config \<Rightarrow> u32 \<Rightarrow> u32 \<Rightarrow> u32 \<Rightarrow> intra_trigger option" where
  "should_compact policy tokens window step =
     (if \<not> ic_enabled policy then None
      else if window = 0 then None
      else if ic_mode policy \<noteq> FullReplace \<and> step < min_steps_before_compact policy then None
      else
        let threshold = ucast ((ucast window * ucast (trigger_threshold_percent policy) :: u64) div 100) :: u32 in
        if tokens \<le> threshold then None
        else Some \<lparr>last_prompt_tokens = tokens, context_window = window,
                   percent = ucast (min ((ucast tokens * 100 :: u64) div ucast window) 100), trigger_step = step\<rparr>)"

lemma unat_narrow: "unat (ucast (a :: u64) :: u32) = unat a mod 2 ^ 32"
  by transfer (simp add: take_bit_eq_mod nat_mod_distrib)

lemma unat_percent:
  assumes "p \<le> 100"
  shows "unat (ucast ((ucast (w :: u32) * ucast (p :: 8 word) :: u64) div 100) :: u32) = unat w * unat p div 100"
proof -
  have p: "unat p \<le> 100" using assms by (simp add: word_le_nat_alt)
  have "unat w * unat p \<le> (2 ^ 32 - 1) * 100" by (rule mult_le_mono [OF unat_u32_max p])
  then have b: "unat w * unat p < 2 ^ 64" by simp
  have "unat w * unat p div 100 \<le> unat w * 100 div 100" by (rule div_le_mono [OF mult_le_mono2 [OF p]])
  then have c: "unat w * unat p div 100 < 2 ^ 32" using unat_u32_max [of w] by simp
  have "unat (ucast w * ucast p :: u64) = unat w * unat p" using b by (simp add: unat_word_ariths(2) unat_widen)
  then have "unat ((ucast w * ucast p :: u64) div 100) = unat w * unat p div 100" by (simp add: unat_div_distrib)
  then show ?thesis using c by (simp add: unat_narrow)
qed

text \<open>When a compaction is triggered, with a threshold of at most a hundred percent: when it is enabled, the window is
  not empty, the mode is the full replacement or enough steps have been made, and the prompt has passed
  the threshold, without rounding.\<close>

theorem should_compact_iff:
  assumes "trigger_threshold_percent policy \<le> 100"
  shows "should_compact policy tokens window step \<noteq> None \<longleftrightarrow>
    ic_enabled policy \<and> window \<noteq> 0 \<and> (ic_mode policy = FullReplace \<or> min_steps_before_compact policy \<le> step)
    \<and> unat window * unat (trigger_threshold_percent policy) < 100 * unat tokens"
proof -
  have "tokens \<le> ucast ((ucast window * ucast (trigger_threshold_percent policy) :: u64) div 100) \<longleftrightarrow>
      100 * unat tokens \<le> unat window * unat (trigger_threshold_percent policy)"
    by (simp add: word_le_nat_alt [of tokens] unat_percent [OF assms] less_eq_div_iff_mult_less_eq mult.commute)
  then show ?thesis by (auto simp: should_compact_def Let_def not_le not_less)
qed

section \<open>Examples\<close>

text \<open>Ten tokens for every item, and one for a clipped one.\<close>

definition ex_cnt :: "compaction_role \<times> string \<Rightarrow> u32" where
  "ex_cnt x = (if length (snd x) \<le> 4 then 1 else 10)"

definition ex_history :: "(compaction_role \<times> string) list" where
  "ex_history = [(CUser, ''question''), (CAssistant, ''request''), (CTool, ''result'')]"

definition ex_steps :: "(compaction_role \<times> string) list" where
  "ex_steps = [(CAssistant, ''request''), (CTool, ''result'')]"

lemma ex_pairs: "no_orphans ex_ops False ex_history" "no_orphans ex_ops False ex_steps"
  by (simp_all add: ex_ops_def ex_history_def ex_steps_def is_tool_result_def)

lemma ex_sizes: "sum_tokens ex_cnt (ex_history @ ex_steps) = 50" "sum_tokens ex_cnt ex_steps = 20"
  by (simp_all add: sum_tokens_def ex_history_def ex_steps_def ex_cnt_def sat_add_def)

lemma ex_fit: "rung (fit_turns_for_summarizer ex_ops ex_cnt ex_history ex_steps 20) = HistoryTurnSelected"
  using ex_sizes by (simp add: fit_turns_for_summarizer_def make_room_def plan_ok_def sum_tokens_def)

theorem fit_turns_ladder_witness:
  "rung (fit_turns_for_summarizer ex_ops ex_cnt ex_history ex_steps 20) = HistoryTurnSelected
   \<and> llm_turns (fit_turns_for_summarizer ex_ops ex_cnt ex_history ex_steps 20) = ex_steps"
  using fit_turns_ladder [of ex_history ex_steps 20 ex_ops ex_cnt]
  by (simp add: fitted_def ex_sizes Let_def) (simp add: ex_history_def ex_steps_def)

text \<open>With room for one token the ladder is climbed to its end.\<close>

lemma ex_emergency: "rung (fit_turns_for_summarizer ex_ops ex_cnt ex_history ex_steps 1) = Emergency"
proof -
  have c: "map (clip_result ex_ops ex_cnt 1) ex_steps = [(CAssistant, ''request''), (CTool, ''resu'')]"
    by (simp add: ex_steps_def clip_result_def ex_ops_def ex_cnt_def is_tool_result_def)
  have "select_back [10, 1] 1 (Suc (Suc 0)) 0 = Suc 0" by (simp add: sat_add_def)
  moreover have "skip_results ex_ops [(CAssistant, ''request''), (CTool, ''resu'')] (Suc 0) = 2"
    by (subst skip_results.simps, subst skip_results.simps) (simp add: ex_ops_def is_tool_result_def)
  ultimately have "select_turns_to_compact ex_ops [10, 1] [(CAssistant, ''request''), (CTool, ''resu'')] 1 0 = None"
    by (simp add: select_turns_to_compact_def snap_to_safe_boundary_def ex_ops_def is_tool_result_def)
  moreover have n: "\<not> (50 :: u32) \<le> 1" "\<not> (20 :: u32) \<le> 1" "\<not> (11 :: u32) \<le> 1" "\<not> (20 :: u32) < 1" "(1 :: u32) < 11"
    by (simp_all add: word_le_nat_alt word_less_nat_alt)
  moreover have "ex_steps \<noteq> []" by (simp add: ex_steps_def)
  ultimately show ?thesis
    using ex_sizes c
    by (simp add: fit_turns_for_summarizer_def make_room_def sum_tokens_def fit_harder_def shrink_oversized_tool_results_def
        keep_recent_under_budget_def emergency_def emergency_source_def ex_cnt_def sat_add_def len32_def Let_def n)
qed

theorem fit_within_budget_witness:
  "rung (fit_turns_for_summarizer ex_ops ex_cnt ex_history ex_steps 1) = Emergency
   \<and> tokens_fit (fit_turns_for_summarizer ex_ops ex_cnt ex_history ex_steps 1) \<le> 1
   \<and> llm_turns (fit_turns_for_summarizer ex_ops ex_cnt ex_history ex_steps 1) \<noteq> []"
proof -
  have "length ex_history < 2 ^ 32" "length ex_steps < 2 ^ 32" "ex_steps \<noteq> []"
    "ex_cnt (ci_truncate ex_ops (last ex_steps) 1) \<le> 1"
    by (simp_all add: ex_history_def ex_steps_def ex_cnt_def ex_ops_def)
  from fit_within_budget [OF this(1,2), of ex_ops ex_cnt 1] this(3,4) ex_emergency show ?thesis by auto
qed

theorem fit_keeps_pairs_witness: "no_orphans ex_ops False (llm_turns (fit_turns_for_summarizer ex_ops ex_cnt ex_history ex_steps 20))"
proof -
  have "length ex_history < 2 ^ 32" "length ex_steps < 2 ^ 32" by (simp_all add: ex_history_def ex_steps_def)
  from fit_keeps_pairs [OF this ex_pairs, of ex_cnt 20] show ?thesis by (simp add: ex_fit) (simp add: ex_ops_def)
qed

text \<open>A history that ends in a tool result larger than the budget, before the first step, leaves nothing.\<close>

lemma fit_loses_everything: "llm_turns (fit_turns_for_summarizer ex_ops ex_cnt ex_history [] 9) = []"
proof -
  have c: "map ex_cnt ex_history = [10, 10, 10]" "length ex_history = Suc (Suc (Suc 0))" "ex_history \<noteq> []"
    by (simp_all add: ex_history_def ex_cnt_def)
  have "select_back [10, 10, 10] 9 (Suc (Suc (Suc 0))) 0 = Suc (Suc (Suc 0))" by (simp add: sat_add_def)
  then have "select_turns_to_compact ex_ops (map ex_cnt ex_history) ex_history 9 0 = None"
    by (simp add: select_turns_to_compact_def snap_to_safe_boundary_def c)
  then show ?thesis
    by (simp add: fit_turns_for_summarizer_def make_room_def keep_recent_under_budget_def plan_ok_def c sat_add_def)
qed

theorem truncate_text_bound_witness: "length (truncate_text_to_token_budget (replicate 100 CHR ''x'') 16) \<le> 64"
  using truncate_text_bound [of 16 "replicate 100 CHR ''x''"] by simp

definition ex_policy :: intra_config where
  "ex_policy = \<lparr>ic_enabled = True, ic_mode = FullReplace, trigger_threshold_percent = 85, min_steps_before_compact = 3,
     min_compactable_tokens = 5000, max_reduction_ratio = 4 / 5, compaction_model_name = None, sampling_timeout_secs = 120,
     ic_max_attempts = 2, retry_delay_secs = 3, compaction_version = ''intra-v1'', ic_summarizer = Shared,
     target_threshold_percent = 50, steps_trigger_ratio = 3 / 10, user_message_truncate_chars = 3000\<rparr>"

theorem should_compact_iff_witness:
  "should_compact ex_policy 851 1000 0 \<noteq> None \<and> should_compact ex_policy 850 1000 0 = None"
  using should_compact_iff [of ex_policy 851 1000 0] should_compact_iff [of ex_policy 850 1000 0]
  by (simp add: ex_policy_def)

end
