(* ===== verification/Compaction_Text.thy ===== *)
theory Compaction_Text
  imports Compaction_Fit Event_Stream Diff_Capture Patch
begin

text \<open>
  The texts of a compaction (\<open>common/sentinel-ai-compaction\<close>): which items are summarised and how the
  queries of the user are carried from one summary to the next (\<open>history/filter.rs\<close>, \<open>history/validate.rs\<close>,
  \<open>history/types.rs\<close>).
\<close>

section \<open>Items that are summarised\<close>

definition keep_turn_for_basic_compaction :: "'a item_ops \<Rightarrow> 'a \<Rightarrow> bool" where
  "keep_turn_for_basic_compaction ops t =
     (case ci_role ops t of CSystem \<Rightarrow> False | CDeveloper \<Rightarrow> ci_is_summary ops t | _ \<Rightarrow> True)"

definition filter_turns_for_basic :: "'a item_ops \<Rightarrow> 'a list \<Rightarrow> 'a list" where
  "filter_turns_for_basic ops ts = filter (keep_turn_for_basic_compaction ops) ts"

definition inter_turn :: "'a item_ops \<Rightarrow> 'a \<Rightarrow> 'a option" where
  "inter_turn ops t =
     (case ci_role ops t of
        CTool \<Rightarrow> None | CSystem \<Rightarrow> None
      | CDeveloper \<Rightarrow> if ci_is_summary ops t then Some t else None
      | CUser \<Rightarrow> Some t
      | CAssistant \<Rightarrow> ci_strip_tools ops t)"

definition filter_turns_for_inter_compaction :: "'a item_ops \<Rightarrow> 'a list \<Rightarrow> 'a list" where
  "filter_turns_for_inter_compaction ops ts = List.map_filter (inter_turn ops) ts"

section \<open>User queries\<close>

definition start_tag :: string where "start_tag = ''<ai_user_queries>''"
definition end_tag :: string where "end_tag = ''</ai_user_queries>''"

definition push_rest :: "string \<Rightarrow> string \<Rightarrow> string" where
  "push_rest rest s = (if s = [] then rest else if rest = [] then s else rest @ LF @ s)"

text \<open>The loop, with the text from the cursor on.\<close>

function split_loop :: "string \<Rightarrow> string list \<Rightarrow> string \<Rightarrow> string list \<times> string" where
  "split_loop s sections rest =
     (case str_find s start_tag of
        None \<Rightarrow> (sections, push_rest rest (str_trim s))
      | Some start \<Rightarrow>
          (case str_find (drop start s) end_tag of
             None \<Rightarrow> (sections, push_rest rest (str_trim s))
           | Some stop \<Rightarrow>
               split_loop (drop (start + stop + length end_tag) s)
                 (sections @ [take (stop + length end_tag) (drop start s)])
                 (push_rest rest (str_trim (take start s)))))"
  by pat_completeness auto
termination
proof (relation "measure (\<lambda>(s, _, _). length s)", simp)
  fix s :: string and start stop
  assume "str_find s start_tag = Some start"
  then have "start + length start_tag \<le> length s" by (rule str_find_bound)
  then show "((drop (start + stop + length end_tag) s, sections @ [take (stop + length end_tag) (drop start s)],
       push_rest rest (str_trim (take start s))), s, sections, rest) \<in> measure (\<lambda>(s, _, _). length s)" for sections rest
    by (auto simp: start_tag_def end_tag_def)
qed

declare split_loop.simps [simp del]

definition split_prior_compaction_text :: "string \<Rightarrow> string option \<times> string" where
  "split_prior_compaction_text s =
     (let (sections, rest) = split_loop s [] [] in
      if sections = [] then (None, s) else (Some (join LF sections), rest))"

definition truncate_middle :: "string \<Rightarrow> nat \<Rightarrow> string option" where
  "truncate_middle msg max_chars =
     (let cs = utf8_chars msg in
      if length cs \<le> max_chars then None
      else
        let front_len = max_chars div 2; back_len = max_chars - front_len in
        Some (concat (take front_len cs) @ ''...[truncated]...'' @ concat (drop (length cs - back_len) cs)))"

definition quote :: string where "quote = [CHR 0x22]"

definition file_line :: "file_ref \<Rightarrow> string" where
  "file_line f = ''<ai_file id='' @ quote @ fr_id f @ quote @ '' name='' @ quote @ fr_name f @ quote @ '' />'' @ LF"

definition query_text :: "'a item_ops \<Rightarrow> nat \<Rightarrow> 'a \<Rightarrow> string" where
  "query_text ops threshold t =
     (let s = (case ci_text ops t of None \<Rightarrow> [] | Some s \<Rightarrow> s); files = ci_attachments ops t in
      ''<ai_query>'' @ (case truncate_middle s threshold of Some u \<Rightarrow> u | None \<Rightarrow> s)
      @ (if files = [] then [] else LF @ concat (map file_line files)) @ ''</ai_query>'' @ LF)"

definition has_query :: "'a item_ops \<Rightarrow> 'a \<Rightarrow> bool" where
  "has_query ops t \<longleftrightarrow>
     ci_role ops t = CUser \<and> \<not> ((case ci_text ops t of None \<Rightarrow> [] | Some s \<Rightarrow> s) = [] \<and> ci_attachments ops t = [])"

definition extract_user_queries_from_turns :: "'a item_ops \<Rightarrow> 'a list \<Rightarrow> u32 \<Rightarrow> string option" where
  "extract_user_queries_from_turns ops ts truncate_chars =
     (let qs = filter (has_query ops) ts in
      if qs = [] then None
      else Some (start_tag @ LF @ concat (map (query_text ops (unat truncate_chars)) qs) @ end_tag))"

record 'a separated_turns =
  turns_for_llm :: "'a list"
  prior_user_queries :: "string option"
  has_prior_compaction :: bool

definition add_prior :: "string option \<Rightarrow> string option \<Rightarrow> string option" where
  "add_prior prior sec =
     (case sec of
        None \<Rightarrow> prior
      | Some u \<Rightarrow> (case prior of None \<Rightarrow> Some u | Some p \<Rightarrow> Some (p @ LF @ u)))"

fun separate_loop :: "'a item_ops \<Rightarrow> 'a list \<Rightarrow> 'a separated_turns \<Rightarrow> 'a separated_turns" where
  "separate_loop ops [] acc = acc"
| "separate_loop ops (t # ts) acc =
     (if ci_is_summary ops t then
        let (sec, rest) = split_prior_compaction_text (case ci_text ops t of None \<Rightarrow> [] | Some s \<Rightarrow> s) in
        separate_loop ops ts
          (acc\<lparr>has_prior_compaction := True, prior_user_queries := add_prior (prior_user_queries acc) sec,
               turns_for_llm := turns_for_llm acc @ (if rest = [] then [] else [ci_summary_item ops rest])\<rparr>)
      else separate_loop ops ts (acc\<lparr>turns_for_llm := turns_for_llm acc @ [t]\<rparr>))"

definition separate_prior_user_queries :: "'a item_ops \<Rightarrow> 'a list \<Rightarrow> 'a separated_turns" where
  "separate_prior_user_queries ops ts =
     separate_loop ops ts \<lparr>turns_for_llm = [], prior_user_queries = None, has_prior_compaction = False\<rparr>"

definition extract_prior_user_queries :: "'a item_ops \<Rightarrow> 'a list \<Rightarrow> string option" where
  "extract_prior_user_queries ops ts = prior_user_queries (separate_prior_user_queries ops ts)"

definition assemble_user_queries_preamble :: "string option \<Rightarrow> string option \<Rightarrow> string" where
  "assemble_user_queries_preamble prior current =
     (case prior of None \<Rightarrow> [] | Some p \<Rightarrow> p @ LF @ LF) @ (case current of None \<Rightarrow> [] | Some c \<Rightarrow> c @ LF @ LF)"

definition build_user_queries_preamble :: "'a item_ops \<Rightarrow> 'a list \<Rightarrow> string option \<Rightarrow> string" where
  "build_user_queries_preamble ops ts current = assemble_user_queries_preamble (extract_prior_user_queries ops ts) current"

definition wrap_chunk_analysis :: "nat \<Rightarrow> string \<Rightarrow> string" where
  "wrap_chunk_analysis index thinking =
     (if str_trim thinking = [] then []
      else ''<chunk_analysis index='' @ quote @ show_nat index @ quote @ ''>'' @ LF @ str_trim thinking @ LF
           @ ''</chunk_analysis>'' @ LF @ LF)"

section \<open>Validation of a summary\<close>

datatype compaction_strategy = Basic | DivideAndConquer | FullReplaceStrategy

datatype validation_error = EmptyContent | UnbalancedChunkTags nat nat

text \<open>\<open>str::matches(p).count()\<close> for a pattern that is not empty.\<close>

function count_matches :: "string \<Rightarrow> string \<Rightarrow> nat" where
  "count_matches p [] = 0"
| "count_matches p (c # s) =
     (if p \<noteq> [] \<and> starts_with (c # s) p then Suc (count_matches p (drop (length p) (c # s))) else count_matches p s)"
  by pat_completeness auto
termination
  by (relation "measure (\<lambda>(_, s). length s)") auto

definition validate_compaction_text :: "string \<Rightarrow> compaction_strategy \<Rightarrow> validation_error + unit" where
  "validate_compaction_text s strategy =
     (if str_trim s = [] then Inl EmptyContent
      else if strategy = DivideAndConquer then
        let opened = count_matches ''<chunk_summary'' s; closed = count_matches ''</chunk_summary>'' s in
        if opened \<noteq> closed then Inl (UnbalancedChunkTags opened closed) else Inr ()
      else Inr ())"

section \<open>Tags in a text\<close>

lemma no_straddle:
  assumes "\<not> sublist p a" "\<not> sublist p b" "a = [] \<or> last a \<notin> set (butlast p) \<or> b = [] \<or> hd b \<notin> set (tl p)"
  shows "\<not> sublist p (a @ b)"
proof
  assume "sublist p (a @ b)"
  then obtain q r where p: "p = q @ r" "suffix q a" "prefix r b"
    using assms(1,2) unfolding sublist_append by blast
  have ne: "q \<noteq> []" "r \<noteq> []" using p assms(1,2) by (auto simp: suffix_imp_sublist prefix_imp_sublist)
  have "last a = last q" "hd b = hd r" using p ne by (auto simp: suffix_def prefix_def)
  moreover have "last q \<in> set (butlast p)" "hd r \<in> set (tl p)" using ne by (simp_all add: p(1) butlast_append)
  moreover have "a \<noteq> []" "b \<noteq> []" using p ne by auto
  ultimately show False using assms(3) by auto
qed

lemma short_free: "length s < length p \<Longrightarrow> \<not> sublist p s"
  by (auto dest: sublist_length_le)

lemma str_find_marker:
  assumes "c \<notin> set p" "\<not> sublist (c # p) b"
  shows "str_find (b @ (c # p) @ t) (c # p) = Some (length b)"
  using assms(2)
proof (induction b)
  case Nil
  then show ?case by (subst str_find.simps) (simp add: starts_with_def)
next
  case (Cons x b)
  have "\<not> prefix (c # p) ((x # b) @ (c # p) @ t)"
  proof
    assume "prefix (c # p) ((x # b) @ (c # p) @ t)"
    then have "prefix (c # p) (x # b) \<or> (\<exists>q. c # p = (x # b) @ q \<and> prefix q ((c # p) @ t))" by (simp only: prefix_append)
    then obtain q where q: "c # p = (x # b) @ q" "prefix q ((c # p) @ t)"
      using Cons.prems prefix_imp_sublist by blast
    have "q \<noteq> []" using q(1) Cons.prems by (metis append_Nil2 sublist_order.order_refl)
    then have "c \<in> set q" using q(2) by (cases q) auto
    with q(1) assms(1) show False by auto
  qed
  moreover have "\<not> sublist (c # p) b" using Cons.prems by (simp add: sublist_Cons_right)
  ultimately show ?case using Cons.IH by (subst str_find.simps) (simp add: starts_with_prefix)
qed

lemma str_find_None: "str_find s p = None \<longleftrightarrow> \<not> sublist p s"
  using str_contains_sublist [of s p] unfolding str_contains_def by blast

lemma str_trim_LF: "s = [] \<or> \<not> is_cont_byte (hd s) \<Longrightarrow> str_trim (LF @ s) = str_trim s"
proof -
  assume "s = [] \<or> \<not> is_cont_byte (hd s)"
  then have "utf8_chars (LF @ s) = LF # utf8_chars s"
    by (cases s) (auto simp: takeWhile_eq_Nil_iff)
  moreover have "is_ws_char LF" by (simp add: is_ws_char_def)
  ultimately show ?thesis by (simp add: str_trim_def)
qed

subsection \<open>Blocks of queries\<close>

definition query_block :: "string \<Rightarrow> bool" where
  "query_block q \<longleftrightarrow> (\<exists>b. q = start_tag @ b @ end_tag \<and> \<not> sublist end_tag b)"

lemma split_block:
  assumes "query_block q" "\<not> sublist start_tag u"
  shows "split_loop (u @ q @ t) sections rest = split_loop t (sections @ [q]) (push_rest rest (str_trim u))"
proof -
  obtain b where q: "q = start_tag @ b @ end_tag" "\<not> sublist end_tag b" using assms(1) by (auto simp: query_block_def)
  have "\<not> sublist end_tag (start_tag @ b)"
    using q(2) by (intro no_straddle [OF short_free]) (auto simp: start_tag_def end_tag_def)
  then have stop: "str_find ((start_tag @ b) @ end_tag @ t) end_tag = Some (length (start_tag @ b))"
    unfolding end_tag_def by (intro str_find_marker) auto
  have "str_find (u @ start_tag @ (b @ end_tag @ t)) start_tag = Some (length u)"
    using assms(2) unfolding start_tag_def by (intro str_find_marker) auto
  then show ?thesis
    using stop by (subst split_loop.simps) (simp add: q(1))
qed

lemma split_blocks:
  assumes "list_all query_block qs"
  shows "split_loop (concat (map (\<lambda>q. LF @ q) qs) @ t) sections rest = split_loop t (sections @ qs) rest"
  using assms
proof (induction qs arbitrary: sections)
  case (Cons q qs)
  have lf: "\<not> sublist start_tag LF" "str_trim LF = []"
    by (simp add: start_tag_def short_free) (simp add: str_trim_def is_ws_char_def)
  have "split_loop (concat (map (\<lambda>q. LF @ q) (q # qs)) @ t) sections rest =
      split_loop (concat (map (\<lambda>q. LF @ q) qs) @ t) (sections @ [q]) (push_rest rest [])"
    using split_block [of q LF "concat (map (\<lambda>q. LF @ q) qs) @ t" sections rest] Cons.prems lf by simp
  with Cons show ?case by (simp add: push_rest_def)
qed simp

lemma join_LF: "join LF (q # qs) = q @ concat (map (\<lambda>q. LF @ q) qs)"
  by (induction qs arbitrary: q) auto

text \<open>Texts in which the closing tag does not occur.\<close>

definition tag_free :: "string \<Rightarrow> bool" where
  "tag_free s \<longleftrightarrow> \<not> sublist end_tag s"

lemma tag_free_left: "tag_free a \<Longrightarrow> tag_free b \<Longrightarrow> a = [] \<or> last a \<notin> set (butlast end_tag) \<Longrightarrow> tag_free (a @ b)"
  unfolding tag_free_def by (intro no_straddle) auto

lemma tag_free_right: "tag_free a \<Longrightarrow> tag_free b \<Longrightarrow> b = [] \<or> hd b \<notin> set (tl end_tag) \<Longrightarrow> tag_free (a @ b)"
  unfolding tag_free_def by (intro no_straddle) auto

lemma tag_free_short: "length s < 18 \<Longrightarrow> tag_free s"
  unfolding tag_free_def by (intro short_free) (simp add: end_tag_def)

lemma tag_free_sublist: "tag_free s \<Longrightarrow> sublist t s \<Longrightarrow> tag_free t"
  unfolding tag_free_def using sublist_order.order_trans by blast

lemma tag_free_truncated:
  assumes "tag_free s"
  shows "tag_free (case truncate_middle s n of Some u \<Rightarrow> u | None \<Rightarrow> s)"
proof (cases "truncate_middle s n")
  case (Some u)
  let ?cs = "utf8_chars s"
  obtain k m where u: "u = concat (take k ?cs) @ (''...[truncated]...'' @ concat (drop m ?cs))"
    using Some by (auto simp: truncate_middle_def Let_def split: if_splits)
  have "prefix (concat (take k ?cs)) (concat ?cs)" "suffix (concat (drop m ?cs)) (concat ?cs)"
    by (metis append_take_drop_id concat_append prefixI) (metis append_take_drop_id concat_append suffixI)
  then have f: "tag_free (concat (take k ?cs))" "tag_free (concat (drop m ?cs))"
    using assms by (auto simp: tag_free_sublist prefix_imp_sublist suffix_imp_sublist)
  have "tag_free (''...[truncated]...'' @ concat (drop m ?cs))"
    by (rule tag_free_left [OF tag_free_short f(2)]) (simp_all add: end_tag_def)
  from tag_free_right [OF f(1) this] show ?thesis unfolding Some option.case u by (simp add: end_tag_def)
qed (use assms in simp)

lemma tag_free_mark: "length a < 18 \<Longrightarrow> a \<noteq> [] \<Longrightarrow> last a \<notin> set (butlast end_tag) \<Longrightarrow> tag_free b \<Longrightarrow> tag_free (a @ b)"
  by (intro tag_free_left [OF tag_free_short]) auto

lemma tag_free_file_line: "tag_free (fr_id f) \<Longrightarrow> tag_free (fr_name f) \<Longrightarrow> tag_free (file_line f)"
proof -
  assume f: "tag_free (fr_id f)" "tag_free (fr_name f)"
  have "tag_free (quote @ '' />'' @ LF)" by (simp add: quote_def tag_free_short)
  from tag_free_right [OF f(2) this] have "tag_free (fr_name f @ quote @ '' />'' @ LF)" by (simp add: quote_def end_tag_def)
  from tag_free_mark [OF _ _ _ this, of "quote @ '' name='' @ quote"]
  have "tag_free (quote @ '' name='' @ quote @ fr_name f @ quote @ '' />'' @ LF)" by (simp add: quote_def end_tag_def)
  from tag_free_right [OF f(1) this]
  have "tag_free (fr_id f @ quote @ '' name='' @ quote @ fr_name f @ quote @ '' />'' @ LF)" by (simp add: quote_def end_tag_def)
  from tag_free_mark [OF _ _ _ this, of "''<ai_file id='' @ quote"] show ?thesis
    by (simp add: file_line_def quote_def end_tag_def)
qed

lemma tag_free_concat:
  "list_all tag_free ss \<Longrightarrow> list_all (\<lambda>s. s \<noteq> [] \<and> hd s = CHR ''<'') ss \<Longrightarrow> tag_free (concat ss)"
proof (induction ss)
  case Nil
  then show ?case by (simp add: tag_free_short)
next
  case (Cons s ss)
  have "concat ss = [] \<or> hd (concat ss) = CHR ''<''" using Cons.prems by (cases ss) auto
  moreover have "tag_free (concat ss)" using Cons by simp
  ultimately show ?case using Cons.prems by (auto simp: end_tag_def intro!: tag_free_right)
qed

definition clean_query :: "'a item_ops \<Rightarrow> 'a \<Rightarrow> bool" where
  "clean_query ops t \<longleftrightarrow>
     tag_free (case ci_text ops t of None \<Rightarrow> [] | Some s \<Rightarrow> s)
     \<and> list_all (\<lambda>f. tag_free (fr_id f) \<and> tag_free (fr_name f)) (ci_attachments ops t)"

lemma tag_free_query:
  assumes "clean_query ops t"
  shows "tag_free (query_text ops n t)"
proof -
  have "list_all tag_free (map file_line (ci_attachments ops t))"
    using assms by (auto simp: clean_query_def list_all_iff intro: tag_free_file_line)
  then have "tag_free (concat (map file_line (ci_attachments ops t)))"
    by (intro tag_free_concat) (auto simp: list_all_iff file_line_def)
  then have files: "tag_free (LF @ concat (map file_line (ci_attachments ops t)))"
    by (rule tag_free_mark [rotated 3]) (simp_all add: end_tag_def)
  have shut: "tag_free (''</ai_query>'' @ LF)" by (simp add: tag_free_short)
  have "tag_free ((if ci_attachments ops t = [] then [] else LF @ concat (map file_line (ci_attachments ops t))) @ ''</ai_query>'' @ LF)"
    (is "tag_free ?r")
    using tag_free_right [OF files shut] shut by (simp add: end_tag_def)
  moreover have "hd ?r \<notin> set (tl end_tag)" by (simp add: end_tag_def)
  moreover have "tag_free (case truncate_middle (case ci_text ops t of None \<Rightarrow> [] | Some s \<Rightarrow> s) n of
      Some u \<Rightarrow> u | None \<Rightarrow> (case ci_text ops t of None \<Rightarrow> [] | Some s \<Rightarrow> s))" (is "tag_free ?u")
    using assms by (intro tag_free_truncated) (simp add: clean_query_def)
  ultimately have "tag_free (?u @ ?r)" using tag_free_right by blast
  from tag_free_mark [OF _ _ _ this, of "''<ai_query>''"] show ?thesis
    by (simp add: query_text_def end_tag_def Let_def)
qed

lemma query_text_head: "query_text ops n t \<noteq> []" "hd (query_text ops n t) = CHR ''<''"
  by (simp_all add: query_text_def Let_def)

lemma extracted_block:
  assumes "extract_user_queries_from_turns ops ts n = Some c" "list_all (clean_query ops) ts"
  shows "query_block c"
proof -
  let ?qs = "filter (has_query ops) ts"
  have c: "c = start_tag @ (LF @ concat (map (query_text ops (unat n)) ?qs)) @ end_tag"
    using assms(1) by (auto simp: extract_user_queries_from_turns_def Let_def split: if_splits)
  have "tag_free (concat (map (query_text ops (unat n)) ?qs))"
    using assms(2) by (intro tag_free_concat) (auto simp: list_all_iff query_text_head intro: tag_free_query)
  then have "tag_free (LF @ concat (map (query_text ops (unat n)) ?qs))"
    by (rule tag_free_mark [rotated 3]) (simp_all add: end_tag_def)
  then show ?thesis unfolding query_block_def tag_free_def c by blast
qed

text \<open>What a summary carries: the blocks of the rounds so far, if any.\<close>

definition carried :: "string list \<Rightarrow> string option" where
  "carried qs = (if qs = [] then None else Some (join LF qs))"

lemma split_carried:
  assumes "list_all query_block (qs @ cs)" "\<not> sublist start_tag summary" "summary = [] \<or> \<not> is_cont_byte (hd summary)"
    and "cs = (case current of None \<Rightarrow> [] | Some c \<Rightarrow> [c])"
  shows "split_prior_compaction_text (assemble_user_queries_preamble (carried qs) current @ summary) =
    (carried (qs @ cs), if qs @ cs = [] then summary else str_trim summary)"
proof -
  have lf: "\<not> sublist start_tag []" "\<not> sublist start_tag (LF @ LF)" "str_trim (LF @ LF) = []" "str_trim [] = []"
    by (simp_all add: start_tag_def short_free str_trim_def is_ws_char_def is_cont_byte_def)
  have "\<not> sublist start_tag (LF @ LF @ summary)"
    using assms(2) by (intro no_straddle [OF short_free] no_straddle) (auto simp: start_tag_def short_free)
  moreover have "str_trim (LF @ LF @ summary) = str_trim summary"
    using assms(3) by (simp add: str_trim_LF [of "LF @ summary", simplified] str_trim_LF [of summary, simplified] is_cont_byte_def)
  ultimately have tail: "split_loop (LF @ LF @ summary) bs [] = (bs, str_trim summary)" for bs
    by (subst split_loop.simps) (simp add: str_find_None [THEN iffD2] push_rest_def)
  have block: "split_loop (u @ q @ t) bs [] = split_loop t (bs @ [q]) []"
    if "query_block q" "u = [] \<or> u = LF @ LF" for u q t bs
    using split_block [OF that(1), of u t bs "[]"] that(2) lf by (auto simp: push_rest_def)
  have after: "split_loop (LF @ LF @ (case current of None \<Rightarrow> [] | Some c \<Rightarrow> c @ LF @ LF) @ summary) bs [] = (bs @ cs, str_trim summary)" for bs
    using block [of _ "LF @ LF" "LF @ LF @ summary" bs] tail assms(1,4) by (cases current) auto
  show ?thesis
  proof (cases qs)
    case Nil
    show ?thesis
    proof (cases current)
      case None
      have "split_loop summary [] [] = ([], str_trim summary)"
        using assms(2) by (subst split_loop.simps) (simp add: str_find_None [THEN iffD2] push_rest_def)
      with None Nil assms(4) show ?thesis
        by (simp add: split_prior_compaction_text_def assemble_user_queries_preamble_def carried_def)
    next
      case (Some c)
      with Nil assms(1,4) block [of c "[]" "LF @ LF @ summary" "[]"] tail show ?thesis
        by (simp add: split_prior_compaction_text_def assemble_user_queries_preamble_def carried_def)
    qed
  next
    case (Cons q qs')
    let ?t = "LF @ LF @ (case current of None \<Rightarrow> [] | Some c \<Rightarrow> c @ LF @ LF) @ summary"
    have "split_loop (q @ concat (map (\<lambda>q. LF @ q) qs') @ ?t) [] [] = split_loop ?t (q # qs') []"
      using block [of q "[]" "concat (map (\<lambda>q. LF @ q) qs') @ ?t" "[]"] split_blocks [of qs' ?t "[q]" "[]"] assms(1) Cons by simp
    with after [of "q # qs'"] Cons show ?thesis
      by (simp add: split_prior_compaction_text_def assemble_user_queries_preamble_def carried_def join_LF)
  qed
qed

text \<open>The text of one round: what the compacted items carry and ask, and the summary of the model; and the rounds one after
  the other, each with its new items behind the summary of the round before.\<close>

definition round_text :: "'a item_ops \<Rightarrow> u32 \<Rightarrow> 'a list \<Rightarrow> string \<Rightarrow> string" where
  "round_text ops n old summary = build_user_queries_preamble ops old (extract_user_queries_from_turns ops old n) @ summary"

fun rounds :: "'a item_ops \<Rightarrow> u32 \<Rightarrow> 'a list \<Rightarrow> ('a list \<times> string) list \<Rightarrow> 'a list" where
  "rounds ops n prior [] = prior"
| "rounds ops n prior ((ts, summary) # rs) = rounds ops n [ci_summary_item ops (round_text ops n (prior @ ts) summary)] rs"

definition round_blocks :: "'a item_ops \<Rightarrow> u32 \<Rightarrow> ('a list \<times> string) list \<Rightarrow> string list" where
  "round_blocks ops n rs = List.map_filter (\<lambda>(ts, _). extract_user_queries_from_turns ops ts n) rs"

lemma round_blocks_append: "round_blocks ops n (rs @ rs') = round_blocks ops n rs @ round_blocks ops n rs'"
  by (simp add: round_blocks_def List.map_filter_def)

text \<open>Rounds in which nothing is mistaken for a tag.\<close>

definition clean_round :: "'a item_ops \<Rightarrow> 'a list \<times> string \<Rightarrow> bool" where
  "clean_round ops = (\<lambda>(ts, summary).
     list_all (\<lambda>t. clean_query ops t \<and> \<not> ci_is_summary ops t) ts
     \<and> \<not> sublist start_tag summary \<and> (summary = [] \<or> \<not> is_cont_byte (hd summary)))"

lemma separate_loop_plain:
  "list_all (\<lambda>t. \<not> ci_is_summary ops t) ts \<Longrightarrow> separate_loop ops ts acc = acc\<lparr>turns_for_llm := turns_for_llm acc @ ts\<rparr>"
  by (induction ts arbitrary: acc) auto

lemma separate_summary:
  assumes "ci_is_summary ops (ci_summary_item ops s)" "ci_text ops (ci_summary_item ops s) = Some s" "list_all (\<lambda>t. \<not> ci_is_summary ops t) ts"
    and "split_prior_compaction_text s = (sec, rest)"
  shows "prior_user_queries (separate_prior_user_queries ops (ci_summary_item ops s # ts)) = sec"
    and "turns_for_llm (separate_prior_user_queries ops (ci_summary_item ops s # ts)) =
      (if rest = [] then [] else [ci_summary_item ops rest]) @ ts"
  using assms by (simp_all add: separate_prior_user_queries_def separate_loop_plain add_prior_def split: option.splits)

lemma extract_skips_summary:
  "ci_role ops (ci_summary_item ops s) \<noteq> CUser \<Longrightarrow>
    extract_user_queries_from_turns ops (ci_summary_item ops s # ts) n = extract_user_queries_from_turns ops ts n"
  by (simp add: extract_user_queries_from_turns_def has_query_def)

text \<open>One round after a summary that carries the blocks \<open>qs\<close>.\<close>

definition carries :: "'a item_ops \<Rightarrow> 'a list \<Rightarrow> string list \<Rightarrow> bool" where
  "carries ops prior qs \<longleftrightarrow> list_all query_block qs \<and>
     (prior = [] \<and> qs = [] \<or> (\<exists>s. prior = [ci_summary_item ops s] \<and> fst (split_prior_compaction_text s) = carried qs))"

lemma round_carries:
  assumes "\<And>s. ci_text ops (ci_summary_item ops s) = Some s" "\<And>s. ci_is_summary ops (ci_summary_item ops s)"
    and "\<And>s. ci_role ops (ci_summary_item ops s) \<noteq> CUser"
    and "carries ops prior qs" "clean_round ops (ts, summary)"
  shows "split_prior_compaction_text (round_text ops n (prior @ ts) summary) =
      (carried (qs @ round_blocks ops n [(ts, summary)]), if qs @ round_blocks ops n [(ts, summary)] = [] then summary else str_trim summary)
    \<and> list_all query_block (qs @ round_blocks ops n [(ts, summary)])"
proof -
  let ?cs = "round_blocks ops n [(ts, summary)]"
  have plain: "list_all (\<lambda>t. \<not> ci_is_summary ops t) ts" "list_all (clean_query ops) ts"
    using assms(5) by (auto simp: clean_round_def list_all_iff)
  have prior: "extract_prior_user_queries ops (prior @ ts) = carried qs"
    "extract_user_queries_from_turns ops (prior @ ts) n = extract_user_queries_from_turns ops ts n"
  proof -
    consider "prior = []" "qs = []" | s where "prior = [ci_summary_item ops s]" "fst (split_prior_compaction_text s) = carried qs"
      using assms(4) by (auto simp: carries_def)
    then show "extract_prior_user_queries ops (prior @ ts) = carried qs"
      "extract_user_queries_from_turns ops (prior @ ts) n = extract_user_queries_from_turns ops ts n"
      by (cases, use separate_summary(1) [OF assms(2,1) plain(1)] extract_skips_summary [OF assms(3)] plain(1) in
        \<open>auto simp: extract_prior_user_queries_def separate_prior_user_queries_def separate_loop_plain carried_def prod_eq_iff\<close>)+
  qed
  have cs: "?cs = (case extract_user_queries_from_turns ops ts n of None \<Rightarrow> [] | Some c \<Rightarrow> [c])"
    by (simp add: round_blocks_def List.map_filter_def split: option.splits)
  then have blocks: "list_all query_block (qs @ ?cs)"
    using assms(4) extracted_block [OF _ plain(2)] by (auto simp: carries_def split: option.splits)
  with split_carried [OF blocks _ _ cs, of summary] assms(5) prior show ?thesis
    by (simp add: round_text_def build_user_queries_preamble_def clean_round_def)
qed

lemma rounds_carry:
  assumes "\<And>s. ci_text ops (ci_summary_item ops s) = Some s" "\<And>s. ci_is_summary ops (ci_summary_item ops s)"
    and "\<And>s. ci_role ops (ci_summary_item ops s) \<noteq> CUser"
  shows "carries ops prior qs \<Longrightarrow> list_all (clean_round ops) rs \<Longrightarrow> carries ops (rounds ops n prior rs) (qs @ round_blocks ops n rs)"
proof (induction rs arbitrary: prior qs)
  case (Cons r rs)
  obtain ts summary where r: "r = (ts, summary)" by fastforce
  note one = round_carries [OF assms Cons.prems(1), of ts summary n]
  have "carries ops [ci_summary_item ops (round_text ops n (prior @ ts) summary)] (qs @ round_blocks ops n [(ts, summary)])"
    using one Cons.prems(2) r by (auto simp: carries_def)
  from Cons.IH [OF this] Cons.prems(2) show ?case
    using round_blocks_append [of ops n "[r]" rs] by (simp add: r)
qed (simp add: round_blocks_def List.map_filter_def)



text \<open>The closing tag is not escaped: a query that contains it is cut there by the next round, and the rest of it
  goes to the model as if it were the summary.\<close>

lemma closing_tag_cuts_query:
  assumes "tag_free a" "\<not> sublist start_tag b" "str_trim b \<noteq> []"
  shows "split_prior_compaction_text (start_tag @ a @ end_tag @ b) = (Some (start_tag @ a @ end_tag), str_trim b)"
proof -
  have q: "query_block (start_tag @ a @ end_tag)" using assms(1) by (auto simp: query_block_def tag_free_def)
  have e: "\<not> sublist start_tag []" "str_trim [] = []" by (simp_all add: start_tag_def short_free str_trim_def)
  have "split_loop (start_tag @ a @ end_tag @ b) [] [] = split_loop b [start_tag @ a @ end_tag] []"
    using split_block [OF q e(1), of b "[]" "[]"] e(2) by (simp add: push_rest_def)
  also have "\<dots> = ([start_tag @ a @ end_tag], str_trim b)"
    using assms(2) by (subst split_loop.simps) (simp add: str_find_None [THEN iffD2] push_rest_def)
  finally show ?thesis by (simp add: split_prior_compaction_text_def)
qed

end
