(* ===== verification/Compaction_Summary.thy ===== *)
theory Compaction_Summary
  imports Compaction_Text
begin

text \<open>
  What the summariser wrote and what becomes of it: the cleaning of a summary
  (\<open>code_compaction/summary.rs\<close>), the sorting of failures (\<open>code_compaction/failure.rs\<close>) and the reminder of
  what is still running (\<open>reminder.rs\<close>).
\<close>

section \<open>Cleaning\<close>

text \<open>\<open>str::rfind\<close>: the byte offset of the last occurrence.\<close>

fun str_rfind :: "string \<Rightarrow> string \<Rightarrow> nat option" where
  "str_rfind [] p = (if p = [] then Some 0 else None)"
| "str_rfind (c # s) p =
     (case str_rfind s p of
        Some i \<Rightarrow> Some (Suc i)
      | None \<Rightarrow> if starts_with (c # s) p then Some 0 else None)"

definition is_leading :: "string \<Rightarrow> nat \<Rightarrow> bool" where
  "is_leading s start =
     (case str_find s ''<summary>'' of
        Some sp \<Rightarrow> start < sp \<or> str_trim (take (start - (sp + 9)) (drop (sp + 9) s)) = []
      | None \<Rightarrow> str_trim (take start s) = [])"

text \<open>Step 1: leading drafts are taken off one by one.\<close>

function strip_analysis :: "string \<Rightarrow> string" where
  "strip_analysis s =
     (case str_find s ''<analysis>'' of
        None \<Rightarrow> s
      | Some start \<Rightarrow>
          if \<not> is_leading s start then s
          else case str_find (drop start s) ''</analysis>'' of
                 Some rel \<Rightarrow> strip_analysis (take start s @ drop (start + rel + 11) s)
               | None \<Rightarrow>
                   take start s @
                   drop (case str_find (drop start s) ''<summary>'' of None \<Rightarrow> length s | Some rel \<Rightarrow> start + rel) s)"
  by pat_completeness auto
termination
proof (relation "measure length", simp)
  fix s :: string and start rel
  assume "str_find s ''<analysis>'' = Some start"
  then have "start + 10 \<le> length s" using str_find_bound by fastforce
  then show "(take start s @ drop (start + rel + 11) s, s) \<in> measure length" by simp
qed

declare strip_analysis.simps [simp del]

definition strip_leading_scratchpad :: "string \<Rightarrow> string" where
  "strip_leading_scratchpad inner =
     (let s = str_trim inner;
          lead = trim_start_matches {CHR ''#'', CHR ''*'', CHR ''-'', CHR ''>'', CHR '' '', CHR 0x09} s;
          numbered = (lead \<noteq> [] \<and> CHR ''0'' \<le> hd lead \<and> hd lead \<le> CHR ''9'');
          s1 = (case (numbered, str_rfind s ''</analysis>'') of
                  (False, Some pos) \<Rightarrow> trim_start (drop (pos + 11) s)
                | _ \<Rightarrow> s)
      in case strip_prefix s1 ''<summary>'' of Some rest \<Rightarrow> trim_start rest | None \<Rightarrow> s1)"

definition unwrap_summary :: "string \<Rightarrow> string" where
  "unwrap_summary s =
     (case (str_find s ''<summary>'', str_rfind s ''</summary>'') of
        (Some start, Some stop) \<Rightarrow>
          if start < stop then
            take start s @ ''Summary:'' @ LF
            @ strip_leading_scratchpad (str_trim (take (stop - (start + 9)) (drop (start + 9) s)))
            @ drop (stop + 10) s
          else s
      | _ \<Rightarrow> s)"

definition zwsp :: string where
  "zwsp = [CHR 0xE2, CHR 0x80, CHR 0x8B]"

text \<open>The names between the angle brackets of the control tokens, in the order they are defused.\<close>

definition control_names :: "string list" where
  "control_names = [''/summary>'', ''summary>'', ''/analysis>'', ''analysis>'', ''/summary_request>'', ''summary_request>'']"

abbreviation token :: "string \<Rightarrow> string" where
  "token n \<equiv> CHR ''<'' # n"

definition defuse :: "string \<Rightarrow> string \<Rightarrow> string" where
  "defuse n s = str_replace s (token n) (CHR ''<'' # zwsp @ n)"

definition neutralize_compaction_control_tokens :: "string \<Rightarrow> string" where
  "neutralize_compaction_control_tokens s = fold defuse control_names s"

subsection \<open>Replacing\<close>

lemma replace_Cons:
  "replace_nonempty old new (c # s) =
     (if old \<noteq> [] \<and> starts_with (c # s) old then new @ replace_nonempty old new (drop (length old) (c # s))
      else c # replace_nonempty old new s)"
  by simp

text \<open>Replacing puts nothing in front of the text but the first character of the new string.\<close>

lemma replace_prefix:
  "new \<noteq> [] \<Longrightarrow> hd new \<notin> set u \<Longrightarrow> prefix u (replace_nonempty old new s) \<Longrightarrow> prefix u s"
proof (induction u arbitrary: s)
  case (Cons x u)
  show ?case
  proof (cases s)
    case Nil
    with Cons.prems show ?thesis by simp
  next
    case (Cons c s')
    have nomatch: "\<not> (old \<noteq> [] \<and> starts_with (c # s') old)"
    proof
      assume "old \<noteq> [] \<and> starts_with (c # s') old"
      then have "replace_nonempty old new s = new @ replace_nonempty old new (drop (length old) s)" by (simp add: Cons)
      with Cons.prems show False by (cases new) auto
    qed
    have "prefix (x # u) (c # replace_nonempty old new s')" using Cons.prems(3) nomatch unfolding Cons replace_Cons by simp
    then show ?thesis using Cons.IH [of s'] Cons.prems(1,2) by (simp add: Cons)
  qed
qed simp

lemma replace_shorter:
  assumes "length new < length old" "sublist old s"
  shows "length (replace_nonempty old new s) < length s"
proof -
  have le: "length (replace_nonempty old new s) \<le> length s" for s
  proof (induction s rule: length_induct)
    case (1 s)
    show ?case
    proof (cases s)
      case (Cons c s')
      have "length (replace_nonempty old new s') \<le> length s'" using 1 Cons by simp
      moreover have "length (replace_nonempty old new (drop (length old) s)) \<le> length (drop (length old) s)"
        if "old \<noteq> []" using 1 [rule_format, of "drop (length old) s"] that Cons by simp
      moreover have "length old \<le> length s" if "starts_with s old"
        using that by (auto simp: starts_with_prefix dest: prefix_length_le)
      ultimately show ?thesis using assms(1) unfolding Cons replace_Cons by (auto simp del: replace_nonempty.simps)
    qed simp
  qed
  show ?thesis
    using assms(2)
  proof (induction s)
    case Nil
    then show ?case using assms(1) by auto
  next
    case (Cons c s)
    have ne: "old \<noteq> []" using assms(1) by auto
    show ?case
    proof (cases "starts_with (c # s) old")
      case True
      then have "length old \<le> length (c # s)" by (auto simp: starts_with_prefix dest: prefix_length_le)
      then show ?thesis
        using True ne assms(1) le [of "drop (length old) (c # s)"] unfolding replace_Cons by (simp del: replace_nonempty.simps)
    next
      case False
      then have "sublist old s" using Cons.prems by (simp add: starts_with_prefix sublist_Cons_right)
      then show ?thesis using False Cons.IH unfolding replace_Cons by (simp del: replace_nonempty.simps)
    qed
  qed
qed

function collapse_blank :: "string \<Rightarrow> string" where
  "collapse_blank s =
     (if str_contains s (LF @ LF @ LF) then collapse_blank (str_replace s (LF @ LF @ LF) (LF @ LF)) else s)"
  by pat_completeness auto
termination
  by (relation "measure length") (auto simp: str_replace_def str_contains_sublist intro!: replace_shorter)

declare collapse_blank.simps [simp del]

definition format_compact_summary :: "string \<Rightarrow> string" where
  "format_compact_summary summary =
     str_trim (collapse_blank (neutralize_compaction_control_tokens (unwrap_summary (strip_analysis summary))))"

definition is_degenerate_summary :: "string \<Rightarrow> bool" where
  "is_degenerate_summary raw \<longleftrightarrow> length (utf8_chars (format_compact_summary raw)) < 500"

definition format_compact_summary_content :: "string \<Rightarrow> string" where
  "format_compact_summary_content raw =
     ''This session is being continued from a previous conversation that ran out of context. '' @
     ''The summary below covers the earlier portion of the conversation.'' @ LF @ LF @ format_compact_summary raw"

definition wrap_user_query :: "string \<Rightarrow> string" where
  "wrap_user_query s = ''<user_query>'' @ LF @ s @ LF @ ''</user_query>''"

subsection \<open>No control token is left\<close>

lemma defuse_sublist:
  assumes "CHR ''<'' \<notin> set n" "CHR ''<'' \<notin> set m" "m \<noteq> []" "hd m \<noteq> hd zwsp"
  shows "sublist (token m) (defuse n s) \<Longrightarrow> m \<noteq> n \<and> sublist (token m) s"
proof -
  let ?new = "CHR ''<'' # zwsp @ n" and ?r = "replace_nonempty (token n) (CHR ''<'' # zwsp @ n)"
  have "sublist (token m) (?r s) \<Longrightarrow> m \<noteq> n \<and> sublist (token m) s" for s
  proof (induction s rule: length_induct)
    case (1 s)
    show ?case
    proof (cases s)
      case (Cons c s')
      show ?thesis
      proof (cases "starts_with s (token n)")
        case True
        have no: "\<not> prefix (token m) (?new @ t)" for t
          using assms(3,4) by (cases m) (auto simp: zwsp_def)
        have inside: "sublist (token m) (u @ t) \<Longrightarrow> CHR ''<'' \<notin> set u \<Longrightarrow> sublist (token m) t" for u t
          by (induction u) (auto simp: sublist_Cons_right)
        have "?r s = ?new @ ?r (drop (length (token n)) s)" using True unfolding Cons replace_Cons by simp
        then have "sublist (token m) (?new @ ?r (drop (length (token n)) s))" using "1.prems" by simp
        then have "sublist (token m) ((zwsp @ n) @ ?r (drop (length (token n)) s))"
          using no [of "?r (drop (length (token n)) s)"] by (simp add: sublist_Cons_right)
        then have "sublist (token m) (?r (drop (length (token n)) s))"
          by (rule inside) (use assms(1) in \<open>auto simp: zwsp_def\<close>)
        moreover have "length (drop (length (token n)) s) < length s" by (simp add: Cons)
        ultimately have "m \<noteq> n \<and> sublist (token m) (drop (length (token n)) s)" using "1.IH" by blast
        then show ?thesis using sublist_order.order_trans [OF _ sublist_drop] by blast
      next
        case False
        then have r: "?r s = c # ?r s'" unfolding Cons replace_Cons by simp
        show ?thesis
        proof (cases "prefix (token m) (c # ?r s')")
          case True
          then have "c = CHR ''<''" "prefix m (?r s')" by auto
          then have "prefix (token m) s" using replace_prefix [of ?new m "token n" s'] assms(2) by (simp add: Cons)
          then show ?thesis using False by (auto simp: starts_with_prefix prefix_imp_sublist)
        next
          case False
          moreover have "sublist (token m) (c # ?r s')" using "1.prems" by (simp only: r)
          ultimately have "sublist (token m) (?r s')" unfolding sublist_Cons_right by blast
          moreover have "length s' < length s" by (simp add: Cons)
          ultimately have "m \<noteq> n \<and> sublist (token m) s'" using "1.IH" by blast
          then show ?thesis unfolding Cons by (simp add: sublist_Cons_right)
        qed
      qed
    qed (use "1.prems" in simp)
  qed
  then show "sublist (token m) (defuse n s) \<Longrightarrow> m \<noteq> n \<and> sublist (token m) s" by (simp add: defuse_def str_replace_def)
qed

lemma fold_defuse_sublist:
  assumes "list_all (\<lambda>n. CHR ''<'' \<notin> set n) ns" "CHR ''<'' \<notin> set m" "m \<noteq> []" "hd m \<noteq> hd zwsp"
  shows "sublist (token m) (fold defuse ns s) \<Longrightarrow> m \<notin> set ns"
  using assms(1)
proof (induction ns arbitrary: s rule: rev_induct)
  case (snoc n ns)
  then have "m \<noteq> n \<and> sublist (token m) (fold defuse ns s)"
    using defuse_sublist [of n m "fold defuse ns s"] assms(2-4) by simp
  with snoc show ?case by auto
qed simp

lemma sublist_skip: "c \<notin> set p \<Longrightarrow> p \<noteq> [] \<Longrightarrow> sublist p (c # u) \<Longrightarrow> sublist p u"
  by (auto simp: sublist_Cons_right prefix_Cons)

lemma replace_blank_sublist:
  assumes "CHR 0x0A \<notin> set p" "p \<noteq> []"
  shows "sublist p (replace_nonempty (LF @ LF @ LF) (LF @ LF) t) \<Longrightarrow> sublist p t"
proof (induction t rule: length_induct)
  case (1 t)
  let ?r = "replace_nonempty (LF @ LF @ LF) (LF @ LF)"
  show ?case
  proof (cases t)
    case (Cons c t')
    show ?thesis
    proof (cases "starts_with t (LF @ LF @ LF)")
      case True
      have "?r t = CHR 0x0A # CHR 0x0A # ?r (drop (Suc (Suc (Suc 0))) t)" using True unfolding Cons replace_Cons by simp
      then have "sublist p (CHR 0x0A # CHR 0x0A # ?r (drop (Suc (Suc (Suc 0))) t))" using "1.prems" by (simp only:)
      then have "sublist p (?r (drop (Suc (Suc (Suc 0))) t))" using sublist_skip [OF assms] by blast
      moreover have "length (drop (Suc (Suc (Suc 0))) t) < length t" by (simp add: Cons)
      ultimately have "sublist p (drop (Suc (Suc (Suc 0))) t)" using "1.IH" by blast
      then show ?thesis using sublist_order.order_trans [OF _ sublist_drop] by blast
    next
      case False
      then have r: "?r t = c # ?r t'" unfolding Cons replace_Cons by simp
      have "sublist p (c # ?r t')" using "1.prems" by (simp only: r)
      then have "prefix p (c # ?r t') \<or> sublist p (?r t')" by (simp only: sublist_Cons_right)
      then show ?thesis
      proof
        assume "prefix p (c # ?r t')"
        then obtain u where "p = c # u" "prefix u (?r t')" using assms(2) by (cases p) auto
        then have "prefix p t" using replace_prefix [of "LF @ LF" u _ t'] assms(1) Cons by simp
        then show ?thesis by (rule prefix_imp_sublist)
      next
        assume "sublist p (?r t')"
        moreover have "length t' < length t" by (simp add: Cons)
        ultimately have "sublist p t'" using "1.IH" by blast
        then show ?thesis unfolding Cons sublist_Cons_right by blast
      qed
    qed
  qed (use "1.prems" in simp)
qed

lemma collapse_sublist:
  assumes "CHR 0x0A \<notin> set p" "p \<noteq> []"
  shows "sublist p (collapse_blank s) \<Longrightarrow> sublist p s"
proof (induction s rule: collapse_blank.induct)
  case (1 s)
  show ?case
  proof (cases "str_contains s (LF @ LF @ LF)")
    case True
    then have "collapse_blank s = collapse_blank (str_replace s (LF @ LF @ LF) (LF @ LF))" by (subst collapse_blank.simps) simp
    then have "sublist p (str_replace s (LF @ LF @ LF) (LF @ LF))" using "1.IH" [OF True] "1.prems" by (simp only:)
    then show ?thesis using replace_blank_sublist [OF assms] by (simp add: str_replace_def)
  next
    case False
    then have "collapse_blank s = s" by (subst collapse_blank.simps) simp
    with "1.prems" show ?thesis by simp
  qed
qed

lemma sublist_str_trim: "sublist (str_trim s) s"
proof -
  have "suffix (dropWhile is_ws_char (utf8_chars s)) (utf8_chars s)" by (rule suffix_dropWhile)
  then obtain a where a: "utf8_chars s = a @ dropWhile is_ws_char (utf8_chars s)" by (auto simp: suffix_def)
  let ?d = "dropWhile is_ws_char (utf8_chars s)"
  have "suffix (dropWhile is_ws_char (rev ?d)) (rev ?d)" by (rule suffix_dropWhile)
  then obtain b where b: "rev ?d = b @ dropWhile is_ws_char (rev ?d)" by (auto simp: suffix_def)
  have "?d = rev (dropWhile is_ws_char (rev ?d)) @ rev b" using arg_cong [OF b, of rev] by simp
  then have "concat (utf8_chars s) = concat a @ str_trim s @ concat (rev b)"
    using a unfolding str_trim_def by (metis concat_append)
  then show ?thesis by (simp add: sublist_def) blast
qed

text \<open>C37. No control token survives the cleaning: whatever the model wrote, the cleaned summary contains none of the tags
  for a summary, an analysis or a request for a summary, opening or closing, so the next turn cannot take
  it for a live one. This holds after the blank lines are collapsed and the ends are trimmed, which put
  no tag together again.\<close>

theorem summary_has_no_tokens:
  "\<not> list_ex (\<lambda>n. str_contains (format_compact_summary raw) (token n)) control_names"
proof -
  have "\<not> sublist (token n) (format_compact_summary raw)" if n: "n \<in> set control_names" for n
  proof
    have props: "CHR ''<'' \<notin> set n" "n \<noteq> []" "hd n \<noteq> hd zwsp" "CHR 0x0A \<notin> set (token n)"
      using n by (auto simp: control_names_def zwsp_def)
    assume "sublist (token n) (format_compact_summary raw)"
    then have "sublist (token n) (collapse_blank (neutralize_compaction_control_tokens (unwrap_summary (strip_analysis raw))))"
      unfolding format_compact_summary_def by (rule sublist_order.order_trans [OF _ sublist_str_trim])
    then have "sublist (token n) (neutralize_compaction_control_tokens (unwrap_summary (strip_analysis raw)))"
      using collapse_sublist [OF props(4)] by blast
    moreover have "list_all (\<lambda>n. CHR ''<'' \<notin> set n) control_names" by (simp add: control_names_def)
    ultimately show False
      using fold_defuse_sublist [of control_names n] props n by (simp add: neutralize_compaction_control_tokens_def)
  qed
  then show ?thesis by (auto simp: list_ex_iff str_contains_sublist)
qed

section \<open>Failures\<close>

datatype failure_kind = Deterministic | Transient

definition ascii_lower :: "char \<Rightarrow> char" where
  "ascii_lower c = (let n = (of_char c :: nat) in if 65 \<le> n \<and> n \<le> 90 then char_of (n + 32) else c)"

definition is_context_length_error :: "string \<Rightarrow> bool" where
  "is_context_length_error message =
     (let m = map ascii_lower message in
      str_contains m ''too long for this model'' \<or> str_contains m ''prompt is too long''
      \<or> str_contains m ''maximum prompt length'' \<or> str_contains m ''maximum context length''
      \<or> str_contains m ''context_length_exceeded''
      \<or> str_contains m ''current message'' \<and> str_contains m ''exceeds budget'')"

definition client_fault :: "u16 \<Rightarrow> bool" where
  "client_fault status \<longleftrightarrow> 400 \<le> status \<and> status < 500 \<and> status \<noteq> 408 \<and> status \<noteq> 429"

definition classify_http_status :: "u16 \<Rightarrow> string \<Rightarrow> failure_kind" where
  "classify_http_status status message =
     (if is_context_length_error message \<or> client_fault status then Deterministic else Transient)"

definition classify_stream_event_error :: "string option \<Rightarrow> string \<Rightarrow> failure_kind" where
  "classify_stream_event_error code message =
     (if code = Some ''invalid_request_error'' \<or> str_contains message ''invalid_request_error'' then Deterministic
      else if (case Option.bind code (parse_unsigned 16) of Some n \<Rightarrow> client_fault (of_nat n) | None \<Rightarrow> False) then Deterministic
      else if is_context_length_error message then Deterministic
      else Transient)"

section \<open>What is still running\<close>

datatype todo_status = TPending | TInProgress | TCompleted | TCancelled

fun is_actionable :: "todo_status \<Rightarrow> bool" where
  "is_actionable TPending = True"
| "is_actionable TInProgress = True"
| "is_actionable _ = False"

fun todo_tag :: "todo_status \<Rightarrow> string" where
  "todo_tag TPending = ''[pending]''"
| "todo_tag TInProgress = ''[in_progress]''"
| "todo_tag TCompleted = ''[completed]''"
| "todo_tag TCancelled = ''[cancelled]''"

record todo_item =
  todo_id :: string
  todo_content :: string
  todo_status :: todo_status

record background_task =
  bt_id :: string
  bt_command :: string
  bt_status :: string
  bt_tool :: "string option"

record running_subagent =
  sa_id :: string
  sa_type :: "string option"
  sa_description :: "string option"
  sa_elapsed :: u64

record active_state =
  running_commands :: "background_task list"
  todos :: "todo_item list"
  running_subagents :: "running_subagent list"

record subagent_tools =
  poll_tool :: string
  cancel_tool :: string

definition tick :: string where "tick = [CHR 0x60]"

definition task_line :: "background_task \<Rightarrow> string" where
  "task_line t =
     ''- '' @ quote @ bt_id t @ quote @ '': '' @ tick @ bt_command t @ tick @ '' ('' @ bt_status t
     @ (case bt_tool t of Some tool \<Rightarrow> '', '' @ tool | None \<Rightarrow> []) @ '')''"

definition section_background_tasks :: "background_task list \<Rightarrow> string option" where
  "section_background_tasks ts =
     (if ts = [] then None
      else Some (''## Running Background Tasks'' @ LF @ ''These tasks are still running:'' @ LF @ join LF (map task_line ts)))"

definition todo_line :: "todo_item \<Rightarrow> string" where
  "todo_line t = ''- '' @ todo_tag (todo_status t) @ '' '' @ todo_id t @ '': '' @ todo_content t"

definition todo_trailer :: "nat \<Rightarrow> nat \<Rightarrow> string" where
  "todo_trailer c k =
     (if c = 0 \<and> k = 0 then []
      else if k = 0 then LF @ ''('' @ show_nat c @ '' completed)''
      else if c = 0 then LF @ ''('' @ show_nat k @ '' cancelled)''
      else LF @ ''('' @ show_nat c @ '' completed, '' @ show_nat k @ '' cancelled)'')"

definition todo_head :: string where
  "todo_head = ''TODO List'' @ LF @ ''This is your task list from before the conversation was compacted '' @ em_dash
     @ '' it is still active. Keep working through the items below and update their status as you make progress:'' @ LF"

definition section_todo_list :: "todo_item list \<Rightarrow> string option" where
  "section_todo_list ts =
     (let active = filter (\<lambda>t. is_actionable (todo_status t)) ts in
      if active = [] then None
      else Some (''## '' @ todo_head @ join LF (map todo_line active)
        @ todo_trailer (length (filter (\<lambda>t. todo_status t = TCompleted) ts)) (length (filter (\<lambda>t. todo_status t = TCancelled) ts))))"

definition format_subagent_line :: "running_subagent \<Rightarrow> string" where
  "format_subagent_line s =
     ''- subagent_id: '' @ tick @ sa_id s @ tick
     @ (case sa_type s of Some ty \<Rightarrow> '', type: '' @ tick @ ty @ tick | None \<Rightarrow> [])
     @ (case sa_description s of Some d \<Rightarrow> '', task: '' @ quote @ d @ quote | None \<Rightarrow> [])
     @ '' (running for '' @ show_word (sa_elapsed s) @ ''s)''"

definition subagents_head :: "subagent_tools \<Rightarrow> string" where
  "subagents_head tools =
     ''Running Subagents'' @ LF @ ''These subagents were launched before this compaction and are still running. Use ''
     @ tick @ poll_tool tools @ tick @ '' with the subagent_id to check their status or retrieve results. Use ''
     @ tick @ cancel_tool tools @ tick @ '' with the subagent_id to cancel a subagent.'' @ LF"

definition section_running_subagents :: "running_subagent list \<Rightarrow> subagent_tools \<Rightarrow> string option" where
  "section_running_subagents ss tools =
     (if ss = [] then None
      else Some (''## '' @ subagents_head tools @ join LF (map format_subagent_line ss)))"

definition option_list :: "'a option \<Rightarrow> 'a list" where
  "option_list x = (case x of None \<Rightarrow> [] | Some y \<Rightarrow> [y])"

definition format_active_agent_sections :: "active_state \<Rightarrow> subagent_tools option \<Rightarrow> string list" where
  "format_active_agent_sections st tools =
     option_list (section_background_tasks (running_commands st)) @ option_list (section_todo_list (todos st))
     @ option_list (Option.bind tools (section_running_subagents (running_subagents st)))"

definition wrap_system_reminder :: "string list \<Rightarrow> string option" where
  "wrap_system_reminder sections =
     (let body = join (LF @ LF) (filter (\<lambda>s. str_trim s \<noteq> []) sections) in
      if body = [] then None else Some (''<system-reminder>'' @ LF @ body @ LF @ ''</system-reminder>''))"

definition format_active_agent_reminder :: "active_state \<Rightarrow> subagent_tools option \<Rightarrow> string option" where
  "format_active_agent_reminder st tools = wrap_system_reminder (format_active_agent_sections st tools)"

definition append_reminder_block :: "string \<Rightarrow> string option \<Rightarrow> string" where
  "append_reminder_block summary reminder =
     (case reminder of
        Some r \<Rightarrow> if str_trim r \<noteq> [] then summary @ LF @ LF @ r else summary
      | None \<Rightarrow> summary)"

lemma sublist_join: "x \<in> set xs \<Longrightarrow> sublist x (join sep xs)"
proof (induction sep xs rule: join.induct)
  case (3 sep x y ys)
  then show ?case by (auto simp: sublist_append)
qed auto

lemma trim_visible:
  assumes "utf8_chars s = u # us" "\<not> is_ws_char u" "u \<noteq> []"
  shows "str_trim s \<noteq> []"
proof -
  have "u \<in> set (dropWhile is_ws_char (rev (u # us)))" using assms(2) by (induction us rule: rev_induct) auto
  then have "u \<in> set (rev (dropWhile is_ws_char (rev (dropWhile is_ws_char (utf8_chars s)))))" using assms by simp
  then show ?thesis unfolding str_trim_def using assms(3) by auto
qed

text \<open>The head of every section is no white space, so no section is dropped.\<close>

lemma hash_not_blank: "str_trim (''## '' @ s) \<noteq> []"
proof (rule trim_visible)
  show "utf8_chars (''## '' @ s) = ''#'' # utf8_chars (''# '' @ s)" by (simp add: is_cont_byte_def)
qed (simp_all add: is_ws_char_def)

lemma reminder_holds_section:
  assumes "x \<in> set (format_active_agent_sections st tools)" "str_trim x \<noteq> []"
  shows "sublist x (append_reminder_block summary (format_active_agent_reminder st tools))"
proof -
  let ?body = "join (LF @ LF) (filter (\<lambda>s. str_trim s \<noteq> []) (format_active_agent_sections st tools))"
  have x: "sublist x ?body" using assms by (intro sublist_join) simp
  have "?body \<noteq> []"
  proof
    assume "?body = []"
    then have "x = []" using x by simp
    then show False using assms(2) by (simp add: str_trim_def)
  qed
  then have r: "format_active_agent_reminder st tools = Some (''<system-reminder>'' @ LF @ ?body @ LF @ ''</system-reminder>'')"
    by (simp add: format_active_agent_reminder_def wrap_system_reminder_def Let_def)
  have "str_trim (''<system-reminder>'' @ t) \<noteq> []" for t
  proof -
    have "utf8_chars (''<system-reminder>'' @ t) = ''<'' # utf8_chars (''system-reminder>'' @ t)" by (simp add: is_cont_byte_def)
    then show ?thesis by (rule trim_visible) (simp_all add: is_ws_char_def)
  qed
  then have "sublist ?body (append_reminder_block summary (format_active_agent_reminder st tools))"
    unfolding r append_reminder_block_def by (simp del: append.simps) (metis append.assoc sublist_appendI)
  with x show ?thesis by (rule sublist_order.order_trans)
qed

text \<open>The reminder that is appended to a summary names everything that is still going on: the id of every
  running command, of every running sub-agent and of every todo item that is not over is in it, verbatim.\<close>

theorem reminder_names_everything:
  "list_all (str_contains (append_reminder_block summary (format_active_agent_reminder st (Some tools))))
     (map bt_id (running_commands st) @ map sa_id (running_subagents st)
      @ map todo_id (filter (\<lambda>t. is_actionable (todo_status t)) (todos st)))"
proof -
  let ?out = "append_reminder_block summary (format_active_agent_reminder st (Some tools))"
  let ?secs = "format_active_agent_sections st (Some tools)"
  have in_section: "sublist i ?out" if "l \<in> set ls" "sublist i l" "''## '' @ a @ join LF ls @ b \<in> set ?secs" for i l ls a b
  proof -
    have "sublist i (join LF ls)" using that(1,2) sublist_join sublist_order.order_trans by blast
    moreover have "sublist (join LF ls) (''## '' @ a @ join LF ls @ b)" by (metis append.assoc sublist_appendI)
    moreover have "sublist (''## '' @ a @ join LF ls @ b) ?out"
      using that(3) hash_not_blank by (intro reminder_holds_section)
    ultimately show ?thesis using sublist_order.order_trans by blast
  qed
  have "sublist (bt_id t) ?out" if "t \<in> set (running_commands st)" for t
  proof (rule in_section [of "task_line t" "map task_line (running_commands st)"])
    show "sublist (bt_id t) (task_line t)" unfolding task_line_def by (metis append.assoc sublist_appendI)
    show "''## '' @ (''Running Background Tasks'' @ LF @ ''These tasks are still running:'' @ LF) @ join LF (map task_line (running_commands st)) @ [] \<in> set ?secs"
      using that by (auto simp: format_active_agent_sections_def section_background_tasks_def option_list_def)
  qed (use that in simp)
  moreover have "sublist (sa_id t) ?out" if "t \<in> set (running_subagents st)" for t
  proof -
    have a: "section_running_subagents (running_subagents st) tools =
        Some (''## '' @ subagents_head tools @ join LF (map format_subagent_line (running_subagents st)) @ [])"
      using that by (auto simp: section_running_subagents_def)
    have "sublist (sa_id t) (format_subagent_line t)"
      unfolding format_subagent_line_def by (metis append.assoc sublist_appendI)
    then show ?thesis
      using that a by (intro in_section [of "format_subagent_line t" "map format_subagent_line (running_subagents st)" _ "subagents_head tools" "[]"])
        (auto simp: format_active_agent_sections_def option_list_def)
  qed
  moreover have "sublist (todo_id t) ?out" if "t \<in> set (filter (\<lambda>t. is_actionable (todo_status t)) (todos st))" for t
  proof -
    let ?ls = "map todo_line (filter (\<lambda>t. is_actionable (todo_status t)) (todos st))"
    let ?b = "todo_trailer (length (filter (\<lambda>t. todo_status t = TCompleted) (todos st)))
        (length (filter (\<lambda>t. todo_status t = TCancelled) (todos st)))"
    have "filter (\<lambda>t. is_actionable (todo_status t)) (todos st) \<noteq> []" using that by (metis empty_iff list.set(1))
    then have a: "section_todo_list (todos st) = Some (''## '' @ todo_head @ join LF ?ls @ ?b)"
      by (simp only: section_todo_list_def Let_def if_False)
    have "sublist (todo_id t) (todo_line t)" unfolding todo_line_def by (metis append.assoc sublist_appendI)
    then show ?thesis
      using that a by (intro in_section [of "todo_line t" ?ls _ todo_head ?b]) (auto simp: format_active_agent_sections_def option_list_def)
  qed
  ultimately show ?thesis by (auto simp: list_all_iff str_contains_sublist)
qed

end
