(* ===== verification/Compaction.thy ===== *)
theory Compaction
  imports Compaction_Summary F64
begin

text \<open>
  The passes of a compaction (\<open>common/sentinel-ai-compaction\<close>): sampling a summary with retries
  (\<open>sampler.rs\<close>, \<open>code_compaction/sample.rs\<close>, \<open>code_compaction/prompt.rs\<close>), the passes inside an agent loop
  (\<open>intra_compaction/compact.rs\<close>), the chunked pass between turns (\<open>inter_compaction/compact.rs\<close>) and the full
  replacement of a conversation (\<open>code_compaction/compact.rs\<close>, \<open>assemble.rs\<close>). The sampler acts on a world
  \<open>'w\<close>; the stream processor that holds the conversation is a state \<open>'s\<close> with the operations of its trait.
  The prompt texts are template files of the crate and a parameter here; waiting times are left out.
\<close>

section \<open>Sampling\<close>

record compaction_prompt =
  cp_system :: string
  cp_user :: string

record prompt_templates =
  steps_prompt :: compaction_prompt
  developer_prompt :: string
  user_prompt :: string
  summary_template :: string

record llm_output =
  response :: string
  thinking :: string

datatype sample_error =
    STimeout u64 usize
  | SBuild string
  | SStart string
  | SEmptyResponse
  | SOther string

fun show_sample_error :: "sample_error \<Rightarrow> string" where
  "show_sample_error (STimeout t n) =
     ''Compaction sampling timed out after '' @ show_word t @ ''s (collected '' @ show_word n @ '' bytes so far)''"
| "show_sample_error (SBuild m) = ''Compaction sampler build failed: '' @ m"
| "show_sample_error (SStart m) = ''Compaction sampler start failed: '' @ m"
| "show_sample_error SEmptyResponse = ''Compaction sampler returned no response channel content''"
| "show_sample_error (SOther m) = m"

fun is_deterministic :: "sample_error \<Rightarrow> bool" where
  "is_deterministic (STimeout _ _) = False"
| "is_deterministic SEmptyResponse = False"
| "is_deterministic (SBuild _) = True"
| "is_deterministic (SStart _) = True"
| "is_deterministic (SOther m) =
     (str_contains m ''Failed to build AgenticScheduler'' \<or> str_contains m ''Failed to start compaction sample'')"

type_synonym ('a, 'w) sampler = "'w \<Rightarrow> 'a list \<Rightarrow> compaction_prompt \<Rightarrow> (sample_error + llm_output) \<times> 'w"

datatype retry_error = REmpty nat | RFailure string bool bool nat

text \<open>What the observer of the attempts is told.\<close>

datatype attempt_outcome =
    OSuccess string
  | OEmptyResponse bool
  | ODegenerate string bool
  | OFailure string bool bool bool

definition after_attempt :: "attempt_outcome \<Rightarrow> 'r \<times> attempt_outcome list \<times> 'w \<Rightarrow> 'r \<times> attempt_outcome list \<times> 'w" where
  "after_attempt o1 = (\<lambda>(r, os, w). (r, o1 # os, w))"

text \<open>The loop, with \<open>k\<close> attempts left.\<close>

fun sample_attempts ::
    "('a, 'w) sampler \<Rightarrow> 'a list \<Rightarrow> compaction_prompt \<Rightarrow> nat \<Rightarrow> nat \<Rightarrow> 'w
       \<Rightarrow> (retry_error + string \<times> nat) \<times> attempt_outcome list \<times> 'w" where
  "sample_attempts sampler ts prompt 0 attempt w = (Inl (REmpty attempt), [], w)"
| "sample_attempts sampler ts prompt (Suc k) attempt w =
     (let will_retry = (k \<noteq> 0); (r, w1) = sampler w ts prompt in
      case r of
        Inr out \<Rightarrow>
          if str_trim (response out) \<noteq> [] then
            if is_degenerate_summary (response out) then
              after_attempt (ODegenerate (response out) will_retry)
                (if will_retry then sample_attempts sampler ts prompt k (Suc attempt) w1 else (Inl (REmpty attempt), [], w1))
            else (Inr (response out, attempt), [OSuccess (response out)], w1)
          else
            after_attempt (OEmptyResponse will_retry)
              (if will_retry then sample_attempts sampler ts prompt k (Suc attempt) w1 else (Inl (REmpty attempt), [], w1))
      | Inl e \<Rightarrow>
          let message = show_sample_error e; overflow = is_context_length_error message;
              det = (is_deterministic e \<or> overflow) in
          after_attempt (OFailure message det overflow (will_retry \<and> \<not> det))
            (if det then (Inl (RFailure message True overflow attempt), [], w1)
             else if \<not> will_retry then (Inl (RFailure message False False attempt), [], w1)
             else sample_attempts sampler ts prompt k (Suc attempt) w1))"

definition sample_summary_with_retries ::
    "('a, 'w) sampler \<Rightarrow> 'a list \<Rightarrow> compaction_prompt \<Rightarrow> u32 \<Rightarrow> 'w
       \<Rightarrow> (retry_error + string \<times> nat) \<times> attempt_outcome list \<times> 'w" where
  "sample_summary_with_retries sampler ts prompt max_attempts w =
     sample_attempts sampler ts prompt (max (unat max_attempts) 1) 1 w"

lemma after_attempt_simps [simp]:
  "fst (after_attempt o1 x) = fst x" "fst (snd (after_attempt o1 x)) = o1 # fst (snd x)" "snd (snd (after_attempt o1 x)) = snd (snd x)"
  by (simp_all add: after_attempt_def split: prod.split)

section \<open>Passes inside an agent loop\<close>

datatype intra_error =
    NothingToCompact
  | ITimeout
  | IEmptyResponse
  | InsufficientReduction u32 u32
  | InvalidSplit nat nat
  | Unsupported
  | SamplerBuild string
  | SamplerStart string
  | SamplerStream string
  | ApplyFailed string

record intra_result =
  ir_tokens_before :: u32
  ir_tokens_after :: u32
  ir_turns_compacted :: u32
  ir_summary :: string

datatype compaction_target = TargetSteps | TargetHistory | TargetFullReplace

fun target_label :: "compaction_target \<Rightarrow> string" where
  "target_label TargetSteps = ''steps''"
| "target_label TargetHistory = ''history''"
| "target_label TargetFullReplace = ''full_replace''"

record ('a, 's) stream_proc =
  get_accumulated_turns :: "'s \<Rightarrow> 'a list"
  get_history_turns :: "'s \<Rightarrow> 'a list"
  replace_with_compaction :: "compaction_target \<Rightarrow> nat \<Rightarrow> 'a \<Rightarrow> 's \<Rightarrow> (intra_error + unit) \<times> 's"

definition build_summary_prompt :: "prompt_templates \<Rightarrow> string option \<Rightarrow> string" where
  "build_summary_prompt tpl context =
     str_replace (summary_template tpl) ''{user_context_section}''
       (case context of
          None \<Rightarrow> []
        | Some c \<Rightarrow> LF @ LF @ ''**User-provided context for this compaction:**'' @ LF @ c @ LF @ LF
            @ ''Please incorporate this context into your summary, ensuring it is prominently addressed in the relevant sections.'' @ LF @ LF)"

definition self_summarization_prompt :: string where
  "self_summarization_prompt = ''<summary_request>'' @ LF
     @ ''Please summarize the conversation so far. This summary (everything after your'' @ LF
     @ ''thinking) will be provided to another AI assistant to continue working on the'' @ LF
     @ ''task. The other assistant will only see the user'' @ [CHR 0x27] @ ''s original query and your'' @ LF
     @ ''summary, it will not have access to any tool calls or tool outputs from this'' @ LF
     @ ''conversation. The purpose of the summary is to compress the conversation'' @ LF
     @ ''context while preserving the essential information needed to seamlessly'' @ LF
     @ ''continue. Useful things to include: the user'' @ [CHR 0x27] @ ''s requests, what you'' @ [CHR 0x27] @ ''ve done so'' @ LF
     @ ''far, relevant file paths and code details, any errors encountered and how'' @ LF
     @ ''they were resolved, and what remains to be done. DO NOT call any tools in'' @ LF
     @ ''your response.'' @ LF
     @ ''</summary_request>''"

datatype summary_prompt_kind = Structured | SelfSummary

fun build_summary_prompt_kind :: "prompt_templates \<Rightarrow> summary_prompt_kind \<Rightarrow> string option \<Rightarrow> string" where
  "build_summary_prompt_kind tpl Structured context = build_summary_prompt tpl context"
| "build_summary_prompt_kind tpl SelfSummary None = self_summarization_prompt"
| "build_summary_prompt_kind tpl SelfSummary (Some ctx) =
     self_summarization_prompt @ LF @ LF @ ''<user_provided_context>'' @ LF @ ctx @ LF @ ''</user_provided_context>'' @ LF @ LF
     @ ''Incorporate the user-provided context above into your summary.''"

definition sample_shared_summary_with_retries ::
    "('a, 'w) sampler \<Rightarrow> prompt_templates \<Rightarrow> 'a list \<Rightarrow> intra_config \<Rightarrow> 'w \<Rightarrow> (intra_error + string) \<times> 'w" where
  "sample_shared_summary_with_retries sampler tpl ts policy w =
     (case sample_summary_with_retries sampler ts \<lparr>cp_system = [], cp_user = build_summary_prompt tpl None\<rparr> (ic_max_attempts policy) w of
        (Inr (summary, _), _, w1) \<Rightarrow> (Inr (format_compact_summary summary), w1)
      | (Inl (REmpty _), _, w1) \<Rightarrow> (Inl IEmptyResponse, w1)
      | (Inl (RFailure m det _ _), _, w1) \<Rightarrow> (Inl (if det then SamplerBuild m else SamplerStream m), w1))"

fun compaction_sample_error_to_intra :: "sample_error \<Rightarrow> intra_error" where
  "compaction_sample_error_to_intra (STimeout _ _) = ITimeout"
| "compaction_sample_error_to_intra (SBuild m) = SamplerBuild m"
| "compaction_sample_error_to_intra (SStart m) = SamplerStart m"
| "compaction_sample_error_to_intra SEmptyResponse = IEmptyResponse"
| "compaction_sample_error_to_intra (SOther m) =
     (if str_contains m ''Failed to build'' then SamplerBuild m
      else if str_contains m ''Failed to start'' then SamplerStart m
      else if str_contains m ''no response channel content'' then IEmptyResponse
      else SamplerStream m)"

fun intra_is_transient :: "intra_error \<Rightarrow> bool" where
  "intra_is_transient ITimeout = True"
| "intra_is_transient IEmptyResponse = True"
| "intra_is_transient (SamplerStream _) = True"
| "intra_is_transient (SamplerStart _) = True"
| "intra_is_transient _ = False"

fun legacy_attempts ::
    "('a, 'w) sampler \<Rightarrow> 'a list \<Rightarrow> compaction_prompt \<Rightarrow> nat \<Rightarrow> 'w \<Rightarrow> (intra_error + string) \<times> 'w" where
  "legacy_attempts sampler ts prompt 0 w = (Inl IEmptyResponse, w)"
| "legacy_attempts sampler ts prompt (Suc k) w =
     (case sampler w ts prompt of
        (Inr out, w1) \<Rightarrow> (Inr (response out), w1)
      | (Inl e, w1) \<Rightarrow>
          let ie = compaction_sample_error_to_intra e in
          if intra_is_transient ie \<and> k \<noteq> 0 then legacy_attempts sampler ts prompt k w1 else (Inl ie, w1))"

definition sample_compaction_with_retries ::
    "('a, 'w) sampler \<Rightarrow> 'a list \<Rightarrow> compaction_prompt \<Rightarrow> intra_config \<Rightarrow> 'w \<Rightarrow> (intra_error + string) \<times> 'w" where
  "sample_compaction_with_retries sampler ts prompt policy w =
     legacy_attempts sampler ts prompt (max (unat (ic_max_attempts policy)) 1) w"

text \<open>\<open>x as u32\<close> for a float, which cuts off the fraction and saturates.\<close>

definition f64_to_u32 :: "rat \<Rightarrow> u32" where
  "f64_to_u32 x = (if x \<le> 0 then 0 else of_nat (min (nat \<lfloor>x\<rfloor>) (2 ^ 32 - 1)))"

definition reduction_limit :: "intra_config \<Rightarrow> u32 \<Rightarrow> u32" where
  "reduction_limit policy before = f64_to_u32 (f64_mul (f64_of_nat (unat before)) (max_reduction_ratio policy))"

text \<open>The end that all passes share: build the summary item, check that it is smaller, commit it.\<close>

definition commit_summary ::
    "'a item_ops \<Rightarrow> ('a \<Rightarrow> u32) \<Rightarrow> ('a, 's) stream_proc \<Rightarrow> intra_config \<Rightarrow> compaction_target \<Rightarrow> nat \<Rightarrow> u32 \<Rightarrow> string \<Rightarrow> 's
       \<Rightarrow> (intra_error + intra_result) \<times> 's" where
  "commit_summary ops cnt proc policy target n before summary s =
     (let turn = ci_summary_item ops summary; after = cnt turn in
      if 0 < before \<and> reduction_limit policy before < after then (Inl (InsufficientReduction before after), s)
      else case replace_with_compaction proc target n turn s of
             (Inl e, s1) \<Rightarrow> (Inl e, s1)
           | (Inr _, s1) \<Rightarrow>
               (Inr \<lparr>ir_tokens_before = before, ir_tokens_after = after, ir_turns_compacted = of_nat n, ir_summary = summary\<rparr>, s1))"

text \<open>The tokens of the whole conversation, summed without saturation.\<close>

definition sum_wrapping :: "('a \<Rightarrow> u32) \<Rightarrow> 'a list \<Rightarrow> u32" where
  "sum_wrapping cnt ts = sum_list (map cnt ts)"

definition full_replace_turns :: "'a item_ops \<Rightarrow> ('a \<Rightarrow> u32) \<Rightarrow> 'a list \<Rightarrow> 'a list \<Rightarrow> u32 option \<Rightarrow> 'a list option" where
  "full_replace_turns ops cnt history steps budget =
     (case budget of
        None \<Rightarrow> Some (history @ steps)
      | Some b \<Rightarrow>
          let plan = fit_turns_for_summarizer ops cnt history steps b in
          if llm_turns plan = [] \<or> tokens_fit plan = 0 then None else Some (llm_turns plan))"

definition apply_full_replace_compaction ::
    "'a item_ops \<Rightarrow> ('a \<Rightarrow> u32) \<Rightarrow> prompt_templates \<Rightarrow> ('a, 's) stream_proc \<Rightarrow> ('a, 'w) sampler \<Rightarrow> intra_config
       \<Rightarrow> string option \<Rightarrow> u32 option \<Rightarrow> 's \<Rightarrow> 'w \<Rightarrow> (intra_error + intra_result) \<times> 's \<times> 'w" where
  "apply_full_replace_compaction ops cnt tpl proc sampler policy reminder budget s w =
     (let history = get_history_turns proc s; steps = get_accumulated_turns proc s;
          total = length history + length steps;
          before = sum_wrapping cnt (history @ steps) in
      if total = 0 then (Inl NothingToCompact, s, w)
      else if before < min_compactable_tokens policy then (Inl NothingToCompact, s, w)
      else case full_replace_turns ops cnt history steps budget of
             None \<Rightarrow> (Inl NothingToCompact, s, w)
           | Some ts \<Rightarrow>
               (case sample_shared_summary_with_retries sampler tpl ts policy w of
                  (Inl e, w1) \<Rightarrow> (Inl e, s, w1)
                | (Inr summary, w1) \<Rightarrow>
                    let (r, s1) = commit_summary ops cnt proc policy TargetFullReplace total before
                                    (append_reminder_block summary reminder) s
                    in (r, s1, w1)))"

text \<open>One pass over the steps, or over the history when \<open>hist\<close> holds; the full replacement does not come here.\<close>

definition legacy_prompt :: "prompt_templates \<Rightarrow> bool \<Rightarrow> compaction_prompt" where
  "legacy_prompt tpl hist =
     (if hist then \<lparr>cp_system = developer_prompt tpl, cp_user = user_prompt tpl\<rparr> else steps_prompt tpl)"

definition compact_one_pass ::
    "'a item_ops \<Rightarrow> ('a \<Rightarrow> u32) \<Rightarrow> prompt_templates \<Rightarrow> ('a, 's) stream_proc \<Rightarrow> ('a, 'w) sampler \<Rightarrow> intra_config
       \<Rightarrow> intra_trigger \<Rightarrow> bool \<Rightarrow> 's \<Rightarrow> 'w \<Rightarrow> (intra_error + intra_result) \<times> 's \<times> 'w" where
  "compact_one_pass ops cnt tpl proc sampler policy trigger hist s w =
     (let source = (if hist then get_history_turns proc s else get_accumulated_turns proc s);
          target_tokens = ucast ((ucast (context_window trigger) * ucast (target_threshold_percent policy) :: u64) div 100) :: u32 in
      if source = [] then (Inl NothingToCompact, s, w)
      else case select_turns_to_compact ops (map cnt source) source target_tokens (min_compactable_tokens policy) of
             None \<Rightarrow> (Inl NothingToCompact, s, w)
           | Some plan \<Rightarrow>
               let old = take (split_idx plan) source;
                   separated = separate_prior_user_queries ops old;
                   for_llm = (if hist then turns_for_llm separated else old);
                   prior = (if hist then prior_user_queries separated else None);
                   (sampled, w1) =
                     (case ic_summarizer policy of
                        Legacy \<Rightarrow> sample_compaction_with_retries sampler for_llm (legacy_prompt tpl hist) policy w
                      | Shared \<Rightarrow> sample_shared_summary_with_retries sampler tpl for_llm policy w) in
               case sampled of
                 Inl e \<Rightarrow> (Inl e, s, w1)
               | Inr text \<Rightarrow>
                   let preamble = (if hist then assemble_user_queries_preamble prior
                                     (extract_user_queries_from_turns ops old (user_message_truncate_chars policy)) else []);
                       (r, s1) = commit_summary ops cnt proc policy (if hist then TargetHistory else TargetSteps)
                                   (split_idx plan) (tokens_to_compact plan) (preamble @ text) s
                   in (r, s1, w1))"

definition u64_tokens :: "('a \<Rightarrow> u32) \<Rightarrow> 'a list \<Rightarrow> u64" where
  "u64_tokens cnt ts = sum_list (map (\<lambda>t. ucast (cnt t)) ts)"

definition f64_ceil_u64 :: "rat \<Rightarrow> u64" where
  "f64_ceil_u64 x = (if x \<le> 0 then 0 else of_nat (min (nat \<lceil>x\<rceil>) (2 ^ 64 - 1)))"

definition join_results :: "intra_result \<Rightarrow> intra_result \<Rightarrow> intra_result" where
  "join_results h r =
     \<lparr>ir_tokens_before = sat_add (ir_tokens_before h) (ir_tokens_before r),
      ir_tokens_after = sat_add (ir_tokens_after h) (ir_tokens_after r),
      ir_turns_compacted = sat_add (ir_turns_compacted h) (ir_turns_compacted r),
      ir_summary = (if ir_summary h \<noteq> [] \<and> ir_summary r \<noteq> [] then ir_summary h @ LF @ LF @ ir_summary r
                    else if ir_summary h \<noteq> [] then ir_summary h else ir_summary r)\<rparr>"

definition apply_history_then_steps ::
    "'a item_ops \<Rightarrow> ('a \<Rightarrow> u32) \<Rightarrow> prompt_templates \<Rightarrow> ('a, 's) stream_proc \<Rightarrow> ('a, 'w) sampler \<Rightarrow> intra_config
       \<Rightarrow> intra_trigger \<Rightarrow> 's \<Rightarrow> 'w \<Rightarrow> (intra_error + intra_result) \<times> 's \<times> 'w" where
  "apply_history_then_steps ops cnt tpl proc sampler policy trigger s w =
     (let (h, s1, w1) = compact_one_pass ops cnt tpl proc sampler policy trigger True s w in
      if (case h of Inl e \<Rightarrow> e \<noteq> NothingToCompact | Inr _ \<Rightarrow> False) then (h, s1, w1)
      else
        let steps_tokens = u64_tokens cnt (get_accumulated_turns proc s1);
            history_tokens = u64_tokens cnt (get_history_turns proc s1);
            threshold = f64_ceil_u64 (f64_mul (f64_of_nat (unat history_tokens)) (steps_trigger_ratio policy)) in
        if \<not> threshold < steps_tokens then (h, s1, w1)
        else
          let (r, s2, w2) = compact_one_pass ops cnt tpl proc sampler policy trigger False s1 w1 in
          case (h, r) of
            (Inr hr, Inr sr) \<Rightarrow> (Inr (join_results hr sr), s2, w2)
          | (Inr hr, Inl NothingToCompact) \<Rightarrow> (Inr hr, s2, w2)
          | (Inl _, Inr sr) \<Rightarrow> (Inr sr, s2, w2)
          | (_, Inl e) \<Rightarrow> (Inl e, s2, w2))"

definition apply_intra_compaction ::
    "'a item_ops \<Rightarrow> ('a \<Rightarrow> u32) \<Rightarrow> prompt_templates \<Rightarrow> ('a, 's) stream_proc \<Rightarrow> ('a, 'w) sampler \<Rightarrow> intra_config
       \<Rightarrow> intra_trigger \<Rightarrow> string option \<Rightarrow> u32 option \<Rightarrow> 's \<Rightarrow> 'w \<Rightarrow> (intra_error + intra_result) \<times> 's \<times> 'w" where
  "apply_intra_compaction ops cnt tpl proc sampler policy trigger reminder budget s w =
     (case ic_mode policy of
        FullReplace \<Rightarrow> apply_full_replace_compaction ops cnt tpl proc sampler policy reminder budget s w
      | StepsOnly \<Rightarrow> compact_one_pass ops cnt tpl proc sampler policy trigger False s w
      | HistoryOnly \<Rightarrow> compact_one_pass ops cnt tpl proc sampler policy trigger True s w
      | HistoryThenSteps \<Rightarrow> apply_history_then_steps ops cnt tpl proc sampler policy trigger s w)"

fun error_status_label :: "intra_error \<Rightarrow> string" where
  "error_status_label NothingToCompact = ''nothing_to_compact''"
| "error_status_label ITimeout = ''timeout''"
| "error_status_label IEmptyResponse = ''empty_response''"
| "error_status_label (InsufficientReduction _ _) = ''insufficient_reduction''"
| "error_status_label (InvalidSplit _ _) = ''invalid_split''"
| "error_status_label Unsupported = ''unsupported''"
| "error_status_label (SamplerBuild _) = ''sampler_build''"
| "error_status_label (SamplerStart _) = ''sampler_start''"
| "error_status_label (SamplerStream _) = ''sampler_stream''"
| "error_status_label (ApplyFailed _) = ''apply''"

section \<open>Passes between turns\<close>

record inter_config =
  inter_model_name :: string
  inter_timeout_secs :: u64
  strategy :: compaction_strategy
  dnc_chunk_token_limit :: u32
  user_message_compact_threshold :: u32

record chunked_output =
  combined_text :: string
  analysis_text :: string

definition flush_chunk ::
    "('a, 'w) sampler \<Rightarrow> prompt_templates \<Rightarrow> 'a list \<Rightarrow> 'w \<Rightarrow> (sample_error + llm_output) \<times> 'w" where
  "flush_chunk sampler tpl ts w = sampler w ts \<lparr>cp_system = developer_prompt tpl, cp_user = user_prompt tpl\<rparr>"

text \<open>The loop over the items, with the open chunk, its tokens and the outputs so far; \<open>2 ^ 32 - 1\<close> stands for no limit.\<close>

fun chunk_loop ::
    "('a, 'w) sampler \<Rightarrow> prompt_templates \<Rightarrow> ('a \<Rightarrow> u32) \<Rightarrow> u32 \<Rightarrow> 'a list \<Rightarrow> 'a list \<Rightarrow> u32 \<Rightarrow> llm_output list \<Rightarrow> 'w
       \<Rightarrow> (sample_error + llm_output list) \<times> 'w" where
  "chunk_loop sampler tpl cnt limit [] chunk tokens outs w =
     (if chunk = [] then (Inr outs, w)
      else case flush_chunk sampler tpl chunk w of
             (Inl e, w1) \<Rightarrow> (Inl e, w1)
           | (Inr out, w1) \<Rightarrow> (Inr (outs @ [out]), w1))"
| "chunk_loop sampler tpl cnt limit (t # ts) chunk tokens outs w =
     (if chunk \<noteq> [] \<and> limit \<noteq> - 1 \<and> limit < sat_add tokens (cnt t) then
        case flush_chunk sampler tpl chunk w of
          (Inl e, w1) \<Rightarrow> (Inl e, w1)
        | (Inr out, w1) \<Rightarrow> chunk_loop sampler tpl cnt limit ts [t] (0 + cnt t) (outs @ [out]) w1
      else chunk_loop sampler tpl cnt limit ts (chunk @ [t]) (tokens + cnt t) outs w)"

definition chunk_summary :: "nat \<times> llm_output \<Rightarrow> string" where
  "chunk_summary p =
     ''<chunk_summary index='' @ quote @ show_nat (fst p) @ quote @ ''>'' @ LF @ response (snd p) @ LF @ ''</chunk_summary>'' @ LF @ LF"

definition combine_chunks :: "'a separated_turns \<Rightarrow> string option \<Rightarrow> llm_output list \<Rightarrow> chunked_output" where
  "combine_chunks separated current outs =
     \<lparr>combined_text = assemble_user_queries_preamble (prior_user_queries separated) current
        @ concat (map chunk_summary (List.enumerate 0 outs)),
      analysis_text = concat (map (\<lambda>p. wrap_chunk_analysis (fst p) (thinking (snd p))) (List.enumerate 0 outs))\<rparr>"

definition sample_compaction_chunked ::
    "'a item_ops \<Rightarrow> ('a \<Rightarrow> u32) \<Rightarrow> prompt_templates \<Rightarrow> ('a, 'w) sampler \<Rightarrow> inter_config \<Rightarrow> 'a list \<Rightarrow> string option \<Rightarrow> 'w
       \<Rightarrow> (sample_error + chunked_output) \<times> 'w" where
  "sample_compaction_chunked ops cnt tpl sampler config ts current w =
     (if strategy config = FullReplaceStrategy then
        (Inl (SBuild ''full_replace must be routed through the event-proc compact_conversation helper''), w)
      else
        let limit = (if strategy config = Basic then - 1 else dnc_chunk_token_limit config);
            filtered = filter_turns_for_inter_compaction ops ts in
        if filtered = [] then (Inl (SOther ''No turns remaining after filtering''), w)
        else
          let separated = separate_prior_user_queries ops filtered in
          case chunk_loop sampler tpl cnt limit (turns_for_llm separated) [] 0 [] w of
            (Inl e, w1) \<Rightarrow> (Inl e, w1)
          | (Inr outs, w1) \<Rightarrow> (Inr (combine_chunks separated current outs), w1))"

section \<open>Full replacement of a conversation\<close>

record 'a item_factory =
  new_user :: "string \<Rightarrow> 'a"
  new_user_meta :: "string \<Rightarrow> 'a"
  new_project_instructions :: "string \<Rightarrow> 'a"
  new_system_reminder :: "string \<Rightarrow> 'a"

record 'a replace_context =
  rc_system_message :: 'a
  rc_user_message_prefix :: string
  rc_agents_md_reminder :: "string option"
  rc_last_user_query :: "string option"
  rc_recent_messages :: "'a list"
  rc_system_reminder :: "string option"
  rc_transcript_hint :: "string option"

definition assemble_compacted_history :: "'a item_factory \<Rightarrow> 'a replace_context \<Rightarrow> string \<Rightarrow> 'a list" where
  "assemble_compacted_history fac ctx summary =
     [rc_system_message ctx, new_user_meta fac (rc_user_message_prefix ctx)]
     @ option_list (map_option (new_project_instructions fac) (rc_agents_md_reminder ctx))
     @ option_list (map_option (\<lambda>q. new_user fac (wrap_user_query q)) (rc_last_user_query ctx))
     @ rc_recent_messages ctx
     @ [new_user_meta fac (format_compact_summary_content summary
          @ (case rc_transcript_hint ctx of None \<Rightarrow> [] | Some h \<Rightarrow> h))]
     @ option_list (map_option (new_system_reminder fac) (rc_system_reminder ctx))"

datatype replace_error = ReplaceNothing | ReplaceEmpty | ReplaceSampler string bool bool

record replace_config =
  rp_max_attempts :: u32
  rp_retry_delay_secs :: u64
  rp_timeout_secs :: u64

definition sample_full_replace_summary ::
    "('a, 'w) sampler \<Rightarrow> prompt_templates \<Rightarrow> 'a list \<Rightarrow> string option \<Rightarrow> replace_config \<Rightarrow> 'w
       \<Rightarrow> (replace_error + string \<times> nat) \<times> attempt_outcome list \<times> 'w" where
  "sample_full_replace_summary sampler tpl ts context config w =
     (if ts = [] then (Inl ReplaceNothing, [], w)
      else case sample_summary_with_retries sampler ts \<lparr>cp_system = [], cp_user = build_summary_prompt tpl context\<rparr>
                  (rp_max_attempts config) w of
             (Inr r, os, w1) \<Rightarrow> (Inr r, os, w1)
           | (Inl (REmpty _), os, w1) \<Rightarrow> (Inl ReplaceEmpty, os, w1)
           | (Inl (RFailure m det ov _), os, w1) \<Rightarrow> (Inl (ReplaceSampler m det ov), os, w1))"

record 'a replace_output =
  ro_history :: "'a list"
  ro_summary :: string
  ro_attempts :: nat

definition full_replace_pass ::
    "'a item_factory \<Rightarrow> ('a, 'w) sampler \<Rightarrow> prompt_templates \<Rightarrow> 'a list \<Rightarrow> string option \<Rightarrow> 'a replace_context \<Rightarrow> replace_config \<Rightarrow> 'w
       \<Rightarrow> (replace_error + 'a replace_output) \<times> attempt_outcome list \<times> 'w" where
  "full_replace_pass fac sampler tpl ts context ctx config w =
     (case sample_full_replace_summary sampler tpl ts context config w of
        (Inl e, os, w1) \<Rightarrow> (Inl e, os, w1)
      | (Inr (summary, n), os, w1) \<Rightarrow>
          (Inr \<lparr>ro_history = assemble_compacted_history fac ctx summary, ro_summary = summary, ro_attempts = n\<rparr>, os, w1))"

section \<open>Attempts\<close>

text \<open>The answers that the sampler would give, one call after the other, and those after which there is nothing to repeat: a
  usable summary, or an error that the same input would meet again.\<close>

definition sampler_answer :: "('a, 'w) sampler \<Rightarrow> 'a list \<Rightarrow> compaction_prompt \<Rightarrow> 'w \<Rightarrow> nat \<Rightarrow> sample_error + llm_output" where
  "sampler_answer sampler ts prompt w i = fst (sampler (((\<lambda>v. snd (sampler v ts prompt)) ^^ i) w) ts prompt)"

fun settles :: "sample_error + llm_output \<Rightarrow> bool" where
  "settles (Inr out) \<longleftrightarrow> str_trim (response out) \<noteq> [] \<and> \<not> is_degenerate_summary (response out)"
| "settles (Inl e) \<longleftrightarrow> is_deterministic e \<or> is_context_length_error (show_sample_error e)"

definition attempts_made :: "nat \<Rightarrow> (nat \<Rightarrow> sample_error + llm_output) \<Rightarrow> nat" where
  "attempts_made n ans = (if \<exists>i < n. settles (ans i) then Suc (LEAST i. settles (ans i)) else n)"

text \<open>What the observer is told of an answer, and what the last answer makes of the sampling.\<close>

fun reported :: "bool \<Rightarrow> sample_error + llm_output \<Rightarrow> attempt_outcome" where
  "reported again (Inr out) =
     (if str_trim (response out) = [] then OEmptyResponse again
      else if is_degenerate_summary (response out) then ODegenerate (response out) again
      else OSuccess (response out))"
| "reported again (Inl e) =
     OFailure (show_sample_error e) (settles (Inl e)) (is_context_length_error (show_sample_error e)) again"

fun verdict :: "sample_error + llm_output \<Rightarrow> nat \<Rightarrow> retry_error + string \<times> nat" where
  "verdict (Inr out) n = (if settles (Inr out) then Inr (response out, n) else Inl (REmpty n))"
| "verdict (Inl e) n =
     Inl (RFailure (show_sample_error e) (settles (Inl e)) (is_context_length_error (show_sample_error e)) n)"

lemma attempts_made_Suc:
  "attempts_made (Suc n) ans = (if settles (ans 0) then 1 else Suc (attempts_made n (\<lambda>i. ans (Suc i))))"
proof (cases "settles (ans 0)")
  case True
  then show ?thesis by (auto simp: attempts_made_def intro: Least_eq_0)
next
  case False
  then have ex: "(\<exists>i < Suc n. settles (ans i)) \<longleftrightarrow> (\<exists>i < n. settles (ans (Suc i)))" by (metis less_Suc_eq_0_disj)
  have "(LEAST i. settles (ans i)) = Suc (LEAST i. settles (ans (Suc i)))" if "settles (ans (Suc i))" for i
    using Least_Suc [of "\<lambda>i. settles (ans i)" "Suc i"] that False by blast
  with False ex show ?thesis by (auto simp: attempts_made_def)
qed

lemma sampler_answer_Suc:
  "sampler w ts prompt = (x, w1) \<Longrightarrow> sampler_answer sampler ts prompt w (Suc i) = sampler_answer sampler ts prompt w1 i"
  "sampler w ts prompt = (x, w1) \<Longrightarrow> sampler_answer sampler ts prompt w 0 = x"
  "sampler w ts prompt = (x, w1) \<Longrightarrow> ((\<lambda>v. snd (sampler v ts prompt)) ^^ Suc i) w = ((\<lambda>v. snd (sampler v ts prompt)) ^^ i) w1"
  by (simp_all add: sampler_answer_def funpow_Suc_right del: funpow.simps(2))

lemma attempts_made_pos: "0 < n \<Longrightarrow> 0 < attempts_made n ans"
  by (simp add: attempts_made_def)

lemma map_upt_Suc_0: "map f [0..<Suc n] = f 0 # map (\<lambda>i. f (Suc i)) [0..<n]"
  by (simp add: upt_conv_Cons map_Suc_upt [symmetric] del: upt_Suc)

lemma sample_attempts_spec:
  assumes "0 < n" "k = attempts_made n (sampler_answer sampler ts prompt w)"
  shows "sample_attempts sampler ts prompt n attempt w =
    (verdict (sampler_answer sampler ts prompt w (k - 1)) (attempt + k - 1),
     map (\<lambda>i. reported (Suc i < k) (sampler_answer sampler ts prompt w i)) [0..<k],
     ((\<lambda>v. snd (sampler v ts prompt)) ^^ k) w)"
  using assms
proof (induction n arbitrary: attempt w k)
  case (Suc n)
  obtain x w1 where x: "sampler w ts prompt = (x, w1)" by fastforce
  note x_simps = sampler_answer_Suc [of sampler w ts prompt x w1, OF x]
  show ?case
  proof (cases "settles x \<or> n = 0")
    case True
    then have "k = 1" using Suc.prems(2) by (auto simp: attempts_made_Suc x_simps attempts_made_def)
    with True show ?thesis by (cases x) (auto simp: x x_simps after_attempt_def Let_def)
  next
    case False
    define k1 where "k1 = attempts_made n (sampler_answer sampler ts prompt w1)"
    have k: "k = Suc k1" "0 < k1" using False Suc.prems(2) by (simp_all add: k1_def attempts_made_Suc x_simps attempts_made_pos)
    have last: "sampler_answer sampler ts prompt w k1 = sampler_answer sampler ts prompt w1 (k1 - 1)"
      using k x_simps(1) [of "k1 - 1"] by simp
    have ih: "sample_attempts sampler ts prompt n (Suc attempt) w1 =
      (verdict (sampler_answer sampler ts prompt w1 (k1 - 1)) (attempt + k - 1),
       map (\<lambda>i. reported (Suc i < k1) (sampler_answer sampler ts prompt w1 i)) [0..<k1],
       ((\<lambda>v. snd (sampler v ts prompt)) ^^ k1) w1)"
      using Suc.IH [of k1 w1 "Suc attempt"] False k by (simp add: k1_def)
    have "sample_attempts sampler ts prompt (Suc n) attempt w =
        after_attempt (reported True x) (sample_attempts sampler ts prompt n (Suc attempt) w1)"
      using False by (cases x) (auto simp: x Let_def)
    with k show ?thesis
      by (simp add: ih last after_attempt_def map_upt_Suc_0 x_simps del: upt_Suc funpow.simps sample_attempts.simps)
  qed
qed simp

text \<open>C35. Sampling a summary asks the model again after exactly the failures that may pass: with \<open>n\<close> the limit, or one, the model is
  called until its first answer that settles the matter, a summary that is neither blank nor degenerate, or an error that is
  deterministic or a context overflow, and \<open>n\<close> times when there is none. Each call is reported once, with what it answered and whether
  it is followed by another, and the result is the last answer: the summary, the error with its class, or that there was
  none, with the number of calls.\<close>

theorem sampling_retries:
  "sample_summary_with_retries sampler ts prompt max_attempts w =
     (let answer = sampler_answer sampler ts prompt w; k = attempts_made (max (unat max_attempts) 1) answer in
      (verdict (answer (k - 1)) k, map (\<lambda>i. reported (Suc i < k) (answer i)) [0..<k],
       ((\<lambda>v. snd (sampler v ts prompt)) ^^ k) w))"
  by (simp add: sample_summary_with_retries_def Let_def
      sample_attempts_spec [OF _ refl])

section \<open>Commits\<close>

text \<open>What one pass over a view may do: with an error it has left the state alone, or the commit itself has
  failed; with a result it has committed the summary in place of the first \<open>n\<close> items of the view, and the
  summary is as much smaller as the policy asks.\<close>

definition pass_result ::
    "'a item_ops \<Rightarrow> ('a \<Rightarrow> u32) \<Rightarrow> ('a, 's) stream_proc \<Rightarrow> intra_config \<Rightarrow> compaction_target \<Rightarrow> 'a list \<Rightarrow> 's
       \<Rightarrow> intra_error + intra_result \<Rightarrow> 's \<Rightarrow> bool" where
  "pass_result ops cnt proc policy target view s r s' \<longleftrightarrow>
     (case r of
        Inl e \<Rightarrow> s' = s \<or> (\<exists>n item. 0 < n \<and> n \<le> length view \<and> replace_with_compaction proc target n item s = (Inl e, s'))
      | Inr res \<Rightarrow> \<exists>n. 0 < n \<and> n \<le> length view \<and> ir_turns_compacted res = of_nat n
          \<and> replace_with_compaction proc target n (ci_summary_item ops (ir_summary res)) s = (Inr (), s')
          \<and> ir_tokens_after res = cnt (ci_summary_item ops (ir_summary res))
          \<and> min_compactable_tokens policy \<le> ir_tokens_before res
          \<and> (ir_tokens_before res = 0 \<or> ir_tokens_after res \<le> reduction_limit policy (ir_tokens_before res)))"

lemma pass_unchanged: "pass_result ops cnt proc policy target view s (Inl e) s"
  by (simp add: pass_result_def)

lemma commit_pass:
  assumes "0 < n" "n \<le> length view" "min_compactable_tokens policy \<le> before"
  shows "pass_result ops cnt proc policy target view s
    (fst (commit_summary ops cnt proc policy target n before summary s)) (snd (commit_summary ops cnt proc policy target n before summary s))"
proof (cases "0 < before \<and> reduction_limit policy before < cnt (ci_summary_item ops summary)")
  case True
  then show ?thesis by (simp add: commit_summary_def pass_unchanged)
next
  case False
  then have small: "before = 0 \<or> cnt (ci_summary_item ops summary) \<le> reduction_limit policy before"
    by (auto simp: word_greater_zero_iff)
  obtain x s1 where x: "replace_with_compaction proc target n (ci_summary_item ops summary) s = (x, s1)" by fastforce
  have c: "commit_summary ops cnt proc policy target n before summary s =
      (case x of Inl e \<Rightarrow> (Inl e, s1)
       | Inr _ \<Rightarrow> (Inr \<lparr>ir_tokens_before = before, ir_tokens_after = cnt (ci_summary_item ops summary),
                        ir_turns_compacted = of_nat n, ir_summary = summary\<rparr>, s1))"
    using False x by (cases x) (auto simp: commit_summary_def Let_def)
  show ?thesis
  proof (cases x)
    case (Inl e)
    with x c assms(1,2) show ?thesis by (simp add: pass_result_def) blast
  next
    case (Inr u)
    with x c assms small show ?thesis by (auto simp: pass_result_def)
  qed
qed

lemma commit_passI:
  assumes "commit_summary ops cnt proc policy target n before summary s = (r, s')"
    and "0 < n" "n \<le> length view" "min_compactable_tokens policy \<le> before"
  shows "pass_result ops cnt proc policy target view s r s'"
  using commit_pass [OF assms(2-4), of ops cnt proc target s summary] assms(1) by simp

lemma selected_prefix:
  assumes "length counts = length items" "select_turns_to_compact ops counts items target m = Some p"
  shows "0 < split_idx p" "split_idx p < length items" "m \<le> tokens_to_compact p"
proof -
  let ?e = "earliest_cut ops counts items target"
  have p: "\<not> sum_counts counts \<le> target" "?e < length items" "m \<le> sum_counts (take ?e counts)"
    "p = \<lparr>split_idx = ?e, tokens_to_compact = sum_counts (take ?e counts)\<rparr>"
    using assms(2) unfolding select_earliest [OF assms(1)] by (auto simp: Let_def split: if_splits)
  have "?e \<noteq> 0" using p(1) earliest_cut_spec(2) [OF assms(1) p(2)] by (metis drop_0 may_cut_def)
  then show "0 < split_idx p" "split_idx p < length items" "m \<le> tokens_to_compact p" using p by simp_all
qed

lemma one_pass_result:
  assumes "compact_one_pass ops cnt tpl proc sampler policy trigger hist s w = (r, s', w')"
  shows "pass_result ops cnt proc policy (if hist then TargetHistory else TargetSteps)
    (if hist then get_history_turns proc s else get_accumulated_turns proc s) s r s'"
proof -
  let ?view = "if hist then get_history_turns proc s else get_accumulated_turns proc s"
  let ?target = "ucast ((ucast (context_window trigger) * ucast (target_threshold_percent policy) :: u64) div 100) :: u32"
  show ?thesis
  proof (cases "select_turns_to_compact ops (map cnt ?view) ?view ?target (min_compactable_tokens policy)")
    case None
    then have "r = Inl NothingToCompact" "s' = s" using assms by (auto simp: compact_one_pass_def Let_def split: if_splits)
    then show ?thesis by (simp add: pass_unchanged)
  next
    case (Some p)
    note n = selected_prefix [OF _ Some, simplified length_map, OF refl]
    then have ne: "?view \<noteq> []" by auto
    show ?thesis
      using assms n ne
      by (auto simp: compact_one_pass_def Let_def Some pass_unchanged split: prod.splits sum.splits if_splits
          intro: commit_passI [OF _ _ less_imp_le])
  qed
qed

lemma full_replace_result:
  assumes "apply_full_replace_compaction ops cnt tpl proc sampler policy reminder budget s w = (r, s', w')"
  shows "pass_result ops cnt proc policy TargetFullReplace (get_history_turns proc s @ get_accumulated_turns proc s) s r s'"
  using assms
  by (auto simp: apply_full_replace_compaction_def Let_def pass_unchanged split: prod.splits sum.splits if_splits option.splits
      intro: commit_passI)

text \<open>C30. Compaction commits all or nothing, pass by pass. A pass that fails has left the conversation as it was,
  unless the commit itself failed; a pass that succeeds has made exactly one commit, of at least one item and
  no more than there are, with the summary it returns, and the summary is at most the share of what it
  replaces that the policy asks for. When the history and then the steps are compacted, the first pass stays committed
  even if the second one ends the compaction with its error.\<close>

theorem compaction_commits:
  "case apply_intra_compaction ops cnt tpl proc sampler policy trigger reminder budget s w of (r, s', w') \<Rightarrow>
     (case ic_mode policy of
        FullReplace \<Rightarrow> pass_result ops cnt proc policy TargetFullReplace (get_history_turns proc s @ get_accumulated_turns proc s) s r s'
      | StepsOnly \<Rightarrow> pass_result ops cnt proc policy TargetSteps (get_accumulated_turns proc s) s r s'
      | HistoryOnly \<Rightarrow> pass_result ops cnt proc policy TargetHistory (get_history_turns proc s) s r s'
      | HistoryThenSteps \<Rightarrow>
          (\<exists>h s1. pass_result ops cnt proc policy TargetHistory (get_history_turns proc s) s h s1
             \<and> (r = h \<and> s' = s1
                \<or> (\<exists>q. (case h of Inl e \<Rightarrow> e = NothingToCompact | Inr _ \<Rightarrow> True)
                      \<and> pass_result ops cnt proc policy TargetSteps (get_accumulated_turns proc s1) s1 q s'
                      \<and> (case r of Inl e \<Rightarrow> q = Inl e | Inr _ \<Rightarrow> True)))))"
proof -
  obtain r s' w' where run: "apply_intra_compaction ops cnt tpl proc sampler policy trigger reminder budget s w = (r, s', w')"
    by (cases "apply_intra_compaction ops cnt tpl proc sampler policy trigger reminder budget s w")
  show ?thesis
  proof (cases "ic_mode policy = HistoryThenSteps")
    case False
    with run show ?thesis
      by (cases "ic_mode policy")
        (auto simp: apply_intra_compaction_def dest: one_pass_result full_replace_result)
  next
    case True
    obtain h s1 w1 where h: "compact_one_pass ops cnt tpl proc sampler policy trigger True s w = (h, s1, w1)"
      by (cases "compact_one_pass ops cnt tpl proc sampler policy trigger True s w")
    obtain q s2 w2 where q: "compact_one_pass ops cnt tpl proc sampler policy trigger False s1 w1 = (q, s2, w2)"
      by (cases "compact_one_pass ops cnt tpl proc sampler policy trigger False s1 w1")
    have "r = h \<and> s' = s1 \<or> (case h of Inl e \<Rightarrow> e = NothingToCompact | Inr _ \<Rightarrow> True) \<and> s' = s2
        \<and> (case r of Inl e \<Rightarrow> q = Inl e | Inr _ \<Rightarrow> True)"
      using run True h q
      by (auto simp: apply_intra_compaction_def apply_history_then_steps_def Let_def split: sum.splits if_splits intra_error.splits)
    then show ?thesis
      using one_pass_result [OF h] one_pass_result [OF q] run True by auto
  qed
qed

section \<open>Chunks\<close>

text \<open>The chunks as such, and the sampling of given chunks in order up to the first failure.\<close>

fun chunk_split :: "('a \<Rightarrow> u32) \<Rightarrow> u32 \<Rightarrow> 'a list \<Rightarrow> 'a list \<Rightarrow> u32 \<Rightarrow> 'a list list" where
  "chunk_split cnt limit [] chunk tokens = (if chunk = [] then [] else [chunk])"
| "chunk_split cnt limit (t # ts) chunk tokens =
     (if chunk \<noteq> [] \<and> limit \<noteq> - 1 \<and> limit < sat_add tokens (cnt t) then chunk # chunk_split cnt limit ts [t] (0 + cnt t)
      else chunk_split cnt limit ts (chunk @ [t]) (tokens + cnt t))"

fun sample_each :: "('w \<Rightarrow> 'b \<Rightarrow> (sample_error + llm_output) \<times> 'w) \<Rightarrow> 'b list \<Rightarrow> 'w \<Rightarrow> (sample_error + llm_output list) \<times> 'w" where
  "sample_each f [] w = (Inr [], w)"
| "sample_each f (c # cs) w =
     (case f w c of
        (Inl e, w1) \<Rightarrow> (Inl e, w1)
      | (Inr out, w1) \<Rightarrow> (case sample_each f cs w1 of (Inl e, w2) \<Rightarrow> (Inl e, w2) | (Inr outs, w2) \<Rightarrow> (Inr (out # outs), w2)))"

lemma chunk_loop_split:
  "chunk_loop sampler tpl cnt limit ts chunk tokens outs w =
     (case sample_each (\<lambda>v c. flush_chunk sampler tpl c v) (chunk_split cnt limit ts chunk tokens) w of
        (Inl e, w1) \<Rightarrow> (Inl e, w1) | (Inr new, w1) \<Rightarrow> (Inr (outs @ new), w1))"
  by (induction sampler tpl cnt limit ts chunk tokens outs w rule: chunk_loop.induct)
    (auto split: prod.split sum.split)

lemma chunk_split_concat: "concat (chunk_split cnt limit ts chunk tokens) = chunk @ ts"
  by (induction cnt limit ts chunk tokens rule: chunk_split.induct) auto

lemma chunk_split_nonempty: "list_all (\<lambda>c. c \<noteq> []) (chunk_split cnt limit ts chunk tokens)"
  by (induction cnt limit ts chunk tokens rule: chunk_split.induct) auto

text \<open>A chunk is small when its tokens keep to the limit or it is a single item.\<close>

definition small_chunk :: "('a \<Rightarrow> u32) \<Rightarrow> u32 \<Rightarrow> 'a list \<Rightarrow> bool" where
  "small_chunk cnt limit c \<longleftrightarrow> length c = 1 \<or> sum_list (map (\<lambda>x. unat (cnt x)) c) \<le> unat limit"

lemma sat_add_fits:
  assumes "sat_add a b \<le> limit" "limit \<noteq> - 1"
  shows "unat (a + b) = unat a + unat b" "unat a + unat b \<le> unat limit"
proof -
  have "unat limit < 2 ^ 32 - 1"
    using assms(2) unat_u32_max [of limit] by (metis le_neq_implies_less unat_minus_one_u32 word_unat_eq_iff)
  moreover have "min (unat a + unat b) (2 ^ 32 - 1) \<le> unat limit" using assms(1) by (simp add: word_le_nat_alt unat_sat_add)
  ultimately have b: "unat a + unat b \<le> unat limit" "unat a + unat b < 2 ^ 32" by linarith+
  then show "unat (a + b) = unat a + unat b" "unat a + unat b \<le> unat limit" by (simp_all add: unat_word_ariths)
qed

lemma chunk_split_small:
  assumes "limit \<noteq> - 1" "unat tokens = sum_list (map (\<lambda>x. unat (cnt x)) chunk)" "chunk = [] \<or> small_chunk cnt limit chunk"
  shows "list_all (small_chunk cnt limit) (chunk_split cnt limit ts chunk tokens)"
  using assms
proof (induction cnt limit ts chunk tokens rule: chunk_split.induct)
  case (2 cnt limit t ts chunk tokens)
  show ?case
  proof (cases "chunk \<noteq> [] \<and> limit < sat_add tokens (cnt t)")
    case True
    then show ?thesis using 2 by (auto simp: small_chunk_def)
  next
    case False
    then consider "chunk = []" | "sat_add tokens (cnt t) \<le> limit" by force
    then have "unat (tokens + cnt t) = sum_list (map (\<lambda>x. unat (cnt x)) (chunk @ [t])) \<and> small_chunk cnt limit (chunk @ [t])"
    proof cases
      case 1
      with "2.prems"(2) have "tokens = 0" by (simp add: unat_eq_0)
      with 1 show ?thesis by (simp add: small_chunk_def)
    next
      case 2
      with sat_add_fits [OF 2 "2.prems"(1)] "2.prems"(2) show ?thesis by (simp add: small_chunk_def)
    qed
    then show ?thesis using 2 False by auto
  qed
qed auto

text \<open>C36. The pass between turns sends the model chunks that make up what is to be summarised, in order and without
  loss, none of them empty, and no call is made after one that failed. Without a limit there is at most one chunk;
  with one, a chunk keeps to it or is a single item. The text that comes out begins with the queries of the user.\<close>

theorem chunks_cover_conversation:
  "strategy config \<noteq> FullReplaceStrategy \<Longrightarrow> filter_turns_for_inter_compaction ops ts \<noteq> [] \<Longrightarrow>
   \<exists>cs. concat cs = turns_for_llm (separate_prior_user_queries ops (filter_turns_for_inter_compaction ops ts))
     \<and> list_all (\<lambda>c. c \<noteq> []) cs
     \<and> (if strategy config = Basic \<or> dnc_chunk_token_limit config = - 1 then length cs \<le> 1
        else list_all (small_chunk cnt (dnc_chunk_token_limit config)) cs)
     \<and> sample_compaction_chunked ops cnt tpl sampler config ts current w =
        (case sample_each (\<lambda>v c. flush_chunk sampler tpl c v) cs w of
           (Inl e, w1) \<Rightarrow> (Inl e, w1)
         | (Inr outs, w1) \<Rightarrow>
             (Inr (combine_chunks (separate_prior_user_queries ops (filter_turns_for_inter_compaction ops ts)) current outs), w1))"
proof -
  assume c: "strategy config \<noteq> FullReplaceStrategy" "filter_turns_for_inter_compaction ops ts \<noteq> []"
  let ?sep = "separate_prior_user_queries ops (filter_turns_for_inter_compaction ops ts)"
  let ?limit = "if strategy config = Basic then - 1 else dnc_chunk_token_limit config"
  let ?cs = "chunk_split cnt ?limit (turns_for_llm ?sep) [] 0"
  have one: "length (chunk_split cnt (- 1) us b n) \<le> 1" for us b and n :: u32
    by (induction us arbitrary: b n) auto
  have "if strategy config = Basic \<or> dnc_chunk_token_limit config = - 1 then length ?cs \<le> 1
        else list_all (small_chunk cnt (dnc_chunk_token_limit config)) ?cs"
    using one [of "turns_for_llm ?sep" "[]" 0] chunk_split_small [of "dnc_chunk_token_limit config" 0 cnt "[]" "turns_for_llm ?sep"]
    by auto
  moreover have "sample_compaction_chunked ops cnt tpl sampler config ts current w =
        (case sample_each (\<lambda>v c. flush_chunk sampler tpl c v) ?cs w of
           (Inl e, w1) \<Rightarrow> (Inl e, w1) | (Inr outs, w1) \<Rightarrow> (Inr (combine_chunks ?sep current outs), w1))"
    using c by (simp add: sample_compaction_chunked_def Let_def chunk_loop_split split: prod.split sum.split)
  ultimately show ?thesis
    using chunk_split_concat [of cnt ?limit "turns_for_llm ?sep" "[]" 0] chunk_split_nonempty [of cnt ?limit "turns_for_llm ?sep" "[]" 0]
    by (intro exI [of _ ?cs]) auto
qed

section \<open>The share that is left\<close>

lemma f64_of_nat_exact: "n < 2 ^ 32 \<Longrightarrow> f64_of_nat n = of_nat n"
proof (cases "n = 0")
  case False
  assume n: "n < 2 ^ 32"
  let ?x = "of_nat n :: rat"
  have x: "0 < ?x" "1 \<le> ?x" using False by simp_all
  have lo: "2 powi ilog2 ?x \<le> ?x" by (rule ilog2_bounds(1) [OF x(1)])
  have "?x < of_nat (2 ^ 32)" using n by (simp only: of_nat_less_iff)
  then have "(2 :: rat) powi ilog2 ?x < 2 powi 32" using lo by simp
  then have e1: "ilog2 ?x < 32" by (metis linorder_not_less powi2_mono)
  have "2 powi 0 < (2 :: rat) powi (ilog2 ?x + 1)" using ilog2_bounds(2) [OF x(1)] x(2) by simp
  then have e0: "0 \<le> ilog2 ?x" using powi2_mono [of "ilog2 ?x + 1" 0] by linarith
  have e: "f64_exp ?x = ilog2 ?x" using e0 by (simp add: f64_exp_def)
  obtain k :: nat where k: "52 - ilog2 ?x = int k" using e1 nonneg_int_cases [of "52 - ilog2 ?x"] by auto
  have "?x / f64_ulp ?x = ?x * 2 powi (- (f64_exp ?x - 52))" by (simp only: f64_ulp_def power_int_minus divide_inverse)
  also have "- (f64_exp ?x - 52) = int k" using k e by simp
  finally have "?x / f64_ulp ?x = of_int (int n * 2 ^ k)" by simp
  from f64_rnd_int_multiple [OF this] show ?thesis by (simp add: f64_of_nat_def)
qed (simp add: f64_of_nat_def)

text \<open>With a ratio of at most one a compaction never grows the conversation.\<close>

lemma reduction_limit_le:
  assumes "max_reduction_ratio policy \<le> 1"
  shows "reduction_limit policy before \<le> before"
proof -
  have n: "f64_of_nat (unat before) = of_nat (unat before)"
    using unat_u32_max [of before] by (intro f64_of_nat_exact) simp
  let ?m = "f64_mul (f64_of_nat (unat before)) (max_reduction_ratio policy)"
  have "f64_of_nat (unat before) * max_reduction_ratio policy \<le> f64_of_nat (unat before)"
    unfolding n using mult_left_mono [OF assms of_nat_0_le_iff [of "unat before"]] by (simp only: mult_1_right)
  then have "?m \<le> f64_of_nat (unat before)" unfolding f64_mul_def by (intro f64.rnd_le) simp_all
  then have "nat \<lfloor>?m\<rfloor> \<le> unat before" by (simp add: n floor_le_iff le_floor_iff nat_le_iff)
  then show ?thesis
    by (auto simp: reduction_limit_def f64_to_u32_def word_le_nat_alt unat_of_nat min_def)
qed

section \<open>Examples\<close>

definition ex_templates :: prompt_templates where
  "ex_templates = \<lparr>steps_prompt = \<lparr>cp_system = ''s'', cp_user = ''u''\<rparr>, developer_prompt = ''d'', user_prompt = ''d'', summary_template = ''t''\<rparr>"

text \<open>A stream processor that keeps its history and its steps as lists.\<close>

definition ex_proc :: "('a, 'a list \<times> 'a list) stream_proc" where
  "ex_proc = \<lparr>get_accumulated_turns = snd, get_history_turns = fst,
     replace_with_compaction = \<lambda>target n item s.
       (case target of
          TargetSteps \<Rightarrow> if length (snd s) < n then (Inl (InvalidSplit n (length (snd s))), s) else (Inr (), (fst s, item # drop n (snd s)))
        | TargetHistory \<Rightarrow> if length (fst s) < n then (Inl (InvalidSplit n (length (fst s))), s) else (Inr (), (item # drop n (fst s), snd s))
        | TargetFullReplace \<Rightarrow> (Inr (), ([item], [])))\<rparr>"

text \<open>A model that answers the first call and refuses the second.\<close>

definition ex_sampler :: "(compaction_role \<times> string, nat) sampler" where
  "ex_sampler = (\<lambda>w ts prompt. (if w = 0 then Inr \<lparr>response = ''s'', thinking = []\<rparr> else Inl (SBuild ''no''), Suc w))"

definition ex_steps_policy :: intra_config where
  "ex_steps_policy = ex_policy\<lparr>ic_mode := HistoryThenSteps, ic_summarizer := Legacy, min_compactable_tokens := 1,
     max_reduction_ratio := 1, steps_trigger_ratio := 1\<rparr>"

definition ex_len :: "compaction_role \<times> string \<Rightarrow> u32" where
  "ex_len x = of_nat (length (snd x))"

definition ex_turns :: "(compaction_role \<times> string) list" where
  "ex_turns = [(CAssistant, ''aaaa''), (CAssistant, ''b'')]"

lemma whole_ratio: "n < 2 ^ 32 \<Longrightarrow> f64_mul (f64_of_nat n) 1 = of_nat n"
  by (simp add: f64_mul_def f64_of_nat_exact [symmetric])

lemma ex_select:
  "select_turns_to_compact ex_ops [4, 1] ex_turns 2 1 = Some \<lparr>split_idx = 1, tokens_to_compact = 4\<rparr>"
  by (simp add: select_turns_to_compact_def ex_turns_def ex_ops_def sat_add_def snap_to_safe_boundary_def is_tool_result_def)

lemmas ex_pass_defs = compact_one_pass_def ex_proc_def ex_steps_policy_def ex_policy_def ex_len_def ex_sampler_def ex_ops_def
  separate_prior_user_queries_def assemble_user_queries_preamble_def extract_user_queries_from_turns_def has_query_def
  sample_compaction_with_retries_def commit_summary_def reduction_limit_def whole_ratio f64_to_u32_def

text \<open>The history has been replaced although the compaction as a whole reports an error.\<close>

lemma history_committed_despite_error:
  "apply_intra_compaction ex_ops ex_len ex_templates ex_proc ex_sampler ex_steps_policy
     \<lparr>last_prompt_tokens = 9, context_window = 4, percent = 100, trigger_step = 5\<rparr> None None (ex_turns, ex_turns) 0 =
   (Inl (SamplerBuild ''no''), ([(CDeveloper, ''s''), (CAssistant, ''b'')], ex_turns), 2)"
proof -
  let ?trigger = "\<lparr>last_prompt_tokens = 9, context_window = 4, percent = 100, trigger_step = 5\<rparr> :: intra_trigger"
  have c: "map ex_len ex_turns = [4, 1]" by (simp add: ex_len_def ex_turns_def)
  have two: "Suc (Suc 0) = 2" by simp
  have h: "compact_one_pass ex_ops ex_len ex_templates ex_proc ex_sampler ex_steps_policy ?trigger True (ex_turns, ex_turns) 0 =
      (Inr \<lparr>ir_tokens_before = 4, ir_tokens_after = 1, ir_turns_compacted = 1, ir_summary = ''s''\<rparr>,
       ([(CDeveloper, ''s''), (CAssistant, ''b'')], ex_turns), 1)"
    using ex_select c by (simp add: ex_pass_defs Let_def) (simp add: ex_turns_def has_query_def)
  have q: "compact_one_pass ex_ops ex_len ex_templates ex_proc ex_sampler ex_steps_policy ?trigger False
        ([(CDeveloper, ''s''), (CAssistant, ''b'')], ex_turns) 1 =
      (Inl (SamplerBuild ''no''), ([(CDeveloper, ''s''), (CAssistant, ''b'')], ex_turns), 2)"
    using ex_select c by (simp add: ex_pass_defs Let_def) (simp add: ex_turns_def has_query_def)
  have m: "ic_mode ex_steps_policy = HistoryThenSteps" by (simp add: ex_steps_policy_def)
  have t: "f64_ceil_u64 (f64_mul (f64_of_nat (unat (u64_tokens ex_len [(CDeveloper, ''s''), (CAssistant, ''b'')]))) (steps_trigger_ratio ex_steps_policy))
      < u64_tokens ex_len ex_turns"
    by (simp add: u64_tokens_def ex_len_def ex_turns_def ex_steps_policy_def whole_ratio f64_ceil_u64_def)
  have g: "get_accumulated_turns ex_proc s = snd s" "get_history_turns ex_proc s = fst s" for s :: "(compaction_role \<times> string) list \<times> (compaction_role \<times> string) list"
    by (simp_all add: ex_proc_def)
  show ?thesis using t by (simp add: apply_intra_compaction_def apply_history_then_steps_def m h q [unfolded One_nat_def] g Let_def)
qed

theorem chunks_cover_conversation_witness:
  "let config = \<lparr>inter_model_name = ''m'', inter_timeout_secs = 1, strategy = DivideAndConquer, dnc_chunk_token_limit = 4,
        user_message_compact_threshold = 3000\<rparr> in
   \<exists>cs. concat cs = ex_turns \<and> list_all (small_chunk ex_len 4) cs
     \<and> fst (sample_compaction_chunked ex_ops ex_len ex_templates ex_sampler config ex_turns None 0) = Inl (SBuild ''no'')"
proof -
  let ?config = "\<lparr>inter_model_name = ''m'', inter_timeout_secs = 1, strategy = DivideAndConquer, dnc_chunk_token_limit = 4,
        user_message_compact_threshold = 3000\<rparr> :: inter_config"
  have f: "filter_turns_for_inter_compaction ex_ops ex_turns = ex_turns"
    "turns_for_llm (separate_prior_user_queries ex_ops ex_turns) = ex_turns" by code_simp+
  have r: "fst (sample_compaction_chunked ex_ops ex_len ex_templates ex_sampler ?config ex_turns None 0) = Inl (SBuild ''no'')"
    by (simp add: sample_compaction_chunked_def f Let_def) (simp add: ex_turns_def ex_len_def ex_sampler_def flush_chunk_def sat_add_def)
  have "(4 :: u32) \<noteq> - 1" by simp
  with chunks_cover_conversation [of ?config ex_ops ex_turns ex_len ex_templates ex_sampler None 0] f r
  show ?thesis by (auto simp: ex_turns_def)
qed

end
