(* ===== verification/Spec2Isabelle.thy ===== *)
theory Spec2Isabelle
  imports Pipeline Breaker Streaming Diff_Roundtrip File_Filter Task_Manager Builtin_Tools Providers Sub_Agents Compaction
begin

text \<open>
  Sentinel Agent: a verification development for the agent core.

  The program. Sentinel is a coding agent written in Rust. A user request starts a loop
  (\<open>sentinel-core/src/agent.rs\<close>): the model is asked, its answer is vetted, the tool calls in
  it are authorised and run, their results go back into the message window, and the loop asks
  again until the model answers with plain text, a limit is reached or a guard stops the run.
  Around the loop stand the budget guard, the message window, the transcript, the thread record,
  the approval gates and policy engines, the plugin hooks, the sandbox, the snapshots that make
  edits undoable, the staged pipeline, the streaming variant of the loop, the router that picks a
  model provider, the clients of the providers, the sub-agents, the patch engine behind the edit tools, the circuit breaker of the shared
  client code and the compaction of long conversations.

  \<^bold>\<open>Theories and the code they model\<close> (paths below \<open>src/crates/\<close>)

  \<^item> \<open>Prelude\<close>: integer widths, strings as lists of UTF-8 bytes, the functions of the standard library
    that the code calls, the collections \<open>inv_intros\<close> and \<open>thread_simps\<close>. \<open>F64\<close>: binary64
    arithmetic on rationals with rounding to nearest even, behind the locale \<open>rounding\<close>.
  \<^item> \<open>Protocol\<close>: \<open>core/sentinel-protocol\<close> (messages, requests, responses, stream chunks) and the
    provider errors. \<open>Tools\<close>: \<open>tools-and-exec/sentinel-tools\<close> \<open>tool.rs\<close> and \<open>registry.rs\<close>.
  \<^item> \<open>Budget\<close>: \<open>cost.rs\<close> and \<open>budget.rs\<close>. \<open>Context\<close>: \<open>context.rs\<close>. \<open>Conversation\<close>:
    \<open>conversation.rs\<close>. \<open>Thread\<close>: \<open>thread.rs\<close>, including the doom-loop detector and the checkpoints.
  \<^item> \<open>Approval\<close>: \<open>approval.rs\<close>, the policy engines of \<open>event_bus.rs\<close>, the interactive gate of
    \<open>interfaces/sentinel-cli/src/approval.rs\<close>. \<open>Plugins\<close>: \<open>sentinel-plugin-system\<close>.
  \<^item> \<open>Filesystem\<close>: the tree of directories and files that \<open>std::fs\<close> calls act on, behind the locale
    \<open>file_store\<close>. \<open>Links\<close>: the same disk with symbolic links and the path resolution that follows them, on which the
    patch engine runs. \<open>Sandbox\<close>: \<open>sandbox.rs\<close>. \<open>Snapshot\<close>: \<open>snapshot.rs\<close>, \<open>checkpoint.rs\<close> and the undo
    tool. \<open>Diff_Capture\<close>: \<open>diff_capture.rs\<close>. \<open>Memory_File\<close>: \<open>memory_file.rs\<close>.
  \<^item> \<open>Batch\<close>: \<open>execute_tools_concurrent\<close> of \<open>agent.rs\<close>, the concurrent run of one answer's tool calls.
    \<open>Agent_State\<close>: what the loops share. \<open>Agent\<close>: \<open>run_with_approval_with_system\<close> and everything it
    calls. \<open>Streaming\<close>: \<open>run_streaming\<close> and \<open>run_stream\<close>. \<open>Pipeline\<close>: \<open>pipeline.rs\<close>.
  \<^item> \<open>Sliding_Window\<close> and \<open>Breaker\<close>: \<open>common/sentinel-circuit-breaker\<close>.
  \<^item> \<open>Directory_Walk\<close>: the recursive walk below a directory that snapshots and searches share.
    \<open>Patch\<close> and \<open>Patch_Commit\<close>: \<open>core/sentinel-ai-core/src/apply_patch.rs\<close>, its text side (parsing,
    fuzzy location, application of hunks) and its disk side (the two stages of the boundary check, plan, dry run, commit by
    temporary file and rename). \<open>Unified_Diff\<close>: \<open>diff.rs\<close> of the same crate; \<open>Diff_Roundtrip\<close> relates the two.
  \<^item> \<open>File_Filter\<close>: \<open>sentinel-tools/src/filter.rs\<close> and the \<open>grep\<close> tool. \<open>Builtin_Tools\<close>: the tools of
    \<open>builtin.rs\<close> that read and write files. \<open>Task_Manager\<close>: \<open>task.rs\<close>, background commands as an
    interleaved step system in which a runner starts, polls, settles its outcome and reports it in separate steps.
  \<^item> \<open>Router\<close>: \<open>platform/sentinel-provider\<close> \<open>fallback.rs\<close>, \<open>router.rs\<close> and \<open>switcher.rs\<close>. Of the same crate,
    \<open>Event_Stream\<close>: the loop that cuts a response into events (\<open>route/framing.rs\<close> and its copies); \<open>Openai\<close>:
    \<open>openai.rs\<close> and \<open>local.rs\<close>; \<open>Anthropic\<close>: \<open>anthropic.rs\<close>; \<open>Google\<close>: \<open>google.rs\<close>. \<open>Providers\<close> puts the clients
    under the agent loops and the router.
  \<^item> \<open>Sub_Agents\<close>: \<open>sub_agent.rs\<close> and \<open>sub_agent_tool.rs\<close>.
  \<^item> The compaction of long conversations, \<open>common/sentinel-ai-compaction\<close>: \<open>Compaction_Select\<close> (where to cut:
    \<open>select.rs\<close>, \<open>item.rs\<close>), \<open>Compaction_Fit\<close> (what the summarizer gets, and when: \<open>intra_compaction/fit.rs\<close>,
    \<open>trigger.rs\<close>, \<open>config.rs\<close>), \<open>Compaction_Text\<close> (the queries of the user: \<open>history\<close>), \<open>Compaction_Summary\<close> (the
    cleaned summary, the classes of failures, the reminder: \<open>code_compaction/summary.rs\<close>, \<open>failure.rs\<close>,
    \<open>reminder.rs\<close>) and \<open>Compaction\<close> (sampling with retries and the passes: \<open>sample.rs\<close>, the three \<open>compact.rs\<close>,
    \<open>assemble.rs\<close>). The items of a conversation, the token counter, the sampler and the stream processor are
    records of functions or functions on a world, as the traits of the crate; the texts of the prompts are a parameter.

  \<^bold>\<open>Interfaces.\<close> What one component relies on in another is a locale, interpreted on the model's own
  definitions: \<open>rounding\<close> (\<open>F64\<close>), \<open>file_store\<close> and \<open>renaming_store\<close> (\<open>Filesystem\<close>, for the snapshots, the
  memory file and the commit of a patch), \<open>counted_loop\<close> (the three agent loops), \<open>guarded_system\<close> (step
  systems whose invariant holds under a guard, for the task table), \<open>chunked_reader\<close> (readers that do not see
  where the bytes are cut) and \<open>result_channel\<close> (encodings from which the tool results can be read off, for
  the three wire formats).


  \<^bold>\<open>State and operations.\<close> Each struct is a \<open>record\<close>, each enum a \<open>datatype\<close>, each method a
  function from the old state to the new one, and a fallible method returns a sum with the error on
  the left. Words keep their width, so \<open>+\<close> wraps as it does in a release build. The agent loop runs
  on \<open>agent_state\<close>: the thread, the world \<open>'w\<close> that tools, gates and processes act on, the count of fix
  cycles and a log of what happened in order (model calls, events, batches). The code outside the
  repository is a parameter in \<open>agent_env\<close> and \<open>batch_env\<close>: the provider, the gate, the policy, the
  hooks, the plugins, the compressor, the upload, the clock, and the tools themselves are functions on
  the world, and the theorems hold for all of them.

  \<^bold>\<open>What the lemmas show.\<close>
  \<^item> Authority: a tool starts only after the plugins, the policy and the gate have let this very call
    pass, in a batch and over a whole run; a rejected, truncated or malformed answer runs nothing; a
    spent budget runs nothing; a denying plugin ends the run.
  \<^item> Bookkeeping: every call of a batch is answered once, in order and under its id; window, transcript
    and thread counters keep their invariants; spend and exhaustion flag agree.
  \<^item> Termination: all three loops are instances of the locale \<open>counted_loop\<close>, whose measure is the
    number of iterations (or tool rounds) the thread has left, and the number of model calls is bounded.
  \<^item> Reversal: undo restores exactly what a batch changed; a failed pipeline stage is rolled back.
  \<^item> Confinement: a sandboxed path stays below its root, and which paths do not.
  \<^item> The breaker: the window refines the list of all samples cut at its bounds; the state machine keeps
    its invariant under whole operations, sheds load and recovers. A second step system interleaves the single atomic
    accesses of any number of threads that check and record (a thread alone does what the operation does): the
    probe bound holds between two resets of the counter, and the counter can wrap across one.
  \<^item> Patches and diffs: an applied patch is its plan and is predicted by the dry run; it changes nothing outside
    the canonical root as long as each path it names exists or has no link on its way, or when the links below the root stay
    below it, and a new file below a link that leads out is created outside; hunks are applied at disjoint matching places; a generated diff, parsed and applied, gives the new
    text, and the alignment behind it is a longest common subsequence. Composed with the sandbox, a patch
    tool call leaves everything outside the sandbox alone when the links below its base directory stay below it.
  \<^item> Tools: the preview an approver sees is the change that is made when the tool finds the file as the preview did; a search reports exactly the visible
    matching lines; the glob table and the edit distance agree with their textbook definitions.
  \<^item> Tasks: under any interleaving of spawns, kills and polls the table is well-formed, results are final
    and an accepted kill takes effect unless the outcome was already settled; a wait returns.
  \<^item> The router asks its providers in order and within its attempts, also below the retries of the agent.
  \<^item> The clients: the events of a stream do not depend on the cuts of the network, each payload is delivered
    once and in order, an answer sent back is read as the same answer, the results of a batch reach the
    model in every wire format, and which statuses are retried; streamed answers of two clients never run
    a tool. Sub-agents: what watches over them and what does not.
  \<^item> Compaction: a cut is the earliest that fits and never parts a tool result from its request; the ladder of
    fitting takes the first stage that is enough and keeps to the budget; queries of the user that do not contain
    the closing tag survive any number of rounds; a cleaned summary has no control tokens; sampling repeats exactly the
    failures that may pass, within its attempts; chunks make up the conversation; a pass commits all or nothing. Sums of token
    counts saturate or wrap at 32 bits as in the code.

  \<^bold>\<open>Fuel and bounds.\<close> The loops are total functions with a termination proof. The theorem on the main
  loop also runs it on \<open>fuel_loop\<close>, with one unit more than the iterations left, and shows that this much
  returns the result. A concurrent batch lets a scheduler in the environment run the spawned calls at every await
  of the submitting loop and, in the joining loop, in any order; a spawned call runs as one step.

  \<^bold>\<open>Abstractions.\<close> Timestamps, UUIDs, tracing and waiting times are left out where nothing depends on
  them. JSON, TOML and SQL encodings are parameters. \<open>f64\<close> has no NaN and no infinities. A string is the
  list of its UTF-8 bytes, and \<open>chars()\<close> cuts it into characters. The file system has no
  permissions and no disk errors, and follows Unix path rules; it has symbolic links only where the patch engine acts on it
  (\<open>Links\<close>, \<open>Patch_Commit\<close>, the patch tool of \<open>Builtin_Tools\<close>), elsewhere it has none. A stream is the finite list of its
  chunks. Atomics are sequentially consistent.

  \<^bold>\<open>Not modelled.\<close>
  \<^item> The stores of events and threads (JSON lines, SQLite), the HTTP upload, the prompt texts, titles and
    logging of \<open>sentinel-core\<close>: input and output around the loops, which see them as parameters.
  \<^item> The HTTP exchange and the decoders of \<open>serde_json\<close> behind the clients of \<open>sentinel-provider\<close>, their
    constructors and headers, and the configuration files: network and file formats.
  \<^item> \<open>sentinel-exec\<close>, \<open>sentinel-mcp\<close>, the terminal front ends, the proxy, analytics and identity
    services: process, network and terminal input and output.
  \<^item> The crates below \<open>codegen/\<close> and the transport and tool libraries below \<open>common/\<close> (all but the breaker and
    the compaction): a second product line that the agent of \<open>sentinel-core\<close> does not call.
  \<^item> The copy of the workspace that a local sandbox makes, and its removal.
\<close>

end
